(* ===== verification/Uco_Prelude.thy ===== *)
theory Uco_Prelude
  imports Main "HOL-Library.Word" "HOL-Library.Char_ord" "HOL-Library.List_Lexorder"
begin

text \<open>
  Shared vocabulary of the development: byte strings, decimal numbers as
  \<open>std::to_string\<close> prints them and \<open>std::from_chars\<close> reads them, searching in
  strings, and the generic list lemmas the components use.

  A C++ \<open>std::string\<close> is a list of bytes; a byte is an Isabelle \<^typ>\<open>char\<close>, whose
  value as \<open>unsigned char\<close> is \<open>of_char c\<close>. Sizes are natural numbers.
\<close>

unbundle bit_operations_syntax

named_theorems str_simps \<open>rewrite rules for string searches and hex digits\<close>
named_theorems dec_simps \<open>rewrite rules for decimal printing and reading\<close>

section \<open>Bytes and limits\<close>

abbreviation byte :: "char \<Rightarrow> nat" where
  "byte c \<equiv> of_char c"

abbreviation chr :: "nat \<Rightarrow> char" where
  "chr n \<equiv> char_of n"

abbreviation CR :: char where "CR \<equiv> CHR 0x0D"
abbreviation LF :: char where "LF \<equiv> CHR 0x0A"
abbreviation NUL :: char where "NUL \<equiv> CHR 0x00"
abbreviation TAB :: char where "TAB \<equiv> CHR 0x09"

abbreviation int32_min :: int where "int32_min \<equiv> - (2 ^ 31)"
abbreviation int32_max :: int where "int32_max \<equiv> 2 ^ 31 - 1"
abbreviation int64_min :: int where "int64_min \<equiv> - (2 ^ 63)"
abbreviation int64_max :: int where "int64_max \<equiv> 2 ^ 63 - 1"
abbreviation uint32_max :: int where "uint32_max \<equiv> 2 ^ 32 - 1"
abbreviation uint64_max :: int where "uint64_max \<equiv> 2 ^ 64 - 1"

text \<open>\<open>uco_time_t\<close>: seconds and nanoseconds (\<open>core/uio.h\<close>).\<close>

type_synonym uco_time = "int \<times> int"

definition total_ns :: "uco_time \<Rightarrow> int" where
  "total_ns ts = fst ts * 1000000000 + snd ts"

lemma byte_less_256: "byte c < 256"
  by simp

section \<open>Searching\<close>

text \<open>\<open>s.find(c)\<close>: the index of the first occurrence, \<open>None\<close> for \<open>npos\<close>.\<close>

fun find_char :: "char \<Rightarrow> string \<Rightarrow> nat option" where
  "find_char c [] = None"
| "find_char c (x # xs) = (if x = c then Some 0 else map_option Suc (find_char c xs))"

text \<open>\<open>s.find(p)\<close> for a string \<open>p\<close>.\<close>

fun find_sub :: "string \<Rightarrow> string \<Rightarrow> nat option" where
  "find_sub p [] = (if p = [] then Some 0 else None)"
| "find_sub p (x # xs) =
     (if take (length p) (x # xs) = p then Some 0 else map_option Suc (find_sub p xs))"

lemma find_char_None [str_simps]: "find_char c s = None \<longleftrightarrow> c \<notin> set s"
  by (induction s) auto

lemma find_char_SomeD:
  "find_char c s = Some i \<Longrightarrow> i < length s \<and> s ! i = c \<and> c \<notin> set (take i s)"
  by (induction s arbitrary: i) (auto split: if_splits)

lemma find_char_split:
  "find_char c s = Some i \<Longrightarrow> s = take i s @ c # drop (Suc i) s"
  by (metis find_char_SomeD id_take_nth_drop)

lemma find_char_length: "find_char c s = Some i \<Longrightarrow> i < length s"
  by (simp add: find_char_SomeD)

lemma find_char_append [str_simps]:
  "c \<notin> set xs \<Longrightarrow> find_char c (xs @ c # ys) = Some (length xs)"
  by (induction xs) auto

lemma find_sub_SomeD:
  "find_sub p s = Some i \<Longrightarrow> i + length p \<le> length s \<and> take (length p) (drop i s) = p"
proof (induction s arbitrary: i)
  case Nil
  then show ?case by (auto split: if_splits)
next
  case (Cons x xs)
  show ?case
  proof (cases "take (length p) (x # xs) = p")
    case True
    with Cons.prems have "i = 0" by auto
    moreover from True have "length p \<le> length (x # xs)"
      by (metis length_take min.cobounded1)
    ultimately show ?thesis using True by simp
  next
    case False
    with Cons.prems obtain j where "i = Suc j" "find_sub p xs = Some j" by auto
    with Cons.IH show ?thesis by auto
  qed
qed

lemma find_sub_split:
  "find_sub p s = Some i \<Longrightarrow> s = take i s @ p @ drop (i + length p) s"
  by (metis add.commute append_take_drop_id drop_drop find_sub_SomeD)

lemma find_sub_shorter:
  "find_sub p s = Some i \<Longrightarrow> p \<noteq> [] \<Longrightarrow> length s - (i + length p) < length s"
proof -
  assume "find_sub p s = Some i" "p \<noteq> []"
  then have "i + length p \<le> length s" "0 < length p" by (auto dest: find_sub_SomeD)
  then show ?thesis by linarith
qed

section \<open>Decimal digits\<close>

definition is_digit :: "char \<Rightarrow> bool" where
  "is_digit c \<longleftrightarrow> 48 \<le> byte c \<and> byte c \<le> 57"

definition digit_chr :: "nat \<Rightarrow> char" where
  "digit_chr d = chr (48 + d)"

definition digit_val :: "char \<Rightarrow> nat" where
  "digit_val c = byte c - 48"

text \<open>\<open>std::to_string\<close> on unsigned and on signed numbers.\<close>

fun nat_to_string :: "nat \<Rightarrow> string" where
  "nat_to_string n =
     (if n < 10 then [digit_chr n] else nat_to_string (n div 10) @ [digit_chr (n mod 10)])"

declare nat_to_string.simps [simp del]

definition int_to_string :: "int \<Rightarrow> string" where
  "int_to_string v = (if v < 0 then CHR ''-'' # nat_to_string (nat (- v)) else nat_to_string (nat v))"

text \<open>The value of a run of digits, most significant first.\<close>

definition dec_val :: "string \<Rightarrow> nat" where
  "dec_val ds = foldl (\<lambda>v c. v * 10 + digit_val c) 0 ds"

lemma byte_digit_chr: "d < 10 \<Longrightarrow> byte (digit_chr d) = 48 + d"
  by (simp add: digit_chr_def)

lemma is_digit_digit_chr [dec_simps]: "d < 10 \<Longrightarrow> is_digit (digit_chr d)"
  by (simp add: is_digit_def byte_digit_chr)

lemma digit_val_digit_chr [dec_simps]: "d < 10 \<Longrightarrow> digit_val (digit_chr d) = d"
  by (simp add: digit_val_def byte_digit_chr)

lemma dec_val_snoc [dec_simps]: "dec_val (ds @ [c]) = dec_val ds * 10 + digit_val c"
  by (simp add: dec_val_def)

lemma dec_val_Nil [dec_simps]: "dec_val [] = 0"
  by (simp add: dec_val_def)

lemma dec_val_single [dec_simps]: "dec_val [c] = digit_val c"
  by (simp add: dec_val_def)

lemma nat_to_string_ne [dec_simps]: "nat_to_string n \<noteq> []"
  by (subst nat_to_string.simps) simp

lemma nat_to_string_digits [dec_simps]: "c \<in> set (nat_to_string n) \<Longrightarrow> is_digit c"
proof (induction n rule: nat_to_string.induct)
  case (1 n)
  then show ?case
    by (subst (asm) (2) nat_to_string.simps) (auto simp: is_digit_digit_chr split: if_splits)
qed

lemma dec_val_nat_to_string [dec_simps]: "dec_val (nat_to_string n) = n"
proof (induction n rule: nat_to_string.induct)
  case (1 n)
  show ?case
  proof (cases "n < 10")
    case True
    then show ?thesis by (subst nat_to_string.simps) (simp add: dec_simps)
  next
    case False
    with "1.IH" show ?thesis by (subst nat_to_string.simps) (simp add: dec_simps)
  qed
qed

lemma nat_to_string_inj: "nat_to_string m = nat_to_string n \<Longrightarrow> m = n"
  by (metis dec_val_nat_to_string)

lemma minus_not_digit [simp]: "\<not> is_digit (CHR ''-'')"
  by (simp add: is_digit_def)

lemma minus_notin_nat_to_string: "CHR ''-'' \<notin> set (nat_to_string n)"
  using nat_to_string_digits minus_not_digit by blast

section \<open>\<open>std::from_chars\<close>\<close>

text \<open>
  \<open>std::from_chars(first, last, value, 10)\<close>: an optional minus sign (signed types only),
  then a non-empty run of digits. The result is the value and the rest of the input;
  \<open>None\<close> is an error (\<open>invalid_argument\<close> or \<open>result_out_of_range\<close>), which leaves the
  output variable as it was.
\<close>

definition from_chars :: "bool \<Rightarrow> int \<Rightarrow> int \<Rightarrow> string \<Rightarrow> (int \<times> string) option" where
  "from_chars sg lo hi s =
     (let neg = sg \<and> s \<noteq> [] \<and> hd s = CHR ''-'';
          t = (if neg then tl s else s);
          ds = takeWhile is_digit t;
          v = (if neg then - int (dec_val ds) else int (dec_val ds))
      in if ds \<noteq> [] \<and> lo \<le> v \<and> v \<le> hi then Some (v, dropWhile is_digit t) else None)"

lemma from_chars_range: "from_chars sg lo hi s = Some (v, r) \<Longrightarrow> lo \<le> v \<and> v \<le> hi"
  by (auto simp: from_chars_def Let_def split: if_splits)

lemma takeWhile_digits [dec_simps]:
  "takeWhile is_digit (nat_to_string n) = nat_to_string n"
  "dropWhile is_digit (nat_to_string n) = []"
  by (simp_all add: takeWhile_eq_all_conv dropWhile_eq_Nil_conv dec_simps)

lemma hd_nat_to_string: "hd (nat_to_string n) \<noteq> CHR ''-''"
  by (metis hd_in_set minus_notin_nat_to_string nat_to_string_ne)

lemma from_chars_nat_to_string:
  "lo \<le> int n \<Longrightarrow> int n \<le> hi \<Longrightarrow> from_chars sg lo hi (nat_to_string n) = Some (int n, [])"
  by (simp add: from_chars_def Let_def dec_simps hd_nat_to_string)

lemma from_chars_int_to_string:
  assumes "lo \<le> v" "v \<le> hi"
  shows "from_chars True lo hi (int_to_string v) = Some (v, [])"
proof (cases "v < 0")
  case True
  with assms show ?thesis
    by (simp add: from_chars_def Let_def int_to_string_def dec_simps)
next
  case False
  with assms show ?thesis
    by (simp add: int_to_string_def from_chars_nat_to_string)
qed

section \<open>\<open>std::getline\<close> with a delimiter\<close>

text \<open>
  The pieces \<open>while (getline(ss, piece, d))\<close> sees: the text between delimiters; an empty rest
  after a final delimiter is not a piece.
\<close>

function getlines :: "char \<Rightarrow> string \<Rightarrow> string list" where
  "getlines d s =
     (if s = [] then []
      else takeWhile (\<lambda>c. c \<noteq> d) s # getlines d (tl (dropWhile (\<lambda>c. c \<noteq> d) s)))"
  by pat_completeness auto
termination
proof (relation "measure (\<lambda>(d, s). length s)")
  fix d :: char and s :: string
  assume s: "s \<noteq> []"
  then have "length (tl (dropWhile (\<lambda>c. c \<noteq> d) s)) < length s"
    using length_dropWhile_le [of "\<lambda>c. c \<noteq> d" s] by (cases s) auto
  then show "((d, tl (dropWhile (\<lambda>c. c \<noteq> d) s)), (d, s)) \<in> measure (\<lambda>(d, s). length s)"
    by simp
qed simp

declare getlines.simps [simp del]

lemma getlines_Nil [simp]: "getlines d [] = []"
  by (simp add: getlines.simps)

lemma until_delim [str_simps]:
  "d \<notin> set s \<Longrightarrow> takeWhile (\<lambda>c. c \<noteq> d) (s @ d # r) = s"
  "d \<notin> set s \<Longrightarrow> dropWhile (\<lambda>c. c \<noteq> d) (s @ d # r) = d # r"
  by (induction s) auto

lemma no_delim [str_simps]:
  "d \<notin> set s \<Longrightarrow> takeWhile (\<lambda>c. c \<noteq> d) s = s"
  "d \<notin> set s \<Longrightarrow> dropWhile (\<lambda>c. c \<noteq> d) s = []"
  by (induction s) auto

lemma getlines_single: "d \<notin> set s \<Longrightarrow> s \<noteq> [] \<Longrightarrow> getlines d s = [s]"
  by (subst getlines.simps) (simp add: no_delim)

lemma getlines_cons: "d \<notin> set s \<Longrightarrow> getlines d (s @ d # r) = s # getlines d r"
  by (subst getlines.simps) (simp add: until_delim)

lemma getlines_free: "x \<in> set (getlines d s) \<Longrightarrow> d \<notin> set x"
proof (induction d s rule: getlines.induct)
  case (1 d s)
  then show ?case
    by (subst (asm) (2) getlines.simps) (auto split: if_splits dest: set_takeWhileD)
qed

section \<open>Counting agents\<close>

text \<open>How many agents of a machine are at certain places.\<close>

definition total :: "('a \<Rightarrow> nat) \<Rightarrow> 'a list \<Rightarrow> int" where
  "total f xs = (\<Sum>x\<leftarrow>xs. int (f x))"

lemma total_update:
  "i < length xs \<Longrightarrow> total f (xs[i := p]) = total f xs + int (f p) - int (f (xs ! i))"
proof (induction xs arbitrary: i)
  case (Cons x xs)
  then show ?case by (cases i) (force simp: total_def)+
qed simp

lemma total_nonneg: "0 \<le> total f xs"
  by (induction xs) (auto simp: total_def)

lemma total_ge: "i < length xs \<Longrightarrow> int (f (xs ! i)) \<le> total f xs"
proof (induction xs arbitrary: i)
  case (Cons x xs)
  then show ?case using total_nonneg [of f xs] by (cases i) (force simp: total_def)+
qed simp

lemma total_0: "total f xs = 0 \<longleftrightarrow> (\<forall>i < length xs. f (xs ! i) = 0)"
proof (induction xs)
  case (Cons x xs)
  have "total f (x # xs) = 0 \<longleftrightarrow> f x = 0 \<and> total f xs = 0"
    using total_nonneg [of f xs] by (auto simp: total_def)
  with Cons show ?case by (auto simp: nth_Cons split: nat.splits)
qed (simp add: total_def)

lemma total_replicate: "f p = 0 \<Longrightarrow> total f (replicate n p) = 0"
  by (simp add: total_def sum_list_replicate)

lemma total_two:
  "i < length xs \<Longrightarrow> j < length xs \<Longrightarrow> i \<noteq> j \<Longrightarrow> int (f (xs ! i)) + int (f (xs ! j)) \<le> total f xs"
proof (induction xs arbitrary: i j)
  case (Cons x xs)
  have c: "total f (x # xs) = int (f x) + total f xs" by (simp add: total_def)
  show ?case using Cons total_ge [of _ xs f]
    by (cases i; cases j) (auto simp: c intro: add_increasing)
qed simp

lemma total_le:
  assumes "\<And>x. f x \<le> 1"
  shows "total f xs \<le> int (length xs)"
proof (induction xs)
  case (Cons x xs)
  have "int (f x) \<le> 1" using assms [of x] by linarith
  with Cons show ?case by (simp add: total_def)
qed (simp add: total_def)

lemma total_pos: "0 < total f xs \<Longrightarrow> \<exists>i < length xs. f (xs ! i) \<noteq> 0"
  using total_0 [of f xs] by auto

lemma total_mono: "(\<And>p. f p \<le> g p) \<Longrightarrow> total f xs \<le> total g xs"
  unfolding total_def by (intro sum_list_mono) auto

end
