(* ===== verification/Uco_Buffer.thy ===== *)
theory Uco_Buffer
  imports Uco_Prelude
begin

text \<open>
  The I/O buffer of \<open>core/ubuffer.h\<close>: a vector of bytes with a read and a write position.
  Sizes are \<open>size_t\<close>; they stay below \<open>INT32_MAX\<close>, so they are natural numbers here and
  subtraction is used only where the invariant \<open>buf_ok\<close> keeps it from wrapping. A write
  that would pass the end of the vector (undefined behaviour in C++) is \<open>None\<close>.

  The abstract view of a buffer is its readable bytes, a queue: the locale \<open>byte_queue\<close>
  states the contract the HTTP code relies on, and the buffer interprets it.
\<close>

section \<open>State and operations\<close>

record buffer =
  m_VecBuffer :: "char list"
  m_iReadPosition :: nat
  m_iWritePosition :: nat

definition mk_buffer :: "nat \<Rightarrow> buffer" where
  "mk_buffer sz = \<lparr>m_VecBuffer = replicate sz NUL, m_iReadPosition = 0, m_iWritePosition = 0\<rparr>"

definition ReadableBytes :: "buffer \<Rightarrow> nat" where
  "ReadableBytes b = m_iWritePosition b - m_iReadPosition b"

definition WritableBytes :: "buffer \<Rightarrow> nat" where
  "WritableBytes b = length (m_VecBuffer b) - m_iWritePosition b"

definition Reset :: "buffer \<Rightarrow> buffer" where
  "Reset b = b\<lparr>m_VecBuffer := replicate (length (m_VecBuffer b)) NUL,
               m_iReadPosition := 0, m_iWritePosition := 0\<rparr>"

definition RetriveAll :: "buffer \<Rightarrow> buffer" where
  "RetriveAll b = Reset b"

definition Retrieve :: "nat \<Rightarrow> buffer \<Rightarrow> nat \<times> buffer" where
  "Retrieve nbytes b =
     (let readable = ReadableBytes b in
      if nbytes \<ge> readable then (readable, RetriveAll b)
      else (nbytes, b\<lparr>m_iReadPosition := m_iReadPosition b + nbytes\<rparr>))"

text \<open>\<open>pos\<close> is a pointer into the vector, given as an index.\<close>

definition RetrieveUntil :: "nat \<Rightarrow> buffer \<Rightarrow> buffer" where
  "RetrieveUntil pos b =
     (if pos > m_iReadPosition b \<and> pos < m_iWritePosition b
      then snd (Retrieve (pos - m_iReadPosition b) b) else b)"

definition Advance :: "nat \<Rightarrow> buffer \<Rightarrow> buffer" where
  "Advance nbytes b =
     (let writable = WritableBytes b in
      if nbytes \<ge> writable then b\<lparr>m_iWritePosition := length (m_VecBuffer b)\<rparr>
      else b\<lparr>m_iWritePosition := m_iWritePosition b + nbytes\<rparr>)"

text \<open>\<open>memmove\<close> of the readable bytes to the front; the bytes behind them stay.\<close>

definition Compact :: "buffer \<Rightarrow> buffer" where
  "Compact b =
     (let readable = ReadableBytes b in
      if readable = 0 then Reset b
      else b\<lparr>m_VecBuffer := take readable (drop (m_iReadPosition b) (m_VecBuffer b))
                               @ drop readable (m_VecBuffer b),
             m_iReadPosition := 0, m_iWritePosition := readable\<rparr>)"

definition buf_max :: nat where "buf_max = 2147483647" \<comment> \<open>\<open>INT32_MAX\<close>\<close>

definition resize_vec :: "nat \<Rightarrow> char list \<Rightarrow> char list" where
  "resize_vec n v = take n v @ replicate (n - length v) NUL"

definition M_ExtendBuffer :: "nat \<Rightarrow> buffer \<Rightarrow> buffer" where
  "M_ExtendBuffer len b =
     (let old_capacity = length (m_VecBuffer b);
          wanted = max (old_capacity + drop_bit 1 old_capacity) (old_capacity + len);
          new_capacity = (if wanted > buf_max then buf_max else wanted)
      in if m_iReadPosition b \<ge> len then Compact b
         else b\<lparr>m_VecBuffer := resize_vec new_capacity (m_VecBuffer b)\<rparr>)"

definition M_EnsureWritableBytes :: "nat \<Rightarrow> buffer \<Rightarrow> buffer" where
  "M_EnsureWritableBytes len b =
     (let writable = WritableBytes b in
      if writable < len then M_ExtendBuffer (len - writable) b else b)"

definition ExtendSize :: "nat \<Rightarrow> buffer \<Rightarrow> buffer" where
  "ExtendSize sz b = M_ExtendBuffer sz (Compact b)"

definition DoubleSize :: "buffer \<Rightarrow> buffer" where
  "DoubleSize b = ExtendSize (length (m_VecBuffer b)) b"

text \<open>Bytes written at the write position without moving it (\<open>std::copy\<close>, \<open>read(2)\<close>).\<close>

definition copy_in :: "char list \<Rightarrow> buffer \<Rightarrow> buffer" where
  "copy_in d b = b\<lparr>m_VecBuffer := take (m_iWritePosition b) (m_VecBuffer b) @ d
                       @ drop (m_iWritePosition b + length d) (m_VecBuffer b)\<rparr>"

definition Append :: "char list \<Rightarrow> buffer \<Rightarrow> buffer option" where
  "Append d b =
     (if d = [] then Some b
      else
        (let b1 = M_EnsureWritableBytes (length d) b in
         if length d > WritableBytes b1 then None
         else Some ((copy_in d b1)\<lparr>m_iWritePosition := m_iWritePosition b1 + length d\<rparr>)))"

section \<open>Invariant and contents\<close>

definition buf_ok :: "buffer \<Rightarrow> bool" where
  "buf_ok b \<longleftrightarrow> m_iReadPosition b \<le> m_iWritePosition b \<and> m_iWritePosition b \<le> length (m_VecBuffer b)"

definition contents :: "buffer \<Rightarrow> char list" where
  "contents b = take (ReadableBytes b) (drop (m_iReadPosition b) (m_VecBuffer b))"

lemmas buf_defs = buf_ok_def contents_def ReadableBytes_def WritableBytes_def

lemma length_contents: "buf_ok b \<Longrightarrow> length (contents b) = ReadableBytes b"
  by (simp add: buf_defs min_absorb2 diff_le_mono)

lemma contents_alt: "contents b = drop (m_iReadPosition b) (take (m_iWritePosition b) (m_VecBuffer b))"
  by (simp add: contents_def ReadableBytes_def drop_take)

lemma mk_buffer_ok [simp]: "buf_ok (mk_buffer n)" "contents (mk_buffer n) = []"
  by (simp_all add: buf_defs mk_buffer_def)

lemma Reset_ok [simp]: "buf_ok (Reset b)" "contents (Reset b) = []"
  "length (m_VecBuffer (Reset b)) = length (m_VecBuffer b)"
  by (simp_all add: buf_defs Reset_def)

lemma Retrieve_ok: "buf_ok b \<Longrightarrow> buf_ok (snd (Retrieve n b))"
  by (auto simp: Retrieve_def Let_def RetriveAll_def) (simp add: buf_defs)

lemma contents_Retrieve: "buf_ok b \<Longrightarrow> contents (snd (Retrieve n b)) = drop n (contents b)"
  by (auto simp: Retrieve_def Let_def RetriveAll_def contents_def ReadableBytes_def buf_ok_def
      Reset_def drop_take add.commute)

lemma fst_Retrieve: "fst (Retrieve n b) = min n (ReadableBytes b)"
  by (simp add: Retrieve_def Let_def)

lemma Compact_ok: "buf_ok b \<Longrightarrow> buf_ok (Compact b)"
  by (auto simp: Compact_def Let_def) (auto simp: buf_defs)

lemma contents_Compact: "buf_ok b \<Longrightarrow> contents (Compact b) = contents b"
  by (auto simp: Compact_def Let_def) (auto simp: buf_defs)

lemma length_Compact: "buf_ok b \<Longrightarrow> length (m_VecBuffer (Compact b)) = length (m_VecBuffer b)"
  by (auto simp: Compact_def Let_def) (auto simp: buf_defs)

lemma Compact_positions:
  "m_iReadPosition (Compact b) = 0" "m_iWritePosition (Compact b) = ReadableBytes b"
  by (auto simp: Compact_def Let_def Reset_def ReadableBytes_def)

lemma M_ExtendBuffer_ok:
  "buf_ok b \<Longrightarrow> m_iWritePosition b \<le> buf_max \<Longrightarrow> buf_ok (M_ExtendBuffer n b)"
  by (auto simp: M_ExtendBuffer_def Let_def Compact_ok) (auto simp: buf_defs resize_vec_def)

lemma contents_M_ExtendBuffer:
  "buf_ok b \<Longrightarrow> m_iWritePosition b \<le> buf_max \<Longrightarrow> contents (M_ExtendBuffer n b) = contents b"
  by (auto simp: M_ExtendBuffer_def Let_def contents_Compact)
    (auto simp: buf_defs resize_vec_def drop_take min_def)

lemma Advance_ok: "buf_ok b \<Longrightarrow> buf_ok (Advance n b)"
  by (auto simp: Advance_def Let_def buf_defs)

text \<open>The free space after making room for \<open>n\<close> bytes, up to the capacity limit.\<close>

lemma M_EnsureWritableBytes_ok:
  assumes "buf_ok b" "m_iWritePosition b + n \<le> buf_max"
  shows "buf_ok (M_EnsureWritableBytes n b)"
    and "contents (M_EnsureWritableBytes n b) = contents b"
  using assms by (simp_all add: M_EnsureWritableBytes_def Let_def M_ExtendBuffer_ok
      contents_M_ExtendBuffer)

lemma M_EnsureWritableBytes_room:
  assumes "buf_ok b" "m_iWritePosition b + n \<le> buf_max"
  shows "n \<le> WritableBytes (M_EnsureWritableBytes n b)"
proof (cases "WritableBytes b < n")
  case True
  let ?d = "n - WritableBytes b"
  show ?thesis
  proof (cases "m_iReadPosition b \<ge> ?d")
    case True
    with assms \<open>WritableBytes b < n\<close> show ?thesis
      by (simp add: M_EnsureWritableBytes_def M_ExtendBuffer_def Let_def WritableBytes_def
          length_Compact Compact_positions ReadableBytes_def buf_ok_def)
  next
    case False
    with assms True show ?thesis
      by (auto simp: M_EnsureWritableBytes_def M_ExtendBuffer_def Let_def WritableBytes_def
          resize_vec_def buf_ok_def max_def)
  qed
qed (simp add: M_EnsureWritableBytes_def)

lemma copy_in_contents:
  assumes "buf_ok b" "length d \<le> WritableBytes b"
  shows "contents ((copy_in d b)\<lparr>m_iWritePosition := m_iWritePosition b + length d\<rparr>) = contents b @ d"
    and "buf_ok ((copy_in d b)\<lparr>m_iWritePosition := m_iWritePosition b + length d\<rparr>)"
proof -
  show "buf_ok ((copy_in d b)\<lparr>m_iWritePosition := m_iWritePosition b + length d\<rparr>)"
    using assms by (simp add: buf_defs copy_in_def)
  show "contents ((copy_in d b)\<lparr>m_iWritePosition := m_iWritePosition b + length d\<rparr>) = contents b @ d"
    using assms by (simp add: contents_alt copy_in_def buf_ok_def WritableBytes_def)
qed

lemma Append_ok:
  assumes "buf_ok b" "m_iWritePosition b + length d \<le> buf_max"
  shows "\<exists>b'. Append d b = Some b' \<and> buf_ok b' \<and> contents b' = contents b @ d"
  using assms M_EnsureWritableBytes_room [OF assms] M_EnsureWritableBytes_ok [OF assms]
    copy_in_contents [of "M_EnsureWritableBytes (length d) b" d]
  by (auto simp: Append_def Let_def)

lemma Append_read_zero: "Append d b = Some b' \<Longrightarrow> m_iReadPosition b = 0 \<Longrightarrow> m_iReadPosition b' = 0"
  by (auto simp: Append_def Let_def copy_in_def M_EnsureWritableBytes_def M_ExtendBuffer_def
      Compact_positions split: if_splits)

section \<open>The queue contract\<close>

text \<open>
  What the users of a byte buffer rely on: appending adds bytes at the back, retrieving
  takes them from the front, and neither loses anything in between.
\<close>

locale byte_queue =
  fixes ok :: "'q \<Rightarrow> bool"
    and view :: "'q \<Rightarrow> char list"
    and room :: "nat \<Rightarrow> 'q \<Rightarrow> bool"
    and put :: "char list \<Rightarrow> 'q \<Rightarrow> 'q option"
    and take_off :: "nat \<Rightarrow> 'q \<Rightarrow> 'q"
    and clear :: "'q \<Rightarrow> 'q"
  assumes put_view: "ok q \<Longrightarrow> room (length d) q \<Longrightarrow> \<exists>q'. put d q = Some q' \<and> ok q' \<and> view q' = view q @ d"
    and take_ok: "ok q \<Longrightarrow> ok (take_off n q)"
    and take_view: "ok q \<Longrightarrow> view (take_off n q) = drop n (view q)"
    and clear_ok: "ok (clear q)"
    and clear_view: "view (clear q) = []"
begin

lemma put_then_take:
  assumes "ok q" "room (length d) q" "view q = []"
  shows "\<exists>q'. put d q = Some q' \<and> view (take_off (length d) q') = [] \<and>
           take (length d) (view q') = d"
  using put_view [OF assms(1,2)] take_view assms(3) by fastforce

lemma put_put:
  assumes "ok q" "room (length d) q" "\<And>q'. put d q = Some q' \<Longrightarrow> room (length e) q'"
  shows "\<exists>q1 q2. put d q = Some q1 \<and> put e q1 = Some q2 \<and> ok q2 \<and> view q2 = view q @ d @ e"
proof -
  obtain q1 where q1: "put d q = Some q1" "ok q1" "view q1 = view q @ d"
    using put_view [OF assms(1,2)] by blast
  with put_view [OF q1(2) assms(3) [OF q1(1)]] show ?thesis by fastforce
qed

lemma take_take: "ok q \<Longrightarrow> view (take_off m (take_off n q)) = drop (n + m) (view q)"
  by (simp add: take_ok take_view add.commute)

end

interpretation bq: byte_queue buf_ok contents "\<lambda>n b. m_iWritePosition b + n \<le> buf_max"
  Append "\<lambda>n b. snd (Retrieve n b)" Reset
  by unfold_locales (auto simp: Append_ok Retrieve_ok contents_Retrieve)

end
