(* ===== verification/Uco_Strings.thy ===== *)
theory Uco_Strings
  imports Uco_Prelude
begin

text \<open>
  The string toolkit of \<open>core/ustring.cpp\<close>: hex digits, trimming, ASCII case, search,
  split and join, hex and URL codecs, and the checked integer readers. The C library's
  \<open>tolower\<close>, \<open>toupper\<close> and \<open>isalnum\<close> are those of the "C" locale, the one a C++
  program runs in unless it calls \<open>setlocale\<close>, which this program does not.
\<close>

section \<open>Hex digits\<close>

definition CharToHex :: "char \<Rightarrow> int" where
  "CharToHex c =
     (let v = int (byte c) in
      if 48 \<le> v \<and> v \<le> 57 then v - 48
      else if 97 \<le> v \<and> v \<le> 102 then v - 97 + 10
      else if 65 \<le> v \<and> v \<le> 70 then v - 65 + 10
      else -1)"

definition HexToChar :: "int \<Rightarrow> int" where
  "HexToChar v =
     (if 0 \<le> v \<and> v \<le> 9 then 48 + v
      else if 10 \<le> v \<and> v \<le> 15 then 97 + v - 10
      else -1)"

text \<open>The two digit tables of the file, and the byte \<open>(char)((hi << 4) | lo)\<close>.\<close>

definition kHexLower :: string where "kHexLower = ''0123456789abcdef''"
definition kHexUpper :: string where "kHexUpper = ''0123456789ABCDEF''"

definition hex_byte :: "int \<Rightarrow> int \<Rightarrow> char" where
  "hex_byte hi lo = chr (nat (push_bit 4 hi OR lo))"

definition hex_pair :: "string \<Rightarrow> char \<Rightarrow> string" where
  "hex_pair tbl c = [tbl ! drop_bit 4 (byte c), tbl ! (byte c AND 15)]"

lemma nibble_high: "drop_bit 4 (byte c) = byte c div 16"
  by (simp add: drop_bit_eq_div)

lemma nibble_low: "byte c AND 15 = byte c mod 16"
proof -
  have "byte c AND 15 = take_bit 4 (byte c)"
    by (subst take_bit_eq_mask) (simp add: mask_eq_exp_minus_1)
  then show ?thesis by (simp add: take_bit_eq_mod)
qed

lemma nibble_high_less: "byte c div 16 < 16"
  by (rule less_mult_imp_div_less) simp

lemma hex_byte_eq:
  assumes "0 \<le> lo" "lo < 16"
  shows "hex_byte hi lo = chr (nat (hi * 16 + lo))"
proof -
  have lo: "take_bit 4 lo = lo" using assms by (simp add: take_bit_eq_mod)
  have "n < 4" if "bit lo n" for n
    using that by (subst (asm) lo [symmetric]) (simp add: bit_take_bit_iff)
  then have "push_bit 4 hi OR lo = push_bit 4 hi + lo"
    by (intro disjunctive_add_eq_or [symmetric] bit_eqI) (fastforce simp: bit_and_iff bit_push_bit_iff)
  then show ?thesis by (simp add: hex_byte_def push_bit_eq_mult)
qed

lemma nat_nibbles: "nat (int (a div 16) * 16 + int (a mod 16)) = a"
  by (simp add: zdiv_int zmod_int)

lemma all_less_16:
  "(\<forall>k < 16. P (k::nat)) \<longleftrightarrow> P 0 \<and> P 1 \<and> P 2 \<and> P 3 \<and> P 4 \<and> P 5 \<and> P 6 \<and> P 7 \<and>
     P 8 \<and> P 9 \<and> P 10 \<and> P 11 \<and> P 12 \<and> P 13 \<and> P 14 \<and> P 15"
  by (simp add: eval_nat_numeral less_Suc_eq all_conj_distrib imp_disjL)

lemma CharToHex_tables:
  "k < 16 \<Longrightarrow> CharToHex (kHexLower ! k) = int k"
  "k < 16 \<Longrightarrow> CharToHex (kHexUpper ! k) = int k"
proof -
  have "\<forall>k < 16. CharToHex (kHexLower ! k) = int k \<and> CharToHex (kHexUpper ! k) = int k"
    unfolding all_less_16 by (simp add: CharToHex_def kHexLower_def kHexUpper_def)
  then show "k < 16 \<Longrightarrow> CharToHex (kHexLower ! k) = int k"
    and "k < 16 \<Longrightarrow> CharToHex (kHexUpper ! k) = int k" by blast+
qed

lemma CharToHex_bounds: "CharToHex c < 16"
  by (auto simp: CharToHex_def Let_def)

text \<open>Writing a byte as two digits of either table and reading it back.\<close>

lemma hex_pair_decode:
  assumes "tbl = kHexLower \<or> tbl = kHexUpper"
  shows "hex_byte (CharToHex (tbl ! drop_bit 4 (byte c))) (CharToHex (tbl ! (byte c AND 15))) = c"
    and "0 \<le> CharToHex (tbl ! drop_bit 4 (byte c))" and "0 \<le> CharToHex (tbl ! (byte c AND 15))"
proof -
  have hi: "CharToHex (tbl ! drop_bit 4 (byte c)) = int (byte c div 16)"
    using assms nibble_high_less [of c] by (auto simp: nibble_high CharToHex_tables)
  have lo: "CharToHex (tbl ! (byte c AND 15)) = int (byte c mod 16)"
    using assms by (auto simp: nibble_low CharToHex_tables)
  show "hex_byte (CharToHex (tbl ! drop_bit 4 (byte c))) (CharToHex (tbl ! (byte c AND 15))) = c"
    unfolding hi lo by (subst hex_byte_eq) (simp_all add: nat_nibbles)
  show "0 \<le> CharToHex (tbl ! drop_bit 4 (byte c))" "0 \<le> CharToHex (tbl ! (byte c AND 15))"
    unfolding hi lo by simp_all
qed

section \<open>Trimming, case and search\<close>

definition Trim :: "string \<Rightarrow> string \<Rightarrow> string" where
  "Trim s chars =
     rev (dropWhile (\<lambda>c. c \<in> set chars) (rev (dropWhile (\<lambda>c. c \<in> set chars) s)))"

definition trim_default :: string where
  "trim_default = [CHR '' '', TAB, CR, LF]"

definition c_tolower :: "char \<Rightarrow> char" where
  "c_tolower c = (if 65 \<le> byte c \<and> byte c \<le> 90 then chr (byte c + 32) else c)"

definition c_toupper :: "char \<Rightarrow> char" where
  "c_toupper c = (if 97 \<le> byte c \<and> byte c \<le> 122 then chr (byte c - 32) else c)"

definition ToLower :: "string \<Rightarrow> string" where
  "ToLower s = map c_tolower s"

definition ToUpper :: "string \<Rightarrow> string" where
  "ToUpper s = map c_toupper s"

fun eq_fold :: "string \<Rightarrow> string \<Rightarrow> bool" where
  "eq_fold (x # xs) (y # ys) = (if c_tolower x \<noteq> c_tolower y then False else eq_fold xs ys)"
| "eq_fold _ _ = True"

definition EqualsIgnoreCase :: "string \<Rightarrow> string \<Rightarrow> bool" where
  "EqualsIgnoreCase a b = (if length a \<noteq> length b then False else eq_fold a b)"

definition StartsWith :: "string \<Rightarrow> string \<Rightarrow> bool" where
  "StartsWith s prefix \<longleftrightarrow> take (length prefix) s = prefix"

definition EndsWith :: "string \<Rightarrow> string \<Rightarrow> bool" where
  "EndsWith s suffix \<longleftrightarrow>
     length suffix \<le> length s \<and> drop (length s - length suffix) s = suffix"

definition Contains :: "string \<Rightarrow> string \<Rightarrow> bool" where
  "Contains s sub \<longleftrightarrow> find_sub sub s \<noteq> None"

lemma EqualsIgnoreCase_iff: "EqualsIgnoreCase a b \<longleftrightarrow> ToLower a = ToLower b"
proof -
  have "length a = length b \<Longrightarrow> eq_fold a b \<longleftrightarrow> map c_tolower a = map c_tolower b"
    by (induction a b rule: list_induct2) auto
  then show ?thesis
    by (auto simp: EqualsIgnoreCase_def ToLower_def dest: map_eq_imp_length_eq)
qed

lemma EqualsIgnoreCase_refl [simp]: "EqualsIgnoreCase a a"
  by (simp add: EqualsIgnoreCase_iff)

lemma EqualsIgnoreCase_sym: "EqualsIgnoreCase a b \<Longrightarrow> EqualsIgnoreCase b a"
  by (simp add: EqualsIgnoreCase_iff)

lemma EqualsIgnoreCase_trans:
  "EqualsIgnoreCase a b \<Longrightarrow> EqualsIgnoreCase b c \<Longrightarrow> EqualsIgnoreCase a c"
  by (simp add: EqualsIgnoreCase_iff)

lemma Contains_iff: "Contains s sub \<longleftrightarrow> (\<exists>u v. s = u @ sub @ v)"
proof
  assume "Contains s sub"
  then show "\<exists>u v. s = u @ sub @ v"
    by (auto simp: Contains_def dest: find_sub_split)
next
  assume "\<exists>u v. s = u @ sub @ v"
  then obtain u v where s: "s = u @ sub @ v" by blast
  have "find_sub sub (u @ sub @ v) \<noteq> None"
  proof (induction u)
    case Nil
    show ?case by (cases "sub @ v") (force dest: arg_cong [where f = "take (length sub)"])+
  next
    case (Cons a u)
    then show ?case by auto
  qed
  with s show "Contains s sub" by (simp add: Contains_def)
qed

section \<open>Split, join and replace\<close>

text \<open>\<open>SplitOpt\<close> is an 8-bit set of flags.\<close>

type_synonym split_opt = "8 word"

definition kNone :: split_opt where "kNone = 0"
definition kTrim :: split_opt where "kTrim = 1"
definition kSkipEmpty :: split_opt where "kSkipEmpty = 2"

definition split_part :: "split_opt \<Rightarrow> string \<Rightarrow> string list" where
  "split_part opt view =
     (let part = (if opt AND kTrim \<noteq> kNone then Trim view trim_default else view)
      in if opt AND kSkipEmpty \<noteq> kNone \<and> part = [] then [] else [part])"

function Split :: "string \<Rightarrow> char \<Rightarrow> split_opt \<Rightarrow> string list" where
  "Split s delim opt =
     (case find_char delim s of
        None \<Rightarrow> split_part opt s
      | Some pos \<Rightarrow> split_part opt (take pos s) @ Split (drop (Suc pos) s) delim opt)"
  by pat_completeness auto
termination
  by (relation "measure (\<lambda>(s, delim, opt). length s)") (auto dest: find_char_length)

declare Split.simps [simp del]

fun Join :: "string list \<Rightarrow> string \<Rightarrow> string" where
  "Join [] delim = []"
| "Join [p] delim = p"
| "Join (p # q # ps) delim = p @ delim @ Join (q # ps) delim"

function ReplaceAll :: "string \<Rightarrow> string \<Rightarrow> string \<Rightarrow> string" where
  "ReplaceAll s from_s to_s =
     (if from_s = [] then s
      else (case find_sub from_s s of
              None \<Rightarrow> s
            | Some pos \<Rightarrow> take pos s @ to_s @ ReplaceAll (drop (pos + length from_s) s) from_s to_s))"
  by pat_completeness auto
termination
  by (relation "measure (\<lambda>(s, f, t). length s)") (auto dest: find_sub_shorter)

declare ReplaceAll.simps [simp del]

lemma split_part_none [simp]: "split_part kNone v = [v]"
  by (simp add: split_part_def kNone_def)

lemma Split_ne: "Split s d kNone \<noteq> []"
  by (subst Split.simps) (auto split: option.splits)

lemma Join_Cons: "ps \<noteq> [] \<Longrightarrow> Join (p # ps) d = p @ d @ Join ps d"
  by (cases ps) auto

lemma Join_Split: "Join (Split s d kNone) [d] = s"
proof (induction s d kNone rule: Split.induct)
  case (1 s d)
  show ?case
  proof (cases "find_char d s")
    case None
    then show ?thesis by (subst Split.simps) simp
  next
    case (Some pos)
    with 1 have "Join (Split s d kNone) [d] = take pos s @ d # drop (Suc pos) s"
      by (subst Split.simps) (simp add: Join_Cons Split_ne)
    with find_char_split [OF Some] show ?thesis by simp
  qed
qed

lemma Split_no_delim: "p \<in> set (Split s d kNone) \<Longrightarrow> d \<notin> set p"
proof (induction s d kNone rule: Split.induct)
  case (1 s d)
  then show ?case
    by (subst (asm) (2) Split.simps)
      (auto simp: find_char_None split: option.splits dest: find_char_SomeD)
qed

lemma length_Split: "length (Split s d kNone) = Suc (count_list s d)"
proof (induction s d kNone rule: Split.induct)
  case (1 s d)
  show ?case
  proof (cases "find_char d s")
    case None
    then have "d \<notin> set s" by (simp add: find_char_None)
    with None show ?thesis by (subst Split.simps) simp
  next
    case (Some pos)
    have "count_list s d = Suc (count_list (drop (Suc pos) s) d)"
      by (subst find_char_split [OF Some], subst count_list_append)
        (use find_char_SomeD [OF Some] in simp)
    with 1 Some show ?thesis by (subst Split.simps) simp
  qed
qed

section \<open>Hex and URL codecs\<close>

definition HexEncode :: "string \<Rightarrow> string" where
  "HexEncode data = concat (map (hex_pair kHexLower) data)"

fun hex_decode_loop :: "string \<Rightarrow> string option" where
  "hex_decode_loop (h # l # r) =
     (let hi = CharToHex h; lo = CharToHex l
      in if hi < 0 \<or> lo < 0 then None
         else map_option ((#) (hex_byte hi lo)) (hex_decode_loop r))"
| "hex_decode_loop _ = Some []"

definition HexDecode :: "string \<Rightarrow> string option" where
  "HexDecode hex = (if length hex mod 2 \<noteq> 0 then None else hex_decode_loop hex)"

definition c_isalnum :: "char \<Rightarrow> bool" where
  "c_isalnum c \<longleftrightarrow> is_digit c \<or> (65 \<le> byte c \<and> byte c \<le> 90) \<or> (97 \<le> byte c \<and> byte c \<le> 122)"

definition url_encode_char :: "char \<Rightarrow> string" where
  "url_encode_char c =
     (if c_isalnum c \<or> c = CHR ''-'' \<or> c = CHR ''_'' \<or> c = CHR ''.'' \<or> c = CHR ''~'' then [c]
      else CHR ''%'' # hex_pair kHexUpper c)"

definition UrlEncode :: "string \<Rightarrow> string" where
  "UrlEncode value = concat (map url_encode_char value)"

fun UrlDecode :: "string \<Rightarrow> bool \<Rightarrow> string" where
  "UrlDecode [] pas = []"
| "UrlDecode (c # s) pas =
     (if c = CHR ''+'' \<and> pas then CHR '' '' # UrlDecode s pas
      else if c = CHR ''%'' then
        (case s of
           h # l # r \<Rightarrow>
             (let hi = CharToHex h; lo = CharToHex l
              in if 0 \<le> hi \<and> 0 \<le> lo then hex_byte hi lo # UrlDecode r pas
                 else CHR ''%'' # UrlDecode s pas)
         | _ \<Rightarrow> c # UrlDecode s pas)
      else c # UrlDecode s pas)"

lemma hex_decode_pair:
  "hex_decode_loop (hex_pair kHexLower c @ r) = map_option ((#) c) (hex_decode_loop r)"
  using hex_pair_decode [of kHexLower c] by (simp add: hex_pair_def)

lemma HexDecode_HexEncode: "HexDecode (HexEncode s) = Some s"
proof -
  have "even (length (HexEncode s))"
    by (induction s) (auto simp: HexEncode_def hex_pair_def)
  moreover have "hex_decode_loop (HexEncode s) = Some s"
    by (induction s) (auto simp: HexEncode_def hex_decode_pair)
  ultimately show ?thesis by (simp add: HexDecode_def even_iff_mod_2_eq_zero)
qed

lemma HexDecode_length: "HexDecode h = Some s \<Longrightarrow> length h = 2 * length s"
proof -
  have *: "length h mod 2 = 0 \<Longrightarrow> hex_decode_loop h = Some s \<Longrightarrow> length h = 2 * length s"
    by (induction h arbitrary: s rule: hex_decode_loop.induct)
      (auto simp: Let_def split: if_splits)
  assume "HexDecode h = Some s"
  then show ?thesis using * by (simp add: HexDecode_def split: if_splits)
qed

lemma UrlDecode_plain: "c \<noteq> CHR ''%'' \<Longrightarrow> c \<noteq> CHR ''+'' \<Longrightarrow> UrlDecode (c # s) p = c # UrlDecode s p"
  by simp

lemma UrlDecode_char: "UrlDecode (url_encode_char c @ r) p = c # UrlDecode r p"
proof (cases "c_isalnum c \<or> c = CHR ''-'' \<or> c = CHR ''_'' \<or> c = CHR ''.'' \<or> c = CHR ''~''")
  case True
  then have "c \<noteq> CHR ''%''" "c \<noteq> CHR ''+''"
    by (auto simp: c_isalnum_def is_digit_def)
  with True show ?thesis
    by (auto simp: url_encode_char_def simp del: UrlDecode.simps(2) intro!: UrlDecode_plain)
next
  case False
  then show ?thesis
    using hex_pair_decode [of kHexUpper c] by (simp add: url_encode_char_def hex_pair_def)
qed

lemma UrlDecode_UrlEncode: "UrlDecode (UrlEncode s) p = s"
  by (induction s) (auto simp: UrlEncode_def UrlDecode_char)

text \<open>An encoded string holds unreserved characters and percent signs only.\<close>

lemma url_encode_char_set:
  "x \<in> set (url_encode_char c) \<Longrightarrow>
     c_isalnum x \<or> x \<in> {CHR ''-'', CHR ''_'', CHR ''.'', CHR ''~'', CHR ''%''}"
proof -
  have "\<forall>k < 16. c_isalnum (kHexUpper ! k)"
    unfolding all_less_16 by (simp add: kHexUpper_def c_isalnum_def is_digit_def)
  then show "x \<in> set (url_encode_char c) \<Longrightarrow> ?thesis"
    using nibble_high_less [of c]
    by (auto simp: url_encode_char_def hex_pair_def nibble_high nibble_low split: if_splits)
qed

lemma UrlEncode_set:
  "x \<in> set (UrlEncode s) \<Longrightarrow>
     c_isalnum x \<or> x \<in> {CHR ''-'', CHR ''_'', CHR ''.'', CHR ''~'', CHR ''%''}"
  using url_encode_char_set by (auto simp: UrlEncode_def)

section \<open>Checked integer readers\<close>

definition StrToInt64 :: "string \<Rightarrow> int option" where
  "StrToInt64 s =
     (if s = [] then None
      else
        (let t = (if hd s = CHR ''+'' then tl s else s) in
         if hd s = CHR ''+'' \<and> t = [] then None
         else (case from_chars True int64_min int64_max t of
                 Some (v, []) \<Rightarrow> Some v
               | _ \<Rightarrow> None)))"

definition StrToUint64 :: "string \<Rightarrow> int option" where
  "StrToUint64 s =
     (if s = [] \<or> hd s = CHR ''-'' then None
      else
        (let t = (if hd s = CHR ''+'' then tl s else s) in
         if hd s = CHR ''+'' \<and> t = [] then None
         else (case from_chars False 0 uint64_max t of
                 Some (v, []) \<Rightarrow> Some v
               | _ \<Rightarrow> None)))"

definition StrToInt32 :: "string \<Rightarrow> int option" where
  "StrToInt32 s =
     (case StrToInt64 s of
        None \<Rightarrow> None
      | Some v \<Rightarrow> if v < int32_min \<or> v > int32_max then None else Some v)"

definition StrToUint32 :: "string \<Rightarrow> int option" where
  "StrToUint32 s =
     (case StrToUint64 s of
        None \<Rightarrow> None
      | Some v \<Rightarrow> if v > uint32_max then None else Some v)"

lemma plus_not_digit [simp]: "\<not> is_digit (CHR ''+'')"
  by (simp add: is_digit_def)

lemma hd_nat_to_string_plus: "hd (nat_to_string n) \<noteq> CHR ''+''"
  by (metis hd_in_set nat_to_string_digits nat_to_string_ne plus_not_digit)

lemma hd_int_to_string: "int_to_string v \<noteq> [] \<and> hd (int_to_string v) \<noteq> CHR ''+''"
  by (auto simp: int_to_string_def hd_nat_to_string_plus dec_simps)

lemma StrToInt64_to_string:
  "int64_min \<le> v \<Longrightarrow> v \<le> int64_max \<Longrightarrow> StrToInt64 (int_to_string v) = Some v"
  using hd_int_to_string [of v]
  by (simp add: StrToInt64_def Let_def from_chars_int_to_string)

lemma StrToInt64_range: "StrToInt64 s = Some v \<Longrightarrow> int64_min \<le> v \<and> v \<le> int64_max"
  by (auto simp: StrToInt64_def Let_def split: if_splits option.splits list.splits
      dest: from_chars_range)

lemma StrToUint64_range: "StrToUint64 s = Some v \<Longrightarrow> 0 \<le> v \<and> v \<le> uint64_max"
  by (auto simp: StrToUint64_def Let_def split: if_splits option.splits list.splits
      dest: from_chars_range)

lemma StrToInt32_range: "StrToInt32 s = Some v \<Longrightarrow> int32_min \<le> v \<and> v \<le> int32_max"
  by (auto simp: StrToInt32_def split: option.splits if_splits)

lemma StrToUint64_to_string:
  "v \<le> uint64_max \<Longrightarrow> 0 \<le> v \<Longrightarrow> StrToUint64 (int_to_string v) = Some v"
  using from_chars_nat_to_string [of 0 "nat v" uint64_max False]
  by (simp add: StrToUint64_def Let_def int_to_string_def hd_nat_to_string hd_nat_to_string_plus
      dec_simps)

end
