(* ===== verification/Uco_Libc.thy ===== *)
theory Uco_Libc
  imports Uco_Strings
begin

text \<open>
  Functions of the C and C++ libraries that several parts of the program call: white space, and the
  reading of numbers that throws on failure, where \<open>None\<close> stands for the exception.
\<close>

definition c_isspace :: "char \<Rightarrow> bool" where
  "c_isspace c \<longleftrightarrow> byte c = 32 \<or> (9 \<le> byte c \<and> byte c \<le> 13)"

text \<open>\<open>std::stoull\<close>: a minus sign negates modulo \<open>2 ^ 64\<close>.\<close>

definition stoull :: "string \<Rightarrow> int option" where
  "stoull s =
     (let t = dropWhile c_isspace s;
          neg = t \<noteq> [] \<and> hd t = CHR ''-'';
          u = (if t \<noteq> [] \<and> (hd t = CHR ''-'' \<or> hd t = CHR ''+'') then tl t else t);
          ds = takeWhile is_digit u;
          n = int (dec_val ds)
      in if ds = [] \<or> n \<ge> 2 ^ 64 then None
         else Some (if neg then (- n) mod 2 ^ 64 else n))"

text \<open>\<open>std::stoll\<close>.\<close>

definition stoll :: "string \<Rightarrow> int option" where
  "stoll s =
     (let t = dropWhile c_isspace s;
          neg = t \<noteq> [] \<and> hd t = CHR ''-'';
          u = (if t \<noteq> [] \<and> (hd t = CHR ''-'' \<or> hd t = CHR ''+'') then tl t else t);
          ds = takeWhile is_digit u;
          n = (if neg then - int (dec_val ds) else int (dec_val ds))
      in if ds = [] \<or> n < - (2 ^ 63) \<or> n \<ge> 2 ^ 63 then None else Some n)"

text \<open>Conversion to a 32-bit \<open>int\<close>.\<close>

definition to_int :: "int \<Rightarrow> int" where
  "to_int v = signed_take_bit 31 v"

section \<open>Reading what was written\<close>

text \<open>A number as digits, possibly with leading zeros and a minus sign.\<close>

definition int_text :: "string \<Rightarrow> int \<Rightarrow> bool" where
  "int_text v n \<longleftrightarrow>
     (\<exists>ds. ds \<noteq> [] \<and> list_all is_digit ds \<and>
        (v = ds \<and> n = int (dec_val ds) \<or> v = CHR ''-'' # ds \<and> n = - int (dec_val ds)))"

lemma digit_first:
  assumes "ds \<noteq> []" "list_all is_digit ds"
  shows "dropWhile c_isspace ds = ds" "hd ds \<noteq> CHR ''-''" "hd ds \<noteq> CHR ''+''" "takeWhile is_digit ds = ds"
proof -
  have "is_digit (hd ds)" using assms by (cases ds) auto
  then show "dropWhile c_isspace ds = ds" "hd ds \<noteq> CHR ''-''" "hd ds \<noteq> CHR ''+''"
    by (cases ds; auto simp: is_digit_def c_isspace_def)+
  show "takeWhile is_digit ds = ds" using assms(2) by (simp add: takeWhile_eq_all_conv list_all_iff)
qed

lemma stoull_digits:
  "ds \<noteq> [] \<Longrightarrow> list_all is_digit ds \<Longrightarrow> int (dec_val ds) < 2 ^ 64 \<Longrightarrow> stoull ds = Some (int (dec_val ds))"
  by (simp add: stoull_def Let_def digit_first)

lemma stoull_text: "int_text v n \<Longrightarrow> 0 \<le> n \<Longrightarrow> n < 2 ^ 64 \<Longrightarrow> stoull v = Some n"
proof -
  assume a: "int_text v n" "0 \<le> n" "n < 2 ^ 64"
  then obtain ds where ds: "ds \<noteq> []" "list_all is_digit ds"
    "v = ds \<and> n = int (dec_val ds) \<or> v = CHR ''-'' # ds \<and> n = - int (dec_val ds)" by (auto simp: int_text_def)
  from ds(3) show ?thesis
  proof (elim disjE conjE)
    assume "v = ds" "n = int (dec_val ds)"
    with a(3) stoull_digits [OF ds(1,2)] show ?thesis by simp
  next
    assume v: "v = CHR ''-'' # ds" and n: "n = - int (dec_val ds)"
    then have z: "dec_val ds = 0" "n = 0" using a(2) by linarith+
    then show ?thesis unfolding v by (simp add: stoull_def Let_def c_isspace_def digit_first [OF ds(1,2)] ds(1))
  qed
qed

lemma stoll_text: "int_text v n \<Longrightarrow> - (2 ^ 63) \<le> n \<Longrightarrow> n < 2 ^ 63 \<Longrightarrow> stoll v = Some n"
proof -
  assume a: "int_text v n" "- (2 ^ 63) \<le> n" "n < 2 ^ 63"
  then obtain ds where ds: "ds \<noteq> []" "list_all is_digit ds"
    "v = ds \<and> n = int (dec_val ds) \<or> v = CHR ''-'' # ds \<and> n = - int (dec_val ds)" by (auto simp: int_text_def)
  from ds(3) show ?thesis
  proof (elim disjE conjE)
    assume "v = ds" "n = int (dec_val ds)"
    with a(2,3) show ?thesis by (simp add: stoll_def Let_def digit_first [OF ds(1,2)] ds(1))
  next
    assume v: "v = CHR ''-'' # ds" and n: "n = - int (dec_val ds)"
    with a(2,3) show ?thesis unfolding v
      by (simp add: stoll_def Let_def c_isspace_def digit_first [OF ds(1,2)] ds(1))
  qed
qed

lemma int_text_nat: "int_text (nat_to_string n) (int n)"
  unfolding int_text_def using nat_to_string_ne nat_to_string_digits
  by (intro exI [of _ "nat_to_string n"]) (auto simp: dec_simps list_all_iff)

lemma int_text_int: "int_text (int_to_string n) n"
  using int_text_nat [of "nat n"] nat_to_string_ne nat_to_string_digits
  by (auto simp: int_to_string_def int_text_def dec_simps list_all_iff)

lemma stoull_nat: "int n < 2 ^ 64 \<Longrightarrow> stoull (nat_to_string n) = Some (int n)"
  by (rule stoull_text) (auto simp: int_text_nat)

end
