(* ===== verification/Http_Request.thy ===== *)
theory Http_Request
  imports Uco_Buffer Uco_Libc "HOL-Library.AList"
begin

text \<open>
  The request parser of \<open>http/httprequest.cpp\<close>: a state machine that consumes lines from
  the connection's buffer. \<open>m_sCurLine\<close> is a pointer into the buffer, given as an index; the
  parser writes two NUL bytes over the line terminator and reads the line as a C string.
  The hash table of headers is an association list in the order the keys were first
  stored.
\<close>

section \<open>State\<close>

datatype ParseState =
  eParsingStart | eParsingRequsetLine | eParsingHeader | eParsingBody | eParsingFinish

datatype LineState = eLineOK | eLineBad | eLineOpen

datatype HttpState = eRequestIncomplete | eRequestOK | eRequestBad

record http_request =
  m_sMethod :: string
  m_sPath :: string
  m_sProtocol :: string
  m_sContentType :: string
  m_mapHeader :: "(string \<times> string) list"
  m_sCurLine :: "nat option"
  m_iHttpVersionMajor :: int
  m_iHttpVersionMinor :: int
  m_iHttpRequsetContentLength :: int
  m_iReadPositionOffsetWhenParseLine :: int
  m_iReadTimeoutSec :: int
  m_bKeepAlive :: bool
  m_readReqTime :: "int \<times> int"
  m_state :: ParseState
  m_buffer :: buffer

definition Request_Reset :: "http_request \<Rightarrow> http_request" where
  "Request_Reset q =
     q\<lparr>m_sMethod := [], m_sPath := [], m_sProtocol := [], m_sContentType := [],
       m_mapHeader := [], m_sCurLine := None,
       m_iHttpVersionMajor := 1, m_iHttpVersionMinor := 1,
       m_iHttpRequsetContentLength := 0, m_iReadPositionOffsetWhenParseLine := - 1,
       m_bKeepAlive := True, m_readReqTime := (m_iReadTimeoutSec q, 0),
       m_state := eParsingStart, m_buffer := Reset (m_buffer q)\<rparr>"

text \<open>The constructor: field initialisers, a buffer of 1024 bytes, then \<open>Reset\<close>.\<close>

definition mk_request :: "int \<Rightarrow> http_request" where
  "mk_request recvsec =
     Request_Reset
       \<lparr>m_sMethod = [], m_sPath = [], m_sProtocol = [], m_sContentType = [],
        m_mapHeader = [], m_sCurLine = None, m_iHttpVersionMajor = 0,
        m_iHttpVersionMinor = 0, m_iHttpRequsetContentLength = 0,
        m_iReadPositionOffsetWhenParseLine = - 1, m_iReadTimeoutSec = recvsec,
        m_bKeepAlive = True, m_readReqTime = (0, 0), m_state = eParsingStart,
        m_buffer = mk_buffer 1024\<rparr>"

section \<open>Lines\<close>

datatype line_scan = ScanOK nat | ScanBad | ScanOpen

text \<open>
  The loop of \<open>ParseLine\<close> over the bytes \<open>v\<close> before the write position, from index \<open>i\<close>,
  the read position being \<open>r\<close>. \<open>ScanOK k\<close>: the terminator is at \<open>k\<close> and \<open>k + 1\<close>.
\<close>

function scan_line :: "char list \<Rightarrow> nat \<Rightarrow> nat \<Rightarrow> line_scan" where
  "scan_line v r i =
     (if i < length v then
        (if v ! i = CR then
           (if i + 1 = length v then ScanOpen
            else if v ! (i + 1) = LF then ScanOK i
            else ScanBad)
         else if v ! i = LF then
           (if i > r \<and> v ! (i - 1) = CR then ScanOK (i - 1) else ScanBad)
         else scan_line v r (Suc i))
      else ScanOpen)"
  by pat_completeness auto
termination
  by (relation "measure (\<lambda>(v, r, i). length v - i)") auto

declare scan_line.simps [simp del]

definition ParseLine :: "http_request \<Rightarrow> LineState \<times> http_request" where
  "ParseLine q =
     (let b = m_buffer q;
          r = m_iReadPosition b;
          w = m_iWritePosition b;
          off = m_iReadPositionOffsetWhenParseLine q;
          start = (if off > 0 then r + nat off else r);
          q0 = q\<lparr>m_iReadPositionOffsetWhenParseLine := 0\<rparr>
      in case scan_line (take w (m_VecBuffer b)) r start of
           ScanOK k \<Rightarrow>
             (eLineOK,
              q0\<lparr>m_sCurLine := Some r,
                 m_buffer := RetrieveUntil (k + 2)
                   (b\<lparr>m_VecBuffer := (m_VecBuffer b)[k := NUL, k + 1 := NUL]\<rparr>)\<rparr>)
         | ScanBad \<Rightarrow> (eLineBad, q0)
         | ScanOpen \<Rightarrow>
             (eLineOpen, q0\<lparr>m_iReadPositionOffsetWhenParseLine := int (ReadableBytes b)\<rparr>))"

text \<open>The current line as a C string.\<close>

definition cur_line :: "http_request \<Rightarrow> string" where
  "cur_line q =
     (case m_sCurLine q of
        None \<Rightarrow> []
      | Some off \<Rightarrow> takeWhile (\<lambda>c. c \<noteq> NUL) (drop off (m_VecBuffer (m_buffer q))))"

section \<open>Request line\<close>

text \<open>\<open>from_chars\<close> into an \<open>int\<close>, which keeps its value on an error.\<close>

definition from_chars_into :: "int \<Rightarrow> string \<Rightarrow> int" where
  "from_chars_into cur s =
     (case from_chars True int32_min int32_max s of Some (v, _) \<Rightarrow> v | None \<Rightarrow> cur)"

definition parse_http_version :: "string \<Rightarrow> int \<Rightarrow> int \<Rightarrow> int \<times> int" where
  "parse_http_version protocol major minor =
     (case find_char (CHR ''.'') protocol of
        None \<Rightarrow> (from_chars_into major protocol, minor)
      | Some dot \<Rightarrow> (from_chars_into major (take dot protocol),
                      from_chars_into minor (drop (Suc dot) protocol)))"

definition ParseRequestLine :: "http_request \<Rightarrow> bool \<times> http_request" where
  "ParseRequestLine q =
     (let line = cur_line q in
      case find_char (CHR '' '') line of
        None \<Rightarrow> (False, q)
      | Some i \<Rightarrow>
          (let q1 = q\<lparr>m_sMethod := take i line\<rparr>; rest = drop (Suc i) line in
           case find_char (CHR '' '') rest of
             None \<Rightarrow> (False, q1)
           | Some j \<Rightarrow>
               (let q2 = q1\<lparr>m_sPath := take j rest\<rparr>; protocolStart = drop (Suc j) rest in
                if take 5 protocolStart \<noteq> ''HTTP/'' then (False, q2)
                else
                  (let protocol = drop 5 protocolStart;
                       v = parse_http_version protocol (m_iHttpVersionMajor q2) (m_iHttpVersionMinor q2);
                       q3 = q2\<lparr>m_sProtocol := protocol, m_iHttpVersionMajor := fst v,
                               m_iHttpVersionMinor := snd v\<rparr>;
                       q4 = (if fst v = 1 \<and> snd v = 0 then q3\<lparr>m_bKeepAlive := False\<rparr> else q3)
                   in (True, q4\<lparr>m_state := eParsingHeader\<rparr>)))))"

section \<open>Headers\<close>

text \<open>
  \<open>atoi\<close> as the C library computes it: \<open>strtol\<close>, which saturates at the bounds of a 64-bit
  \<open>long\<close>, converted to a 32-bit \<open>int\<close>.
\<close>

definition strtol_val :: "string \<Rightarrow> int" where
  "strtol_val s =
     (let t = dropWhile c_isspace s;
          neg = t \<noteq> [] \<and> hd t = CHR ''-'';
          u = (if t \<noteq> [] \<and> (hd t = CHR ''-'' \<or> hd t = CHR ''+'') then tl t else t);
          n = int (dec_val (takeWhile is_digit u))
      in max int64_min (min int64_max (if neg then - n else n)))"

definition atoi :: "string \<Rightarrow> int" where
  "atoi s = signed_take_bit 31 (strtol_val s)"

text \<open>\<open>s.substr(0, s.find_last_not_of(' ') + 1)\<close>, skipped when there is no such position.\<close>

definition strip_trailing :: "string \<Rightarrow> string" where
  "strip_trailing s =
     (if \<forall>c\<in>set s. c = CHR '' '' then s
      else rev (dropWhile (\<lambda>c. c = CHR '' '') (rev s)))"

definition store_header :: "string \<Rightarrow> string \<Rightarrow> http_request \<Rightarrow> http_request" where
  "store_header key val q =
     (let q1 = (if key = ''Connection'' then q\<lparr>m_bKeepAlive := (val = ''keep-alive'')\<rparr> else q);
          q2 = (if key = ''Content-Length'' then q1\<lparr>m_iHttpRequsetContentLength := atoi val\<rparr> else q1);
          q3 = (if key = ''Content-Type'' then q2\<lparr>m_sContentType := val\<rparr> else q2)
      in q3\<lparr>m_mapHeader := AList.update key val (m_mapHeader q3)\<rparr>)"

definition ParseHeader :: "http_request \<Rightarrow> bool \<times> http_request" where
  "ParseHeader q =
     (let line = cur_line q in
      case find_char (CHR '':'') line of
        None \<Rightarrow> (False, q)
      | Some i \<Rightarrow>
          (let key = strip_trailing (take i line);
               val = strip_trailing (dropWhile (\<lambda>c. c = CHR '' '') (drop (Suc i) line))
           in (True, store_header key val q)))"

section \<open>Body and the driver\<close>

text \<open>\<open>size_t >= int\<close>: the \<open>int\<close> is converted to \<open>size_t\<close>, so a negative length is huge.\<close>

definition to_size_t :: "int \<Rightarrow> int" where
  "to_size_t v = v mod 2 ^ 64"

definition ParseBody :: "http_request \<Rightarrow> bool \<times> http_request" where
  "ParseBody q =
     (let ret = int (ReadableBytes (m_buffer q)) \<ge> to_size_t (m_iHttpRequsetContentLength q)
      in (ret, if ret then q\<lparr>m_state := eParsingFinish\<rparr> else q))"

lemma ParseLine_OK_shape:
  assumes "ParseLine q = (eLineOK, q1)"
  obtains k where "scan_line (take (m_iWritePosition (m_buffer q)) (m_VecBuffer (m_buffer q)))
      (m_iReadPosition (m_buffer q))
      (if m_iReadPositionOffsetWhenParseLine q > 0
       then m_iReadPosition (m_buffer q) + nat (m_iReadPositionOffsetWhenParseLine q)
       else m_iReadPosition (m_buffer q)) = ScanOK k"
    and "q1 = q\<lparr>m_iReadPositionOffsetWhenParseLine := 0,
               m_sCurLine := Some (m_iReadPosition (m_buffer q)),
               m_buffer := RetrieveUntil (k + 2)
                 ((m_buffer q)\<lparr>m_VecBuffer := (m_VecBuffer (m_buffer q))[k := NUL, k + 1 := NUL]\<rparr>)\<rparr>"
  using assms by (auto simp: ParseLine_def Let_def split: line_scan.splits)

lemma scan_line_OK:
  "scan_line v r i = ScanOK k \<Longrightarrow> v ! k = CR \<and> Suc k < length v \<and> v ! Suc k = LF"
proof (induction v r i rule: scan_line.induct)
  case (1 v r i)
  then show ?case
    by (subst (asm) (2) scan_line.simps) (auto split: if_splits)
qed

lemma RetrieveUntil_vec [simp]: "m_VecBuffer (RetrieveUntil p b) = m_VecBuffer b"
  by (auto simp: RetrieveUntil_def Retrieve_def ReadableBytes_def Let_def)

lemma RetrieveUntil_wpos [simp]: "m_iWritePosition (RetrieveUntil p b) = m_iWritePosition b"
  by (auto simp: RetrieveUntil_def Retrieve_def ReadableBytes_def Let_def)

lemma count_list_update_less:
  "i < length xs \<Longrightarrow> xs ! i = x \<Longrightarrow> y \<noteq> x \<Longrightarrow> count_list (xs[i := y]) x < count_list xs x"
  by (induction xs arbitrary: i) (auto split: nat.splits)

lemma count_list_update_le:
  "y \<noteq> x \<Longrightarrow> count_list (xs[i := y]) x \<le> count_list xs x"
  by (induction xs arbitrary: i) (auto split: nat.splits)

lemma ParseLine_fewer_CR:
  assumes "ParseLine q = (eLineOK, q1)"
  shows "count_list (m_VecBuffer (m_buffer q1)) CR < count_list (m_VecBuffer (m_buffer q)) CR"
proof -
  let ?v = "m_VecBuffer (m_buffer q)"
  from assms obtain k where k: "?v ! k = CR" "k < length ?v"
      and v1: "m_VecBuffer (m_buffer q1) = ?v[k := NUL, k + 1 := NUL]"
    by (rule ParseLine_OK_shape) (auto dest!: scan_line_OK)
  have "count_list (?v[k := NUL, k + 1 := NUL]) CR \<le> count_list (?v[k := NUL]) CR"
    by (rule count_list_update_le) simp
  also have "\<dots> < count_list ?v CR"
    by (rule count_list_update_less) (use k in simp_all)
  finally show ?thesis by (simp add: v1)
qed

lemma ParseRequestLine_buffer: "m_buffer (snd (ParseRequestLine q)) = m_buffer q"
  by (simp add: ParseRequestLine_def Let_def split: option.splits)

lemma store_header_buffer [simp]:
  "m_buffer (store_header k v q) = m_buffer q" "m_state (store_header k v q) = m_state q"
  by (simp_all add: store_header_def Let_def)

lemma ParseHeader_buffer: "m_buffer (snd (ParseHeader q)) = m_buffer q"
  by (simp add: ParseHeader_def Let_def split: option.splits)

text \<open>
  The loop of \<open>Parse\<close> and what follows it. Each full line overwrites a carriage return, so
  the loop ends.
\<close>

function Parse_loop :: "http_request \<Rightarrow> HttpState \<times> http_request" where
  "Parse_loop q =
     (if m_state q = eParsingBody then
        (case ParseBody q of (ret, q') \<Rightarrow> (if ret then eRequestOK else eRequestIncomplete, q'))
      else
        (case ParseLine q of
           (eLineOK, q1) \<Rightarrow>
             (case m_state q1 of
                eParsingRequsetLine \<Rightarrow>
                  (if fst (ParseRequestLine q1) then Parse_loop (snd (ParseRequestLine q1))
                   else (eRequestBad, snd (ParseRequestLine q1)))
              | eParsingHeader \<Rightarrow>
                  (if length (cur_line q1) \<noteq> 0 then
                     (if fst (ParseHeader q1) then Parse_loop (snd (ParseHeader q1))
                      else (eRequestBad, snd (ParseHeader q1)))
                   else Parse_loop (q1\<lparr>m_state := eParsingBody\<rparr>))
              | _ \<Rightarrow> Parse_loop q1)
         | (eLineOpen, q1) \<Rightarrow> (eRequestIncomplete, q1)
         | (eLineBad, q1) \<Rightarrow> (eRequestBad, q1)))"
  by pat_completeness auto
termination
proof (relation "measure (\<lambda>q. count_list (m_VecBuffer (m_buffer q)) CR)", goal_cases)
  case 1
  show ?case by simp
qed (auto dest!: sym [where s = "ParseLine _"] simp: ParseLine_fewer_CR ParseRequestLine_buffer
      ParseHeader_buffer)

declare Parse_loop.simps [simp del]

definition Parse :: "http_request \<Rightarrow> HttpState \<times> http_request" where
  "Parse q =
     Parse_loop (if m_state q = eParsingStart then q\<lparr>m_state := eParsingRequsetLine\<rparr> else q)"

definition ReadBody :: "http_request \<Rightarrow> string" where
  "ReadBody q =
     (if m_state q = eParsingFinish
      then take (nat (to_size_t (m_iHttpRequsetContentLength q)))
             (drop (m_iReadPosition (m_buffer q)) (m_VecBuffer (m_buffer q)))
      else [])"

section \<open>Reading one line\<close>

definition line_text :: "string \<Rightarrow> bool" where
  "line_text l \<longleftrightarrow> CR \<notin> set l \<and> LF \<notin> set l \<and> NUL \<notin> set l"

lemma line_text_append [simp]: "line_text (a @ b) \<longleftrightarrow> line_text a \<and> line_text b"
  by (auto simp: line_text_def)

lemma line_text_Cons [simp]:
  "line_text (c # b) \<longleftrightarrow> c \<noteq> CR \<and> c \<noteq> LF \<and> c \<noteq> NUL \<and> line_text b"
  by (auto simp: line_text_def)

lemma line_text_Nil [simp]: "line_text []"
  by (simp add: line_text_def)

lemma takeWhile_line: "takeWhile (\<lambda>c. c \<noteq> NUL) (l @ NUL # x) = takeWhile (\<lambda>c. c \<noteq> NUL) l"
  by (induction l) auto

lemma line_text_id: "line_text l \<Longrightarrow> takeWhile (\<lambda>c. c \<noteq> NUL) l = l"
  by (induction l) auto

lemma scan_line_skip:
  "r \<le> i \<Longrightarrow> i \<le> k \<Longrightarrow> k \<le> length v \<Longrightarrow>
     (\<And>j. i \<le> j \<Longrightarrow> j < k \<Longrightarrow> v ! j \<noteq> CR \<and> v ! j \<noteq> LF) \<Longrightarrow> scan_line v r i = scan_line v r k"
proof (induction "k - i" arbitrary: i)
  case 0
  then show ?case by simp
next
  case (Suc d)
  then have "i < k" by linarith
  with Suc.prems have "scan_line v r i = scan_line v r (Suc i)"
    by (subst scan_line.simps) auto
  also have "\<dots> = scan_line v r k"
    using Suc \<open>i < k\<close> by (intro Suc.hyps(1)) auto
  finally show ?case .
qed

lemma scan_line_full:
  assumes "CR \<notin> set l" "LF \<notin> set l" "i \<le> length l"
  shows "scan_line (pre @ l @ CR # LF # rest) (length pre) (length pre + i) = ScanOK (length pre + length l)"
proof -
  let ?v = "pre @ l @ CR # LF # rest"
  have "scan_line ?v (length pre) (length pre + i) = scan_line ?v (length pre) (length pre + length l)"
    using assms by (intro scan_line_skip) (auto simp: nth_append in_set_conv_nth)
  then show ?thesis by (subst (asm) (2) scan_line.simps) (simp add: nth_append)
qed

lemma scan_line_none:
  assumes "CR \<notin> set l" "LF \<notin> set l"
  shows "scan_line (pre @ l) (length pre) (length pre) = ScanOpen"
proof -
  have "scan_line (pre @ l) (length pre) (length pre) =
        scan_line (pre @ l) (length pre) (length pre + length l)"
    using assms by (intro scan_line_skip) (auto simp: nth_append in_set_conv_nth)
  then show ?thesis by (subst (asm) (2) scan_line.simps) simp
qed

lemma buf_split:
  assumes "buf_ok b"
  obtains pre post where "m_VecBuffer b = pre @ contents b @ post"
    "length pre = m_iReadPosition b" "m_iWritePosition b = length pre + length (contents b)"
proof
  let ?v = "m_VecBuffer b" and ?r = "m_iReadPosition b" and ?w = "m_iWritePosition b"
  show "?v = take ?r ?v @ contents b @ drop ?w ?v"
    using assms unfolding contents_alt buf_ok_def
    by (metis append.assoc append_take_drop_id min.absorb1 take_take)
  show "length (take ?r ?v) = ?r"
    using assms by (simp add: buf_ok_def)
  show "?w = length (take ?r ?v) + length (contents b)"
    using assms by (simp add: length_contents) (simp add: buf_defs)
qed

text \<open>
  A line with bytes after it is taken off the buffer. A line at the very end of the
  received bytes is read as well, but its bytes stay, the terminator replaced by NULs.
\<close>

lemma ParseLine_bytes:
  assumes ok: "buf_ok (m_buffer q)" and c: "contents (m_buffer q) = l @ CR # LF # rest"
    and l: "CR \<notin> set l" "LF \<notin> set l" and off: "m_iReadPositionOffsetWhenParseLine q \<le> int (length l)"
  shows "\<exists>b'. ParseLine q = (eLineOK, q\<lparr>m_iReadPositionOffsetWhenParseLine := 0,
              m_sCurLine := Some (m_iReadPosition (m_buffer q)), m_buffer := b'\<rparr>) \<and>
            buf_ok b' \<and>
            contents b' = (if rest = [] then l @ [NUL, NUL] else rest) \<and>
            (rest = [] \<longrightarrow> m_iReadPosition b' = m_iReadPosition (m_buffer q)) \<and>
            takeWhile (\<lambda>c. c \<noteq> NUL) (drop (m_iReadPosition (m_buffer q)) (m_VecBuffer b')) =
              takeWhile (\<lambda>c. c \<noteq> NUL) l"
proof -
  obtain pre post where v: "m_VecBuffer (m_buffer q) = pre @ contents (m_buffer q) @ post"
    and r: "length pre = m_iReadPosition (m_buffer q)"
    and w: "m_iWritePosition (m_buffer q) = length pre + length (contents (m_buffer q))"
    by (rule buf_split [OF ok])
  let ?b = "m_buffer q" and ?k = "length pre + length l"
  let ?v' = "(m_VecBuffer ?b)[?k := NUL, ?k + 1 := NUL]"
  let ?b' = "RetrieveUntil (?k + 2) (?b\<lparr>m_VecBuffer := ?v'\<rparr>)"
  have v': "m_VecBuffer ?b' = pre @ l @ NUL # NUL # rest @ post"
    by (simp add: v c list_update_append nat_less_le)
  have "take (m_iWritePosition ?b) (m_VecBuffer ?b) = pre @ l @ CR # LF # rest"
    using v w by (simp add: c)
  then have scan: "scan_line (take (m_iWritePosition ?b) (m_VecBuffer ?b)) (length pre)
      (length pre + i) = ScanOK ?k" if "i \<le> length l" for i
    using scan_line_full [OF l that] by simp
  have line: "ParseLine q = (eLineOK, q\<lparr>m_iReadPositionOffsetWhenParseLine := 0,
      m_sCurLine := Some (m_iReadPosition ?b), m_buffer := ?b'\<rparr>)"
    using scan [of "nat (m_iReadPositionOffsetWhenParseLine q)"] scan [of 0] off
    by (simp add: ParseLine_def Let_def r nat_le_iff)
  have tw: "takeWhile (\<lambda>c. c \<noteq> NUL) (drop (m_iReadPosition ?b) (m_VecBuffer ?b')) =
      takeWhile (\<lambda>c. c \<noteq> NUL) l"
    unfolding v' r [symmetric] using takeWhile_line [of l] by simp
  have pos: "m_iReadPosition ?b' = (if rest = [] then m_iReadPosition ?b else ?k + 2)"
    by (auto simp: RetrieveUntil_def Retrieve_def Let_def ReadableBytes_def w c r [symmetric])
  have ok': "buf_ok ?b'" and cont: "contents ?b' = (if rest = [] then l @ [NUL, NUL] else rest)"
    unfolding buf_ok_def contents_alt pos v' using w by (auto simp: c r [symmetric])
  show ?thesis using line tw pos ok' cont by (intro exI [of _ ?b']) auto
qed

lemma ParseLine_full:
  assumes ok: "buf_ok (m_buffer q)" and c: "contents (m_buffer q) = l @ CR # LF # rest"
    and l: "line_text l" and off: "m_iReadPositionOffsetWhenParseLine q \<le> 0"
  shows "\<exists>b'. ParseLine q = (eLineOK, q\<lparr>m_iReadPositionOffsetWhenParseLine := 0,
              m_sCurLine := Some (m_iReadPosition (m_buffer q)), m_buffer := b'\<rparr>) \<and>
            buf_ok b' \<and>
            contents b' = (if rest = [] then l @ [NUL, NUL] else rest) \<and>
            (rest = [] \<longrightarrow> m_iReadPosition b' = m_iReadPosition (m_buffer q)) \<and>
            takeWhile (\<lambda>c. c \<noteq> NUL) (drop (m_iReadPosition (m_buffer q)) (m_VecBuffer b')) = l"
proof -
  have lt: "CR \<notin> set l" "LF \<notin> set l" using l by (simp_all add: line_text_def)
  have "m_iReadPositionOffsetWhenParseLine q \<le> int (length l)" using off by simp
  from ParseLine_bytes [OF ok c lt this] show ?thesis unfolding line_text_id [OF l] .
qed

lemma ParseLine_open:
  assumes ok: "buf_ok (m_buffer q)" and c: "CR \<notin> set (contents (m_buffer q))"
    "LF \<notin> set (contents (m_buffer q))" and off: "m_iReadPositionOffsetWhenParseLine q \<le> 0"
  shows "ParseLine q = (eLineOpen, q\<lparr>m_iReadPositionOffsetWhenParseLine :=
           int (ReadableBytes (m_buffer q))\<rparr>)"
proof -
  obtain pre post where v: "m_VecBuffer (m_buffer q) = pre @ contents (m_buffer q) @ post"
    and r: "length pre = m_iReadPosition (m_buffer q)"
    and w: "m_iWritePosition (m_buffer q) = length pre + length (contents (m_buffer q))"
    by (rule buf_split [OF ok])
  have "take (m_iWritePosition (m_buffer q)) (m_VecBuffer (m_buffer q)) = pre @ contents (m_buffer q)"
    using v w by (metis append_eq_conv_conj append.assoc length_append)
  then show ?thesis
    using off scan_line_none [OF c, of pre] by (simp add: ParseLine_def Let_def r)
qed

section \<open>A request as a client writes it\<close>

definition CRLF :: string where "CRLF = [CR, LF]"

definition render_request_line :: "string \<Rightarrow> string \<Rightarrow> string \<Rightarrow> string" where
  "render_request_line mth path ver = mth @ '' '' @ path @ '' HTTP/'' @ ver"

definition render_header :: "string \<times> string \<Rightarrow> string" where
  "render_header kv = fst kv @ '': '' @ snd kv"

definition render_headers :: "(string \<times> string) list \<Rightarrow> string" where
  "render_headers hs = concat (map (\<lambda>kv. render_header kv @ CRLF) hs) @ CRLF"

definition token_ok :: "string \<Rightarrow> bool" where
  "token_ok s \<longleftrightarrow> line_text s \<and> CHR '' '' \<notin> set s"

definition header_ok :: "string \<times> string \<Rightarrow> bool" where
  "header_ok kv \<longleftrightarrow>
     line_text (fst kv) \<and> fst kv \<noteq> [] \<and> CHR '':'' \<notin> set (fst kv) \<and> last (fst kv) \<noteq> CHR '' '' \<and>
     line_text (snd kv) \<and> (snd kv \<noteq> [] \<longrightarrow> hd (snd kv) \<noteq> CHR '' '' \<and> last (snd kv) \<noteq> CHR '' '')"

lemma strip_trailing_id: "s = [] \<or> last s \<noteq> CHR '' '' \<Longrightarrow> strip_trailing s = s"
  by (cases s rule: rev_cases) (auto simp: strip_trailing_def)

lemma dropWhile_id: "s = [] \<or> \<not> P (hd s) \<Longrightarrow> dropWhile P s = s"
  by (cases s) auto

lemma ParseHeader_render:
  assumes "header_ok kv" "cur_line q = render_header kv"
  shows "ParseHeader q = (True, store_header (fst kv) (snd kv) q)"
proof -
  have "find_char (CHR '':'') (render_header kv) = Some (length (fst kv))"
    using assms(1) find_char_append [of "CHR '':''" "fst kv" "'' '' @ snd kv"]
    by (simp add: render_header_def header_ok_def)
  with assms show ?thesis
    by (auto simp: ParseHeader_def Let_def render_header_def header_ok_def strip_trailing_id
        dropWhile_id)
qed

text \<open>The state after a request line was read.\<close>

definition after_request_line :: "string \<Rightarrow> string \<Rightarrow> string \<Rightarrow> http_request \<Rightarrow> http_request" where
  "after_request_line mth path ver q =
     (let v = parse_http_version ver (m_iHttpVersionMajor q) (m_iHttpVersionMinor q) in
      (let q1 = q\<lparr>m_sMethod := mth, m_sPath := path, m_sProtocol := ver,
                  m_iHttpVersionMajor := fst v, m_iHttpVersionMinor := snd v\<rparr>
       in (if fst v = 1 \<and> snd v = 0 then q1\<lparr>m_bKeepAlive := False\<rparr> else q1)
            \<lparr>m_state := eParsingHeader\<rparr>))"

lemma ParseRequestLine_render:
  assumes "token_ok mth" "token_ok path" "cur_line q = render_request_line mth path ver"
  shows "ParseRequestLine q = (True, after_request_line mth path ver q)"
proof -
  have "find_char (CHR '' '') (render_request_line mth path ver) = Some (length mth)"
    using assms(1) find_char_append [of "CHR '' ''" mth]
    by (simp add: render_request_line_def token_ok_def)
  moreover have "drop (Suc (length mth)) (render_request_line mth path ver) = path @ '' HTTP/'' @ ver"
    by (simp add: render_request_line_def)
  moreover have "find_char (CHR '' '') (path @ '' HTTP/'' @ ver) = Some (length path)"
    using assms(2) find_char_append [of "CHR '' ''" path] by (simp add: token_ok_def)
  moreover have "take (length mth) (render_request_line mth path ver) = mth"
    by (simp add: render_request_line_def)
  ultimately show ?thesis
    by (simp add: ParseRequestLine_def after_request_line_def Let_def assms(3))
qed

text \<open>One full line seen by the loop, in either of the two line states.\<close>

lemma Parse_loop_line:
  assumes "buf_ok (m_buffer q)" "contents (m_buffer q) = l @ CR # LF # rest" "line_text l"
    and "m_iReadPositionOffsetWhenParseLine q \<le> 0"
  shows "\<exists>b' cl. ParseLine q = (eLineOK, q\<lparr>m_iReadPositionOffsetWhenParseLine := 0, m_sCurLine := cl, m_buffer := b'\<rparr>) \<and>
      buf_ok b' \<and> contents b' = (if rest = [] then l @ [NUL, NUL] else rest) \<and>
      cur_line (q\<lparr>m_iReadPositionOffsetWhenParseLine := 0, m_sCurLine := cl, m_buffer := b'\<rparr>) = l"
proof -
  obtain b' where b': "ParseLine q = (eLineOK, q\<lparr>m_iReadPositionOffsetWhenParseLine := 0,
      m_sCurLine := Some (m_iReadPosition (m_buffer q)), m_buffer := b'\<rparr>)"
    "buf_ok b'" "contents b' = (if rest = [] then l @ [NUL, NUL] else rest)"
    "takeWhile (\<lambda>c. c \<noteq> NUL) (drop (m_iReadPosition (m_buffer q)) (m_VecBuffer b')) = l"
    using ParseLine_full [OF assms] by blast
  show ?thesis
    by (rule exI [of _ b'], rule exI [of _ "Some (m_iReadPosition (m_buffer q))"])
      (simp add: cur_line_def b')
qed

definition stored :: "(string \<times> string) list \<Rightarrow> http_request \<Rightarrow> http_request" where
  "stored hs q = fold (\<lambda>kv. store_header (fst kv) (snd kv)) hs q"

lemma store_header_updates:
  "store_header k v (q\<lparr>m_iReadPositionOffsetWhenParseLine := o', m_sCurLine := cl, m_buffer := b\<rparr>) =
   (store_header k v q)\<lparr>m_iReadPositionOffsetWhenParseLine := o', m_sCurLine := cl, m_buffer := b\<rparr>"
  by (simp add: store_header_def Let_def)

lemma stored_updates:
  "stored hs (q\<lparr>m_iReadPositionOffsetWhenParseLine := o', m_sCurLine := cl, m_buffer := b\<rparr>) =
   (stored hs q)\<lparr>m_iReadPositionOffsetWhenParseLine := o', m_sCurLine := cl, m_buffer := b\<rparr>"
  by (induction hs arbitrary: q) (simp_all add: stored_def store_header_updates)

lemma stored_keeps [simp]:
  "m_buffer (stored hs q) = m_buffer q" "m_state (stored hs q) = m_state q"
  "m_sMethod (stored hs q) = m_sMethod q" "m_sPath (stored hs q) = m_sPath q"
  by (induction hs arbitrary: q) (simp_all add: stored_def store_header_def Let_def)

lemma render_headers_Cons:
  "render_headers (kv # hs) = render_header kv @ CR # LF # render_headers hs"
  by (simp add: render_headers_def CRLF_def)

lemma render_headers_ne: "render_headers hs \<noteq> []"
  by (simp add: render_headers_def CRLF_def)

lemma header_line: "header_ok kv \<Longrightarrow> line_text (render_header kv) \<and> render_header kv \<noteq> []"
  by (auto simp: render_header_def header_ok_def)

text \<open>
  The header block: the loop stores the headers in order and arrives at the body. When the
  received bytes end with the block, the two NULs of the empty line stay in the buffer.
\<close>

lemma Parse_loop_headers:
  assumes "buf_ok (m_buffer q)" "contents (m_buffer q) = render_headers hs @ body"
    and "list_all header_ok hs" and "m_iReadPositionOffsetWhenParseLine q \<le> 0"
    and "m_state q = eParsingHeader"
  shows "\<exists>b' cl. buf_ok b' \<and> contents b' = (if body = [] then [NUL, NUL] else body) \<and>
           Parse_loop q = Parse_loop ((stored hs q)\<lparr>m_iReadPositionOffsetWhenParseLine := 0,
             m_sCurLine := cl, m_buffer := b', m_state := eParsingBody\<rparr>)"
  using assms
proof (induction hs arbitrary: q)
  case Nil
  then have "contents (m_buffer q) = [] @ CR # LF # body"
    by (simp add: render_headers_def CRLF_def)
  from Parse_loop_line [OF Nil.prems(1) this line_text_Nil Nil.prems(4)] obtain b' cl where
    "ParseLine q = (eLineOK, q\<lparr>m_iReadPositionOffsetWhenParseLine := 0, m_sCurLine := cl, m_buffer := b'\<rparr>)"
    "buf_ok b'" "contents b' = (if body = [] then [NUL, NUL] else body)"
    "cur_line (q\<lparr>m_iReadPositionOffsetWhenParseLine := 0, m_sCurLine := cl, m_buffer := b'\<rparr>) = []"
    by (auto simp del: split_paired_All)
  with Nil.prems(5) show ?case
    by (intro exI [of _ b'] exI [of _ cl], subst (1) Parse_loop.simps) (simp add: stored_def)
next
  case (Cons kv hs)
  then have kv: "header_ok kv" and hs: "list_all header_ok hs" by simp_all
  have "contents (m_buffer q) = render_header kv @ CR # LF # (render_headers hs @ body)"
    using Cons.prems(2) by (simp add: render_headers_Cons)
  from Parse_loop_line [OF Cons.prems(1) this conjunct1 [OF header_line [OF kv]] Cons.prems(4)]
  obtain b' cl where
    p: "ParseLine q = (eLineOK, q\<lparr>m_iReadPositionOffsetWhenParseLine := 0, m_sCurLine := cl, m_buffer := b'\<rparr>)"
    "buf_ok b'" "contents b' = render_headers hs @ body"
    "cur_line (q\<lparr>m_iReadPositionOffsetWhenParseLine := 0, m_sCurLine := cl, m_buffer := b'\<rparr>) = render_header kv"
    by (simp add: render_headers_ne) blast
  let ?q1 = "q\<lparr>m_iReadPositionOffsetWhenParseLine := 0, m_sCurLine := cl, m_buffer := b'\<rparr>"
  let ?q2 = "store_header (fst kv) (snd kv) ?q1"
  have step: "Parse_loop q = Parse_loop ?q2"
    using p Cons.prems(5) header_line [OF kv] ParseHeader_render [OF kv p(4)]
    by (subst Parse_loop.simps) simp
  have q2: "?q2 = (store_header (fst kv) (snd kv) q)\<lparr>m_iReadPositionOffsetWhenParseLine := 0,
      m_sCurLine := cl, m_buffer := b'\<rparr>"
    by (rule store_header_updates)
  have upd: "(stored hs ?q2)\<lparr>m_iReadPositionOffsetWhenParseLine := 0, m_sCurLine := cl',
      m_buffer := b'', m_state := eParsingBody\<rparr> =
    (stored (kv # hs) q)\<lparr>m_iReadPositionOffsetWhenParseLine := 0, m_sCurLine := cl',
      m_buffer := b'', m_state := eParsingBody\<rparr>" for cl' b''
    by (simp add: q2 stored_updates) (simp add: stored_def)
  have "\<exists>b'' cl'. buf_ok b'' \<and> contents b'' = (if body = [] then [NUL, NUL] else body) \<and>
      Parse_loop ?q2 = Parse_loop ((stored hs ?q2)\<lparr>m_iReadPositionOffsetWhenParseLine := 0,
        m_sCurLine := cl', m_buffer := b'', m_state := eParsingBody\<rparr>)"
    using p Cons.prems(5) hs by (intro Cons.IH) (simp_all add: q2)
  then show ?case
    unfolding step upd .
qed

section \<open>A whole request\<close>

definition content_length_of :: "(string \<times> string) list \<Rightarrow> int \<Rightarrow> int" where
  "content_length_of hs d =
     fold (\<lambda>kv a. if fst kv = ''Content-Length'' then atoi (snd kv) else a) hs d"

lemma stored_headers: "m_mapHeader (stored hs q) =
    fold (\<lambda>kv. AList.update (fst kv) (snd kv)) hs (m_mapHeader q)"
  by (induction hs arbitrary: q) (simp_all add: stored_def store_header_def Let_def)

lemma stored_content_length: "m_iHttpRequsetContentLength (stored hs q) =
    content_length_of hs (m_iHttpRequsetContentLength q)"
  by (induction hs arbitrary: q)
    (simp_all add: stored_def store_header_def Let_def content_length_of_def)

lemma after_request_line_keeps [simp]:
  "m_buffer (after_request_line mth path ver q) = m_buffer q"
  "m_state (after_request_line mth path ver q) = eParsingHeader"
  "m_sMethod (after_request_line mth path ver q) = mth"
  "m_sPath (after_request_line mth path ver q) = path"
  "m_mapHeader (after_request_line mth path ver q) = m_mapHeader q"
  "m_iHttpRequsetContentLength (after_request_line mth path ver q) = m_iHttpRequsetContentLength q"
  "m_iReadPositionOffsetWhenParseLine (after_request_line mth path ver q) =
   m_iReadPositionOffsetWhenParseLine q"
  by (simp_all add: after_request_line_def Let_def)

lemma token_ok_line: "token_ok s \<Longrightarrow> line_text s"
  by (simp add: token_ok_def)

lemma request_line_text:
  "token_ok mth \<Longrightarrow> token_ok path \<Longrightarrow> line_text ver \<Longrightarrow> line_text (render_request_line mth path ver)"
  by (simp add: render_request_line_def token_ok_line)

text \<open>The request line, alone or followed by more bytes.\<close>

lemma Parse_request_line:
  assumes "buf_ok (m_buffer q)"
    and "contents (m_buffer q) = render_request_line mth path ver @ CRLF @ rest"
    and "token_ok mth" "token_ok path" "line_text ver"
    and "m_iReadPositionOffsetWhenParseLine q \<le> 0" "m_state q = eParsingStart"
  shows "\<exists>b' cl. buf_ok b' \<and>
      contents b' = (if rest = [] then render_request_line mth path ver @ [NUL, NUL] else rest) \<and>
      Parse q = Parse_loop (after_request_line mth path ver
        (q\<lparr>m_state := eParsingRequsetLine, m_iReadPositionOffsetWhenParseLine := 0,
           m_sCurLine := cl, m_buffer := b'\<rparr>))"
proof -
  let ?q = "q\<lparr>m_state := eParsingRequsetLine\<rparr>" and ?l = "render_request_line mth path ver"
  have c: "contents (m_buffer ?q) = ?l @ CR # LF # rest" and ok: "buf_ok (m_buffer ?q)"
    and off: "m_iReadPositionOffsetWhenParseLine ?q \<le> 0"
    using assms by (simp_all add: CRLF_def)
  obtain b' cl where p:
    "ParseLine ?q = (eLineOK, ?q\<lparr>m_iReadPositionOffsetWhenParseLine := 0, m_sCurLine := cl, m_buffer := b'\<rparr>)"
    "buf_ok b'" "contents b' = (if rest = [] then ?l @ [NUL, NUL] else rest)"
    "cur_line (?q\<lparr>m_iReadPositionOffsetWhenParseLine := 0, m_sCurLine := cl, m_buffer := b'\<rparr>) = ?l"
    using Parse_loop_line [OF ok c request_line_text [OF assms(3-5)] off] by blast
  let ?q1 = "?q\<lparr>m_iReadPositionOffsetWhenParseLine := 0, m_sCurLine := cl, m_buffer := b'\<rparr>"
  have "Parse q = Parse_loop (after_request_line mth path ver ?q1)"
    using p(1) ParseRequestLine_render [OF assms(3,4) p(4)] assms(7)
    by (subst Parse_def, subst Parse_loop.simps) simp
  with p(2,3) show ?thesis
    by (intro exI [of _ b'] exI [of _ cl]) simp
qed

text \<open>The body step on the buffer the header block left.\<close>

lemma Parse_loop_body:
  "m_state q = eParsingBody \<Longrightarrow> Parse_loop q =
     (if to_size_t (m_iHttpRequsetContentLength q) \<le> int (ReadableBytes (m_buffer q))
      then (eRequestOK, q\<lparr>m_state := eParsingFinish\<rparr>) else (eRequestIncomplete, q))"
  by (subst Parse_loop.simps) (simp add: ParseBody_def Let_def)

lemma ReadBody_contents:
  assumes "m_state q = eParsingFinish" "buf_ok (m_buffer q)"
    and "to_size_t (m_iHttpRequsetContentLength q) \<le> int (length (contents (m_buffer q)))"
  shows "ReadBody q = take (nat (to_size_t (m_iHttpRequsetContentLength q))) (contents (m_buffer q))"
proof -
  obtain pre post where "m_VecBuffer (m_buffer q) = pre @ contents (m_buffer q) @ post"
    and "length pre = m_iReadPosition (m_buffer q)"
    by (rule buf_split [OF assms(2)])
  then show ?thesis using assms(1,3) by (auto simp: ReadBody_def)
qed

lemma Parse_head:
  assumes "buf_ok (m_buffer q)"
    and "contents (m_buffer q) =
      render_request_line mth path ver @ CRLF @ render_headers hs @ body"
    and "token_ok mth" "token_ok path" "line_text ver" "list_all header_ok hs"
    and "m_iReadPositionOffsetWhenParseLine q \<le> 0" "m_state q = eParsingStart"
  shows "\<exists>q1. Parse q = Parse_loop q1 \<and> m_state q1 = eParsingBody \<and> buf_ok (m_buffer q1) \<and>
      contents (m_buffer q1) = (if body = [] then [NUL, NUL] else body) \<and>
      m_sMethod q1 = mth \<and> m_sPath q1 = path \<and>
      m_mapHeader q1 = fold (\<lambda>kv. AList.update (fst kv) (snd kv)) hs (m_mapHeader q) \<and>
      m_iHttpRequsetContentLength q1 = content_length_of hs (m_iHttpRequsetContentLength q)"
proof -
  obtain b' cl where a: "buf_ok b'" "contents b' = render_headers hs @ body"
    "Parse q = Parse_loop (after_request_line mth path ver
        (q\<lparr>m_state := eParsingRequsetLine, m_iReadPositionOffsetWhenParseLine := 0,
           m_sCurLine := cl, m_buffer := b'\<rparr>))"
    using Parse_request_line [OF assms(1,2,3,4,5,7,8)] by (auto simp: render_headers_ne)
  let ?q1 = "after_request_line mth path ver (q\<lparr>m_state := eParsingRequsetLine, m_iReadPositionOffsetWhenParseLine := 0,
           m_sCurLine := cl, m_buffer := b'\<rparr>)"
  have "\<exists>b'' cl'. buf_ok b'' \<and> contents b'' = (if body = [] then [NUL, NUL] else body) \<and>
      Parse_loop ?q1 = Parse_loop ((stored hs ?q1)\<lparr>m_iReadPositionOffsetWhenParseLine := 0,
        m_sCurLine := cl', m_buffer := b'', m_state := eParsingBody\<rparr>)"
    by (rule Parse_loop_headers) (use a assms in simp_all)
  then obtain b'' cl' where b: "buf_ok b''" "contents b'' = (if body = [] then [NUL, NUL] else body)"
    "Parse_loop ?q1 = Parse_loop ((stored hs ?q1)\<lparr>m_iReadPositionOffsetWhenParseLine := 0,
        m_sCurLine := cl', m_buffer := b'', m_state := eParsingBody\<rparr>)"
    by blast
  show ?thesis
    by (rule exI [of _ "(stored hs ?q1)\<lparr>m_iReadPositionOffsetWhenParseLine := 0,
        m_sCurLine := cl', m_buffer := b'', m_state := eParsingBody\<rparr>"])
      (simp add: a(3) b stored_headers stored_content_length)
qed

section \<open>Safety of the parser\<close>

lemma ParseLine_buffer_ok:
  assumes "buf_ok (m_buffer q)"
  shows "buf_ok (m_buffer (snd (ParseLine q)))"
proof (cases "ParseLine q")
  case (Pair r q1)
  show ?thesis
  proof (cases r)
    case eLineOK
    with Pair have "ParseLine q = (eLineOK, q1)" by simp
    then obtain k where "q1 = q\<lparr>m_iReadPositionOffsetWhenParseLine := 0,
        m_sCurLine := Some (m_iReadPosition (m_buffer q)),
        m_buffer := RetrieveUntil (k + 2)
          ((m_buffer q)\<lparr>m_VecBuffer := (m_VecBuffer (m_buffer q))[k := NUL, k + 1 := NUL]\<rparr>)\<rparr>"
      by (rule ParseLine_OK_shape)
    with Pair assms show ?thesis
      by (auto simp: RetrieveUntil_def Retrieve_def Let_def buf_ok_def ReadableBytes_def
          RetriveAll_def Reset_def)
  qed (use Pair assms in \<open>auto simp: ParseLine_def Let_def split: line_scan.splits\<close>)
qed

lemma Parse_loop_step:
  assumes "m_state q \<noteq> eParsingBody" "ParseLine q = (r, q1)"
  shows "Parse_loop q = (case r of
        eLineOK \<Rightarrow> (case m_state q1 of
            eParsingRequsetLine \<Rightarrow>
              (if fst (ParseRequestLine q1) then Parse_loop (snd (ParseRequestLine q1))
               else (eRequestBad, snd (ParseRequestLine q1)))
          | eParsingHeader \<Rightarrow>
              (if length (cur_line q1) \<noteq> 0 then
                 (if fst (ParseHeader q1) then Parse_loop (snd (ParseHeader q1))
                  else (eRequestBad, snd (ParseHeader q1)))
               else Parse_loop (q1\<lparr>m_state := eParsingBody\<rparr>))
          | _ \<Rightarrow> Parse_loop q1)
      | eLineOpen \<Rightarrow> (eRequestIncomplete, q1) | eLineBad \<Rightarrow> (eRequestBad, q1))"
  using assms(1) by (subst Parse_loop.simps) (simp add: assms(2))

lemma Parse_loop_ok:
  "buf_ok (m_buffer q) \<Longrightarrow> buf_ok (m_buffer (snd (Parse_loop q)))"
proof (induction q rule: Parse_loop.induct)
  case (1 q)
  show ?case
  proof (cases "m_state q = eParsingBody")
    case True
    with "1.prems" show ?thesis by (simp add: Parse_loop_body)
  next
    case False
    obtain r q1 where pl: "ParseLine q = (r, q1)" by (cases "ParseLine q")
    with ParseLine_buffer_ok [OF "1.prems"] have ok: "buf_ok (m_buffer q1)" by simp
    note run = Parse_loop_step [OF False pl]
    show ?thesis
    proof (cases r)
      case eLineOK
      note ih = "1.IH" [OF False pl [symmetric] eLineOK]
      show ?thesis
        using ih ok by (cases "m_state q1")
          (auto simp: run eLineOK ParseRequestLine_buffer ParseHeader_buffer)
    qed (use run ok in simp_all)
  qed
qed

lemma Parse_loop_finish:
  assumes "Parse_loop q = (eRequestOK, q')"
  shows "m_state q' = eParsingFinish \<and>
    to_size_t (m_iHttpRequsetContentLength q') \<le> int (ReadableBytes (m_buffer q'))"
  using assms
proof (induction q rule: Parse_loop.induct)
  case (1 q)
  show ?case
  proof (cases "m_state q = eParsingBody")
    case True
    with "1.prems" show ?thesis by (auto simp: Parse_loop_body split: if_splits)
  next
    case False
    obtain r q1 where pl: "ParseLine q = (r, q1)" by (cases "ParseLine q")
    note run = Parse_loop_step [OF False pl]
    show ?thesis
    proof (cases r)
      case eLineOK
      note ih = "1.IH" [OF False pl [symmetric] eLineOK]
      show ?thesis
        using ih "1.prems" by (cases "m_state q1") (auto simp: run eLineOK split: if_splits)
    qed (use run "1.prems" in simp_all)
  qed
qed

section \<open>Resuming a line\<close>

fun shift_scan :: "nat \<Rightarrow> line_scan \<Rightarrow> line_scan" where
  "shift_scan n (ScanOK k) = ScanOK (n + k)"
| "shift_scan n ScanBad = ScanBad"
| "shift_scan n ScanOpen = ScanOpen"

lemma scan_line_shift:
  "scan_line (pre @ c) (length pre) (length pre + i) = shift_scan (length pre) (scan_line c 0 i)"
proof (induction "length c - i" arbitrary: i rule: less_induct)
  case less
  show ?case
  proof (cases "i < length c \<and> c ! i \<noteq> CR \<and> c ! i \<noteq> LF")
    case True
    then have "length c - Suc i < length c - i" by auto
    from less [OF this] True show ?thesis
      by (subst (1 2) scan_line.simps) (simp add: nth_append)
  next
    case False
    then consider "length c \<le> i" | "i < length c" "c ! i = CR" | "i < length c" "c ! i = LF"
      by force
    then show ?thesis
      by cases (subst (1 2) scan_line.simps; auto simp: nth_append Suc_diff_le)+
  qed
qed

lemma scan_line_resume:
  assumes "scan_line c 0 i = ScanOpen" "i \<le> length c"
    and "c \<noteq> [] \<longrightarrow> last c = CR \<longrightarrow> d \<noteq> [] \<longrightarrow> hd d = LF"
  shows "scan_line (c @ d) 0 i = scan_line (c @ d) 0 (length c)"
  using assms(1,2)
proof (induction "length c - i" arbitrary: i rule: less_induct)
  case less
  show ?case
  proof (cases "i = length c")
    case False
    with less.prems have i: "i < length c" by simp
    with less.prems have n: "c ! i \<noteq> LF" "c ! i = CR \<longrightarrow> Suc i = length c"
      "c ! i \<noteq> CR \<longrightarrow> scan_line c 0 (Suc i) = ScanOpen"
      by (auto simp: scan_line.simps [of c 0 i] split: if_splits)
    show ?thesis
    proof (cases "c ! i = CR")
      case True
      with n have s: "Suc i = length c" by simp
      with True i have "last c = CR"
        by (metis diff_Suc_1 last_conv_nth list.size(3) not_less_zero)
      with assms(3) i have "d \<noteq> [] \<longrightarrow> hd d = LF" by auto
      moreover from s have "length c - Suc 0 = i" by simp
      ultimately show ?thesis using s True i n(1)
        by (cases d; subst (1 2) scan_line.simps) (auto simp: nth_append)
    next
      case False
      with n less.hyps [of "Suc i"] i n(1) show ?thesis
        by (subst scan_line.simps) (simp add: nth_append)
    qed
  qed simp
qed

lemma take_wpos:
  assumes "buf_ok b"
  obtains pre where "take (m_iWritePosition b) (m_VecBuffer b) = pre @ contents b"
    and "length pre = m_iReadPosition b"
proof -
  obtain pre post where "m_VecBuffer b = pre @ contents b @ post" "length pre = m_iReadPosition b"
    "m_iWritePosition b = length pre + length (contents b)"
    by (rule buf_split [OF assms])
  then show thesis by (intro that [of pre]) simp_all
qed

lemma scan_of_contents:
  assumes "buf_ok b"
  shows "scan_line (take (m_iWritePosition b) (m_VecBuffer b)) (m_iReadPosition b)
           (m_iReadPosition b + i) = shift_scan (m_iReadPosition b) (scan_line (contents b) 0 i)"
proof -
  obtain pre where p: "take (m_iWritePosition b) (m_VecBuffer b) = pre @ contents b"
    and "length pre = m_iReadPosition b" using assms by (rule take_wpos)
  then show ?thesis using scan_line_shift [of pre "contents b" i] by (simp only: p)
qed

lemma shift_scan_Open:
  "shift_scan n x = ScanOpen \<longleftrightarrow> x = ScanOpen" "ScanOpen = shift_scan n x \<longleftrightarrow> x = ScanOpen"
  by (cases x; auto)+

lemma ParseLine_offset:
  assumes "buf_ok (m_buffer q)" "0 \<le> off"
    and "scan_line (contents (m_buffer q)) 0 (nat off) = scan_line (contents (m_buffer q)) 0 0"
    and "m_iReadPositionOffsetWhenParseLine q' = off"
    and "q' = q\<lparr>m_iReadPositionOffsetWhenParseLine := off\<rparr>" "m_iReadPositionOffsetWhenParseLine q \<le> 0"
  shows "ParseLine q' = ParseLine q"
proof -
  let ?b = "m_buffer q"
  have "scan_line (take (m_iWritePosition ?b) (m_VecBuffer ?b)) (m_iReadPosition ?b)
          (m_iReadPosition ?b + nat off) =
        scan_line (take (m_iWritePosition ?b) (m_VecBuffer ?b)) (m_iReadPosition ?b) (m_iReadPosition ?b)"
    using scan_of_contents [OF assms(1), of "nat off"] scan_of_contents [OF assms(1), of 0] assms(3)
    by simp
  with assms(2,5,6) show ?thesis
    by (cases "off = 0") (simp_all add: ParseLine_def Let_def)
qed

section \<open>Properties\<close>

text \<open>
  C1: A request whose bytes are all in the buffer is parsed completely: for every method and
  target without spaces, every HTTP version, every list of well-formed headers and every body
  at least as long as the announced length, \<open>Parse\<close> answers \<open>eRequestOK\<close>, the fields hold the
  method, the target and the headers (the last value of a repeated name), and \<open>ReadBody\<close> is
  the announced number of body bytes.
\<close>

theorem Parse_complete_request:
  assumes "buf_ok (m_buffer q)"
    and "contents (m_buffer q) =
      render_request_line mth path ver @ CRLF @ render_headers hs @ body"
    and "token_ok mth" "token_ok path" "line_text ver" "list_all header_ok hs"
    and "m_iReadPositionOffsetWhenParseLine q \<le> 0" "m_state q = eParsingStart"
    and "m_iHttpRequsetContentLength q = 0" "m_mapHeader q = []"
    and "0 \<le> content_length_of hs 0" "content_length_of hs 0 < 2 ^ 64"
    and "content_length_of hs 0 \<le> int (length body)"
  shows "\<exists>q'. Parse q = (eRequestOK, q') \<and> m_sMethod q' = mth \<and> m_sPath q' = path \<and>
      m_mapHeader q' = fold (\<lambda>kv. AList.update (fst kv) (snd kv)) hs [] \<and>
      ReadBody q' = take (nat (content_length_of hs 0)) body"
proof -
  let ?n = "content_length_of hs 0"
  have n: "to_size_t ?n = ?n" using assms(11,12) by (simp add: to_size_t_def)
  obtain q1 where q1: "Parse q = Parse_loop q1" "m_state q1 = eParsingBody" "buf_ok (m_buffer q1)"
    "contents (m_buffer q1) = (if body = [] then [NUL, NUL] else body)"
    "m_sMethod q1 = mth" "m_sPath q1 = path"
    "m_mapHeader q1 = fold (\<lambda>kv. AList.update (fst kv) (snd kv)) hs []"
    "m_iHttpRequsetContentLength q1 = ?n"
    using Parse_head [OF assms(1-8)] assms(9,10) by auto
  have le: "?n \<le> int (length (contents (m_buffer q1)))"
    using assms(13) by (auto simp: q1(4))
  have "?n \<le> int (ReadableBytes (m_buffer q1))"
    using le length_contents [OF q1(3)] by simp
  then have "Parse q = (eRequestOK, q1\<lparr>m_state := eParsingFinish\<rparr>)"
    using q1 n by (simp add: Parse_loop_body)
  moreover have "ReadBody (q1\<lparr>m_state := eParsingFinish\<rparr>) = take (nat ?n) (contents (m_buffer q1))"
    by (subst ReadBody_contents) (use q1 n le in simp_all)
  moreover have "take (nat ?n) (contents (m_buffer q1)) = take (nat ?n) body"
    using assms(13) by (cases "body = []") (simp_all add: q1(4))
  ultimately show ?thesis using q1 by simp
qed

text \<open>A request in a buffer that holds exactly the given bytes, for the witnesses.\<close>

definition sample_buffer :: "string \<Rightarrow> buffer" where
  "sample_buffer s = \<lparr>m_VecBuffer = s, m_iReadPosition = 0, m_iWritePosition = length s\<rparr>"

definition sample_request :: "string \<Rightarrow> http_request" where
  "sample_request s = (mk_request 5)\<lparr>m_buffer := sample_buffer s\<rparr>"

lemma sample_buffer_simps [simp]: "buf_ok (sample_buffer s)" "contents (sample_buffer s) = s"
  by (simp_all add: sample_buffer_def buf_ok_def contents_def ReadableBytes_def)

lemma sample_request_simps [simp]:
  "m_buffer (sample_request s) = sample_buffer s"
  "m_state (sample_request s) = eParsingStart" "m_mapHeader (sample_request s) = []"
  "m_iHttpRequsetContentLength (sample_request s) = 0"
  "m_iReadPositionOffsetWhenParseLine (sample_request s) = - 1"
  by (simp_all add: sample_request_def mk_request_def Request_Reset_def)

lemmas request_text_defs = token_ok_def header_ok_def content_length_of_def atoi_def
  strtol_val_def dec_val_def is_digit_def digit_val_def c_isspace_def

theorem Parse_complete_request_witness:
  "\<exists>q'. Parse (sample_request (render_request_line ''POST'' ''/a'' ''1.1'' @ CRLF @
         render_headers [(''Content-Length'', ''2'')] @ ''hi'')) = (eRequestOK, q') \<and>
       m_sPath q' = ''/a'' \<and> ReadBody q' = ''hi''"
  using Parse_complete_request [of "sample_request (render_request_line ''POST'' ''/a'' ''1.1'' @
      CRLF @ render_headers [(''Content-Length'', ''2'')] @ ''hi'')" "''POST''" "''/a''" "''1.1''"
      "[(''Content-Length'', ''2'')]" "''hi''"]
  by (auto simp: request_text_defs)

text \<open>
  A body may arrive in several reads. When the bytes received so far hold the head and a
  non-empty part of the body, \<open>Parse\<close> answers \<open>eRequestIncomplete\<close>, and a later call on the
  same request, with the rest appended to the buffer, answers \<open>eRequestOK\<close> and reads exactly
  the announced bytes.
\<close>

theorem Parse_resumes_body:
  assumes "buf_ok (m_buffer q)"
    and "contents (m_buffer q) =
      render_request_line mth path ver @ CRLF @ render_headers hs @ part"
    and "token_ok mth" "token_ok path" "line_text ver" "list_all header_ok hs"
    and "m_iReadPositionOffsetWhenParseLine q \<le> 0" "m_state q = eParsingStart"
    and "m_iHttpRequsetContentLength q = 0" "m_mapHeader q = []"
    and "part \<noteq> []" "int (length part) < content_length_of hs 0"
    and "content_length_of hs 0 \<le> int (length (part @ rest))" "content_length_of hs 0 < 2 ^ 64"
  shows "\<exists>q1. Parse q = (eRequestIncomplete, q1) \<and> contents (m_buffer q1) = part \<and>
      (\<forall>b. buf_ok b \<and> contents b = contents (m_buffer q1) @ rest \<longrightarrow>
         (\<exists>q2. Parse (q1\<lparr>m_buffer := b\<rparr>) = (eRequestOK, q2) \<and>
               ReadBody q2 = take (nat (content_length_of hs 0)) (part @ rest)))"
proof -
  let ?n = "content_length_of hs 0"
  have n: "to_size_t ?n = ?n" using assms(12,14) by (simp add: to_size_t_def)
  obtain q1 where q1: "Parse q = Parse_loop q1" "m_state q1 = eParsingBody" "buf_ok (m_buffer q1)"
    "contents (m_buffer q1) = part" "m_iHttpRequsetContentLength q1 = ?n"
    using Parse_head [OF assms(1-8)] assms(9-11) by auto
  have "int (ReadableBytes (m_buffer q1)) < ?n"
    using length_contents [OF q1(3)] q1(4) assms(12) by simp
  then have inc: "Parse q = (eRequestIncomplete, q1)"
    using q1 n by (simp add: Parse_loop_body)
  have "\<exists>q2. Parse (q1\<lparr>m_buffer := b\<rparr>) = (eRequestOK, q2) \<and>
               ReadBody q2 = take (nat ?n) (part @ rest)"
    if b: "buf_ok b" "contents b = part @ rest" for b
  proof -
    let ?q2 = "q1\<lparr>m_buffer := b, m_state := eParsingFinish\<rparr>"
    have "?n \<le> int (ReadableBytes b)"
      using length_contents [OF b(1)] b(2) assms(13) by simp
    then have "Parse (q1\<lparr>m_buffer := b\<rparr>) = (eRequestOK, ?q2)"
      using q1 n by (simp add: Parse_def Parse_loop_body)
    moreover have "ReadBody ?q2 = take (nat ?n) (contents b)"
      by (subst ReadBody_contents) (use q1 n b assms(13) in simp_all)
    ultimately show ?thesis using b by simp
  qed
  with inc q1(4) show ?thesis by auto
qed

theorem Parse_resumes_body_witness:
  "\<exists>q1 q2. Parse (sample_request (render_request_line ''POST'' ''/a'' ''1.1'' @ CRLF @
         render_headers [(''Content-Length'', ''3'')] @ ''h'')) = (eRequestIncomplete, q1) \<and>
       Parse (q1\<lparr>m_buffer := sample_buffer ''hey''\<rparr>) = (eRequestOK, q2) \<and> ReadBody q2 = ''hey''"
proof -
  obtain q1 where "Parse (sample_request (render_request_line ''POST'' ''/a'' ''1.1'' @ CRLF @
         render_headers [(''Content-Length'', ''3'')] @ ''h'')) = (eRequestIncomplete, q1)"
    and "contents (m_buffer q1) = ''h''"
    and "\<forall>b. buf_ok b \<and> contents b = contents (m_buffer q1) @ ''ey'' \<longrightarrow>
         (\<exists>q2. Parse (q1\<lparr>m_buffer := b\<rparr>) = (eRequestOK, q2) \<and>
               ReadBody q2 = take (nat (content_length_of [(''Content-Length'', ''3'')] 0)) (''h'' @ ''ey''))"
    using Parse_resumes_body [of "sample_request (render_request_line ''POST'' ''/a'' ''1.1'' @
      CRLF @ render_headers [(''Content-Length'', ''3'')] @ ''h'')" "''POST''" "''/a''" "''1.1''"
      "[(''Content-Length'', ''3'')]" "''h''" "''ey''"]
    by (auto simp: request_text_defs)
  then show ?thesis
    by (auto simp: request_text_defs)
qed

lemma Parse_bad_header:
  assumes "ParseLine q = (eLineOK, q1)" "m_state q = eParsingHeader" "m_state q1 = eParsingHeader"
    and "cur_line q1 = l" "l \<noteq> []" "CHR '':'' \<notin> set l"
  shows "fst (Parse q) = eRequestBad"
proof -
  have "fst (ParseHeader q1) = False"
    using assms(4,6) by (simp add: ParseHeader_def Let_def find_char_None [THEN iffD2])
  then show ?thesis using assms by (simp add: Parse_def Parse_loop_step)
qed

text \<open>
  The parser depends on how the bytes are split: when a read ends exactly with the request
  line, the line is parsed but its bytes stay in the buffer, and the next header line makes
  the parser see the request line again. Whatever well-formed header line arrives then, the
  request is refused as \<open>eRequestBad\<close> (for every method, target and version without a colon).
\<close>

theorem Parse_split_after_request_line:
  assumes "buf_ok (m_buffer q)"
    and "contents (m_buffer q) = render_request_line mth path ver @ CRLF"
    and "token_ok mth" "token_ok path" "line_text ver"
    and "CHR '':'' \<notin> set (mth @ path @ ver)"
    and "m_iReadPositionOffsetWhenParseLine q \<le> 0" "m_state q = eParsingStart"
  shows "\<exists>q1. Parse q = (eRequestIncomplete, q1) \<and>
      (\<forall>b x y. buf_ok b \<and> contents b = contents (m_buffer q1) @ x @ CRLF @ y \<and> line_text x \<longrightarrow>
         fst (Parse (q1\<lparr>m_buffer := b\<rparr>)) = eRequestBad)"
proof -
  let ?l = "render_request_line mth path ver"
  have lt: "line_text ?l" using assms(3-5) by (rule request_line_text)
  have colon: "CHR '':'' \<notin> set ?l" "?l \<noteq> []"
    using assms(6) by (auto simp: render_request_line_def)
  obtain b' cl where p: "buf_ok b'" "contents b' = ?l @ [NUL, NUL]"
    "Parse q = Parse_loop (after_request_line mth path ver
        (q\<lparr>m_state := eParsingRequsetLine, m_iReadPositionOffsetWhenParseLine := 0,
           m_sCurLine := cl, m_buffer := b'\<rparr>))"
    using Parse_request_line [of q mth path ver "[]"] assms by auto
  let ?q2 = "after_request_line mth path ver (q\<lparr>m_state := eParsingRequsetLine,
    m_iReadPositionOffsetWhenParseLine := 0, m_sCurLine := cl, m_buffer := b'\<rparr>)"
  let ?q1 = "?q2\<lparr>m_iReadPositionOffsetWhenParseLine := int (length ?l + 2)\<rparr>"
  have "ReadableBytes b' = length ?l + 2"
    using length_contents [OF p(1)] p(2) by simp
  moreover have "ParseLine ?q2 = (eLineOpen, ?q2\<lparr>m_iReadPositionOffsetWhenParseLine :=
      int (ReadableBytes (m_buffer ?q2))\<rparr>)"
    by (rule ParseLine_open) (use p lt in \<open>auto simp: line_text_def\<close>)
  ultimately have inc: "Parse q = (eRequestIncomplete, ?q1)"
    by (simp add: p(3) Parse_loop_step)
  have "fst (Parse (?q1\<lparr>m_buffer := b\<rparr>)) = eRequestBad"
    if b: "buf_ok b" "contents b = contents b' @ x @ CRLF @ y" "line_text x" for b x y
  proof -
    let ?q3 = "?q1\<lparr>m_buffer := b\<rparr>" and ?l' = "?l @ [NUL, NUL] @ x"
    have ok3: "buf_ok (m_buffer ?q3)" and c3: "contents (m_buffer ?q3) = ?l' @ CR # LF # y"
      and cr: "CR \<notin> set ?l'" "LF \<notin> set ?l'"
      and off: "m_iReadPositionOffsetWhenParseLine ?q3 \<le> int (length ?l')"
      using b p(2) lt by (auto simp: CRLF_def line_text_def)
    obtain b3 where b3: "ParseLine ?q3 = (eLineOK, ?q3\<lparr>m_iReadPositionOffsetWhenParseLine := 0,
        m_sCurLine := Some (m_iReadPosition (m_buffer ?q3)), m_buffer := b3\<rparr>)"
      "takeWhile (\<lambda>c. c \<noteq> NUL) (drop (m_iReadPosition (m_buffer ?q3)) (m_VecBuffer b3)) =
       takeWhile (\<lambda>c. c \<noteq> NUL) ?l'"
      using ParseLine_bytes [OF ok3 c3 cr off] by blast
    let ?q4 = "?q3\<lparr>m_iReadPositionOffsetWhenParseLine := 0,
        m_sCurLine := Some (m_iReadPosition (m_buffer ?q3)), m_buffer := b3\<rparr>"
    have cur: "cur_line ?q4 = ?l"
      using b3(2) takeWhile_line [of ?l "NUL # x"] by (simp add: cur_line_def line_text_id [OF lt])
    show ?thesis
      by (rule Parse_bad_header [OF b3(1) _ _ cur colon(2,1)]) simp_all
  qed
  with inc show ?thesis by auto
qed

theorem Parse_split_after_request_line_witness:
  "\<exists>q1. Parse (sample_request (render_request_line ''GET'' ''/'' ''1.1'' @ CRLF)) =
          (eRequestIncomplete, q1) \<and>
        fst (Parse (q1\<lparr>m_buffer := sample_buffer (contents (m_buffer q1) @ ''Host'' @ CRLF @ CRLF)\<rparr>)) =
          eRequestBad"
proof -
  let ?q = "sample_request (render_request_line ''GET'' ''/'' ''1.1'' @ CRLF)"
  have "\<exists>q1. Parse ?q = (eRequestIncomplete, q1) \<and>
      (\<forall>b x y. buf_ok b \<and> contents b = contents (m_buffer q1) @ x @ CRLF @ y \<and> line_text x \<longrightarrow>
         fst (Parse (q1\<lparr>m_buffer := b\<rparr>)) = eRequestBad)"
    by (rule Parse_split_after_request_line [of ?q "''GET''" "''/''" "''1.1''"])
      (simp_all add: token_ok_def)
  then obtain q1 where q1: "Parse ?q = (eRequestIncomplete, q1)"
    "\<forall>b x y. buf_ok b \<and> contents b = contents (m_buffer q1) @ x @ CRLF @ y \<and> line_text x \<longrightarrow>
         fst (Parse (q1\<lparr>m_buffer := b\<rparr>)) = eRequestBad"
    by blast
  have "fst (Parse (q1\<lparr>m_buffer := sample_buffer (contents (m_buffer q1) @ ''Host'' @ CRLF @ CRLF)\<rparr>)) =
      eRequestBad"
    by (rule q1(2) [rule_format, of _ "''Host''" CRLF]) simp
  with q1(1) show ?thesis by blast
qed

text \<open>
  The same at the end of the header block: when a read ends exactly with the empty line and
  a body is announced, the two NUL bytes written over the terminator stay in front of the
  body, so the body that arrives next is read as two NULs followed by all but its last two
  bytes.
\<close>

theorem Parse_split_after_head:
  assumes "buf_ok (m_buffer q)"
    and "contents (m_buffer q) = render_request_line mth path ver @ CRLF @ render_headers hs"
    and "token_ok mth" "token_ok path" "line_text ver" "list_all header_ok hs"
    and "m_iReadPositionOffsetWhenParseLine q \<le> 0" "m_state q = eParsingStart"
    and "m_iHttpRequsetContentLength q = 0" "m_mapHeader q = []"
    and "content_length_of hs 0 = int (length body)" "2 < length body" "int (length body) < 2 ^ 64"
  shows "\<exists>q1. Parse q = (eRequestIncomplete, q1) \<and>
      (\<forall>b. buf_ok b \<and> contents b = contents (m_buffer q1) @ body \<longrightarrow>
         (\<exists>q2. Parse (q1\<lparr>m_buffer := b\<rparr>) = (eRequestOK, q2) \<and>
               ReadBody q2 = NUL # NUL # take (length body - 2) body))"
proof -
  let ?n = "content_length_of hs 0"
  have n: "to_size_t ?n = ?n" using assms(11,13) by (simp add: to_size_t_def)
  have "contents (m_buffer q) = render_request_line mth path ver @ CRLF @ render_headers hs @ []"
    using assms(2) by simp
  from Parse_head [OF assms(1) this assms(3-8)]
  obtain q1 where q1: "Parse q = Parse_loop q1" "m_state q1 = eParsingBody" "buf_ok (m_buffer q1)"
    "contents (m_buffer q1) = [NUL, NUL]" "m_iHttpRequsetContentLength q1 = ?n"
    using assms(9,10) by auto
  have "int (ReadableBytes (m_buffer q1)) < ?n"
    using length_contents [OF q1(3)] q1(4) assms(11,12) by simp
  then have inc: "Parse q = (eRequestIncomplete, q1)"
    using q1 n by (simp add: Parse_loop_body)
  have "\<exists>q2. Parse (q1\<lparr>m_buffer := b\<rparr>) = (eRequestOK, q2) \<and>
               ReadBody q2 = NUL # NUL # take (length body - 2) body"
    if b: "buf_ok b" "contents b = [NUL, NUL] @ body" for b
  proof -
    let ?q2 = "q1\<lparr>m_buffer := b, m_state := eParsingFinish\<rparr>"
    have "?n \<le> int (ReadableBytes b)"
      using length_contents [OF b(1)] b(2) assms(11) by simp
    then have "Parse (q1\<lparr>m_buffer := b\<rparr>) = (eRequestOK, ?q2)"
      using q1 n by (simp add: Parse_def Parse_loop_body)
    moreover have "ReadBody ?q2 = take (nat ?n) (contents b)"
      by (subst ReadBody_contents) (use q1 n b assms(11) in simp_all)
    moreover have "take (length body) (contents b) = NUL # NUL # take (length body - 2) body"
      using assms(12) b(2) by (auto simp: take_Cons' numeral_2_eq_2)
    ultimately show ?thesis using assms(11) by simp
  qed
  with inc q1(4) show ?thesis by auto
qed

theorem Parse_split_after_head_witness:
  "\<exists>q1 q2. Parse (sample_request (render_request_line ''POST'' ''/a'' ''1.1'' @ CRLF @
         render_headers [(''Content-Length'', ''4'')])) = (eRequestIncomplete, q1) \<and>
       Parse (q1\<lparr>m_buffer := sample_buffer (contents (m_buffer q1) @ ''body'')\<rparr>) = (eRequestOK, q2) \<and>
       ReadBody q2 = NUL # NUL # ''bo''"
proof -
  let ?q = "sample_request (render_request_line ''POST'' ''/a'' ''1.1'' @ CRLF @
         render_headers [(''Content-Length'', ''4'')])"
  have "\<exists>q1. Parse ?q = (eRequestIncomplete, q1) \<and>
      (\<forall>b. buf_ok b \<and> contents b = contents (m_buffer q1) @ ''body'' \<longrightarrow>
         (\<exists>q2. Parse (q1\<lparr>m_buffer := b\<rparr>) = (eRequestOK, q2) \<and>
               ReadBody q2 = NUL # NUL # take (length ''body'' - 2) ''body''))"
    by (rule Parse_split_after_head [where mth = "''POST''" and path = "''/a''" and ver = "''1.1''"
        and hs = "[(''Content-Length'', ''4'')]"]) (simp_all add: request_text_defs)
  then show ?thesis by fastforce
qed

text \<open>
  The request state machine is safe and never reports a request too early: on any bytes
  whatsoever the buffer's positions stay inside the buffer, and whenever \<open>Parse\<close> answers
  \<open>eRequestOK\<close> the state is \<open>eParsingFinish\<close> and \<open>ReadBody\<close> has exactly the announced length
  (a \<open>size_t\<close>; a negative header value is a huge length and never completes).
\<close>

theorem Parse_safe:
  assumes "buf_ok (m_buffer q)" "Parse q = (r, q')"
  shows "buf_ok (m_buffer q') \<and>
    (r = eRequestOK \<longrightarrow> m_state q' = eParsingFinish \<and>
       int (length (ReadBody q')) = to_size_t (m_iHttpRequsetContentLength q'))"
proof -
  let ?q = "if m_state q = eParsingStart then q\<lparr>m_state := eParsingRequsetLine\<rparr> else q"
  have run: "Parse_loop ?q = (r, q')" using assms(2) by (simp add: Parse_def)
  have "buf_ok (m_buffer ?q)" using assms(1) by simp
  from Parse_loop_ok [OF this] run have ok: "buf_ok (m_buffer q')" by simp
  moreover have "m_state q' = eParsingFinish \<and>
       int (length (ReadBody q')) = to_size_t (m_iHttpRequsetContentLength q')" if "r = eRequestOK"
  proof -
    from run that have "Parse_loop ?q = (eRequestOK, q')" by simp
    note fin = Parse_loop_finish [OF this]
    have "0 \<le> to_size_t (m_iHttpRequsetContentLength q')" by (simp add: to_size_t_def)
    with fin ReadBody_contents [of q'] ok length_contents [OF ok] show ?thesis
      by (simp add: min_def) linarith
  qed
  ultimately show ?thesis by blast
qed

theorem Parse_safe_witness:
  "buf_ok (m_buffer (snd (Parse (sample_request [CR, CR, LF]))))"
  using Parse_safe [of "sample_request [CR, CR, LF]" "fst (Parse (sample_request [CR, CR, LF]))"
      "snd (Parse (sample_request [CR, CR, LF]))"] by simp

text \<open>
  Resuming a line from the remembered offset is the same as scanning it from the start: if
  \<open>ParseLine\<close> found no complete line, then after more bytes have been appended (and the buffer
  possibly compacted or grown) it answers exactly as it would with the offset at zero, provided
  a carriage return at the end of the first part is followed by a line feed.
\<close>

theorem ParseLine_resume:
  assumes "buf_ok (m_buffer q)" "m_iReadPositionOffsetWhenParseLine q \<le> 0"
    and "ParseLine q = (eLineOpen, q1)"
    and "buf_ok b" "contents b = contents (m_buffer q) @ d"
    and "contents (m_buffer q) \<noteq> [] \<longrightarrow> last (contents (m_buffer q)) = CR \<longrightarrow> d \<noteq> [] \<longrightarrow> hd d = LF"
  shows "ParseLine (q1\<lparr>m_buffer := b\<rparr>) = ParseLine (q\<lparr>m_buffer := b\<rparr>)"
proof -
  let ?c = "contents (m_buffer q)"
  have q1: "q1 = q\<lparr>m_iReadPositionOffsetWhenParseLine := int (length ?c)\<rparr>"
    and "scan_line (take (m_iWritePosition (m_buffer q)) (m_VecBuffer (m_buffer q)))
           (m_iReadPosition (m_buffer q)) (m_iReadPosition (m_buffer q)) = ScanOpen"
    using assms(2,3) length_contents [OF assms(1)]
    by (auto simp: ParseLine_def Let_def split: line_scan.splits)
  then have "scan_line ?c 0 0 = ScanOpen"
    using scan_of_contents [OF assms(1), of 0] by (simp add: shift_scan_Open)
  from scan_line_resume [OF this _ assms(6)]
  have "scan_line (?c @ d) 0 (length ?c) = scan_line (?c @ d) 0 0" by simp
  then show ?thesis
    by (intro ParseLine_offset [where off = "int (length ?c)"]) (use assms q1 in simp_all)
qed

theorem ParseLine_resume_witness:
  "ParseLine ((snd (ParseLine (sample_request ''GE'')))\<lparr>m_buffer := sample_buffer (''GE'' @ ''T'')\<rparr>) =
   ParseLine ((sample_request ''GE'')\<lparr>m_buffer := sample_buffer (''GE'' @ ''T'')\<rparr>)"
proof -
  have "ParseLine (sample_request ''GE'') = (eLineOpen, snd (ParseLine (sample_request ''GE'')))"
    using ParseLine_open [of "sample_request ''GE''"] by simp
  from ParseLine_resume [OF _ _ this, of "sample_buffer (''GE'' @ ''T'')" "''T''"]
  show ?thesis by simp
qed

end
