(* ===== verification/Http_Response.thy ===== *)
theory Http_Response
  imports Uco_Buffer Uco_Strings "HOL-Library.AList"
begin

text \<open>
  The response object of \<open>http/httpresponce.cpp\<close> and \<open>http/httpresponce.h\<close>: the status and
  file type tables, the header list with its overwrite rule, the header block written before
  the body, and the error page. A \<open>FileCache\<close> is the pair of its descriptor and its size, or
  of \<open>-1\<close> and a status code. The template engine is a parameter \<open>render\<close>.
\<close>

section \<open>Tables\<close>

definition httpRetCode2StatusString :: "(int \<times> string) list" where
  "httpRetCode2StatusString =
  [(100, ''Continue''),
   (101, ''Switching Protocols''),
   (102, ''Processing''),
   (103, ''Early Hints''),
   (200, ''OK''),
   (201, ''Created''),
   (202, ''Accepted''),
   (203, ''Non-Authoritative Information''),
   (204, ''No Content''),
   (205, ''Reset Content''),
   (206, ''Partial Content''),
   (207, ''Multi-Status''),
   (208, ''Already Reported''),
   (226, ''IM Used''),
   (300, ''Multiple Choices''),
   (301, ''Moved Permanently''),
   (302, ''Found''),
   (303, ''See Other''),
   (304, ''Not Modified''),
   (305, ''Use Proxy''),
   (307, ''Temporary Redirect''),
   (308, ''Permanent Redirect''),
   (400, ''Bad Request''),
   (401, ''Unauthorized''),
   (402, ''Payment Required''),
   (403, ''Forbidden''),
   (404, ''Not Found''),
   (405, ''Method Not Allowed''),
   (406, ''Not Acceptable''),
   (407, ''Proxy Authentication Required''),
   (408, ''Request Timeout''),
   (409, ''Conflict''),
   (410, ''Gone''),
   (411, ''Length Required''),
   (412, ''Precondition Failed''),
   (413, ''Payload Too Large''),
   (414, ''URI Too Long''),
   (415, ''Unsupported Media Type''),
   (416, ''Range Not Satisfiable''),
   (417, ''Expectation Failed''),
   (418, ''I'' @ [CHR 0x27] @ ''m a teapot''),
   (421, ''Misdirected Request''),
   (422, ''Unprocessable Entity''),
   (423, ''Locked''),
   (424, ''Failed Dependency''),
   (425, ''Too Early''),
   (426, ''Upgrade Required''),
   (428, ''Precondition Required''),
   (429, ''Too Many Requests''),
   (431, ''Request Header Fields Too Large''),
   (451, ''Unavailable For Legal Reasons''),
   (500, ''Internal Server Error''),
   (501, ''Not Implemented''),
   (502, ''Bad Gateway''),
   (503, ''Service Unavailable''),
   (504, ''Gateway Timeout''),
   (505, ''HTTP Version Not Supported''),
   (506, ''Variant Also Negotiates'')]"

definition pathSuffix2FileType :: "(string \<times> string) list" where
  "pathSuffix2FileType =
  [(''.html'', ''text/html''),
   (''.htm'', ''text/html''),
   (''.xml'', ''text/xml''),
   (''.xhtml'', ''application/xhtml+xml''),
   (''.txt'', ''text/plain''),
   (''.rtf'', ''application/rtf''),
   (''.pdf'', ''application/pdf''),
   (''.doc'', ''application/msword''),
   (''.docx'', ''application/vnd.openxmlformats-officedocument.wordprocessingml.document''),
   (''.xls'', ''application/vnd.ms-excel''),
   (''.xlsx'', ''application/vnd.openxmlformats-officedocument.spreadsheetml.sheet''),
   (''.ppt'', ''application/vnd.ms-powerpoint''),
   (''.pptx'', ''application/vnd.openxmlformats-officedocument.presentationml.presentation''),
   (''.png'', ''image/png''),
   (''.gif'', ''image/gif''),
   (''.jpg'', ''image/jpeg''),
   (''.jpeg'', ''image/jpeg''),
   (''.bmp'', ''image/bmp''),
   (''.svg'', ''image/svg+xml''),
   (''.ico'', ''image/x-icon''),
   (''.webp'', ''image/webp''),
   (''.mp3'', ''audio/mpeg''),
   (''.wav'', ''audio/wav''),
   (''.ogg'', ''audio/ogg''),
   (''.oga'', ''audio/ogg''),
   (''.mid'', ''audio/midi''),
   (''.midi'', ''audio/midi''),
   (''.amr'', ''audio/amr''),
   (''.mp4'', ''video/mp4''),
   (''.mpeg'', ''video/mpeg''),
   (''.mpg'', ''video/mpeg''),
   (''.mov'', ''video/quicktime''),
   (''.avi'', ''video/x-msvideo''),
   (''.wmv'', ''video/x-ms-wmv''),
   (''.flv'', ''video/x-flv''),
   (''.webm'', ''video/webm''),
   (''.ogv'', ''video/ogg''),
   (''.zip'', ''application/zip''),
   (''.tar'', ''application/x-tar''),
   (''.gz'', ''application/gzip''),
   (''.rar'', ''application/vnd.rar''),
   (''.7z'', ''application/x-7z-compressed''),
   (''.css'', ''text/css''),
   (''.js'', ''application/javascript''),
   (''.json'', ''application/json''),
   (''.csv'', ''text/csv''),
   (''.tsv'', ''text/tab-separated-values''),
   (''.md'', ''text/markdown''),
   (''.yaml'', ''application/x-yaml''),
   (''.yml'', ''application/x-yaml''),
   (''.exe'', ''application/octet-stream''),
   (''.bin'', ''application/octet-stream''),
   (''.dll'', ''application/octet-stream''),
   (''.deb'', ''application/vnd.debian.binary-package''),
   (''.iso'', ''application/x-iso9660-image''),
   (''.epub'', ''application/epub+zip'')]"

text \<open>\<open>operator[]\<close> of the table: a missing key gives the empty string.\<close>

definition status_string :: "int \<Rightarrow> string" where
  "status_string code = (case map_of httpRetCode2StatusString code of Some s \<Rightarrow> s | None \<Rightarrow> [])"

definition PathSuffix2FileType :: "string \<Rightarrow> string" where
  "PathSuffix2FileType suffix =
     (case map_of pathSuffix2FileType suffix of Some t \<Rightarrow> t
      | None \<Rightarrow> the (map_of pathSuffix2FileType ''.txt''))"

text \<open>\<open>path.find_last_of('.')\<close>: the suffix starts at the last dot.\<close>

definition GetFileTypeByPath :: "string \<Rightarrow> string" where
  "GetFileTypeByPath path =
     (if CHR ''.'' \<in> set path
      then PathSuffix2FileType (CHR ''.'' # rev (takeWhile (\<lambda>c. c \<noteq> CHR ''.'') (rev path)))
      else the (map_of pathSuffix2FileType ''.txt''))"

section \<open>State\<close>

text \<open>A protobuf message as its reflection shows it, and the template data made from it.\<close>

datatype pb_value =
    PbString string | PbInt32 int | PbInt64 int | PbUint32 int | PbUint64 int
  | PbFloat string | PbDouble string | PbBool bool
  | PbMessage "(string \<times> pb_value) list"
  | PbRepeated "(string \<times> pb_value) list list"
  | PbOther

datatype mdata = MString string | MObject "(string \<times> mdata) list" | MList "mdata list"

type_synonym pb_message = "(string \<times> pb_value) list"
type_synonym file_cache = "int \<times> int"

fun protoToData :: "pb_message \<Rightarrow> (string \<times> mdata) list"
  and pb_list_data :: "pb_message list \<Rightarrow> mdata list" where
  "protoToData [] = []"
| "protoToData ((name, v) # fs) =
     (case v of
        PbString s \<Rightarrow> (name, MString s) # protoToData fs
      | PbInt32 n \<Rightarrow> (name, MString (int_to_string n)) # protoToData fs
      | PbInt64 n \<Rightarrow> (name, MString (int_to_string n)) # protoToData fs
      | PbUint32 n \<Rightarrow> (name, MString (int_to_string n)) # protoToData fs
      | PbUint64 n \<Rightarrow> (name, MString (int_to_string n)) # protoToData fs
      | PbFloat s \<Rightarrow> (name, MString s) # protoToData fs
      | PbDouble s \<Rightarrow> (name, MString s) # protoToData fs
      | PbBool b \<Rightarrow> (name, MString (if b then ''true'' else ''false'')) # protoToData fs
      | PbMessage m \<Rightarrow> (name, MObject (protoToData m)) # protoToData fs
      | PbRepeated ms \<Rightarrow> (name, MList (pb_list_data ms)) # protoToData fs
      | PbOther \<Rightarrow> protoToData fs)"
| "pb_list_data [] = []"
| "pb_list_data (m # ms) = MObject (protoToData m) # pb_list_data ms"

record http_response =
  m_iHttpRetCode :: int
  m_iPartialFrom :: int
  m_iPartialTo :: int
  m_iCurrentReqCount :: int
  m_iSendTimeoutSec :: int
  m_iKeepAliveCount :: int
  m_iKeepAliveTime :: int
  m_bRspKeepAlive :: bool
  m_bShouldGenErrorPage :: bool
  m_bResourceIsTemplate :: bool
  m_pCache :: "file_cache option"
  m_vecMoreHeader :: "(string \<times> string) list"
  m_mapTemplateArgs :: "(string \<times> string) list"
  m_protoTemplateArgs :: "pb_message option"
  m_httpRspContentType :: string
  m_httpRspStaticResourcePath :: string
  m_httpRspHeaderBuffer :: buffer
  m_httpRspContentBuffer :: buffer

definition Response_Reset :: "http_response \<Rightarrow> http_response" where
  "Response_Reset p =
     p\<lparr>m_iHttpRetCode := 0, m_pCache := None, m_iPartialFrom := 0, m_iPartialTo := 0,
       m_bShouldGenErrorPage := False, m_bResourceIsTemplate := False,
       m_httpRspContentType := PathSuffix2FileType ''.html'',
       m_vecMoreHeader := [], m_mapTemplateArgs := [], m_protoTemplateArgs := None,
       m_httpRspStaticResourcePath := [],
       m_httpRspHeaderBuffer := Reset (m_httpRspHeaderBuffer p),
       m_httpRspContentBuffer := Reset (m_httpRspContentBuffer p)\<rparr>"

definition ResetContent :: "http_response \<Rightarrow> http_response" where
  "ResetContent p =
     p\<lparr>m_bShouldGenErrorPage := False, m_bResourceIsTemplate := False, m_pCache := None,
       m_mapTemplateArgs := [], m_protoTemplateArgs := None, m_httpRspStaticResourcePath := [],
       m_httpRspContentBuffer := Reset (m_httpRspContentBuffer p)\<rparr>"

definition mk_response :: "int \<Rightarrow> int \<Rightarrow> int \<Rightarrow> http_response" where
  "mk_response sendtimeout keepalivecount keepalivesec =
     Response_Reset
       \<lparr>m_iHttpRetCode = 0, m_iPartialFrom = 0, m_iPartialTo = 0, m_iCurrentReqCount = 0,
        m_iSendTimeoutSec = sendtimeout, m_iKeepAliveCount = keepalivecount,
        m_iKeepAliveTime = keepalivesec, m_bRspKeepAlive = False,
        m_bShouldGenErrorPage = False, m_bResourceIsTemplate = False, m_pCache = None,
        m_vecMoreHeader = [], m_mapTemplateArgs = [], m_protoTemplateArgs = None,
        m_httpRspContentType = [], m_httpRspStaticResourcePath = [],
        m_httpRspHeaderBuffer = mk_buffer 1024, m_httpRspContentBuffer = mk_buffer 1024\<rparr>"

section \<open>Headers\<close>

fun overwrite_header :: "string \<Rightarrow> string \<Rightarrow> (string \<times> string) list \<Rightarrow> (string \<times> string) list" where
  "overwrite_header key val [] = [(key, val)]"
| "overwrite_header key val ((k, v) # hs) =
     (if EqualsIgnoreCase k key then (key, val) # hs else (k, v) # overwrite_header key val hs)"

definition SetHeader :: "string \<Rightarrow> string \<Rightarrow> http_response \<Rightarrow> http_response" where
  "SetHeader key val p =
     (if EqualsIgnoreCase key ''Set-Cookie''
      then p\<lparr>m_vecMoreHeader := m_vecMoreHeader p @ [(key, val)]\<rparr>
      else p\<lparr>m_vecMoreHeader := overwrite_header key val (m_vecMoreHeader p)\<rparr>)"

definition ShouldGenErrorPage :: "int \<Rightarrow> http_response \<Rightarrow> http_response" where
  "ShouldGenErrorPage code p =
     (Response_Reset p)\<lparr>m_bShouldGenErrorPage := True, m_iHttpRetCode := code\<rparr>"

fun append_all :: "string list \<Rightarrow> buffer \<Rightarrow> buffer option" where
  "append_all [] b = Some b"
| "append_all (s # ss) b = (case Append s b of None \<Rightarrow> None | Some b' \<Rightarrow> append_all ss b')"

definition has_cache_control :: "http_response \<Rightarrow> bool" where
  "has_cache_control p \<longleftrightarrow> list_ex (\<lambda>(k, v). EqualsIgnoreCase k ''Cache-Control'') (m_vecMoreHeader p)"

text \<open>The announced body length; a \<open>size_t\<close> computed from \<open>int\<close>s.\<close>

definition content_len :: "http_response \<Rightarrow> int" where
  "content_len p =
     (case m_pCache p of
        Some (fd, sz) \<Rightarrow>
          (if m_iPartialFrom p \<noteq> 0 \<or> m_iPartialTo p \<noteq> 0
           then (m_iPartialTo p - m_iPartialFrom p + 1) mod 2 ^ 64 else sz mod 2 ^ 64)
      | None \<Rightarrow> int (ReadableBytes (m_httpRspContentBuffer p)))"

definition header_pieces :: "http_response \<Rightarrow> string list" where
  "header_pieces p =
     [''HTTP/1.1 '', int_to_string (m_iHttpRetCode p), '' '', status_string (m_iHttpRetCode p),
      [CR, LF] @ ''Connection: ''] @
     (if m_bRspKeepAlive p
      then [''keep-alive'' @ [CR, LF],
            ''keep-alive: max='' @ int_to_string (m_iKeepAliveCount p) @ '', timeout='' @
              int_to_string (m_iKeepAliveTime p) @ [CR, LF]]
      else [''close'' @ [CR, LF]]) @
     concat (map (\<lambda>(k, v). [k, '': '', v, [CR, LF]]) (m_vecMoreHeader p)) @
     [''Content-type: '' @ m_httpRspContentType p @ [CR, LF],
      ''Content-length: '' @ int_to_string (content_len p) @ [CR, LF, CR, LF]]"

definition GenHttpHeader :: "http_response \<Rightarrow> http_response option" where
  "GenHttpHeader p =
     (let p1 = (if has_cache_control p then p else SetHeader ''Cache-Control'' ''no-cache'' p)
      in map_option (\<lambda>b. p1\<lparr>m_httpRspHeaderBuffer := b\<rparr>)
           (append_all (header_pieces p1) (m_httpRspHeaderBuffer p1)))"

section \<open>Pages\<close>

definition error_body :: "int \<Rightarrow> string" where
  "error_body code =
     ''<html><title>Error</title>'' @ ''<body bgcolor='' @ [CHR 0x22] @ ''ffffff'' @ [CHR 0x22] @ ''>'' @
     int_to_string code @ '' - '' @ status_string code @
     ''<hr><em>TinyWebServer</em></body></html>''"

definition GenErrorPageDefault :: "int \<Rightarrow> http_response \<Rightarrow> http_response option" where
  "GenErrorPageDefault code p =
     map_option (\<lambda>b. p\<lparr>m_httpRspStaticResourcePath := [], m_pCache := None, m_iHttpRetCode := code,
                      m_httpRspContentBuffer := b,
                      m_httpRspContentType := PathSuffix2FileType ''.html''\<rparr>)
       (Append (error_body code) (Reset (m_httpRspContentBuffer p)))"

text \<open>
  \<open>GenErrorPage\<close> with the template file already resolved: \<open>cache\<close> is what the resource pool
  returned, \<open>rd\<close> the result of reading the file (\<open>None\<close> for a negative return value).
\<close>

definition Rsp_GenErrorPage ::
  "(string \<Rightarrow> (string \<times> mdata) list \<Rightarrow> string) \<Rightarrow> int \<Rightarrow> file_cache \<Rightarrow> string option \<Rightarrow>
   http_response \<Rightarrow> http_response option" where
  "Rsp_GenErrorPage render code cache rd p =
     (let p1 = p\<lparr>m_httpRspStaticResourcePath := [], m_pCache := None,
                 m_httpRspContentType := PathSuffix2FileType ''.html''\<rparr> in
      if fst cache = - 1 then Some p1
      else (case rd of
              None \<Rightarrow> Some p1
            | Some text \<Rightarrow>
                map_option (\<lambda>b. p1\<lparr>m_httpRspContentBuffer := b\<rparr>)
                  (Append (render text [(''code'', MString (int_to_string code)),
                                        (''message'', MString (status_string code))])
                     (Reset (m_httpRspContentBuffer p1)))))"

definition GenHtmlTemplate ::
  "(string \<Rightarrow> (string \<times> mdata) list \<Rightarrow> string) \<Rightarrow> string option \<Rightarrow>
   http_response \<Rightarrow> (bool \<times> http_response) option" where
  "GenHtmlTemplate render rd p =
     (case rd of
        None \<Rightarrow> Some (False, p)
      | Some text \<Rightarrow>
          (let d = (case m_protoTemplateArgs p of
                      Some msg \<Rightarrow> protoToData msg
                    | None \<Rightarrow> map (\<lambda>(k, v). (k, MString v)) (m_mapTemplateArgs p))
           in map_option (\<lambda>b. (True, p\<lparr>m_httpRspContentBuffer := b\<rparr>))
                (Append (render text d) (Reset (m_httpRspContentBuffer p)))))"

section \<open>The header list\<close>

definition get_header :: "string \<Rightarrow> (string \<times> string) list \<Rightarrow> string option" where
  "get_header key hs = map_of (map (\<lambda>kv. (ToLower (fst kv), snd kv)) hs) (ToLower key)"

definition single_headers :: "(string \<times> string) list \<Rightarrow> (string \<times> string) list" where
  "single_headers hs = filter (\<lambda>kv. \<not> EqualsIgnoreCase (fst kv) ''Set-Cookie'') hs"

definition headers_inv :: "(string \<times> string) list \<Rightarrow> bool" where
  "headers_inv hs \<longleftrightarrow> distinct (map (\<lambda>kv. ToLower (fst kv)) (single_headers hs))"

lemma overwrite_header_lookup:
  "get_header key' (overwrite_header key val hs) =
     (if EqualsIgnoreCase key' key then Some val else get_header key' hs)"
  by (induction hs) (auto simp: get_header_def EqualsIgnoreCase_iff)

lemma single_headers_overwrite:
  "\<not> EqualsIgnoreCase key ''Set-Cookie'' \<Longrightarrow>
     single_headers (overwrite_header key val hs) = overwrite_header key val (single_headers hs)"
  by (induction hs) (auto simp: single_headers_def EqualsIgnoreCase_iff)

lemma overwrite_header_keys:
  "map (\<lambda>kv. ToLower (fst kv)) (overwrite_header key val hs) =
     (if ToLower key \<in> set (map (\<lambda>kv. ToLower (fst kv)) hs)
      then map (\<lambda>kv. ToLower (fst kv)) hs
      else map (\<lambda>kv. ToLower (fst kv)) hs @ [ToLower key])"
  by (induction hs) (auto simp: EqualsIgnoreCase_iff simp del: set_map list.set_map)

lemma overwrite_header_inv:
  "headers_inv hs \<Longrightarrow> \<not> EqualsIgnoreCase key ''Set-Cookie'' \<Longrightarrow>
     headers_inv (overwrite_header key val hs)"
  by (simp add: headers_inv_def single_headers_overwrite overwrite_header_keys)

lemma overwrite_header_cookies:
  "\<not> EqualsIgnoreCase key ''Set-Cookie'' \<Longrightarrow>
     filter (\<lambda>kv. EqualsIgnoreCase (fst kv) ''Set-Cookie'') (overwrite_header key val hs) =
     filter (\<lambda>kv. EqualsIgnoreCase (fst kv) ''Set-Cookie'') hs"
  by (induction hs) (auto simp: EqualsIgnoreCase_iff)

text \<open>The contract a header list gives its users; every writer of headers goes through it.\<close>

locale overwrite_map =
  fixes inv :: "'m \<Rightarrow> bool"
    and get :: "'k \<Rightarrow> 'm \<Rightarrow> 'v option"
    and set_key :: "'k \<Rightarrow> 'v \<Rightarrow> 'm \<Rightarrow> 'm"
    and same :: "'k \<Rightarrow> 'k \<Rightarrow> bool"
    and plain :: "'k \<Rightarrow> bool"
  assumes set_inv: "inv m \<Longrightarrow> plain k \<Longrightarrow> inv (set_key k v m)"
    and get_set: "plain k \<Longrightarrow> get k' (set_key k v m) = (if same k' k then Some v else get k' m)"
    and same_refl: "same k k"
begin

lemma get_same: "plain k \<Longrightarrow> get k (set_key k v m) = Some v"
  by (simp add: get_set same_refl)

lemma set_set: "plain k \<Longrightarrow> get k' (set_key k v (set_key k w m)) = get k' (set_key k v m)"
  by (simp add: get_set)

lemma get_after_all:
  "(\<And>kv. kv \<in> set kvs \<Longrightarrow> plain (fst kv)) \<Longrightarrow> (\<And>kv. kv \<in> set kvs \<Longrightarrow> \<not> same k (fst kv)) \<Longrightarrow>
     get k (fold (\<lambda>kv. set_key (fst kv) (snd kv)) kvs m) = get k m"
  by (induction kvs arbitrary: m) (simp_all add: get_set)

lemma inv_after_all:
  "inv m \<Longrightarrow> (\<And>kv. kv \<in> set kvs \<Longrightarrow> plain (fst kv)) \<Longrightarrow>
     inv (fold (\<lambda>kv. set_key (fst kv) (snd kv)) kvs m)"
  by (induction kvs arbitrary: m) (simp_all add: set_inv)

end

interpretation hdr: overwrite_map headers_inv get_header overwrite_header EqualsIgnoreCase
  "\<lambda>k. \<not> EqualsIgnoreCase k ''Set-Cookie''"
  by unfold_locales (simp_all add: overwrite_header_inv overwrite_header_lookup EqualsIgnoreCase_iff)

section \<open>Writing the header block\<close>

lemma append_all_ok:
  assumes "buf_ok b" "m_iWritePosition b + length (concat ss) \<le> buf_max"
    and "m_iReadPosition b = 0"
  shows "\<exists>b'. append_all ss b = Some b' \<and> buf_ok b' \<and> contents b' = contents b @ concat ss"
  using assms
proof (induction ss arbitrary: b)
  case (Cons s ss)
  from Cons.prems have "m_iWritePosition b + length s \<le> buf_max" by simp
  from bq.put_view [OF Cons.prems(1) this] obtain b1 where
    b1: "Append s b = Some b1" "buf_ok b1" "contents b1 = contents b @ s" by blast
  have pos: "m_iReadPosition b1 = 0"
    using Append_read_zero [OF b1(1) Cons.prems(3)] .
  have "m_iWritePosition b1 = m_iWritePosition b + length s"
    using length_contents [OF b1(2)] length_contents [OF Cons.prems(1)] pos b1 Cons.prems(1,3)
    by (simp add: ReadableBytes_def)
  with Cons.IH [OF b1(2)] Cons.prems(2) pos b1 show ?case by auto
qed simp

section \<open>Properties\<close>

text \<open>
  A header set twice is sent once: \<open>SetHeader\<close> keeps at most one entry per name, compared
  without case (\<open>Set-Cookie\<close> excepted), the new value replaces the old one, every other header
  keeps its value, and the cookies already set keep their number and order.
\<close>

theorem SetHeader_overwrites:
  assumes "headers_inv (m_vecMoreHeader p)" "\<not> EqualsIgnoreCase key ''Set-Cookie''"
  shows "headers_inv (m_vecMoreHeader (SetHeader key val p)) \<and>
    get_header k (m_vecMoreHeader (SetHeader key val p)) =
      (if EqualsIgnoreCase k key then Some val else get_header k (m_vecMoreHeader p)) \<and>
    filter (\<lambda>kv. EqualsIgnoreCase (fst kv) ''Set-Cookie'') (m_vecMoreHeader (SetHeader key val p)) =
      filter (\<lambda>kv. EqualsIgnoreCase (fst kv) ''Set-Cookie'') (m_vecMoreHeader p)"
  using assms hdr.set_inv hdr.get_set overwrite_header_cookies by (simp add: SetHeader_def)

theorem SetHeader_overwrites_witness:
  "get_header ''vary'' (m_vecMoreHeader (SetHeader ''VARY'' ''b'' (SetHeader ''Vary'' ''a''
     (mk_response 5 10 60)))) = Some ''b''"
proof -
  have "headers_inv (m_vecMoreHeader (SetHeader ''Vary'' ''a'' (mk_response 5 10 60)))"
    and "\<not> EqualsIgnoreCase ''VARY'' ''Set-Cookie''" and eq: "EqualsIgnoreCase ''vary'' ''VARY''"
    by code_simp+
  from SetHeader_overwrites [OF this(1,2)] eq show ?thesis by simp
qed

lemma overwrite_header_count:
  "\<not> list_ex (\<lambda>(k, v). EqualsIgnoreCase k key) hs \<Longrightarrow> overwrite_header key val hs = hs @ [(key, val)]"
  by (induction hs) auto

definition sent_headers :: "http_response \<Rightarrow> (string \<times> string) list" where
  "sent_headers p = m_vecMoreHeader p @ (if has_cache_control p then [] else [(''Cache-Control'', ''no-cache'')])"

text \<open>
  The bytes \<open>GenHttpHeader\<close> writes are the status line with the code and its reason phrase,
  the connection lines, one line per header in order, with \<open>Cache-Control: no-cache\<close> added when
  no header of that name was set, the content type, and as \<open>Content-length\<close> the number of body
  bytes; the block ends with an empty line and nothing of it is lost.
\<close>

theorem GenHttpHeader_bytes:
  assumes "buf_ok (m_httpRspHeaderBuffer p)" "contents (m_httpRspHeaderBuffer p) = []"
    and "m_iReadPosition (m_httpRspHeaderBuffer p) = 0"
    and "length (concat (header_pieces (p\<lparr>m_vecMoreHeader := sent_headers p\<rparr>))) \<le> buf_max"
  shows "\<exists>p'. GenHttpHeader p = Some p' \<and> contents (m_httpRspContentBuffer p') = contents (m_httpRspContentBuffer p) \<and>
    contents (m_httpRspHeaderBuffer p') =
      ''HTTP/1.1 '' @ int_to_string (m_iHttpRetCode p) @ '' '' @ status_string (m_iHttpRetCode p) @ [CR, LF] @
      ''Connection: '' @
      (if m_bRspKeepAlive p
       then ''keep-alive'' @ [CR, LF] @ ''keep-alive: max='' @ int_to_string (m_iKeepAliveCount p) @
            '', timeout='' @ int_to_string (m_iKeepAliveTime p) @ [CR, LF]
       else ''close'' @ [CR, LF]) @
      concat (map (\<lambda>kv. fst kv @ '': '' @ snd kv @ [CR, LF]) (sent_headers p)) @
      ''Content-type: '' @ m_httpRspContentType p @ [CR, LF] @
      ''Content-length: '' @ int_to_string (content_len p) @ [CR, LF, CR, LF]"
proof -
  let ?p = "p\<lparr>m_vecMoreHeader := sent_headers p\<rparr>" and ?hb = "m_httpRspHeaderBuffer p"
  have p1: "(if has_cache_control p then p else SetHeader ''Cache-Control'' ''no-cache'' p) = ?p"
    by (auto simp: sent_headers_def SetHeader_def has_cache_control_def overwrite_header_count
        EqualsIgnoreCase_iff ToLower_def c_tolower_def)
  have "m_iWritePosition ?hb = 0"
    using length_contents [OF assms(1)] assms(1-3) by (simp add: ReadableBytes_def buf_ok_def)
  then obtain b where b: "append_all (header_pieces ?p) ?hb = Some b"
    "contents b = concat (header_pieces ?p)"
    using append_all_ok [OF assms(1), of "header_pieces ?p"] assms(2-4) by auto
  have lines: "concat (concat (map (\<lambda>(k, v). [k, '': '', v, [CR, LF]]) hs)) =
      concat (map (\<lambda>kv. fst kv @ '': '' @ snd kv @ [CR, LF]) hs)" for hs :: "(string \<times> string) list"
    by (induction hs) auto
  have len: "content_len ?p = content_len p" by (simp add: content_len_def split: option.splits)
  show ?thesis
    by (simp add: GenHttpHeader_def Let_def p1 b) (simp add: header_pieces_def lines len)
qed

theorem GenHttpHeader_bytes_witness:
  "\<exists>p'. GenHttpHeader ((mk_response 5 10 60)\<lparr>m_iHttpRetCode := 204\<rparr>) = Some p' \<and>
     contents (m_httpRspHeaderBuffer p') =
       ''HTTP/1.1 204 No Content'' @ [CR, LF] @ ''Connection: close'' @ [CR, LF] @
       ''Cache-Control: no-cache'' @ [CR, LF] @ ''Content-type: text/html'' @ [CR, LF] @
       ''Content-length: 0'' @ [CR, LF, CR, LF]"
proof -
  let ?p = "(mk_response 5 10 60)\<lparr>m_iHttpRetCode := 204\<rparr>"
  have "buf_ok (m_httpRspHeaderBuffer ?p)" "contents (m_httpRspHeaderBuffer ?p) = []"
    "m_iReadPosition (m_httpRspHeaderBuffer ?p) = 0"
    by (simp_all add: mk_response_def Response_Reset_def buf_ok_def contents_def Reset_def
        ReadableBytes_def)
  moreover have "length (concat (header_pieces (?p\<lparr>m_vecMoreHeader := sent_headers ?p\<rparr>))) < 200"
    by code_simp
  then have "length (concat (header_pieces (?p\<lparr>m_vecMoreHeader := sent_headers ?p\<rparr>))) \<le> buf_max"
    by (rule less_imp_le [THEN order_trans]) (simp add: buf_max_def)
  ultimately obtain p' where p': "GenHttpHeader ?p = Some p'"
    "contents (m_httpRspHeaderBuffer p') =
      ''HTTP/1.1 '' @ int_to_string (m_iHttpRetCode ?p) @ '' '' @ status_string (m_iHttpRetCode ?p) @ [CR, LF] @
      ''Connection: '' @
      (if m_bRspKeepAlive ?p
       then ''keep-alive'' @ [CR, LF] @ ''keep-alive: max='' @ int_to_string (m_iKeepAliveCount ?p) @
            '', timeout='' @ int_to_string (m_iKeepAliveTime ?p) @ [CR, LF]
       else ''close'' @ [CR, LF]) @
      concat (map (\<lambda>kv. fst kv @ '': '' @ snd kv @ [CR, LF]) (sent_headers ?p)) @
      ''Content-type: '' @ m_httpRspContentType ?p @ [CR, LF] @
      ''Content-length: '' @ int_to_string (content_len ?p) @ [CR, LF, CR, LF]"
    using GenHttpHeader_bytes [of ?p] by blast
  have "contents (m_httpRspHeaderBuffer p') =
       ''HTTP/1.1 204 No Content'' @ [CR, LF] @ ''Connection: close'' @ [CR, LF] @
       ''Cache-Control: no-cache'' @ [CR, LF] @ ''Content-type: text/html'' @ [CR, LF] @
       ''Content-length: 0'' @ [CR, LF, CR, LF]"
    unfolding p'(2) by code_simp
  with p'(1) show ?thesis by blast
qed

end
