(* ===== verification/Http_Router.thy ===== *)
theory Http_Router
  imports Uco_Strings "HOL-Library.AList"
begin

text \<open>
  Routing (\<open>http/httpserver.cpp\<close>): methods, route groups, the prefix tree per method with
  literal, parameter and wildcard segments, forwarding and the error page table. Handlers are
  values of an arbitrary type \<open>'h\<close>. A tree of \<open>new\<close>-ed nodes is the tree itself; the hash
  tables are association lists.
\<close>

section \<open>Methods\<close>

datatype HttpMethod =
  eGet | ePost | ePut | ePatch | eHead | eOptions | eDelete | eConnect | eTrace

definition HttpMethodStr2EnumMap :: "(string \<times> HttpMethod) list" where
  "HttpMethodStr2EnumMap =
     [(''GET'', eGet), (''POST'', ePost), (''PUT'', ePut), (''PATCH'', ePatch),
      (''HEAD'', eHead), (''OPTIONS'', eOptions), (''DELETE'', eDelete),
      (''CONNECT'', eConnect), (''TRACE'', eTrace)]"

definition HttpMethodStr2Enum :: "string \<Rightarrow> HttpMethod" where
  "HttpMethodStr2Enum mth =
     (case map_of HttpMethodStr2EnumMap (map c_toupper mth) of Some m \<Rightarrow> m | None \<Rightarrow> eGet)"

section \<open>Paths\<close>

definition splitPath :: "string \<Rightarrow> string list" where
  "splitPath path = filter (\<lambda>s. s \<noteq> []) (getlines (CHR ''/'') path)"

text \<open>\<open>while (base.size() > 1 && base.back() == '/') base.pop_back();\<close>\<close>

function pop_slashes :: "string \<Rightarrow> string" where
  "pop_slashes base =
     (if length base > 1 \<and> last base = CHR ''/'' then pop_slashes (butlast base) else base)"
  by pat_completeness auto
termination by (relation "measure length") auto

declare pop_slashes.simps [simp del]

definition JoinPath :: "string \<Rightarrow> string \<Rightarrow> string" where
  "JoinPath prefix path =
     (let base = pop_slashes (if prefix \<noteq> [] \<and> hd prefix \<noteq> CHR ''/'' then CHR ''/'' # prefix else prefix);
          rest = dropWhile (\<lambda>c. c = CHR ''/'') path
      in if rest = [] then (if base = [] then ''/'' else base)
         else if base = [] \<or> base = ''/'' then ''/'' @ rest
         else base @ ''/'' @ rest)"

section \<open>The prefix tree\<close>

datatype 'h TrieNode =
  TrieNode (children: "(string \<times> 'h TrieNode) list")
    (paramChild: "'h TrieNode option") (paramName: string)
    (wildcardChild: "'h TrieNode option") (wildcardName: string)
    (handles: "'h list") (routePattern: string) (isEnd: bool)

definition new_node :: "string \<Rightarrow> string \<Rightarrow> 'h TrieNode" where
  "new_node pn wn = TrieNode [] None pn None wn [] [] False"

text \<open>
  \<open>__insert\<close> followed by appending the handlers: the walk creates missing nodes and builds
  the pattern from the names the nodes already have; a wildcard ends it.
\<close>

fun insert_end :: "string \<Rightarrow> 'h list \<Rightarrow> 'h TrieNode \<Rightarrow> 'h TrieNode" where
  "insert_end pattern hs (TrieNode ch pc pn wc wn h rp e) =
     TrieNode ch pc pn wc wn (h @ hs) (if pattern = [] then ''/'' else pattern) True"

fun insert_parts :: "string list \<Rightarrow> string \<Rightarrow> 'h list \<Rightarrow> 'h TrieNode \<Rightarrow> 'h TrieNode" where
  "insert_parts [] pattern hs t = insert_end pattern hs t"
| "insert_parts (segment # parts) pattern hs (TrieNode ch pc pn wc wn h rp e) =
     (if segment \<noteq> [] \<and> hd segment = CHR '':'' then
        (let c = (case pc of None \<Rightarrow> new_node (tl segment) [] | Some c \<Rightarrow> c) in
         TrieNode ch (Some (insert_parts parts (pattern @ ''/:'' @ paramName c) hs c)) pn wc wn h rp e)
      else if segment \<noteq> [] \<and> hd segment = CHR ''*'' then
        (let c = (case wc of None \<Rightarrow> new_node [] (tl segment) | Some c \<Rightarrow> c) in
         TrieNode ch pc pn (Some (insert_end (pattern @ ''/*'' @ wildcardName c) hs c)) wn h rp e)
      else
        (let c = (case map_of ch segment of None \<Rightarrow> new_node [] [] | Some c \<Rightarrow> c) in
         TrieNode (AList.update segment (insert_parts parts (pattern @ ''/'' @ segment) hs c) ch)
           pc pn wc wn h rp e))"

definition tree_insert :: "string \<Rightarrow> 'h list \<Rightarrow> 'h TrieNode \<Rightarrow> 'h TrieNode" where
  "tree_insert path hs t = insert_parts (splitPath path) [] hs t"

record 'h RouteMatch =
  rm_handles :: "'h list"
  rm_params :: "(string \<times> string) list"
  rm_pattern :: string

definition empty_match :: "'h RouteMatch" where
  "empty_match = \<lparr>rm_handles = [], rm_params = [], rm_pattern = []\<rparr>"

definition take_node :: "'h TrieNode \<Rightarrow> 'h RouteMatch \<Rightarrow> 'h RouteMatch" where
  "take_node n r = r\<lparr>rm_handles := handles n, rm_pattern := routePattern n\<rparr>"

definition take_wild :: "'h TrieNode \<Rightarrow> string list \<Rightarrow> 'h RouteMatch \<Rightarrow> 'h RouteMatch" where
  "take_wild w parts r =
     take_node w (r\<lparr>rm_params := AList.update (wildcardName w) (Join parts ''/'') (rm_params r)\<rparr>)"

text \<open>The depth first search; \<open>result\<close> is changed in place, also by branches that fail.\<close>

fun dfsMatch :: "'h TrieNode \<Rightarrow> string list \<Rightarrow> 'h RouteMatch \<Rightarrow> bool \<times> 'h RouteMatch" where
  "dfsMatch node [] r =
     (if isEnd node then (True, take_node node r)
      else (case wildcardChild node of
              Some w \<Rightarrow> (if isEnd w then (True, take_wild w [] r) else (False, r))
            | None \<Rightarrow> (False, r)))"
| "dfsMatch node (segment # parts) r =
     (let s1 = (case map_of (children node) segment of
                  Some c \<Rightarrow> dfsMatch c parts r | None \<Rightarrow> (False, r))
      in if fst s1 then s1
         else
           (let s2 = (case paramChild node of
                  Some c \<Rightarrow>
                    (let s = dfsMatch c parts (snd s1\<lparr>rm_params :=
                           AList.update (paramName c) segment (rm_params (snd s1))\<rparr>)
                     in if fst s then s
                        else (False, snd s\<lparr>rm_params := AList.delete (paramName c) (rm_params (snd s))\<rparr>))
                | None \<Rightarrow> (False, snd s1))
            in if fst s2 then s2
               else (case wildcardChild node of
                  Some w \<Rightarrow> (if isEnd w then (True, take_wild w (segment # parts) (snd s2)) else s2)
                | None \<Rightarrow> s2)))"

definition tree_match :: "'h TrieNode \<Rightarrow> string \<Rightarrow> bool \<times> 'h RouteMatch" where
  "tree_match root path = dfsMatch root (splitPath path) empty_match"

section \<open>The server's tables\<close>

record 'h http_server =
  m_trees :: "(HttpMethod \<times> 'h TrieNode) list"
  m_fwdDict :: "((HttpMethod \<times> string) \<times> string) list"
  m_mapErrorPagePath :: "(int \<times> string) list"
  m_sErrorTemplatePath :: string
  m_sResourceDir :: string
  m_iKeepAliveCountCfg :: int
  m_iKeepAliveTimeCfg :: int
  m_iRecvTimeOut :: int
  m_iSendTimeOut :: int

definition AddRoute :: "HttpMethod \<Rightarrow> string \<Rightarrow> 'h list \<Rightarrow> 'h http_server \<Rightarrow> 'h http_server" where
  "AddRoute mth path hs s =
     (let t = (case map_of (m_trees s) mth of None \<Rightarrow> new_node [] [] | Some t \<Rightarrow> t) in
      s\<lparr>m_trees := AList.update mth (tree_insert path hs t) (m_trees s)\<rparr>)"

definition Forward :: "HttpMethod \<Rightarrow> string \<Rightarrow> string \<Rightarrow> 'h http_server \<Rightarrow> 'h http_server" where
  "Forward mth from to s = s\<lparr>m_fwdDict := AList.update (mth, from) to (m_fwdDict s)\<rparr>"

text \<open>\<open>emplace\<close>: the first page registered for a code stays.\<close>

definition ErrorPage :: "int \<Rightarrow> string \<Rightarrow> 'h http_server \<Rightarrow> 'h http_server" where
  "ErrorPage code path s =
     (if map_of (m_mapErrorPagePath s) code = None
      then s\<lparr>m_mapErrorPagePath := m_mapErrorPagePath s @ [(code, path)]\<rparr> else s)"

definition ErrorTemplate :: "string \<Rightarrow> 'h http_server \<Rightarrow> 'h http_server" where
  "ErrorTemplate path s = s\<lparr>m_sErrorTemplatePath := path\<rparr>"

definition GetErrorPagePath :: "'h http_server \<Rightarrow> int \<Rightarrow> string" where
  "GetErrorPagePath s code =
     (case map_of (m_mapErrorPagePath s) code of Some p \<Rightarrow> p | None \<Rightarrow> [])"

definition GetForward :: "'h http_server \<Rightarrow> HttpMethod \<Rightarrow> string \<Rightarrow> string" where
  "GetForward s mth path =
     (case map_of (m_fwdDict s) (mth, path) of Some p \<Rightarrow> p | None \<Rightarrow> [])"

definition find_handles :: "'h http_server \<Rightarrow> HttpMethod \<Rightarrow> string \<Rightarrow> 'h RouteMatch" where
  "find_handles s mth path =
     (case map_of (m_trees s) mth of
        Some t \<Rightarrow> snd (tree_match t path) | None \<Rightarrow> empty_match)"

definition GetHandles :: "'h http_server \<Rightarrow> HttpMethod \<Rightarrow> string \<Rightarrow> 'h RouteMatch" where
  "GetHandles s mth path = find_handles s mth path"

section \<open>Route groups\<close>

text \<open>A middleware is a factory applied to the route's full path.\<close>

record 'h route_group =
  m_prefix :: string
  m_middleware :: "(string \<Rightarrow> 'h) list"

definition shared_middleware :: "'h \<Rightarrow> string \<Rightarrow> 'h" where
  "shared_middleware h pattern = h"

definition InstantiateMiddleware :: "'h route_group \<Rightarrow> string \<Rightarrow> 'h list" where
  "InstantiateMiddleware g pattern = map (\<lambda>f. f pattern) (m_middleware g)"

definition Server_Group :: "string \<Rightarrow> (string \<Rightarrow> 'h) list \<Rightarrow> 'h route_group" where
  "Server_Group prefix mws = \<lparr>m_prefix = prefix, m_middleware = mws\<rparr>"

definition Group_Group :: "'h route_group \<Rightarrow> string \<Rightarrow> (string \<Rightarrow> 'h) list \<Rightarrow> 'h route_group" where
  "Group_Group g prefix mws =
     \<lparr>m_prefix = JoinPath (m_prefix g) prefix, m_middleware = m_middleware g @ mws\<rparr>"

definition Group_Register ::
  "'h route_group \<Rightarrow> HttpMethod \<Rightarrow> string \<Rightarrow> 'h list \<Rightarrow> 'h http_server \<Rightarrow> 'h http_server" where
  "Group_Register g mth path hs s =
     (let full_path = JoinPath (m_prefix g) path in
      AddRoute mth full_path (InstantiateMiddleware g full_path @ hs) s)"

definition AddStaticRoute :: "'h \<Rightarrow> string \<Rightarrow> 'h list \<Rightarrow> 'h http_server \<Rightarrow> 'h http_server" where
  "AddStaticRoute default_handle path middleware s =
     AddRoute eGet path (middleware @ [default_handle]) s"

definition Server_Static :: "'h \<Rightarrow> string \<Rightarrow> 'h http_server \<Rightarrow> 'h http_server" where
  "Server_Static default_handle path s = AddStaticRoute default_handle path [] s"

definition Group_Static :: "'h \<Rightarrow> 'h route_group \<Rightarrow> string \<Rightarrow> 'h http_server \<Rightarrow> 'h http_server" where
  "Group_Static default_handle g path s =
     (let full_path = JoinPath (m_prefix g) path in
      AddStaticRoute default_handle full_path (InstantiateMiddleware g full_path) s)"

section \<open>Paths and groups\<close>

lemma splitPath_slash: "splitPath (CHR ''/'' # s) = splitPath s"
  using getlines_cons [of "CHR ''/''" "[]" s] by (simp add: splitPath_def)

lemma splitPath_append_slash:
  "splitPath (s @ CHR ''/'' # r) = splitPath s @ splitPath r"
proof (induction "length s" arbitrary: s rule: less_induct)
  case less
  show ?case
  proof (cases "CHR ''/'' \<in> set s")
    case True
    then obtain a b where s: "s = a @ CHR ''/'' # b" "CHR ''/'' \<notin> set a"
      by (metis split_list_first)
    then have "splitPath (b @ CHR ''/'' # r) = splitPath b @ splitPath r"
      by (intro less.hyps) simp
    with s(2) show ?thesis by (simp add: s(1) splitPath_def getlines_cons)
  next
    case False
    then show ?thesis
      by (cases "s = []") (simp_all add: splitPath_slash, simp_all add: splitPath_def getlines_cons
          getlines_single)
  qed
qed

lemma splitPath_Nil [simp]: "splitPath [] = []"
  by (simp add: splitPath_def)

lemma splitPath_pop: "splitPath (pop_slashes s) = splitPath s"
proof (induction s rule: pop_slashes.induct)
  case (1 s)
  show ?case
  proof (cases "length s > 1 \<and> last s = CHR ''/''")
    case True
    then have "s = butlast s @ [CHR ''/'']"
      by (metis append_butlast_last_id length_0_conv not_one_less_zero)
    then have "splitPath s = splitPath (butlast s)"
      using splitPath_append_slash [of "butlast s" "[]"] by simp
    with True "1.IH" show ?thesis by (subst pop_slashes.simps) simp
  next
    case False
    then show ?thesis by (subst pop_slashes.simps) auto
  qed
qed

lemma hd_pop_slashes: "s = [] \<or> hd s = c \<Longrightarrow> pop_slashes s = [] \<or> hd (pop_slashes s) = c"
proof (induction s rule: pop_slashes.induct)
  case (1 s)
  show ?case
  proof (cases "length s > 1 \<and> last s = CHR ''/''")
    case True
    then have "butlast s \<noteq> [] \<and> hd (butlast s) = hd s"
      by (cases s) auto
    moreover have "pop_slashes s = pop_slashes (butlast s)"
      using True by (subst pop_slashes.simps) simp
    ultimately show ?thesis using "1.IH" [OF True] "1.prems" by auto
  next
    case False
    then have "pop_slashes s = s" by (subst pop_slashes.simps) auto
    with "1.prems" show ?thesis by simp
  qed
qed

lemma splitPath_dropWhile: "splitPath (dropWhile (\<lambda>c. c = CHR ''/'') s) = splitPath s"
  by (induction s) (auto simp: splitPath_slash)

lemma JoinPath_facts:
  "splitPath (JoinPath prefix path) = splitPath prefix @ splitPath path \<and>
   hd (JoinPath prefix path) = CHR ''/'' \<and> JoinPath prefix path \<noteq> []"
proof -
  define base where
    "base = pop_slashes (if prefix \<noteq> [] \<and> hd prefix \<noteq> CHR ''/'' then CHR ''/'' # prefix else prefix)"
  define rest where "rest = dropWhile (\<lambda>c. c = CHR ''/'') path"
  have join: "JoinPath prefix path =
      (if rest = [] then (if base = [] then ''/'' else base)
       else if base = [] \<or> base = ''/'' then ''/'' @ rest else base @ ''/'' @ rest)"
    by (simp only: JoinPath_def Let_def base_def rest_def)
  have segs: "splitPath base = splitPath prefix" "splitPath rest = splitPath path"
    by (simp_all add: base_def rest_def splitPath_pop splitPath_slash splitPath_dropWhile)
  have hd_base: "base = [] \<or> hd base = CHR ''/''"
    unfolding base_def by (rule hd_pop_slashes) auto
  have "splitPath (JoinPath prefix path) = splitPath base @ splitPath rest"
    using splitPath_append_slash [of base rest] splitPath_slash [of rest] splitPath_slash [of "[]"]
    by (simp add: join)
  with segs hd_base show ?thesis by (auto simp: join)
qed

lemma splitPath_join: "splitPath (JoinPath p q) = splitPath p @ splitPath q"
  using JoinPath_facts [of p q] by blast

section \<open>Routes of a tree\<close>

text \<open>The shape of a route: its segments without the names.\<close>

datatype shape = SLit string | SParam | SWild

fun shape_of :: "string list \<Rightarrow> shape list" where
  "shape_of [] = []"
| "shape_of (segment # parts) =
     (if segment \<noteq> [] \<and> hd segment = CHR '':'' then SParam # shape_of parts
      else if segment \<noteq> [] \<and> hd segment = CHR ''*'' then [SWild]
      else SLit segment # shape_of parts)"

fun node_at :: "shape list \<Rightarrow> 'h TrieNode \<Rightarrow> 'h TrieNode option" where
  "node_at [] t = Some t"
| "node_at (SLit s # sh) t = Option.bind (map_of (children t) s) (node_at sh)"
| "node_at (SParam # sh) t = Option.bind (paramChild t) (node_at sh)"
| "node_at (SWild # sh) t = (if sh = [] then wildcardChild t else None)"

definition end_at :: "'h TrieNode \<Rightarrow> shape list \<Rightarrow> bool" where
  "end_at t sh = (case node_at sh t of None \<Rightarrow> False | Some n \<Rightarrow> isEnd n)"

definition handles_at :: "'h TrieNode \<Rightarrow> shape list \<Rightarrow> 'h list" where
  "handles_at t sh = (case node_at sh t of None \<Rightarrow> [] | Some n \<Rightarrow> handles n)"

definition pattern_at :: "'h TrieNode \<Rightarrow> shape list \<Rightarrow> string" where
  "pattern_at t sh = (case node_at sh t of None \<Rightarrow> [] | Some n \<Rightarrow> routePattern n)"

lemmas at_defs = end_at_def handles_at_def pattern_at_def

lemma new_node_at: "node_at sh (new_node pn wn) = (if sh = [] then Some (new_node pn wn) else None)"
  by (cases "(sh, new_node pn wn :: 'a TrieNode)" rule: node_at.cases) (simp_all add: new_node_def)

lemma new_node_sel [simp]:
  "isEnd (new_node pn wn) = False" "handles (new_node pn wn) = []"
  "children (new_node pn wn) = []" "paramChild (new_node pn wn) = None"
  "wildcardChild (new_node pn wn) = None"
  by (simp_all add: new_node_def)

lemma insert_end_sel [simp]:
  "isEnd (insert_end pat hs t) = True" "handles (insert_end pat hs t) = handles t @ hs"
  "children (insert_end pat hs t) = children t" "paramChild (insert_end pat hs t) = paramChild t"
  "wildcardChild (insert_end pat hs t) = wildcardChild t"
  by (cases t; simp)+

lemma insert_end_at:
  "node_at sh (insert_end pat hs t) = (if sh = [] then Some (insert_end pat hs t) else node_at sh t)"
  by (cases "(sh, t)" rule: node_at.cases) auto

lemma end_at_simps [simp]:
  "end_at t [] = isEnd t"
  "end_at t (SLit s # sh) = (case map_of (children t) s of None \<Rightarrow> False | Some c \<Rightarrow> end_at c sh)"
  "end_at t (SParam # sh) = (case paramChild t of None \<Rightarrow> False | Some c \<Rightarrow> end_at c sh)"
  "end_at t (SWild # sh) =
     (case wildcardChild t of None \<Rightarrow> False | Some c \<Rightarrow> sh = [] \<and> isEnd c)"
  by (simp_all add: end_at_def split: option.splits)

lemma handles_at_simps [simp]:
  "handles_at t [] = handles t"
  "handles_at t (SLit s # sh) = (case map_of (children t) s of None \<Rightarrow> [] | Some c \<Rightarrow> handles_at c sh)"
  "handles_at t (SParam # sh) = (case paramChild t of None \<Rightarrow> [] | Some c \<Rightarrow> handles_at c sh)"
  "handles_at t (SWild # sh) =
     (case wildcardChild t of None \<Rightarrow> [] | Some c \<Rightarrow> if sh = [] then handles c else [])"
  by (simp_all add: handles_at_def split: option.splits)

lemma pattern_at_simps [simp]:
  "pattern_at t [] = routePattern t"
  "pattern_at t (SLit s # sh) = (case map_of (children t) s of None \<Rightarrow> [] | Some c \<Rightarrow> pattern_at c sh)"
  "pattern_at t (SParam # sh) = (case paramChild t of None \<Rightarrow> [] | Some c \<Rightarrow> pattern_at c sh)"
  "pattern_at t [SWild] = (case wildcardChild t of None \<Rightarrow> [] | Some c \<Rightarrow> routePattern c)"
  by (simp_all add: pattern_at_def split: option.splits)

lemma at_insert_end:
  "end_at (insert_end pat hs t) sh \<longleftrightarrow> end_at t sh \<or> sh = []"
  "handles_at (insert_end pat hs t) sh = handles_at t sh @ (if sh = [] then hs else [])"
  by (auto simp: at_defs insert_end_at)

lemma at_new_node [simp]:
  "end_at (new_node pn wn) sh = False" "handles_at (new_node pn wn) sh = []"
  by (simp_all add: at_defs new_node_at)

lemma insert_parts_at:
  "(end_at (insert_parts ps pat hs t) sh \<longleftrightarrow> end_at t sh \<or> sh = shape_of ps) \<and>
   handles_at (insert_parts ps pat hs t) sh = handles_at t sh @ (if sh = shape_of ps then hs else [])"
proof (induction ps arbitrary: pat t sh)
  case Nil
  show ?case by (simp add: at_insert_end)
next
  case (Cons seg ps)
  note ih = Cons.IH [THEN conjunct1] Cons.IH [THEN conjunct2]
  obtain ch pc pn wc wn h rp e where t: "t = TrieNode ch pc pn wc wn h rp e" by (cases t)
  consider (param) "seg \<noteq> []" "hd seg = CHR '':''" | (wild) "seg \<noteq> []" "hd seg = CHR ''*''"
    | (lit) "\<not> (seg \<noteq> [] \<and> hd seg = CHR '':'')" "\<not> (seg \<noteq> [] \<and> hd seg = CHR ''*'')"
    by blast
  then show ?case
  proof cases
    case param
    then show ?thesis
      by (cases "(sh, t)" rule: node_at.cases; cases pc)
        (simp_all add: t Let_def ih)
  next
    case wild
    then show ?thesis
      by (cases "(sh, t)" rule: node_at.cases; cases wc)
        (auto simp: t Let_def at_insert_end)
  next
    case lit
    have ins: "insert_parts (seg # ps) pat hs t = TrieNode (AList.update seg (insert_parts ps
        (pat @ ''/'' @ seg) hs (case map_of ch seg of None \<Rightarrow> new_node [] [] | Some c \<Rightarrow> c)) ch)
        pc pn wc wn h rp e"
      using lit by (auto simp: t Let_def)
    have sh: "shape_of (seg # ps) = SLit seg # shape_of ps"
      using lit by auto
    show ?thesis
      unfolding ins sh by (cases "(sh, t)" rule: node_at.cases)
        (simp_all add: t ih update_conv' split: option.splits)
  qed
qed

section \<open>A table of routes\<close>

text \<open>
  The contract of a route table: registering a route adds its handlers at the end of those of
  its key and changes nothing at other keys. The contents after any list of registrations
  follow from it.
\<close>

locale route_table =
  fixes empty :: 't
    and key :: "'p \<Rightarrow> 'k"
    and ins :: "'p \<Rightarrow> 'h list \<Rightarrow> 't \<Rightarrow> 't"
    and present :: "'t \<Rightarrow> 'k \<Rightarrow> bool"
    and content :: "'t \<Rightarrow> 'k \<Rightarrow> 'h list"
  assumes present_empty: "\<not> present empty k"
    and content_empty: "content empty k = []"
    and present_ins: "present (ins p hs t) k \<longleftrightarrow> present t k \<or> k = key p"
    and content_ins: "content (ins p hs t) k = content t k @ (if k = key p then hs else [])"
begin

definition register_all :: "('p \<times> 'h list) list \<Rightarrow> 't \<Rightarrow> 't" where
  "register_all rs t = fold (\<lambda>(p, hs). ins p hs) rs t"

lemma present_all: "present (register_all rs t) k \<longleftrightarrow> present t k \<or> k \<in> (key \<circ> fst) ` set rs"
  by (induction rs arbitrary: t) (auto simp: register_all_def present_ins split: prod.splits)

lemma content_all:
  "content (register_all rs t) k = content t k @ concat (map snd (filter (\<lambda>(p, hs). key p = k) rs))"
  by (induction rs arbitrary: t) (auto simp: register_all_def content_ins split: prod.splits)

lemma present_from_empty: "present (register_all rs empty) k \<longleftrightarrow> k \<in> (key \<circ> fst) ` set rs"
  by (simp add: present_all present_empty)

lemma content_from_empty:
  "content (register_all rs empty) k = concat (map snd (filter (\<lambda>(p, hs). key p = k) rs))"
  by (simp add: content_all content_empty)

end

interpretation trie: route_table "new_node [] [] :: 'h TrieNode" "\<lambda>p. shape_of (splitPath p)"
  tree_insert end_at handles_at
  by unfold_locales (auto simp: tree_insert_def insert_parts_at)

section \<open>The search\<close>

text \<open>
  The shapes that match a request path, in the order of preference: literal before parameter
  before wildcard at each segment, the first segment deciding first.
\<close>

fun candidates :: "string list \<Rightarrow> shape list list" where
  "candidates [] = [[], [SWild]]"
| "candidates (x # xs) =
     map (\<lambda>sh. SLit x # sh) (candidates xs) @ map (\<lambda>sh. SParam # sh) (candidates xs) @ [[SWild]]"

lemma find_map: "find P (map f xs) = map_option f (find (\<lambda>x. P (f x)) xs)"
  by (induction xs) auto

lemma find_append: "find P (xs @ ys) = (case find P xs of Some x \<Rightarrow> Some x | None \<Rightarrow> find P ys)"
  by (induction xs) auto

lemma find_option:
  "find (\<lambda>x. case m of None \<Rightarrow> False | Some c \<Rightarrow> P c x) xs = Option.bind m (\<lambda>c. find (P c) xs)"
proof (cases m)
  case None
  have "find (\<lambda>x. False) xs = None" by (induction xs) simp_all
  with None show ?thesis by simp
qed simp

definition best :: "'h TrieNode \<Rightarrow> string list \<Rightarrow> shape list option" where
  "best t parts = find (end_at t) (candidates parts)"

lemma best_simps [simp]:
  "best t [] = (if isEnd t then Some []
     else case wildcardChild t of None \<Rightarrow> None | Some w \<Rightarrow> if isEnd w then Some [SWild] else None)"
  "best t (x # xs) =
     (case Option.bind (map_of (children t) x) (\<lambda>c. best c xs) of
        Some sh \<Rightarrow> Some (SLit x # sh)
      | None \<Rightarrow> (case Option.bind (paramChild t) (\<lambda>c. best c xs) of
          Some sh \<Rightarrow> Some (SParam # sh)
        | None \<Rightarrow> (case wildcardChild t of
            None \<Rightarrow> None | Some w \<Rightarrow> if isEnd w then Some [SWild] else None)))"
  by (simp_all add: best_def find_map find_append find_option split: option.splits)

lemma take_node_sel [simp]:
  "rm_handles (take_node n r) = handles n" "rm_pattern (take_node n r) = routePattern n"
  "rm_params (take_node n r) = rm_params r"
  by (simp_all add: take_node_def)

lemma take_wild_sel [simp]:
  "rm_handles (take_wild w ps r) = handles w" "rm_pattern (take_wild w ps r) = routePattern w"
  "rm_params (take_wild w ps r) = AList.update (wildcardName w) (Join ps ''/'') (rm_params r)"
  by (simp_all add: take_wild_def)

definition picks :: "'h TrieNode \<Rightarrow> shape list option \<Rightarrow> bool \<times> 'h RouteMatch \<Rightarrow> bool" where
  "picks t m res \<longleftrightarrow>
     (case m of
        None \<Rightarrow> \<not> fst res
      | Some sh \<Rightarrow> fst res \<and> rm_handles (snd res) = handles_at t sh \<and> rm_pattern (snd res) = pattern_at t sh)"

lemma dfsMatch_picks: "picks t (best t parts) (dfsMatch t parts r)"
proof (induction parts arbitrary: t r)
  case Nil
  show ?case by (auto simp: picks_def split: option.splits)
next
  case (Cons x xs)
  define s1 where "s1 = (case map_of (children t) x of Some c \<Rightarrow> dfsMatch c xs r | None \<Rightarrow> (False, r))"
  define s2 where "s2 = (case paramChild t of
      Some c \<Rightarrow> (let s = dfsMatch c xs (snd s1\<lparr>rm_params := AList.update (paramName c) x (rm_params (snd s1))\<rparr>)
         in if fst s then s
            else (False, snd s\<lparr>rm_params := AList.delete (paramName c) (rm_params (snd s))\<rparr>))
    | None \<Rightarrow> (False, snd s1))"
  have run: "dfsMatch t (x # xs) r = (if fst s1 then s1 else if fst s2 then s2
      else (case wildcardChild t of
              Some w \<Rightarrow> (if isEnd w then (True, take_wild w (x # xs) (snd s2)) else s2)
            | None \<Rightarrow> s2))"
    by (simp only: dfsMatch.simps Let_def s1_def s2_def)
  have lit: "case Option.bind (map_of (children t) x) (\<lambda>c. best c xs) of
      None \<Rightarrow> \<not> fst s1
    | Some sh \<Rightarrow> fst s1 \<and> rm_handles (snd s1) = handles_at t (SLit x # sh) \<and>
                 rm_pattern (snd s1) = pattern_at t (SLit x # sh)"
    using Cons.IH [of "the (map_of (children t) x)" r]
    by (cases "map_of (children t) x") (auto simp: s1_def picks_def split: option.splits)
  have par: "case Option.bind (paramChild t) (\<lambda>c. best c xs) of
      None \<Rightarrow> \<not> fst s2
    | Some sh \<Rightarrow> fst s2 \<and> rm_handles (snd s2) = handles_at t (SParam # sh) \<and>
                 rm_pattern (snd s2) = pattern_at t (SParam # sh)"
  proof (cases "paramChild t")
    case (Some c)
    with Cons.IH [of c "snd s1\<lparr>rm_params := AList.update (paramName c) x (rm_params (snd s1))\<rparr>"]
    show ?thesis by (auto simp: s2_def Let_def picks_def split: option.splits)
  qed (simp add: s2_def)
  show ?case
    using lit par unfolding run
    by (auto simp: picks_def split: option.splits if_splits)
qed

section \<open>Parameters\<close>

text \<open>What a route binds on a path, and trees in which no name repeats along a path.\<close>

fun bind_at :: "shape list \<Rightarrow> 'h TrieNode \<Rightarrow> string list \<Rightarrow> (string \<times> string) list" where
  "bind_at (SLit s # sh) t (x # xs) =
     (case map_of (children t) s of None \<Rightarrow> [] | Some c \<Rightarrow> bind_at sh c xs)"
| "bind_at (SParam # sh) t (x # xs) =
     (case paramChild t of None \<Rightarrow> [] | Some c \<Rightarrow> (paramName c, x) # bind_at sh c xs)"
| "bind_at (SWild # sh) t xs =
     (case wildcardChild t of None \<Rightarrow> [] | Some w \<Rightarrow> [(wildcardName w, Join xs ''/'')])"
| "bind_at _ t _ = []"

fun fresh_names :: "string set \<Rightarrow> 'h TrieNode \<Rightarrow> bool" where
  "fresh_names used (TrieNode ch pc pn wc wn h rp e) \<longleftrightarrow>
     (\<forall>kc\<in>set ch. fresh_names used (snd kc)) \<and>
     (case pc of None \<Rightarrow> True
      | Some c \<Rightarrow> paramName c \<notin> used \<and> fresh_names (insert (paramName c) used) c) \<and>
     (case wc of None \<Rightarrow> True | Some w \<Rightarrow> wildcardName w \<notin> used)"

lemma fresh_names_child:
  "fresh_names used t \<Longrightarrow> map_of (children t) x = Some c \<Longrightarrow> fresh_names used c"
  by (cases t) (auto dest!: map_of_SomeD)

lemma fresh_names_param:
  "fresh_names used t \<Longrightarrow> paramChild t = Some c \<Longrightarrow>
     paramName c \<notin> used \<and> fresh_names (insert (paramName c) used) c"
  by (cases t) auto

lemma fresh_names_wild:
  "fresh_names used t \<Longrightarrow> wildcardChild t = Some w \<Longrightarrow> wildcardName w \<notin> used"
  by (cases t) auto

definition binds :: "(string \<times> string) list \<Rightarrow> (string \<times> string) list \<Rightarrow> (string \<times> string) list \<Rightarrow> bool" where
  "binds ps0 bs ps \<longleftrightarrow> map_of ps = map_of ps0 ++ map_of bs"

lemma fresh_not_bound:
  "fresh_names used t \<Longrightarrow> k \<in> used \<Longrightarrow> map_of (bind_at sh t xs) k = None"
proof (induction sh t xs arbitrary: used rule: bind_at.induct)
  case (1 s sh t x xs)
  then show ?case by (auto split: option.splits dest: fresh_names_child)
next
  case (2 sh t x xs)
  then show ?case
    by (cases "paramChild t") (auto dest: fresh_names_param)
next
  case (3 sh t xs)
  then show ?case by (auto split: option.splits dest: fresh_names_wild)
qed simp_all

lemma update_delete_fresh:
  "map_of ps k = None \<Longrightarrow> map_of (AList.delete k (AList.update k v ps)) = map_of ps"
  by (auto simp: delete_conv' update_conv')

text \<open>
  With fresh names a failing branch leaves the parameters as they were, and a successful
  search binds exactly what its route binds.
\<close>

lemma dfsMatch_params:
  assumes "fresh_names used t" "dom (map_of (rm_params r)) \<subseteq> used"
  shows "case best t parts of
      None \<Rightarrow> map_of (rm_params (snd (dfsMatch t parts r))) = map_of (rm_params r)
    | Some sh \<Rightarrow> binds (rm_params r) (bind_at sh t parts) (rm_params (snd (dfsMatch t parts r)))"
  using assms
proof (induction parts arbitrary: t r used)
  case Nil
  then show ?case
    by (auto simp: binds_def update_conv' split: option.splits)
next
  case (Cons x xs)
  define s1 where "s1 = (case map_of (children t) x of Some c \<Rightarrow> dfsMatch c xs r | None \<Rightarrow> (False, r))"
  define s2 where "s2 = (case paramChild t of
      Some c \<Rightarrow> (let s = dfsMatch c xs (snd s1\<lparr>rm_params := AList.update (paramName c) x (rm_params (snd s1))\<rparr>)
         in if fst s then s
            else (False, snd s\<lparr>rm_params := AList.delete (paramName c) (rm_params (snd s))\<rparr>))
    | None \<Rightarrow> (False, snd s1))"
  have run: "dfsMatch t (x # xs) r = (if fst s1 then s1 else if fst s2 then s2
      else (case wildcardChild t of
              Some w \<Rightarrow> (if isEnd w then (True, take_wild w (x # xs) (snd s2)) else s2)
            | None \<Rightarrow> s2))"
    by (simp only: dfsMatch.simps Let_def s1_def s2_def)
  have lit: "case Option.bind (map_of (children t) x) (\<lambda>c. best c xs) of
      None \<Rightarrow> \<not> fst s1 \<and> map_of (rm_params (snd s1)) = map_of (rm_params r)
    | Some sh \<Rightarrow> fst s1 \<and> binds (rm_params r) (bind_at (SLit x # sh) t (x # xs)) (rm_params (snd s1))"
  proof (cases "map_of (children t) x")
    case (Some c)
    note ih = Cons.IH [OF fresh_names_child [OF Cons.prems(1) Some] Cons.prems(2)]
    from dfsMatch_picks [of c xs r] ih Some show ?thesis
      by (auto simp: s1_def picks_def split: option.splits)
  qed (simp add: s1_def)
  have par: "case Option.bind (paramChild t) (\<lambda>c. best c xs) of
      None \<Rightarrow> \<not> fst s2 \<and> map_of (rm_params (snd s2)) = map_of (rm_params r)
    | Some sh \<Rightarrow> fst s2 \<and> binds (rm_params r) (bind_at (SParam # sh) t (x # xs)) (rm_params (snd s2))"
    if "\<not> fst s1"
  proof (cases "paramChild t")
    case (Some c)
    from that lit have eq: "map_of (rm_params (snd s1)) = map_of (rm_params r)"
      by (auto split: option.splits)
    let ?r = "snd s1\<lparr>rm_params := AList.update (paramName c) x (rm_params (snd s1))\<rparr>"
    note fr = fresh_names_param [OF Cons.prems(1) Some]
    have none: "map_of (rm_params r) (paramName c) = None"
      using fr Cons.prems(2) by blast
    have "dom (map_of (rm_params ?r)) \<subseteq> insert (paramName c) used"
      using Cons.prems(2) eq by (auto simp: update_conv')
    note ih = Cons.IH [OF conjunct2 [OF fr] this]
    show ?thesis
    proof (cases "best c xs")
      case None
      with ih dfsMatch_picks [of c xs ?r] Some eq none show ?thesis
        by (auto simp: s2_def Let_def picks_def update_conv' delete_conv' fun_upd_idem)
    next
      case (Some sh)
      have nb: "map_of (bind_at sh c xs) (paramName c) = None"
        using fresh_not_bound [OF conjunct2 [OF fr]] by blast
      have "map_of (rm_params r) ++ map_of ((paramName c, x) # bind_at sh c xs) =
          (map_of (rm_params r))(paramName c \<mapsto> x) ++ map_of (bind_at sh c xs)"
        using nb by (auto simp: map_add_def fun_eq_iff split: option.splits)
      with ih dfsMatch_picks [of c xs ?r] Some \<open>paramChild t = Some c\<close> eq show ?thesis
        by (simp add: s2_def Let_def picks_def binds_def update_conv')
    qed
  next
    case None
    with that lit show ?thesis by (auto simp: s2_def split: option.splits)
  qed
  show ?case
    using lit par Cons.prems unfolding run
    by (auto simp: binds_def update_conv' split: option.splits if_splits)
qed

section \<open>Properties\<close>

text \<open>
  C2: Routing is exactly the documented priority. For every list of registrations and every
  request path, the tree search succeeds if and only if some registered route matches, and it
  then runs the handlers of the first matching route in the order literal before parameter
  before wildcard, segment by segment: all handlers registered for that route, in registration
  order, and none of any other route.
\<close>

theorem Route_dispatch:
  "case find (\<lambda>sh. \<exists>(p, hs)\<in>set rs. shape_of (splitPath p) = sh) (candidates (splitPath path)) of
     None \<Rightarrow> \<not> fst (tree_match (fold (\<lambda>(p, hs). tree_insert p hs) rs (new_node [] [])) path)
   | Some sh \<Rightarrow> fst (tree_match (fold (\<lambda>(p, hs). tree_insert p hs) rs (new_node [] [])) path) \<and>
       rm_handles (snd (tree_match (fold (\<lambda>(p, hs). tree_insert p hs) rs (new_node [] [])) path)) =
         concat (map snd (filter (\<lambda>(p, hs). shape_of (splitPath p) = sh) rs))"
proof -
  let ?t = "fold (\<lambda>(p, hs). tree_insert p hs) rs (new_node [] [])"
  have "end_at ?t = (\<lambda>sh. \<exists>(p, hs)\<in>set rs. shape_of (splitPath p) = sh)"
    using trie.present_from_empty [of rs] by (force simp: trie.register_all_def)
  moreover have "handles_at ?t sh = concat (map snd (filter (\<lambda>(p, hs). shape_of (splitPath p) = sh) rs))" for sh
    using trie.content_from_empty [of rs sh] by (simp add: trie.register_all_def)
  moreover note dfsMatch_picks [of ?t "splitPath path" empty_match]
  ultimately show ?thesis
    by (auto simp: picks_def best_def tree_match_def split: option.splits)
qed

text \<open>
  The parameters handed to the handlers are those of the chosen route: in a tree where no
  parameter name repeats along a path, backtracking leaves no trace, and a successful search
  binds each parameter to its segment and the wildcard to the rest of the path.
\<close>

theorem Route_params:
  assumes "fresh_names {} t" "best t (splitPath path) = Some sh"
  shows "fst (tree_match t path) \<and>
    map_of (rm_params (snd (tree_match t path))) = map_of (bind_at sh t (splitPath path))"
  using dfsMatch_params [OF assms(1), of empty_match "splitPath path"]
    dfsMatch_picks [of t "splitPath path" empty_match] assms(2)
  by (simp add: tree_match_def binds_def picks_def empty_match_def)

theorem Route_params_witness:
  "fst (tree_match (tree_insert ''/u/:id/*rest'' [1] (tree_insert ''/u/:id/edit'' [2::nat]
      (new_node [] []))) ''/u/7/a/b'') \<and>
   map_of (rm_params (snd (tree_match (tree_insert ''/u/:id/*rest'' [1] (tree_insert ''/u/:id/edit'' [2::nat]
      (new_node [] []))) ''/u/7/a/b''))) ''rest'' = Some ''a/b''"
proof -
  let ?t = "tree_insert ''/u/:id/*rest'' [1] (tree_insert ''/u/:id/edit'' [2::nat] (new_node [] []))"
  have "fresh_names {} ?t" by code_simp
  moreover have "best ?t (splitPath ''/u/7/a/b'') = Some [SLit ''u'', SParam, SWild]" by code_simp
  ultimately have "fst (tree_match ?t ''/u/7/a/b'') \<and>
      map_of (rm_params (snd (tree_match ?t ''/u/7/a/b''))) =
      map_of (bind_at [SLit ''u'', SParam, SWild] ?t (splitPath ''/u/7/a/b''))"
    by (rule Route_params)
  moreover have "map_of (bind_at [SLit ''u'', SParam, SWild] ?t (splitPath ''/u/7/a/b'')) ''rest'' = Some ''a/b''"
    by code_simp
  ultimately show ?thesis by simp
qed

text \<open>
  A repeated name is lost when the search backs out of the inner parameter: the erase of the
  failed branch removes the binding of the outer one.
\<close>

lemma Route_param_lost:
  "let t = tree_insert ''/:id/:id/a'' [1] (tree_insert ''/:id/*rest'' [2::nat] (new_node [] []));
       r = tree_match t ''/1/2/b''
   in fst r \<and> rm_handles (snd r) = [2] \<and> map_of (rm_params (snd r)) ''rest'' = Some ''2/b'' \<and>
      map_of (rm_params (snd r)) ''id'' = None"
  by code_simp

text \<open>
  Joining a group prefix with a route path loses no segment and adds none, whatever slashes
  the two have at their ends: the segments of the joined path are those of the prefix followed
  by those of the path, and the joined path always starts with a slash. So nested groups
  register the concatenation of their prefixes.
\<close>

theorem JoinPath_segments:
  "splitPath (JoinPath prefix path) = splitPath prefix @ splitPath path \<and>
   hd (JoinPath prefix path) = CHR ''/'' \<and> JoinPath prefix path \<noteq> []"
  by (rule JoinPath_facts)

text \<open>
  A route registered through nested groups is stored under the concatenated segments of
  both prefixes and its path, and its chain is the outer group's middleware, then the inner
  group's, then its own handlers, appended to what the route had; other routes and the routes
  of other methods do not change.
\<close>

theorem Group_nested_register:
  "handles_at (case map_of (m_trees (Group_Register (Group_Group (Server_Group a ms) b ms') mth path hs s)) mth' of
            None \<Rightarrow> new_node [] [] | Some t \<Rightarrow> t) sh =
    handles_at (case map_of (m_trees s) mth' of None \<Rightarrow> new_node [] [] | Some t \<Rightarrow> t) sh @
    (if mth' = mth \<and> sh = shape_of (splitPath a @ splitPath b @ splitPath path)
     then map (\<lambda>f. f (JoinPath (JoinPath a b) path)) (ms @ ms') @ hs else [])"
proof -
  have "splitPath (JoinPath p q) = splitPath p @ splitPath q" for p q
    using splitPath_join [of p q] .
  then show ?thesis
    by (simp add: Group_Register_def Group_Group_def Server_Group_def Let_def AddRoute_def
        InstantiateMiddleware_def update_conv' tree_insert_def insert_parts_at split: option.splits)
qed

end
