(* ===== verification/Http_Context.thy ===== *)
theory Http_Context
  imports Http_Request Http_Response Http_Router
begin

text \<open>
  The request context handed to handlers (\<open>class HttpContext\<close> in \<open>http/httpserver.h\<close> and
  \<open>http/httpserver.cpp\<close>): the response writers, cookies, the bound form, user data and the
  handler chain. Pointers to the request and the response are optional values inside the
  context. \<open>Abort\<close> throws, so operations that may abort return an \<open>outcome\<close>.
\<close>

section \<open>State\<close>

datatype FormState = eUnparsed | eValid | eInvalid

datatype SameSite = eSameSiteDefault | eSameSiteLax | eSameSiteStrict | eSameSiteNone

text \<open>\<open>Overflow\<close>: bytes written past the end of a buffer at its size limit.\<close>

datatype 'a outcome = Ret 'a | Throw string 'a | Overflow

text \<open>A value of type \<open>std::any\<close> is a type name with the value's address.\<close>

type_synonym any_value = "string \<times> nat"

record http_context =
  m_ptrReq :: "http_request option"
  m_ptrRsp :: "http_response option"
  m_bHasSetRspContent :: bool
  m_bLog :: bool
  m_sRoutePattern :: string
  m_mapParams :: "(string \<times> string) list"
  m_mapQueryParams :: "(string \<times> string) list"
  m_mapFormFields :: "(string \<times> string) list"
  m_eFormState :: FormState
  m_iFormBodySize :: nat
  m_sClientIP :: string
  m_mapUserData :: "(string \<times> nat) list"
  m_mapAnyUserData :: "(string \<times> any_value) list"
  m_eSameSite :: SameSite

definition mk_context ::
  "http_request \<Rightarrow> http_response \<Rightarrow> (string \<times> string) list \<Rightarrow> (string \<times> string) list \<Rightarrow>
   string \<Rightarrow> string \<Rightarrow> http_context" where
  "mk_context req rsp params queryParams clientIP pattern =
     \<lparr>m_ptrReq = Some req, m_ptrRsp = Some rsp, m_bHasSetRspContent = False, m_bLog = True,
      m_sRoutePattern = pattern, m_mapParams = params, m_mapQueryParams = queryParams,
      m_mapFormFields = [], m_eFormState = eUnparsed, m_iFormBodySize = 0,
      m_sClientIP = clientIP, m_mapUserData = [], m_mapAnyUserData = [],
      m_eSameSite = eSameSiteDefault\<rparr>"

definition GetRequestUrl :: "http_context \<Rightarrow> string" where
  "GetRequestUrl c = m_sPath (the (m_ptrReq c))"

definition ClientIP :: "http_context \<Rightarrow> string" where
  "ClientIP c = m_sClientIP c"

definition GetRoutePattern :: "http_context \<Rightarrow> string" where
  "GetRoutePattern c = m_sRoutePattern c"

section \<open>Response writers\<close>

text \<open>The macro \<open>OVERWRITE_RSPCONTENT\<close>, then the change \<open>f\<close> of the response.\<close>

definition overwrite_rsp ::
  "(http_response \<Rightarrow> http_response option) \<Rightarrow> http_context \<Rightarrow> http_context outcome" where
  "overwrite_rsp f c =
     (case m_ptrRsp c of
        None \<Rightarrow> Ret c
      | Some p \<Rightarrow>
          (case f (if m_bHasSetRspContent c then ResetContent p else p) of
             None \<Rightarrow> Overflow
           | Some p' \<Rightarrow> Ret (c\<lparr>m_bHasSetRspContent := True, m_ptrRsp := Some p'\<rparr>)))"

definition write_content :: "string \<Rightarrow> string \<Rightarrow> int \<Rightarrow> http_response \<Rightarrow> http_response option" where
  "write_content ctype data code p =
     map_option (\<lambda>b. p\<lparr>m_httpRspContentType := ctype, m_iHttpRetCode := code, m_httpRspContentBuffer := b\<rparr>)
       (Append data (m_httpRspContentBuffer p))"

text \<open>\<open>json\<close> is the serialised message; \<open>None\<close>: the conversion failed.\<close>

definition Json :: "int \<Rightarrow> string option \<Rightarrow> http_context \<Rightarrow> http_context outcome" where
  "Json code json =
     overwrite_rsp (\<lambda>p. case json of
        Some text \<Rightarrow> write_content (PathSuffix2FileType ''.json'') text code p
      | None \<Rightarrow> Some (ShouldGenErrorPage 500 p))"

definition String :: "int \<Rightarrow> string \<Rightarrow> http_context \<Rightarrow> http_context outcome" where
  "String code msg = overwrite_rsp (write_content (PathSuffix2FileType ''.txt'') msg code)"

definition Data :: "int \<Rightarrow> string \<Rightarrow> string \<Rightarrow> http_context \<Rightarrow> http_context outcome" where
  "Data code contentType data = overwrite_rsp (write_content contentType data code)"

definition isTemplateHTML :: "string \<Rightarrow> bool" where
  "isTemplateHTML path \<longleftrightarrow>
     length path > 4 \<and>
     (drop (length path - 5) path = ''.html'' \<or> drop (length path - 5) path = ''.tmpl'' \<or>
      drop (length path - 4) path = ''.tpl'')"

definition Status :: "int \<Rightarrow> http_context \<Rightarrow> http_context" where
  "Status code c = c\<lparr>m_ptrRsp := map_option (\<lambda>p. p\<lparr>m_iHttpRetCode := code\<rparr>) (m_ptrRsp c)\<rparr>"

definition Abort :: "string \<Rightarrow> http_context \<Rightarrow> http_context outcome" where
  "Abort msg c = Throw msg c"

definition HTML_args ::
  "int \<Rightarrow> string \<Rightarrow> (string \<times> string) list \<Rightarrow> http_context \<Rightarrow> http_context outcome" where
  "HTML_args code path args c =
     (if \<not> isTemplateHTML path then Abort ''Not a template file'' (Status 400 c)
      else overwrite_rsp (\<lambda>p. Some (p\<lparr>m_httpRspContentType := PathSuffix2FileType ''.html'',
             m_iHttpRetCode := code, m_httpRspStaticResourcePath := path,
             m_mapTemplateArgs := args, m_bResourceIsTemplate := True\<rparr>)) c)"

definition HTML_proto ::
  "int \<Rightarrow> string \<Rightarrow> pb_message \<Rightarrow> http_context \<Rightarrow> http_context outcome" where
  "HTML_proto code path args c =
     (if \<not> isTemplateHTML path then Abort ''Not a template file'' (Status 400 c)
      else overwrite_rsp (\<lambda>p. Some (p\<lparr>m_httpRspContentType := PathSuffix2FileType ''.html'',
             m_iHttpRetCode := code, m_httpRspStaticResourcePath := path,
             m_bResourceIsTemplate := True, m_protoTemplateArgs := Some args\<rparr>)) c)"

definition HTML :: "int \<Rightarrow> string \<Rightarrow> http_context \<Rightarrow> http_context outcome" where
  "HTML code path =
     overwrite_rsp (\<lambda>p. Some (p\<lparr>m_httpRspContentType := PathSuffix2FileType ''.html'',
       m_iHttpRetCode := code, m_httpRspStaticResourcePath := path\<rparr>))"

definition File :: "string \<Rightarrow> http_context \<Rightarrow> http_context outcome" where
  "File path = overwrite_rsp (\<lambda>p. Some (p\<lparr>m_httpRspStaticResourcePath := path\<rparr>))"

definition Ctx_GenErrorPage :: "int \<Rightarrow> http_context \<Rightarrow> http_context outcome" where
  "Ctx_GenErrorPage code = overwrite_rsp (\<lambda>p. Some (ShouldGenErrorPage code p))"

definition Redirect :: "int \<Rightarrow> string \<Rightarrow> http_context \<Rightarrow> http_context outcome" where
  "Redirect code location =
     overwrite_rsp (\<lambda>p. Some (SetHeader ''Location'' location (p\<lparr>m_iHttpRetCode := code\<rparr>)))"

definition Ctx_SetHeader :: "string \<Rightarrow> string \<Rightarrow> http_context \<Rightarrow> http_context" where
  "Ctx_SetHeader key val c = c\<lparr>m_ptrRsp := map_option (SetHeader key val) (m_ptrRsp c)\<rparr>"

definition DisableLog :: "http_context \<Rightarrow> http_context" where
  "DisableLog c = c\<lparr>m_bLog := False\<rparr>"

text \<open>The handler of static routes, and the middleware that sets the cache policy.\<close>

definition default_handle :: "http_context \<Rightarrow> http_context outcome" where
  "default_handle c = File (GetRequestUrl c) (DisableLog c)"

definition CacheControl :: "string \<Rightarrow> http_context \<Rightarrow> http_context" where
  "CacheControl val = Ctx_SetHeader ''Cache-Control'' (if val = [] then ''no-cache'' else val)"

section \<open>Reading the request\<close>

definition Param :: "string \<Rightarrow> http_context \<Rightarrow> string" where
  "Param name c = (case map_of (m_mapParams c) name of Some v \<Rightarrow> v | None \<Rightarrow> [])"

definition DefaultQuery :: "string \<Rightarrow> string \<Rightarrow> http_context \<Rightarrow> string" where
  "DefaultQuery key dflt c = (case map_of (m_mapQueryParams c) key of Some v \<Rightarrow> v | None \<Rightarrow> dflt)"

definition Query :: "string \<Rightarrow> http_context \<Rightarrow> string" where
  "Query key c = (case map_of (m_mapQueryParams c) key of Some v \<Rightarrow> v | None \<Rightarrow> [])"

text \<open>The first name in table order that is equal without case.\<close>

definition GetHeader :: "string \<Rightarrow> http_context \<Rightarrow> string" where
  "GetHeader key c =
     (case m_ptrReq c of
        None \<Rightarrow> []
      | Some q \<Rightarrow> (case find (\<lambda>(name, val). EqualsIgnoreCase name key) (m_mapHeader q) of
                    Some (name, val) \<Rightarrow> val | None \<Rightarrow> []))"

fun cookie_scan :: "string \<Rightarrow> string list \<Rightarrow> string option \<Rightarrow> string option" where
  "cookie_scan name [] found = found"
| "cookie_scan name (piece # pieces) found =
     (let item = Trim piece [CHR '' '', TAB] in
      case find_char (CHR ''='') item of
        None \<Rightarrow> cookie_scan name pieces found
      | Some separator \<Rightarrow>
          (if take separator item = name
           then (if found \<noteq> None then None
                 else cookie_scan name pieces (Some (drop (Suc separator) item)))
           else cookie_scan name pieces found))"

text \<open>
  The value of the cookie, unescaped; the empty string when it is missing or given twice
  (\<open>None\<close> of the scan, which the code returns as an empty string).
\<close>

definition GetCookie :: "string \<Rightarrow> http_context \<Rightarrow> string" where
  "GetCookie name c =
     (if name = [] then []
      else (case cookie_scan name (getlines (CHR '';'') (GetHeader ''Cookie'' c)) None of
              None \<Rightarrow> []
            | Some val \<Rightarrow> UrlDecode val False))"

definition cookie_text ::
  "SameSite \<Rightarrow> string \<Rightarrow> string \<Rightarrow> int \<Rightarrow> string \<Rightarrow> string \<Rightarrow> bool \<Rightarrow> bool \<Rightarrow> string" where
  "cookie_text ss name val max_age path domain secure http_only =
     name @ ''='' @ UrlEncode val @ ''; Path='' @ (if path = [] then ''/'' else path) @
     (if domain \<noteq> [] then ''; Domain='' @ domain else []) @
     (if max_age > 0 then ''; Max-Age='' @ int_to_string max_age
      else if max_age < 0 then ''; Max-Age=0'' else []) @
     (if http_only then ''; HttpOnly'' else []) @
     (if secure then ''; Secure'' else []) @
     (case ss of
        eSameSiteLax \<Rightarrow> ''; SameSite=Lax''
      | eSameSiteStrict \<Rightarrow> ''; SameSite=Strict''
      | eSameSiteNone \<Rightarrow> ''; SameSite=None''
      | eSameSiteDefault \<Rightarrow> [])"

definition SetCookie ::
  "string \<Rightarrow> string \<Rightarrow> int \<Rightarrow> string \<Rightarrow> string \<Rightarrow> bool \<Rightarrow> bool \<Rightarrow> http_context \<Rightarrow> http_context" where
  "SetCookie name val max_age path domain secure http_only c =
     Ctx_SetHeader ''Set-Cookie''
       (cookie_text (m_eSameSite c) name val max_age path domain secure http_only) c"

definition PeekRawData :: "http_context \<Rightarrow> string" where
  "PeekRawData c =
     (case m_ptrReq c of
        None \<Rightarrow> []
      | Some q \<Rightarrow>
          (if m_state q = eParsingFinish
           then take (nat (to_size_t (m_iHttpRequsetContentLength q)))
                  (drop (m_iReadPosition (m_buffer q)) (m_VecBuffer (m_buffer q)))
           else []))"

definition consume_body :: "http_context \<Rightarrow> http_context" where
  "consume_body c =
     c\<lparr>m_ptrReq := map_option (\<lambda>q. q\<lparr>m_buffer := snd (Retrieve
          (nat (to_size_t (m_iHttpRequsetContentLength q))) (m_buffer q))\<rparr>) (m_ptrReq c)\<rparr>"

definition GetRawData :: "http_context \<Rightarrow> string \<times> http_context" where
  "GetRawData c =
     (case m_ptrReq c of
        None \<Rightarrow> ([], c)
      | Some q \<Rightarrow> (if m_state q = eParsingFinish then (PeekRawData c, consume_body c) else ([], c)))"

text \<open>\<open>JsonToMessage\<close> is a parameter.\<close>

definition ShouldBindJSON ::
  "(string \<Rightarrow> 'm option) \<Rightarrow> http_context \<Rightarrow> 'm option \<times> http_context" where
  "ShouldBindJSON JsonToMessage c =
     (if m_ptrReq c = None then (None, c)
      else
        (let body = PeekRawData c in
         if body = [] then (None, c)
         else (case JsonToMessage body of
                 None \<Rightarrow> (None, c)
               | Some m \<Rightarrow> (Some m, consume_body c))))"

definition BindJSON ::
  "(string \<Rightarrow> 'm option) \<Rightarrow> http_context \<Rightarrow> ('m option \<times> http_context) outcome" where
  "BindJSON JsonToMessage c =
     (case ShouldBindJSON JsonToMessage c of
        (Some m, c') \<Rightarrow> Ret (Some m, c')
      | (None, c') \<Rightarrow> Throw ''BindJSON'' (None, Status 400 c'))"

section \<open>Forms\<close>

fun decode_component :: "string \<Rightarrow> string option" where
  "decode_component [] = Some []"
| "decode_component (c # s) =
     (if c = CHR ''+'' then map_option ((#) (CHR '' '')) (decode_component s)
      else if c = CHR ''%'' then
        (case s of
           h # l # r \<Rightarrow>
             (let high = CharToHex h; low = CharToHex l in
              if high < 0 \<or> low < 0 then None
              else map_option ((#) (hex_byte high low)) (decode_component r))
         | _ \<Rightarrow> None)
      else map_option ((#) c) (decode_component s))"

fun parse_fields :: "string list \<Rightarrow> (string \<times> string) list \<Rightarrow> (string \<times> string) list option" where
  "parse_fields [] flds = Some flds"
| "parse_fields (item # items) flds =
     (case find_char (CHR ''='') item of
        None \<Rightarrow> None
      | Some equal \<Rightarrow>
          (case (decode_component (take equal item), decode_component (drop (Suc equal) item)) of
             (Some key, Some val) \<Rightarrow>
               (if key = [] \<or> map_of flds key \<noteq> None then None
                else parse_fields items (flds @ [(key, val)]))
           | _ \<Rightarrow> None))"

definition parse_urlencoded :: "string \<Rightarrow> (string \<times> string) list option" where
  "parse_urlencoded body =
     (case parse_fields (getlines (CHR ''&'') body) [] of
        Some flds \<Rightarrow> (if flds = [] then None else Some flds)
      | None \<Rightarrow> None)"

definition ShouldBindForm ::
  "nat \<Rightarrow> http_context \<Rightarrow> (string \<times> string) list option \<times> http_context" where
  "ShouldBindForm max_body_size c =
     (if m_eFormState c = eValid then
        ((if m_iFormBodySize c \<le> max_body_size then Some (m_mapFormFields c) else None), c)
      else if m_eFormState c = eInvalid \<or> m_ptrReq c = None then (None, c)
      else
        (let body = PeekRawData c; c1 = c\<lparr>m_iFormBodySize := length body\<rparr> in
         if body = [] then (None, c1\<lparr>m_eFormState := eInvalid\<rparr>)
         else if length body > max_body_size then (None, c1\<lparr>m_eFormState := eInvalid\<rparr>)
         else (case parse_urlencoded body of
                 None \<Rightarrow> (None, c1\<lparr>m_eFormState := eInvalid\<rparr>)
               | Some flds \<Rightarrow>
                   (Some flds, (consume_body c1)\<lparr>m_mapFormFields := flds, m_eFormState := eValid\<rparr>))))"

definition BindForm ::
  "nat \<Rightarrow> http_context \<Rightarrow> ((string \<times> string) list option \<times> http_context) outcome" where
  "BindForm max_body_size c =
     (case ShouldBindForm max_body_size c of
        (Some flds, c') \<Rightarrow> Ret (Some flds, c')
      | (None, c') \<Rightarrow> Throw ''BindForm'' (None, Status 400 c'))"

section \<open>User data\<close>

definition Store :: "string \<Rightarrow> nat \<Rightarrow> http_context \<Rightarrow> http_context" where
  "Store key val c = c\<lparr>m_mapUserData := AList.update key val (m_mapUserData c)\<rparr>"

definition Load :: "string \<Rightarrow> http_context \<Rightarrow> nat option" where
  "Load key c = map_of (m_mapUserData c) key"

text \<open>\<open>StoreGuard::Release\<close> for the guard of \<open>Store key val\<close>.\<close>

definition StoreGuard_Release :: "string \<Rightarrow> nat \<Rightarrow> http_context \<Rightarrow> http_context" where
  "StoreGuard_Release key val c =
     (if map_of (m_mapUserData c) key = Some val
      then c\<lparr>m_mapUserData := AList.delete key (m_mapUserData c)\<rparr> else c)"

definition Any_Set :: "string \<Rightarrow> any_value \<Rightarrow> http_context \<Rightarrow> http_context" where
  "Any_Set key val c = c\<lparr>m_mapAnyUserData := AList.update key val (m_mapAnyUserData c)\<rparr>"

definition Any_Get :: "string \<Rightarrow> string \<Rightarrow> http_context \<Rightarrow> (nat option \<times> http_context) outcome" where
  "Any_Get ty key c =
     (case map_of (m_mapAnyUserData c) key of
        None \<Rightarrow> Throw (''HttpContext::Get: any key not set: '' @ key) (None, c)
      | Some (t, v) \<Rightarrow>
          (if t = ty then Ret (Some v, c)
           else Throw (''HttpContext::Get: any type mismatch: '' @ key) (None, c)))"

section \<open>The handler chain\<close>

text \<open>
  A handler runs some code on the context, may call \<open>Next\<close> and go on afterwards, may throw and
  may return. \<open>Next\<close> advances the index shared by the whole chain and runs handlers while
  there are any; the first argument bounds the nesting.
\<close>

datatype exn = HttpException string | StdException string | UnknownException

datatype 'c handler =
  Done | Act "'c \<Rightarrow> 'c \<times> 'c handler" | Raise exn | CallNext "'c handler"

type_synonym 'c chain_result = "exn option \<times> nat \<times> 'c"

primrec exec :: "(nat \<Rightarrow> 'c \<Rightarrow> 'c chain_result) \<Rightarrow> 'c handler \<Rightarrow> nat \<Rightarrow> 'c \<Rightarrow> 'c chain_result" where
  "exec nxt Done i c = (None, i, c)"
| "exec nxt (Act f) i c = (case map_prod id (exec nxt) (f c) of (c', run) \<Rightarrow> run i c')"
| "exec nxt (Raise e) i c = (Some e, i, c)"
| "exec nxt (CallNext h) i c =
     (case nxt (Suc i) c of
        (Some e, i', c') \<Rightarrow> (Some e, i', c')
      | (None, i', c') \<Rightarrow> exec nxt h i' c')"

primrec run_from :: "'c handler list \<Rightarrow> nat \<Rightarrow> nat \<Rightarrow> 'c \<Rightarrow> 'c chain_result" where
  "run_from hs 0 i c = (None, i, c)"
| "run_from hs (Suc k) i c =
     (if i < length hs then
        (case exec (run_from hs k) (hs ! i) i c of
           (Some e, i', c') \<Rightarrow> (Some e, i', c')
         | (None, i', c') \<Rightarrow> run_from hs k (Suc i') c')
      else (None, i, c))"

text \<open>The first call of \<open>Next\<close>: the index starts at \<open>-1\<close>.\<close>

definition Next :: "'c handler list \<Rightarrow> 'c \<Rightarrow> 'c chain_result" where
  "Next hs c = run_from hs (length hs) 0 c"

section \<open>Cookies and forms read back\<close>

lemma getlines_Join:
  "list_all (\<lambda>x. x \<noteq> [] \<and> d \<notin> set x) (x # xs) \<Longrightarrow> d \<notin> set pad \<Longrightarrow>
     getlines d (Join (x # xs) (d # pad)) = x # map (\<lambda>y. pad @ y) xs"
proof (induction xs arbitrary: x)
  case Nil
  then show ?case by (simp add: getlines_single)
next
  case (Cons y ys)
  have "getlines d (pad @ Join (y # ys) (d # pad)) = (pad @ y) # map (\<lambda>z. pad @ z) ys"
  proof (cases ys)
    case Nil
    with Cons.prems show ?thesis by (simp add: getlines_single)
  next
    case (Cons z zs)
    have "getlines d (Join (y # ys) (d # pad)) = y # map (\<lambda>z. pad @ z) ys"
      using Cons.IH [of y] Cons.prems by simp
    moreover have "getlines d (Join (y # ys) (d # pad)) = y # getlines d (pad @ Join ys (d # pad))"
      using Cons Cons.prems getlines_cons [of d y] by simp
    moreover have "getlines d (pad @ Join (y # ys) (d # pad)) = (pad @ y) # getlines d (pad @ Join ys (d # pad))"
      using Cons Cons.prems getlines_cons [of d "pad @ y"] by simp
    ultimately show ?thesis by simp
  qed
  then show ?case
    using Cons.prems getlines_cons [of d x] by simp
qed

definition name_ok :: "string \<Rightarrow> bool" where
  "name_ok s \<longleftrightarrow> s \<noteq> [] \<and> set s \<inter> {CHR '';'', CHR ''='', CHR '' '', TAB} = {}"

definition cookie_pair :: "string \<times> string \<Rightarrow> string" where
  "cookie_pair nv = fst nv @ ''='' @ UrlEncode (snd nv)"

lemma c_isalnum_plain [simp]:
  "\<not> c_isalnum (CHR '';'')" "\<not> c_isalnum (CHR ''='')" "\<not> c_isalnum (CHR '' '')" "\<not> c_isalnum TAB"
  "\<not> c_isalnum (CHR ''&'')" "\<not> c_isalnum (CHR ''+'')"
  by (simp_all add: c_isalnum_def is_digit_def)

lemma UrlEncode_free:
  "CHR '';'' \<notin> set (UrlEncode s)" "CHR ''='' \<notin> set (UrlEncode s)" "CHR '' '' \<notin> set (UrlEncode s)"
  "TAB \<notin> set (UrlEncode s)" "CHR ''&'' \<notin> set (UrlEncode s)" "CHR ''+'' \<notin> set (UrlEncode s)"
  using UrlEncode_set [of _ s] by fastforce+

lemma dropWhile_free: "set s \<inter> set cs = {} \<Longrightarrow> dropWhile (\<lambda>c. c \<in> set cs) s = s"
  by (cases s) auto

lemma Trim_free:
  assumes "set s \<inter> set cs = {}" "set pad \<subseteq> set cs"
  shows "Trim (pad @ s) cs = s"
proof -
  have "dropWhile (\<lambda>c. c \<in> set cs) (pad @ s) = s"
    using assms by (induction pad) (auto simp: dropWhile_free)
  moreover have "dropWhile (\<lambda>c. c \<in> set cs) (rev s) = rev s"
    using assms(1) by (intro dropWhile_free) simp
  ultimately show ?thesis by (simp add: Trim_def)
qed

lemma cookie_pair_plain:
  assumes "name_ok (fst nv)"
  shows "set (cookie_pair nv) \<inter> set [CHR '' '', TAB] = {}" "cookie_pair nv \<noteq> []"
    "CHR '';'' \<notin> set (cookie_pair nv)"
    "find_char (CHR ''='') (cookie_pair nv) = Some (length (fst nv))"
  using assms UrlEncode_free [of "snd nv"] find_char_append [of "CHR ''=''" "fst nv" "UrlEncode (snd nv)"]
  by (auto simp: cookie_pair_def name_ok_def)

lemma cookie_scan_step:
  assumes "name_ok (fst nv)" "set pad \<subseteq> {CHR '' ''}"
  shows "cookie_scan name ((pad @ cookie_pair nv) # pieces) found =
     (if fst nv = name then (if found \<noteq> None then None
        else cookie_scan name pieces (Some (UrlEncode (snd nv))))
      else cookie_scan name pieces found)"
proof -
  have "Trim (pad @ cookie_pair nv) [CHR '' '', TAB] = cookie_pair nv"
    using cookie_pair_plain(1) [OF assms(1)] assms(2) by (intro Trim_free) auto
  moreover have "take (length (fst nv)) (cookie_pair nv) = fst nv"
    "drop (Suc (length (fst nv))) (cookie_pair nv) = UrlEncode (snd nv)"
    by (simp_all add: cookie_pair_def)
  ultimately show ?thesis
    using cookie_pair_plain(4) [OF assms(1)] by (auto simp: Let_def)
qed

lemma cookie_scan_found:
  "list_all (\<lambda>nv. name_ok (fst nv)) ps \<Longrightarrow> name \<notin> set (map fst ps) \<Longrightarrow>
     cookie_scan name (map (\<lambda>nv. CHR '' '' # cookie_pair nv) ps) found = found"
  using cookie_scan_step [where pad = "'' ''"] by (induction ps) auto

lemma cookie_scan_all:
  "list_all (\<lambda>nv. name_ok (fst nv)) ps \<Longrightarrow> distinct (map fst ps) \<Longrightarrow> (name, v) \<in> set ps \<Longrightarrow>
     cookie_scan name (map (\<lambda>nv. CHR '' '' # cookie_pair nv) ps) None = Some (UrlEncode v)"
proof (induction ps)
  case (Cons nv ps)
  have ok: "name_ok (fst nv)" "list_all (\<lambda>nv. name_ok (fst nv)) ps" using Cons.prems(1) by simp_all
  have step: "cookie_scan name (map (\<lambda>nv. CHR '' '' # cookie_pair nv) (nv # ps)) None =
      (if fst nv = name
       then cookie_scan name (map (\<lambda>nv. CHR '' '' # cookie_pair nv) ps) (Some (UrlEncode (snd nv)))
       else cookie_scan name (map (\<lambda>nv. CHR '' '' # cookie_pair nv) ps) None)"
    using cookie_scan_step [OF ok(1), of "'' ''"] by simp
  show ?case
  proof (cases "fst nv = name")
    case True
    with Cons.prems(2) have "name \<notin> set (map fst ps)" by auto
    moreover from this True Cons.prems(3) have "nv = (name, v)" by (force simp: image_iff)
    ultimately show ?thesis using step True cookie_scan_found [OF ok(2)] by simp
  next
    case False
    with Cons show ?thesis using step by auto
  qed
qed simp

lemma getlines_cookies:
  assumes "list_all (\<lambda>nv. name_ok (fst nv)) (p # ps)"
  shows "getlines (CHR '';'') (Join (map cookie_pair (p # ps)) ''; '') =
    cookie_pair p # map (\<lambda>nv. CHR '' '' # cookie_pair nv) ps"
proof -
  have "list_all (\<lambda>x. x \<noteq> [] \<and> CHR '';'' \<notin> set x) (cookie_pair p # map cookie_pair ps)"
    using assms cookie_pair_plain(2,3) by (auto simp: list_all_iff)
  from getlines_Join [OF this, of "'' ''"] show ?thesis by (simp add: comp_def)
qed

lemma decode_component_char: "decode_component (url_encode_char c @ r) = map_option ((#) c) (decode_component r)"
proof (cases "c_isalnum c \<or> c = CHR ''-'' \<or> c = CHR ''_'' \<or> c = CHR ''.'' \<or> c = CHR ''~''")
  case True
  then have "c \<noteq> CHR ''%''" "c \<noteq> CHR ''+''"
    by (auto simp: c_isalnum_def is_digit_def)
  with True show ?thesis by (simp add: url_encode_char_def)
next
  case False
  then show ?thesis
    using hex_pair_decode [of kHexUpper c] by (simp add: url_encode_char_def hex_pair_def)
qed

lemma decode_component_UrlEncode: "decode_component (UrlEncode s) = Some s"
  by (induction s) (auto simp: UrlEncode_def decode_component_char)

definition form_pair :: "string \<times> string \<Rightarrow> string" where
  "form_pair kv = UrlEncode (fst kv) @ ''='' @ UrlEncode (snd kv)"

lemma form_item:
  "find_char (CHR ''='') (form_pair kv) = Some (length (UrlEncode (fst kv)))"
  "take (length (UrlEncode (fst kv))) (form_pair kv) = UrlEncode (fst kv)"
  "drop (Suc (length (UrlEncode (fst kv)))) (form_pair kv) = UrlEncode (snd kv)"
  using UrlEncode_free [of "fst kv"] find_char_append [of "CHR ''=''" "UrlEncode (fst kv)"]
  by (simp_all add: form_pair_def)

lemma parse_fields_pairs:
  "distinct (map fst (done @ ps)) \<Longrightarrow> [] \<notin> set (map fst ps) \<Longrightarrow>
     parse_fields (map form_pair ps) done = Some (done @ ps)"
proof (induction ps arbitrary: "done")
  case (Cons kv ps)
  have "map_of done (fst kv) = None"
    using Cons.prems(1) by (auto simp: map_of_eq_None_iff)
  moreover have "parse_fields (map form_pair ps) (done @ [kv]) = Some (done @ kv # ps)"
    using Cons.IH [of "done @ [kv]"] Cons.prems by simp
  ultimately show ?case
    using Cons.prems by (auto simp: form_item decode_component_UrlEncode)
qed simp

section \<open>The chain\<close>

lemma exec_mono:
  "(\<And>j c. j \<le> fst (snd (nxt j c))) \<Longrightarrow> i \<le> fst (snd (exec nxt h i c))"
proof (induction h arbitrary: i c)
  case (Act f)
  obtain c' h where f: "f c = (c', h)" by (cases "f c")
  have "i \<le> fst (snd (exec nxt h i c'))"
    by (rule Act.IH [OF rangeI [of f c]]) (auto simp: f snds.simps Act.prems)
  then show ?case by (simp add: f)
next
  case (CallNext h)
  obtain r i' c' where n: "nxt (Suc i) c = (r, i', c')" by (cases "nxt (Suc i) c") auto
  have "Suc i \<le> i'" using CallNext.prems [of "Suc i" c] by (simp add: n)
  moreover have "i' \<le> fst (snd (exec nxt h i' c'))" by (rule CallNext.IH [OF CallNext.prems])
  ultimately show ?case by (cases r) (auto simp: n)
qed simp_all

lemma run_from_mono: "i \<le> fst (snd (run_from hs k i c))"
proof (induction k arbitrary: i c)
  case (Suc k)
  obtain r i' c' where e: "exec (run_from hs k) (hs ! i) i c = (r, i', c')"
    by (cases "exec (run_from hs k) (hs ! i) i c") auto
  have "i \<le> i'" using exec_mono [of "run_from hs k" i "hs ! i" c] Suc.IH by (simp add: e)
  moreover have "Suc i' \<le> fst (snd (run_from hs k (Suc i') c'))" by (rule Suc.IH)
  ultimately show ?case by (cases r) (auto simp: e)
qed simp

lemma exec_cong:
  assumes "\<And>j c. j \<le> fst (snd (nxt j c))"
    and "\<And>j c. i < j \<Longrightarrow> nxt j c = nxt' j c"
  shows "exec nxt h i c = exec nxt' h i c"
  using assms(2)
proof (induction h arbitrary: i c)
  case (Act f)
  obtain c' h where f: "f c = (c', h)" by (cases "f c")
  have "exec nxt h i c' = exec nxt' h i c'"
    by (rule Act.IH [OF rangeI [of f c]]) (auto simp: f snds.simps Act.prems)
  then show ?case by (simp add: f)
next
  case (CallNext h)
  obtain r i' c' where n: "nxt (Suc i) c = (r, i', c')" by (cases "nxt (Suc i) c") auto
  have "Suc i \<le> i'" using assms(1) [of "Suc i" c] by (simp add: n)
  then have "exec nxt h i' c' = exec nxt' h i' c'"
    by (intro CallNext.IH CallNext.prems) simp
  with n CallNext.prems [of "Suc i" c] show ?case by (cases r) simp_all
qed simp_all

text \<open>Any bound of at least the number of remaining handlers gives the same run.\<close>

lemma run_from_fuel:
  "length hs - i \<le> k \<Longrightarrow> length hs - i \<le> k' \<Longrightarrow> run_from hs k i c = run_from hs k' i c"
proof (induction k arbitrary: k' i c)
  case 0
  then show ?case by (cases k') simp_all
next
  case (Suc k)
  show ?case
  proof (cases "i < length hs")
    case True
    with Suc.prems obtain m where m: "k' = Suc m" by (cases k') auto
    have sub: "run_from hs k j d = run_from hs m j d" if "i < j" for j d
      using Suc.prems that by (intro Suc.IH) (auto simp: m)
    have "exec (run_from hs k) (hs ! i) i c = exec (run_from hs m) (hs ! i) i c"
      by (rule exec_cong [OF run_from_mono sub])
    moreover have "i \<le> fst (snd (exec (run_from hs m) (hs ! i) i c))"
      by (rule exec_mono [OF run_from_mono])
    ultimately show ?thesis
      using True sub by (auto simp: m split: prod.splits option.splits)
  next
    case False
    then show ?thesis by (cases k') simp_all
  qed
qed

lemma run_from_past_end: "length hs \<le> i \<Longrightarrow> run_from hs k i c = (None, i, c)"
  by (cases k) simp_all

lemma run_from_done:
  "run_from hs k i c = (None, i', c') \<Longrightarrow> length hs - i \<le> k \<Longrightarrow> length hs \<le> i'"
proof (induction k arbitrary: i c)
  case (Suc k)
  show ?case
  proof (cases "i < length hs")
    case True
    obtain r j d where e: "exec (run_from hs k) (hs ! i) i c = (r, j, d)"
      by (cases "exec (run_from hs k) (hs ! i) i c") auto
    have "i \<le> j" using exec_mono [of "run_from hs k" i "hs ! i" c, OF run_from_mono] by (simp add: e)
    moreover have "run_from hs k (Suc j) d = (None, i', c')"
      using Suc.prems(1) True by (auto simp: e split: option.splits)
    ultimately show ?thesis using Suc.prems(2) by (intro Suc.IH) auto
  qed (use Suc.prems in simp)
qed auto

text \<open>Handlers of three forms: plain code, code around \<open>Next\<close>, code that aborts.\<close>

definition plain_handler :: "('c \<Rightarrow> 'c) \<Rightarrow> 'c handler" where
  "plain_handler f = Act (\<lambda>c. (f c, Done))"

definition around_handler :: "('c \<Rightarrow> 'c) \<times> ('c \<Rightarrow> 'c) \<Rightarrow> 'c handler" where
  "around_handler p = Act (\<lambda>c. (fst p c, CallNext (Act (\<lambda>c. (snd p c, Done)))))"

definition abort_handler :: "('c \<Rightarrow> 'c) \<Rightarrow> string \<Rightarrow> 'c handler" where
  "abort_handler f msg = Act (\<lambda>c. (f c, Raise (HttpException msg)))"

lemma run_plain:
  "drop i hs = map plain_handler fs \<Longrightarrow> length hs - i \<le> k \<Longrightarrow>
     \<exists>i'. run_from hs k i c = (None, i', fold (\<lambda>f. f) fs c)"
proof (induction fs arbitrary: i k c)
  case Nil
  then show ?case by (simp add: run_from_past_end)
next
  case (Cons f fs)
  then have i: "i < length hs" "hs ! i = plain_handler f" "drop (Suc i) hs = map plain_handler fs"
    by (metis drop_all linorder_not_less list.discI list.simps(9), metis drop_Cons' hd_drop_conv_nth
        drop_all linorder_not_less list.discI list.sel(1) list.simps(9), metis drop_Suc list.sel(3)
        list.simps(9) tl_drop)
  from Cons.prems(2) i(1) obtain m where m: "k = Suc m" by (cases k) auto
  have "length hs - Suc i \<le> m" using Cons.prems(2) m by simp
  from Cons.IH [OF i(3) this] show ?case by (simp add: m i plain_handler_def)
qed

text \<open>An around handler: its code, the rest of the chain, then its code again unless the rest threw.\<close>

lemma run_around:
  assumes "i < length hs" "hs ! i = around_handler p" "length hs - i \<le> k"
  shows "\<exists>i'. run_from hs k i c =
    (case run_from hs (length hs - Suc i) (Suc i) (fst p c) of
       (Some e, j, d) \<Rightarrow> (Some e, j, d) | (None, j, d) \<Rightarrow> (None, i', snd p d))"
proof -
  from assms obtain m where m: "k = Suc m" by (cases k) auto
  have eq: "run_from hs m (Suc i) (fst p c) = run_from hs (length hs - Suc i) (Suc i) (fst p c)"
    using assms(3) m by (intro run_from_fuel) auto
  obtain r j d where r: "run_from hs (length hs - Suc i) (Suc i) (fst p c) = (r, j, d)"
    by (cases "run_from hs (length hs - Suc i) (Suc i) (fst p c)") auto
  have "r = None \<Longrightarrow> length hs \<le> j"
    using run_from_done [of hs "length hs - Suc i" "Suc i" "fst p c" j d] r by simp
  then show ?thesis
    using assms(1,2) by (cases r) (auto simp: m around_handler_def eq r run_from_past_end)
qed

lemma drop_Cons_nth: "drop i xs = x # ys \<Longrightarrow> i < length xs \<and> xs ! i = x \<and> drop (Suc i) xs = ys"
  by (metis drop_Suc drop_all hd_drop_conv_nth linorder_not_less list.discI list.sel(1) list.sel(3)
      tl_drop)

lemma run_arounds:
  "drop i hs = map around_handler ps @ rest \<Longrightarrow> length hs - i \<le> k \<Longrightarrow>
     \<exists>i'. run_from hs k i c =
       (case run_from hs (length hs - (i + length ps)) (i + length ps) (fold fst ps c) of
          (Some e, j, d) \<Rightarrow> (Some e, j, d)
        | (None, j, d) \<Rightarrow> (None, i', fold snd (rev ps) d))"
proof (induction ps arbitrary: i k c)
  case Nil
  have "run_from hs k i c = run_from hs (length hs - i) i c"
    by (rule run_from_fuel) (use Nil in auto)
  then show ?case
    by (intro exI [of _ "fst (snd (run_from hs (length hs - i) i c))"])
      (auto split: prod.splits option.splits)
next
  case (Cons p ps)
  from Cons.prems(1) have i: "i < length hs" "hs ! i = around_handler p"
    "drop (Suc i) hs = map around_handler ps @ rest"
    by (simp_all add: drop_Cons_nth)
  obtain i1 where 1: "run_from hs k i c =
    (case run_from hs (length hs - Suc i) (Suc i) (fst p c) of
       (Some e, j, d) \<Rightarrow> (Some e, j, d) | (None, j, d) \<Rightarrow> (None, i1, snd p d))"
    using run_around [OF i(1,2) Cons.prems(2)] by blast
  obtain i2 where 2: "run_from hs (length hs - Suc i) (Suc i) (fst p c) =
       (case run_from hs (length hs - (Suc i + length ps)) (Suc i + length ps) (fold fst ps (fst p c)) of
          (Some e, j, d) \<Rightarrow> (Some e, j, d)
        | (None, j, d) \<Rightarrow> (None, i2, fold snd (rev ps) d))"
    using Cons.IH [OF i(3) order.refl] by blast
  show ?case
    unfolding 1 2 by (rule exI [of _ i1]) (auto split: prod.splits option.splits)
qed

section \<open>Properties\<close>

text \<open>
  Handlers run in the order of registration with the usual nesting: the code before \<open>Next\<close>
  of each middleware from the first to the last, then the plain handlers, then the code after
  \<open>Next\<close> from the last middleware to the first. When a handler aborts, the code before it has
  run once, nothing after it runs: neither the rest of the chain nor the code after \<open>Next\<close> of
  the middlewares around it.
\<close>

theorem Next_order:
  "fst (Next (map around_handler ps @ map plain_handler fs) c) = None \<and>
   snd (snd (Next (map around_handler ps @ map plain_handler fs) c)) =
     fold snd (rev ps) (fold (\<lambda>f. f) fs (fold fst ps c)) \<and>
   Next (map around_handler ps @ abort_handler f msg # rest) c =
     (Some (HttpException msg), length ps, f (fold fst ps c))"
proof -
  let ?hs = "map around_handler ps @ map plain_handler fs"
  obtain i1 where 1: "run_from ?hs (length ?hs) 0 c =
       (case run_from ?hs (length ?hs - (0 + length ps)) (0 + length ps) (fold fst ps c) of
          (Some e, j, d) \<Rightarrow> (Some e, j, d)
        | (None, j, d) \<Rightarrow> (None, i1, fold snd (rev ps) d))"
    using run_arounds [of 0 ?hs ps "map plain_handler fs" "length ?hs" c] by auto
  obtain i2 where 2: "run_from ?hs (length ?hs - (0 + length ps)) (0 + length ps) (fold fst ps c) =
      (None, i2, fold (\<lambda>f. f) fs (fold fst ps c))"
    using run_plain [of "0 + length ps" ?hs fs "length ?hs - (0 + length ps)" "fold fst ps c"] by auto
  let ?ha = "map around_handler ps @ abort_handler f msg # rest"
  obtain i3 where 3: "run_from ?ha (length ?ha) 0 c =
       (case run_from ?ha (length ?ha - (0 + length ps)) (0 + length ps) (fold fst ps c) of
          (Some e, j, d) \<Rightarrow> (Some e, j, d)
        | (None, j, d) \<Rightarrow> (None, i3, fold snd (rev ps) d))"
    using run_arounds [of 0 ?ha ps "abort_handler f msg # rest" "length ?ha" c] by auto
  have 4: "run_from ?ha (length ?ha - (0 + length ps)) (0 + length ps) (fold fst ps c) =
      (Some (HttpException msg), length ps, f (fold fst ps c))"
    by (simp add: nth_append abort_handler_def)
  show ?thesis
    using 1 3 unfolding 2 4 by (simp add: Next_def)
qed

text \<open>
  A cookie written by \<open>SetCookie\<close> comes back unchanged: for any list of cookies with
  distinct names and arbitrary byte strings as values, sent in one \<open>Cookie\<close> header in the
  escaped form \<open>SetCookie\<close> writes, \<open>GetCookie\<close> returns each value.
\<close>

theorem GetCookie_roundtrip:
  assumes "GetHeader ''Cookie'' c = Join (map cookie_pair ps) ''; ''"
    and "list_all (\<lambda>nv. name_ok (fst nv)) ps" "distinct (map fst ps)" "(name, v) \<in> set ps"
  shows "GetCookie name c = v"
proof -
  obtain p qs where ps: "ps = p # qs" using assms(4) by (cases ps) auto
  have ne: "name \<noteq> []" using assms(2,4) by (auto simp: list_all_iff name_ok_def)
  have step: "cookie_scan name (cookie_pair p # pieces) None =
      (if fst p = name then cookie_scan name pieces (Some (UrlEncode (snd p)))
       else cookie_scan name pieces None)" for pieces
    using cookie_scan_step [of p "[]"] assms(2) by (simp add: ps)
  have "cookie_scan name (cookie_pair p # map (\<lambda>nv. CHR '' '' # cookie_pair nv) qs) None =
      Some (UrlEncode v)"
  proof (cases "fst p = name")
    case True
    with assms(3) have "name \<notin> set (map fst qs)" by (auto simp: ps)
    moreover from this True assms(4) have "p = (name, v)" by (force simp: ps image_iff)
    ultimately show ?thesis using step True cookie_scan_found [of qs name] assms(2) by (simp add: ps)
  next
    case False
    with assms(2-4) show ?thesis using step cookie_scan_all [of qs name v] by (auto simp: ps)
  qed
  with ne show ?thesis
    using getlines_cookies [of p qs] assms(1,2)
    by (simp add: GetCookie_def ps UrlDecode_UrlEncode)
qed

definition cookie_context :: "string \<Rightarrow> http_context" where
  "cookie_context s = mk_context ((sample_request [])\<lparr>m_mapHeader := [(''cookie'', s)]\<rparr>)
     (mk_response 5 10 60) [] [] [] []"

theorem GetCookie_roundtrip_witness:
  "GetCookie ''b'' (cookie_context (Join (map cookie_pair [(''a'', ''1; 2''), (''b'', '' =%'')]) ''; '')) =
     '' =%''"
proof -
  let ?ps = "[(''a'', ''1; 2''), (''b'', '' =%'')]"
  have "EqualsIgnoreCase ''cookie'' ''Cookie''" by code_simp
  then have "GetHeader ''Cookie'' (cookie_context (Join (map cookie_pair ?ps) ''; '')) =
      Join (map cookie_pair ?ps) ''; ''"
    by (simp add: cookie_context_def mk_context_def GetHeader_def)
  from GetCookie_roundtrip [OF this, of "''b''" "'' =%''"] show ?thesis
    by (simp add: name_ok_def)
qed

text \<open>
  Form encoding round-trips: for every non-empty list of fields with distinct non-empty
  keys and arbitrary byte strings, parsing the urlencoded body gives back exactly the fields
  in order.
\<close>

theorem parse_urlencoded_roundtrip:
  assumes "ps \<noteq> []" "distinct (map fst ps)" "[] \<notin> set (map fst ps)"
  shows "parse_urlencoded (Join (map form_pair ps) ''&'') = Some ps"
proof -
  obtain p qs where ps: "ps = p # qs" using assms(1) by (cases ps) auto
  have "list_all (\<lambda>x. x \<noteq> [] \<and> CHR ''&'' \<notin> set x) (form_pair p # map form_pair qs)"
    using UrlEncode_free(5) by (auto simp: list_all_iff form_pair_def)
  from getlines_Join [OF this, of "[]"]
  have "getlines (CHR ''&'') (Join (map form_pair ps) ''&'') = map form_pair ps"
    by (simp add: ps)
  with parse_fields_pairs [of "[]" ps] assms show ?thesis
    by (simp add: parse_urlencoded_def)
qed

theorem parse_urlencoded_roundtrip_witness:
  "parse_urlencoded (Join (map form_pair [(''user'', ''a b''), (''pw'', ''x&y=z'')]) ''&'') =
     Some [(''user'', ''a b''), (''pw'', ''x&y=z'')]"
  by (rule parse_urlencoded_roundtrip) simp_all

text \<open>
  The last body writer wins: after any number of writers, \<open>String\<close> leaves a response whose
  body is exactly the given text, with its status and type, and with no file, template or
  template argument of an earlier writer left.
\<close>

theorem String_overwrites:
  assumes "m_ptrRsp c = Some p" "m_bHasSetRspContent c" "length msg \<le> buf_max"
  shows "\<exists>c' p'. String code msg c = Ret c' \<and> m_ptrRsp c' = Some p' \<and>
    contents (m_httpRspContentBuffer p') = msg \<and> m_iHttpRetCode p' = code \<and>
    m_httpRspContentType p' = ''text/plain'' \<and> m_pCache p' = None \<and>
    m_httpRspStaticResourcePath p' = [] \<and> \<not> m_bResourceIsTemplate p' \<and>
    m_mapTemplateArgs p' = [] \<and> m_protoTemplateArgs p' = None \<and> \<not> m_bShouldGenErrorPage p' \<and>
    m_vecMoreHeader p' = m_vecMoreHeader p"
proof -
  have "m_iWritePosition (Reset (m_httpRspContentBuffer p)) + length msg \<le> buf_max"
    using assms(3) by (simp add: Reset_def)
  from bq.put_view [OF bq.clear_ok this] obtain b where
    "Append msg (Reset (m_httpRspContentBuffer p)) = Some b" "contents b = msg"
    by (auto simp: bq.clear_view)
  moreover have "PathSuffix2FileType ''.txt'' = ''text/plain''" by code_simp
  ultimately show ?thesis
    using assms(1,2) by (simp add: String_def overwrite_rsp_def write_content_def ResetContent_def)
qed

theorem String_overwrites_witness:
  "\<exists>c'. String 200 ''ok'' ((cookie_context [])\<lparr>m_bHasSetRspContent := True\<rparr>) = Ret c'"
  using String_overwrites [of "(cookie_context [])\<lparr>m_bHasSetRspContent := True\<rparr>" "mk_response 5 10 60"
      "''ok''" 200]
  by (auto simp: cookie_context_def mk_context_def buf_max_def)

end
