(* ===== verification/Http_Connection.thy ===== *)
theory Http_Connection
  imports Http_Context "HOL-Library.Signed_Division"
begin

text \<open>
  One client connection (\<open>http/httpconnection.cpp\<close>): reading into the request's buffer,
  handling a parsed request, writing the response. The kernel's answers to the read, write and
  sendfile calls are arguments: lists of results with the time each call took. The static
  resource pool is the function \<open>resource\<close> from a path to a file, \<open>read_file\<close> the contents of a
  template, \<open>render\<close> the template engine.
\<close>

section \<open>Helpers\<close>

text \<open>\<open>std::filesystem::path\<close>'s \<open>a / b\<close> on POSIX: an absolute \<open>b\<close> replaces \<open>a\<close>.\<close>

definition fs_append :: "string \<Rightarrow> string \<Rightarrow> string" where
  "fs_append a b =
     (if b \<noteq> [] \<and> hd b = CHR ''/'' then b
      else if a \<noteq> [] \<and> last a \<noteq> CHR ''/'' then a @ ''/'' @ b
      else a @ b)"

definition path_join :: "string \<Rightarrow> string \<Rightarrow> string" where
  "path_join a b = fs_append a (if b \<noteq> [] \<and> hd b = CHR ''/'' then tl b else b)"


definition query_pair :: "string \<Rightarrow> string \<times> string" where
  "query_pair kv =
     (case find_char (CHR ''='') kv of
        Some eq \<Rightarrow> (UrlDecode (take eq kv) True, UrlDecode (drop (Suc eq) kv) True)
      | None \<Rightarrow> (UrlDecode kv True, []))"

definition split_path_and_query :: "string \<Rightarrow> string \<times> (string \<times> string) list" where
  "split_path_and_query url =
     (case find_char (CHR ''?'') url of
        None \<Rightarrow> (url, [])
      | Some qpos \<Rightarrow>
          (take qpos url,
           fold (\<lambda>kv m. AList.update (fst (query_pair kv)) (snd (query_pair kv)) m)
             (getlines (CHR ''&'') (drop (Suc qpos) url)) []))"

definition parse_range :: "string \<Rightarrow> int \<Rightarrow> bool \<times> int \<times> int" where
  "parse_range range_value filesz =
     (if take 6 range_value \<noteq> ''bytes='' then (False, 0, 0)
      else
        (let range = drop 6 range_value in
         case find_char (CHR ''-'') range of
           None \<Rightarrow> (False, 0, 0)
         | Some dash_pos \<Rightarrow>
             (let start_str = take dash_pos range;
                  end_str = drop (Suc dash_pos) range;
                  whole = to_int (to_size_t (filesz - 1));
                  bounds =
                    (if start_str = [] then
                       map_option (\<lambda>lastN. (to_int (filesz - min lastN filesz), whole)) (stoull end_str)
                     else
                       (case stoull start_str of
                          None \<Rightarrow> None
                        | Some f \<Rightarrow>
                            (if end_str = [] then Some (to_int f, whole)
                             else map_option (\<lambda>t. (to_int f, to_int t)) (stoull end_str))))
              in case bounds of
                   None \<Rightarrow> (False, 0, 0)
                 | Some (from, to) \<Rightarrow>
                     (if from > to \<or> to_size_t from \<ge> filesz then (False, 0, 0)
                      else (True, from, (if to_size_t to \<ge> filesz then whole else to))))))"

definition advance_ts :: "uco_time \<Rightarrow> int \<Rightarrow> uco_time" where
  "advance_ts ts ns =
     (let sec = fst ts - ns sdiv 1000000000;
          nsec = snd ts - ns smod 1000000000;
          t1 = (if nsec < 0 then (sec - 1, nsec + 1000000000) else (sec, nsec))
      in if fst t1 < 0 then (0, 0) else t1)"

definition isSafePath :: "string \<Rightarrow> bool" where
  "isSafePath urlPath \<longleftrightarrow> list_all (\<lambda>s. s \<noteq> ''.'' \<and> s \<noteq> ''..'') (splitPath urlPath)"

definition http_status_text :: "int \<Rightarrow> string" where
  "http_status_text code =
     (case map_of httpRetCode2StatusString code of Some s \<Rightarrow> s | None \<Rightarrow> ''Unknown'')"

section \<open>State\<close>

record http_connection =
  m_sPeerIp :: string
  m_httpRequest :: http_request
  m_httpResponse :: http_response

type_synonym server = "http_context handler http_server"

section \<open>Reading\<close>

text \<open>
  \<open>recv n\<close> is what the read of at most \<open>n\<close> bytes gives: the return value, the bytes stored and
  the nanoseconds it took.
\<close>

definition Read :: "(nat \<Rightarrow> int \<times> string \<times> int) \<Rightarrow> http_connection \<Rightarrow> bool \<times> http_connection" where
  "Read recv conn =
     (let q = m_httpRequest conn;
          b0 = Compact (m_buffer q);
          b1 = (if m_state q \<noteq> eParsingStart then DoubleSize b0 else b0);
          q1 = q\<lparr>m_buffer := b1\<rparr>
      in if m_readReqTime q1 = (0, 0) then (False, conn\<lparr>m_httpRequest := q1\<rparr>)
         else (case recv (WritableBytes b1) of
                 (ret, bytes, dur) \<Rightarrow>
                   (let q2 = q1\<lparr>m_readReqTime := advance_ts (m_readReqTime q1) dur,
                                m_buffer := (if ret > 0 then Advance (nat ret) (copy_in bytes b1) else b1)\<rparr>
                    in (ret > 0, conn\<lparr>m_httpRequest := q2\<rparr>))))"

section \<open>Writing\<close>

type_synonym io_result = "int \<times> int"

definition ECANCELED :: int where "ECANCELED = - 125"


text \<open>
  The sendfile loop on the file's bytes. \<open>usendfile\<close> advances the offset by what it sent;
  \<open>oldoffset\<close> is never updated. A call is given the count it may send.
\<close>

fun sendfile_loop :: "string \<Rightarrow> int \<Rightarrow> int \<Rightarrow> int \<Rightarrow> int \<Rightarrow> uco_time \<Rightarrow> io_result list \<Rightarrow>
    bool option \<times> string \<times> int list" where
  "sendfile_loop file oldoffset offset iTotal endpoint ts [] =
     (if offset < endpoint then (None, [], []) else (Some True, [], []))"
| "sendfile_loop file oldoffset offset iTotal endpoint ts ((ret, dur) # outs) =
     (if offset < endpoint then
        (let sent = take (nat ret) (drop (nat offset) file);
             offset' = offset + max 0 ret;
             ts' = advance_ts ts dur;
             iTotal' = (iTotal - (oldoffset - offset')) mod 2 ^ 64
         in if ts' = (0, 0) then (Some False, sent, [iTotal])
            else if ret < 0 \<and> ret \<noteq> ECANCELED then (Some False, sent, [iTotal])
            else (case sendfile_loop file oldoffset offset' iTotal' endpoint ts' outs of
                    (r, tail, counts) \<Rightarrow> (r, sent @ tail, iTotal # counts)))
      else (Some True, [], []))"





section \<open>Handling a request\<close>

text \<open>The environment of a connection: the server's tables and what it calls.\<close>

record conn_env =
  ce_server :: server
  ce_resource :: "string \<Rightarrow> file_cache"
  ce_read_file :: "int \<Rightarrow> string option"
  ce_render :: "string \<Rightarrow> (string \<times> mdata) list \<Rightarrow> string"

definition Conn_GenErrorPage :: "conn_env \<Rightarrow> int \<Rightarrow> http_response \<Rightarrow> http_response option" where
  "Conn_GenErrorPage env code p =
     (let srv = ce_server env;
          p1 = (Response_Reset p)\<lparr>m_iHttpRetCode := code\<rparr>;
          page = GetErrorPagePath srv code;
          cache = ce_resource env (path_join (m_sResourceDir srv) page)
      in if page \<noteq> [] \<and> fst cache \<noteq> - 1
         then Some (p1\<lparr>m_httpRspContentType := PathSuffix2FileType ''.html'', m_pCache := Some cache\<rparr>)
         else if m_sErrorTemplatePath srv \<noteq> [] then
           (let tc = ce_resource env (path_join (m_sResourceDir srv) (m_sErrorTemplatePath srv))
            in Rsp_GenErrorPage (ce_render env) code tc (ce_read_file env (fst tc)) p1)
         else GenErrorPageDefault code p1)"

definition chunksz :: int where "chunksz = 1024 * 256"

text \<open>A static file was chosen: send it, or the requested range of it.\<close>

definition serve_file :: "conn_env \<Rightarrow> http_request \<Rightarrow> file_cache \<Rightarrow> http_response \<Rightarrow> http_response option" where
  "serve_file env q cache p =
     (let p1 = p\<lparr>m_httpRspContentType := GetFileTypeByPath (m_httpRspStaticResourcePath p),
                 m_pCache := Some cache\<rparr>
      in case map_of (m_mapHeader q) ''Range'' of
           None \<Rightarrow> Some p1
         | Some rv \<Rightarrow>
             (case parse_range rv (to_size_t (snd cache)) of
                (False, _, _) \<Rightarrow>
                  Conn_GenErrorPage env 400 (p1\<lparr>m_iPartialFrom := 0, m_iPartialTo := 0, m_pCache := None\<rparr>)
              | (True, from, to) \<Rightarrow>
                  (let to' = min to (from + chunksz - 1);
                       p2 = SetHeader ''Accept-Ranges'' ''bytes''
                              (p1\<lparr>m_iPartialFrom := from, m_iPartialTo := to'\<rparr>)
                   in Some ((SetHeader ''Content-Range''
                        (''bytes '' @ int_to_string from @ ''-'' @ int_to_string to' @ ''/'' @
                         int_to_string (snd cache)) p2)\<lparr>m_iHttpRetCode := 206\<rparr>))))"

definition serve_resource :: "conn_env \<Rightarrow> http_request \<Rightarrow> http_response \<Rightarrow> http_response option" where
  "serve_resource env q p =
     (if m_httpRspStaticResourcePath p = [] then Some p
      else
        (let cache = ce_resource env (path_join (m_sResourceDir (ce_server env)) (m_httpRspStaticResourcePath p))
         in if fst cache \<noteq> - 1 then
              (if \<not> m_bResourceIsTemplate p then serve_file env q cache p
               else (case GenHtmlTemplate (ce_render env) (ce_read_file env (fst cache)) p of
                       None \<Rightarrow> None
                     | Some (True, p1) \<Rightarrow> Some p1
                     | Some (False, p1) \<Rightarrow> Conn_GenErrorPage env 500 p1))
            else Conn_GenErrorPage env (snd cache) p))"

definition final_page :: "conn_env \<Rightarrow> http_response \<Rightarrow> http_response option" where
  "final_page env p =
     (if m_bShouldGenErrorPage p then Conn_GenErrorPage env (m_iHttpRetCode p) p else Some p)"

text \<open>The catch clauses around the handler chain.\<close>

definition after_chain :: "exn option \<Rightarrow> http_response \<Rightarrow> string \<times> http_response" where
  "after_chain e p =
     (case e of
        None \<Rightarrow> ([], p)
      | Some (HttpException msg) \<Rightarrow> ((if msg \<noteq> [] then ''exception: '' @ msg else []), p)
      | Some (StdException msg) \<Rightarrow>
          (''unhandled exception: '' @ msg, ShouldGenErrorPage 500 (p\<lparr>m_bRspKeepAlive := False\<rparr>))
      | Some UnknownException \<Rightarrow>
          (''unknown exception'', ShouldGenErrorPage 500 (p\<lparr>m_bRspKeepAlive := False\<rparr>)))"

text \<open>The result: the connection, the error message for the log and whether to log.\<close>

definition HandleRequest :: "conn_env \<Rightarrow> http_connection \<Rightarrow> (http_connection \<times> string \<times> bool) option" where
  "HandleRequest env conn =
     (let srv = ce_server env;
          q = m_httpRequest conn;
          p = (m_httpResponse conn)\<lparr>m_iHttpRetCode := 200, m_bRspKeepAlive := m_bKeepAlive q,
                                    m_httpRspContentType := ''text/html''\<rparr>;
          mth = HttpMethodStr2Enum (m_sMethod q)
      in if length (m_sPath q) > 1 \<and> last (m_sPath q) = CHR ''/'' then
           (let q1 = q\<lparr>m_sPath := butlast (m_sPath q)\<rparr> in
            Some (conn\<lparr>m_httpRequest := q1,
                       m_httpResponse := SetHeader ''Location'' (m_sPath q1) (p\<lparr>m_iHttpRetCode := 301\<rparr>)\<rparr>,
                  [], True))
         else
           (case split_path_and_query (m_sPath q) of (rawPath, queryParams) \<Rightarrow>
              (let decodePath = UrlDecode rawPath False in
               if \<not> isSafePath decodePath then
                 map_option (\<lambda>p'. (conn\<lparr>m_httpResponse := p'\<rparr>, [], True))
                   (Conn_GenErrorPage env 400 (p\<lparr>m_bRspKeepAlive := False\<rparr>))
               else
                 (let fwdpath = GetForward srv mth decodePath;
                      q1 = q\<lparr>m_sPath := (if fwdpath \<noteq> [] then fwdpath else decodePath)\<rparr>;
                      m = GetHandles srv mth (m_sPath q1);
                      ran = (if rm_handles m \<noteq> [] then
                          (case Next (rm_handles m)
                                 (mk_context q1 p (rm_params m) queryParams (m_sPeerIp conn) (rm_pattern m)) of
                             (e, _, c) \<Rightarrow>
                               (let r = after_chain e (the (m_ptrRsp c)) in
                                Some (the (m_ptrReq c), snd r, fst r, m_bLog c)))
                        else map_option (\<lambda>p'. (q1, p', [], True)) (Conn_GenErrorPage env 404 p))
                  in case ran of
                       None \<Rightarrow> None
                     | Some (q2, p2, msg, lg) \<Rightarrow>
                         map_option (\<lambda>p'. (conn\<lparr>m_httpRequest := q2, m_httpResponse := p'\<rparr>, msg, lg))
                           (Option.bind (serve_resource env q2 p2) (final_page env))))))"

definition Process :: "conn_env \<Rightarrow> http_connection \<Rightarrow> (bool \<times> http_connection \<times> string) option" where
  "Process env conn =
     (case Parse (m_httpRequest conn) of
        (eRequestIncomplete, q) \<Rightarrow> Some (False, conn\<lparr>m_httpRequest := q\<rparr>, [])
      | (eRequestBad, q) \<Rightarrow>
          Option.bind (Conn_GenErrorPage env 400 ((m_httpResponse conn)\<lparr>m_bRspKeepAlive := False\<rparr>))
            (\<lambda>p. map_option (\<lambda>p'. (True, conn\<lparr>m_httpRequest := q, m_httpResponse := p'\<rparr>,
                                   http_status_text (m_iHttpRetCode p')))
                   (GenHttpHeader p))
      | (eRequestOK, q) \<Rightarrow>
          Option.bind (HandleRequest env (conn\<lparr>m_httpRequest := q\<rparr>))
            (\<lambda>(conn1, err, lg). map_option (\<lambda>p'. (True, conn1\<lparr>m_httpResponse := p'\<rparr>,
                 (if err = [] then http_status_text (m_iHttpRetCode p') else err)))
               (GenHttpHeader (m_httpResponse conn1))))"

section \<open>Ranges\<close>

lemma to_int_id: "int32_min \<le> v \<Longrightarrow> v \<le> int32_max \<Longrightarrow> to_int v = v"
  unfolding to_int_def by (subst signed_take_bit_int_eq_self_iff) simp

lemma to_int_range: "int32_min \<le> to_int v \<and> to_int v \<le> int32_max"
  using signed_take_bit_int_greater_eq_minus_exp [of 31 v] signed_take_bit_int_less_exp [of 31 v]
  by (simp add: to_int_def)

lemma to_size_t_id: "0 \<le> v \<Longrightarrow> v < 2 ^ 64 \<Longrightarrow> to_size_t v = v"
  by (simp add: to_size_t_def)

lemma to_size_t_neg: "- (2 ^ 63) \<le> v \<Longrightarrow> v < 0 \<Longrightarrow> 2 ^ 63 \<le> to_size_t v"
proof -
  assume v: "- (2 ^ 63) \<le> v" "v < 0"
  have "v mod 2 ^ 64 = (v + 2 ^ 64) mod 2 ^ 64" by simp
  also have "\<dots> = v + 2 ^ 64" using v by (intro mod_pos_pos_trivial) auto
  finally show ?thesis using v by (simp add: to_size_t_def)
qed

text \<open>The check at the end of \<open>parse_range\<close>, on any pair of \<open>int\<close>s.\<close>

lemma range_check:
  assumes "0 \<le> filesz" "filesz \<le> int32_max" "int32_min \<le> from" "to \<le> int32_max" "int32_min \<le> to"
    and "\<not> (from > to \<or> to_size_t from \<ge> filesz)"
  shows "0 \<le> from \<and> from \<le> to \<and> from < filesz \<and>
    (if to_size_t to \<ge> filesz then filesz - 1 else to) = min to (filesz - 1)"
proof -
  have ge: "0 \<le> from"
  proof (rule ccontr)
    assume "\<not> 0 \<le> from"
    then have "2 ^ 63 \<le> to_size_t from" using assms(3) by (intro to_size_t_neg) auto
    with assms(2,6) show False by simp
  qed
  then have "to_size_t from = from" "to_size_t to = to"
    using assms by (auto intro!: to_size_t_id)
  with ge assms show ?thesis by (auto simp: min_def)
qed

lemma to_int_minus_one: "to_int (to_size_t (- 1)) = - 1"
  by (simp add: to_int_def to_size_t_def)

lemma parse_range_whole:
  "0 \<le> filesz \<Longrightarrow> filesz \<le> int32_max \<Longrightarrow> to_int (to_size_t (filesz - 1)) = filesz - 1"
  using to_int_minus_one by (cases "filesz = 0") (simp_all add: to_size_t_id to_int_id)

lemma parse_range_shape:
  assumes "parse_range v filesz = (True, f, t)"
  obtains a b where "f = to_int a" "\<not> (f > to_int b \<or> to_size_t f \<ge> filesz)"
    "t = (if to_size_t (to_int b) \<ge> filesz then to_int (to_size_t (filesz - 1)) else to_int b)"
  using assms unfolding parse_range_def Let_def
  by (auto split: if_splits option.splits prod.splits)

lemma parse_range_result:
  assumes "parse_range v filesz = (True, f, t)" "0 \<le> filesz" "filesz \<le> int32_max"
  shows "0 \<le> f \<and> f \<le> t \<and> t < filesz"
proof -
  obtain a b where ab: "f = to_int a" "\<not> (f > to_int b \<or> to_size_t f \<ge> filesz)"
    "t = (if to_size_t (to_int b) \<ge> filesz then filesz - 1 else to_int b)"
    using parse_range_shape [OF assms(1)] parse_range_whole [OF assms(2,3)] by metis
  have "0 \<le> f \<and> f \<le> to_int b \<and> f < filesz \<and> t = min (to_int b) (filesz - 1)"
    unfolding ab(3) using range_check [OF assms(2,3) _ _ _ ab(2)] to_int_range [of a] to_int_range [of b] ab(1)
    by simp
  then show ?thesis by (auto simp: min_def)
qed

lemma minus_free_nat: "CHR ''-'' \<notin> set (nat_to_string n)"
  by (rule minus_notin_nat_to_string)

lemma parse_range_from:
  assumes "int a < 2 ^ 31" "0 \<le> filesz" "filesz \<le> int32_max"
    and "end_str = [] \<or> (\<exists>b. end_str = nat_to_string b \<and> int b < 2 ^ 31)"
  shows "parse_range (''bytes='' @ nat_to_string a @ ''-'' @ end_str) filesz =
    (let t = (if end_str = [] then filesz - 1 else int (dec_val end_str)) in
     if int a > t \<or> int a \<ge> filesz then (False, 0, 0) else (True, int a, min t (filesz - 1)))"
proof -
  let ?r = "nat_to_string a @ ''-'' @ end_str"
  have dash: "find_char (CHR ''-'') ?r = Some (length (nat_to_string a))"
    using find_char_append [OF minus_free_nat, of a end_str] by simp
  have a: "stoull (nat_to_string a) = Some (int a)" "to_int (int a) = int a"
    "to_size_t (int a) = int a" "nat_to_string a \<noteq> []"
    using assms(1) by (simp_all add: stoull_nat to_int_id to_size_t_id dec_simps)
  show ?thesis
  proof (cases "end_str = []")
    case True
    have "filesz = 0 \<or> to_size_t (filesz - 1) = filesz - 1"
      using assms(2,3) by (auto intro!: to_size_t_id)
    with True dash a show ?thesis
      by (auto simp: parse_range_def Let_def parse_range_whole [OF assms(2,3)])
  next
    case False
    then obtain b where b: "end_str = nat_to_string b" "int b < 2 ^ 31" using assms(4) by auto
    have b': "stoull end_str = Some (int b)" "to_int (int b) = int b" "to_size_t (int b) = int b"
      "dec_val end_str = b"
      using b by (simp_all add: stoull_nat to_int_id to_size_t_id dec_simps)
    from False dash a b' show ?thesis
      by (auto simp: parse_range_def Let_def parse_range_whole [OF assms(2,3)])
  qed
qed

section \<open>Properties\<close>

text \<open>
  An accepted range always lies inside the file: whatever the header says, including numbers
  beyond 32 bits, when \<open>parse_range\<close> accepts it, \<open>0 \<le> from \<le> to < size\<close>. And a range written
  \<open>bytes=a-b\<close> or \<open>bytes=a-\<close> is read as it is meant: refused when it starts past its end or past
  the file, otherwise cut at the last byte.
\<close>

theorem parse_range_correct:
  assumes "0 \<le> filesz" "filesz \<le> int32_max" "int a < 2 ^ 31" "int b < 2 ^ 31"
  shows "(fst (parse_range v filesz) \<longrightarrow> 0 \<le> fst (snd (parse_range v filesz)) \<and>
       fst (snd (parse_range v filesz)) \<le> snd (snd (parse_range v filesz)) \<and>
       snd (snd (parse_range v filesz)) < filesz) \<and>
    parse_range (''bytes='' @ nat_to_string a @ ''-'' @ nat_to_string b) filesz =
      (if a > b \<or> int a \<ge> filesz then (False, 0, 0) else (True, int a, min (int b) (filesz - 1))) \<and>
    parse_range (''bytes='' @ nat_to_string a @ ''-'') filesz =
      (if int a \<ge> filesz then (False, 0, 0) else (True, int a, filesz - 1))"
proof (intro conjI impI)
  assume "fst (parse_range v filesz)"
  then obtain f t where p: "parse_range v filesz = (True, f, t)"
    by (cases "parse_range v filesz") auto
  from parse_range_result [OF this assms(1,2)]
  show "0 \<le> fst (snd (parse_range v filesz))"
    and "fst (snd (parse_range v filesz)) \<le> snd (snd (parse_range v filesz))"
    and "snd (snd (parse_range v filesz)) < filesz"
    by (simp_all add: p)
next
  show "parse_range (''bytes='' @ nat_to_string a @ ''-'' @ nat_to_string b) filesz =
      (if a > b \<or> int a \<ge> filesz then (False, 0, 0) else (True, int a, min (int b) (filesz - 1)))"
    using parse_range_from [OF assms(3,1,2) disjI2 [OF exI [of _ b]], OF conjI [OF refl assms(4)]]
    by (auto simp: Let_def dec_simps)
  show "parse_range (''bytes='' @ nat_to_string a @ ''-'') filesz =
      (if int a \<ge> filesz then (False, 0, 0) else (True, int a, filesz - 1))"
    using parse_range_from [OF assms(3,1,2), of "[]"] by (auto simp: Let_def)
qed

theorem parse_range_correct_witness:
  "parse_range (''bytes='' @ nat_to_string 2 @ ''-'' @ nat_to_string 900) 100 = (True, 2, 99)"
  using parse_range_correct [of 100 2 900 "[]"] by simp

text \<open>
  The time budget of a connection is spent exactly: subtracting a duration leaves the old
  total minus the duration, never below zero, and a normalised time.
\<close>

theorem advance_ts_exact:
  assumes "0 \<le> ns" "0 \<le> fst ts" "0 \<le> snd ts" "snd ts < 1000000000"
  shows "total_ns (advance_ts ts ns) = max 0 (total_ns ts - ns) \<and>
    0 \<le> fst (advance_ts ts ns) \<and> 0 \<le> snd (advance_ts ts ns) \<and> snd (advance_ts ts ns) < 1000000000"
proof -
  have q: "ns sdiv 1000000000 = ns div 1000000000" "ns smod 1000000000 = ns mod 1000000000"
    using assms(1) by (simp_all add: signed_divide_int_def signed_modulo_int_def sgn_if)
  define s r where "s = ns div 1000000000" and "r = ns mod 1000000000"
  have ns: "ns = s * 1000000000 + r" "0 \<le> r" "r < 1000000000"
    by (simp_all add: s_def r_def)
  have "advance_ts ts ns =
      (let t1 = (if snd ts - r < 0 then (fst ts - s - 1, snd ts - r + 1000000000) else (fst ts - s, snd ts - r))
       in if fst t1 < 0 then (0, 0) else t1)"
    by (simp add: advance_ts_def q s_def r_def Let_def)
  then show ?thesis
    using assms ns(2,3) unfolding total_ns_def ns(1)
    by (auto simp: max_def split: if_splits)
qed

theorem advance_ts_exact_witness: "advance_ts (5, 100) 1000000200 = (3, 999999900)"
  using advance_ts_exact [of 1000000200 "(5, 100)"] by code_simp









text \<open>
  A range is not sent exactly when the first call is short: since the count is increased
  instead of decreased by what was sent, the second call is allowed to send \<open>n + k\<close> bytes after
  \<open>k\<close> of \<open>n\<close> are out, and when the file has them, more bytes than the announced length go out.
\<close>

theorem sendfile_range_overrun:
  assumes "0 \<le> off" "0 < k" "k < n" "n - k < j" "j \<le> n + k" "n + k < 2 ^ 64"
    and "off + k + j \<le> int (length fl)"
    and "advance_ts ts d1 \<noteq> (0, 0)" "advance_ts (advance_ts ts d1) d2 \<noteq> (0, 0)"
  shows "\<exists>sent. sendfile_loop fl off off n (off + n) ts [(k, d1), (j, d2)] = (Some True, sent, [n, n + k]) \<and>
    n < int (length sent)"
proof -
  have mod: "(n - (off - (off + k))) mod 2 ^ 64 = n + k"
    using assms(2,3,6) by simp
  have "sendfile_loop fl off off n (off + n) ts [(k, d1), (j, d2)] =
      (Some True, take (nat k) (drop (nat off) fl) @ take (nat j) (drop (nat (off + k)) fl) @ [], [n, n + k])"
    using assms mod by (simp add: Let_def)
  moreover have "n < int (length (take (nat k) (drop (nat off) fl) @ take (nat j) (drop (nat (off + k)) fl) @ []))"
    using assms by simp
  ultimately show ?thesis by blast
qed

theorem sendfile_range_overrun_witness:
  "\<exists>sent. sendfile_loop ''0123456789'' 2 2 3 5 (10, 0) [(1, 7), (4, 7)] = (Some True, sent, [3, 4]) \<and>
    3 < int (length sent)"
  using sendfile_range_overrun [of 2 1 3 4 "''0123456789''" "(10, 0)" 7 7]
  by (simp add: advance_ts_def signed_divide_int_def signed_modulo_int_def)

text \<open>
  A static file stays under the resource directory when its decoded path is accepted by
  \<open>isSafePath\<close> and does not start with two slashes: the joined path is the directory, a slash and
  a rest without \<open>.\<close> and \<open>..\<close> segments. With two slashes it is not so: only one is removed, the
  rest is absolute and replaces the directory, although \<open>isSafePath\<close> accepts the path.
\<close>

theorem path_join_containment:
  assumes "dir \<noteq> []" "last dir \<noteq> CHR ''/''" "isSafePath path"
  shows "(take 2 path \<noteq> ''//'' \<longrightarrow>
      (\<exists>rest. path_join dir path = dir @ ''/'' @ rest \<and> isSafePath rest)) \<and>
    path_join dir (''//'' @ x) = CHR ''/'' # x \<and> isSafePath (''//'' @ path)"
proof (intro conjI impI)
  have cons: "isSafePath (CHR ''/'' # s) = isSafePath s" for s
    by (simp add: isSafePath_def splitPath_slash)
  show "path_join dir (''//'' @ x) = CHR ''/'' # x"
    by (simp add: path_join_def fs_append_def)
  show "isSafePath (''//'' @ path)" using assms(3) by (simp add: cons)
  assume two: "take 2 path \<noteq> ''//''"
  show "\<exists>rest. path_join dir path = dir @ ''/'' @ rest \<and> isSafePath rest"
  proof (cases "path \<noteq> [] \<and> hd path = CHR ''/''")
    case True
    then obtain s where s: "path = CHR ''/'' # s" by (cases path) auto
    with two have "s = [] \<or> hd s \<noteq> CHR ''/''" by (cases s) auto
    with s assms cons [of s] show ?thesis by (auto simp: path_join_def fs_append_def)
  next
    case False
    with assms show ?thesis by (auto simp: path_join_def fs_append_def)
  qed
qed

theorem path_join_containment_witness:
  "\<exists>rest. path_join ''/srv/res'' ''/js/app.js'' = ''/srv/res'' @ ''/'' @ rest \<and> isSafePath rest"
proof -
  have "isSafePath ''/js/app.js''" by code_simp
  with path_join_containment [of "''/srv/res''" "''/js/app.js''" "[]"] show ?thesis by simp
qed

section \<open>What a response announces\<close>

lemma SetHeader_keeps [simp]:
  "m_iPartialFrom (SetHeader k v p) = m_iPartialFrom p" "m_iPartialTo (SetHeader k v p) = m_iPartialTo p"
  "m_pCache (SetHeader k v p) = m_pCache p"
  "m_bRspKeepAlive (SetHeader k v p) = m_bRspKeepAlive p"
  "m_iHttpRetCode (SetHeader k v p) = m_iHttpRetCode p"
  by (simp_all add: SetHeader_def)









section \<open>Error responses\<close>











end
