(* ===== verification/Session_Json.thy ===== *)
theory Session_Json
  imports Uco_Strings "HOL-Library.RBT"
begin

text \<open>
  The flat JSON of session data (\<open>http/session.cpp\<close>, first part): escaping, the object printer
  and the recursive descent parser, and the array form of flash messages. A parser's position
  \<open>i\<close> in the input is given by the rest of the input. A \<open>std::map\<close> from strings to strings is a
  red-black tree over byte strings in lexicographic order, whose entries are in key order.
\<close>

type_synonym string_map = "(string, string) rbt"

section \<open>Printing\<close>

definition json_char :: "char \<Rightarrow> string" where
  "json_char ch =
     (if ch = CHR 0x22 then [CHR 0x5C, CHR 0x22]
      else if ch = CHR 0x5C then [CHR 0x5C, CHR 0x5C]
      else if ch = CHR 0x08 then [CHR 0x5C, CHR ''b'']
      else if ch = CHR 0x0C then [CHR 0x5C, CHR ''f'']
      else if ch = CHR 0x0A then [CHR 0x5C, CHR ''n'']
      else if ch = CHR 0x0D then [CHR 0x5C, CHR ''r'']
      else if ch = CHR 0x09 then [CHR 0x5C, CHR ''t'']
      else if byte ch < 0x20 then [CHR 0x5C] @ ''u00'' @ hex_pair kHexLower ch
      else [ch])"

definition JsonEscape :: "string \<Rightarrow> string" where
  "JsonEscape s = [CHR 0x22] @ concat (map json_char s) @ [CHR 0x22]"

definition json_member :: "string \<times> string \<Rightarrow> string" where
  "json_member kv = JsonEscape (fst kv) @ '':'' @ JsonEscape (snd kv)"

definition DumpSessionJson :: "string_map \<Rightarrow> string" where
  "DumpSessionJson kv = ''{'' @ Join (map json_member (RBT.entries kv)) '','' @ ''}''"

definition DumpFlashArray :: "string list \<Rightarrow> string" where
  "DumpFlashArray v = ''['' @ Join (map JsonEscape v) '','' @ '']''"

section \<open>Parsing\<close>

definition is_ws :: "char \<Rightarrow> bool" where
  "is_ws c \<longleftrightarrow> c = CHR '' '' \<or> c = TAB \<or> c = LF \<or> c = CR"

definition SkipWs :: "string \<Rightarrow> string" where
  "SkipWs s = dropWhile is_ws s"

definition Eat :: "char \<Rightarrow> string \<Rightarrow> bool \<times> string" where
  "Eat c s =
     (let t = SkipWs s in if t \<noteq> [] \<and> hd t = c then (True, tl t) else (False, t))"

definition Utf8 :: "nat \<Rightarrow> string" where
  "Utf8 cp =
     (if cp \<le> 0x7F then [chr cp]
      else if cp \<le> 0x7FF then [chr (0xC0 OR drop_bit 6 cp), chr (0x80 OR (cp AND 0x3F))]
      else if cp \<le> 0xFFFF then
        [chr (0xE0 OR drop_bit 12 cp), chr (0x80 OR (drop_bit 6 cp AND 0x3F)),
         chr (0x80 OR (cp AND 0x3F))]
      else
        [chr (0xF0 OR drop_bit 18 cp), chr (0x80 OR (drop_bit 12 cp AND 0x3F)),
         chr (0x80 OR (drop_bit 6 cp AND 0x3F)), chr (0x80 OR (cp AND 0x3F))])"

text \<open>Four hexadecimal digits; the digit tests are those of \<open>CharToHex\<close>.\<close>

fun ParseHex4 :: "string \<Rightarrow> (nat \<times> string) option" where
  "ParseHex4 (a # b # c # d # r) =
     (if CharToHex a \<ge> 0 \<and> CharToHex b \<ge> 0 \<and> CharToHex c \<ge> 0 \<and> CharToHex d \<ge> 0
      then Some (nat (((CharToHex a * 16 + CharToHex b) * 16 + CharToHex c) * 16 + CharToHex d), r)
      else None)"
| "ParseHex4 _ = None"

text \<open>The \<open>case 'u'\<close>: the code point after surrogate handling and the rest.\<close>

definition unicode_escape :: "string \<Rightarrow> (nat \<times> string) option" where
  "unicode_escape s =
     (case ParseHex4 s of
        None \<Rightarrow> None
      | Some (cp, r) \<Rightarrow>
          (if 0xD800 \<le> cp \<and> cp \<le> 0xDBFF \<and> take 2 r = [CHR 0x5C, CHR ''u''] then
             (case ParseHex4 (drop 2 r) of
                Some (lo, r') \<Rightarrow>
                  (if 0xDC00 \<le> lo \<and> lo \<le> 0xDFFF
                   then Some (0x10000 + (cp - 0xD800) * 1024 + (lo - 0xDC00), r')
                   else Some (0xFFFD, r))
              | None \<Rightarrow> Some (0xFFFD, r))
           else if 0xD800 \<le> cp \<and> cp \<le> 0xDFFF then Some (0xFFFD, r)
           else Some (cp, r)))"

lemma ParseHex4_length: "ParseHex4 s = Some (v, r) \<Longrightarrow> length r < length s"
  by (induction s rule: ParseHex4.induct) (auto split: if_splits)

lemma unicode_escape_length:
  "unicode_escape s = Some (v, r) \<Longrightarrow> length r < length s"
  by (auto simp: unicode_escape_def split: option.splits if_splits dest!: ParseHex4_length)

text \<open>The simple escapes.\<close>

definition simple_escape :: "char \<Rightarrow> char option" where
  "simple_escape e =
     (if e = CHR 0x22 then Some (CHR 0x22)
      else if e = CHR 0x5C then Some (CHR 0x5C)
      else if e = CHR ''/'' then Some (CHR ''/'')
      else if e = CHR ''b'' then Some (CHR 0x08)
      else if e = CHR ''f'' then Some (CHR 0x0C)
      else if e = CHR ''n'' then Some (CHR 0x0A)
      else if e = CHR ''r'' then Some (CHR 0x0D)
      else if e = CHR ''t'' then Some (CHR 0x09)
      else None)"

text \<open>The loop of \<open>ParseString\<close> after the opening quote: the string and the rest.\<close>

function string_loop :: "string \<Rightarrow> string \<Rightarrow> (string \<times> string) option" where
  "string_loop [] out = None"
| "string_loop (c # s) out =
     (if c = CHR 0x22 then Some (out, s)
      else if byte c < 0x20 then None
      else if c \<noteq> CHR 0x5C then string_loop s (out @ [c])
      else
        (case s of
           [] \<Rightarrow> None
         | e # t \<Rightarrow>
             (case simple_escape e of
                Some d \<Rightarrow> string_loop t (out @ [d])
              | None \<Rightarrow>
                  (if e = CHR ''u'' then
                     (case unicode_escape t of
                        None \<Rightarrow> None
                      | Some (cp, r) \<Rightarrow> string_loop r (out @ Utf8 cp))
                   else None))))"
  by pat_completeness auto
termination
  by (relation "measure (\<lambda>(s, out). length s)") (auto dest: unicode_escape_length)

definition ParseString :: "string \<Rightarrow> (string \<times> string) option" where
  "ParseString s = (case Eat (CHR 0x22) s of (True, t) \<Rightarrow> string_loop t [] | (False, _) \<Rightarrow> None)"

lemma Eat_length: "Eat c s = (True, r) \<Longrightarrow> length r < length s"
  using length_dropWhile_le [of is_ws s]
  by (cases "dropWhile is_ws s") (auto simp: Eat_def SkipWs_def Let_def split: if_splits)

lemma Eat_length': "(True, r) = Eat c s \<Longrightarrow> length r < length s"
  by (rule Eat_length) simp

lemma string_loop_length: "string_loop s out = Some (x, r) \<Longrightarrow> length r < length s"
proof (induction s out rule: string_loop.induct)
  case (2 c s out)
  show ?case
  proof (cases "c = CHR 0x22 \<or> byte c < 0x20 \<or> c \<noteq> CHR 0x5C")
    case True
    with "2.prems" "2.IH"(1) show ?thesis by (auto split: if_splits)
  next
    case False
    then obtain e t where s: "s = e # t" using "2.prems" by (cases s) auto
    show ?thesis
    proof (cases "simple_escape e")
      case (Some d)
      with False "2.prems" "2.IH"(3) [of e t d] show ?thesis by (auto simp: s)
    next
      case None
      with False "2.prems" obtain cp u where "unicode_escape t = Some (cp, u)" "e = CHR ''u''"
        by (auto simp: s split: if_splits option.splits)
      with None False "2.prems" "2.IH"(2) [of e t "(cp, u)" cp u] unicode_escape_length [of t cp u]
      show ?thesis by (auto simp: s)
    qed
  qed
qed simp

lemma ParseString_length: "ParseString s = Some (x, r) \<Longrightarrow> length r < length s"
  by (auto simp: ParseString_def split: prod.splits bool.splits
      dest!: Eat_length string_loop_length)

text \<open>\<open>std::map::emplace\<close>: an existing key keeps its value.\<close>

definition emplace :: "string \<Rightarrow> string \<Rightarrow> string_map \<Rightarrow> string_map" where
  "emplace k v kv = (case RBT.lookup kv k of None \<Rightarrow> RBT.insert k v kv | Some _ \<Rightarrow> kv)"

text \<open>
  The loop of \<open>Parse\<close>: success, the rest and the members read so far (also on failure, where
  the output map keeps them).
\<close>

function parse_members :: "string \<Rightarrow> string_map \<Rightarrow> bool \<times> string \<times> string_map" where
  "parse_members s kv =
     (case ParseString s of
        None \<Rightarrow> (False, s, kv)
      | Some (k, s1) \<Rightarrow>
          (case Eat (CHR '':'') s1 of
             (False, s2) \<Rightarrow> (False, s2, kv)
           | (True, s2) \<Rightarrow>
               (case ParseString s2 of
                  None \<Rightarrow> (False, s2, kv)
                | Some (v, s3) \<Rightarrow>
                    (let kv' = emplace k v kv in
                     case Eat (CHR '','') s3 of
                       (True, s4) \<Rightarrow> parse_members s4 kv'
                     | (False, s4) \<Rightarrow>
                         (case Eat (CHR ''}'') s4 of
                            (True, s5) \<Rightarrow> (True, s5, kv')
                          | (False, s5) \<Rightarrow> (False, s5, kv'))))))"
  by pat_completeness auto
termination
  by (relation "measure (\<lambda>(s, kv). length s)") (auto dest!: ParseString_length Eat_length')

declare parse_members.simps [simp del]

definition JsonParse :: "string \<Rightarrow> bool \<times> string \<times> string_map" where
  "JsonParse s =
     (case Eat (CHR ''{'') s of
        (False, s1) \<Rightarrow> (False, s1, RBT.empty)
      | (True, s1) \<Rightarrow>
          (let s2 = SkipWs s1 in
           if s2 \<noteq> [] \<and> hd s2 = CHR ''}'' then (True, tl s2, RBT.empty)
           else parse_members s2 RBT.empty))"

definition ParseSessionJson :: "string \<Rightarrow> bool \<times> string_map" where
  "ParseSessionJson s =
     (case JsonParse s of
        (False, _, kv) \<Rightarrow> (False, kv)
      | (True, r, kv) \<Rightarrow> (SkipWs r = [], kv))"

function parse_items :: "string \<Rightarrow> string list \<Rightarrow> bool \<times> string \<times> string list" where
  "parse_items s items =
     (case ParseString s of
        None \<Rightarrow> (False, s, items)
      | Some (x, s1) \<Rightarrow>
          (case Eat (CHR '','') s1 of
             (True, s2) \<Rightarrow> parse_items s2 (items @ [x])
           | (False, s2) \<Rightarrow>
               (case Eat (CHR '']'') s2 of
                  (True, s3) \<Rightarrow> (True, s3, items @ [x])
                | (False, s3) \<Rightarrow> (False, s3, items @ [x]))))"
  by pat_completeness auto
termination
  by (relation "measure (\<lambda>(s, items). length s)") (auto dest!: ParseString_length Eat_length')

declare parse_items.simps [simp del]

definition ParseFlashArray :: "string \<Rightarrow> bool \<times> string list" where
  "ParseFlashArray s =
     (if s = [] then (False, [])
      else (case Eat (CHR ''['') s of
              (False, _) \<Rightarrow> (False, [])
            | (True, s1) \<Rightarrow>
                (case Eat (CHR '']'') (SkipWs s1) of
                   (True, _) \<Rightarrow> (True, [])
                 | (False, s2) \<Rightarrow>
                     (case parse_items s2 [] of
                        (False, _, items) \<Rightarrow> (False, items)
                      | (True, r, items) \<Rightarrow> (SkipWs r = [], items)))))"

section \<open>Reading back what was printed\<close>

lemma ParseHex4_byte: "ParseHex4 (''00'' @ hex_pair kHexLower c @ r) = Some (byte c, r)"
proof -
  have "CharToHex (CHR ''0'') = 0" by (simp add: CharToHex_def)
  moreover have "CharToHex (kHexLower ! drop_bit 4 (byte c)) = int (byte c div 16)"
    "CharToHex (kHexLower ! (byte c AND 15)) = int (byte c mod 16)"
    using nibble_high_less [of c] by (auto simp: nibble_high nibble_low CharToHex_tables)
  moreover have "nat (int (byte c div 16) * 16 + int (byte c mod 16)) = byte c"
    by (simp add: nat_nibbles)
  ultimately show ?thesis by (simp add: hex_pair_def)
qed

lemma string_loop_char: "string_loop (json_char c @ r) out = string_loop r (out @ [c])"
proof (cases "byte c < 0x20 \<and> c \<notin> {CHR 0x08, CHR 0x0C, CHR 0x0A, CHR 0x0D, CHR 0x09}")
  case True
  then have lt: "byte c < 0x20" by (rule conjunct1)
  have "c \<noteq> CHR 0x22" "c \<noteq> CHR 0x5C" by (rule notI, use lt in simp)+
  with True have "json_char c = [CHR 0x5C] @ ''u00'' @ hex_pair kHexLower c"
    by (simp add: json_char_def)
  moreover have "unicode_escape (''00'' @ hex_pair kHexLower c @ r) = Some (byte c, r)"
    using True by (simp only: unicode_escape_def ParseHex4_byte) simp
  moreover have "Utf8 (byte c) = [c]" using True by (simp add: Utf8_def)
  ultimately show ?thesis by (simp add: simple_escape_def)
next
  case False
  then consider "c = CHR 0x22" | "c = CHR 0x5C" | "c = CHR 0x08" | "c = CHR 0x0C" | "c = CHR 0x0A"
    | "c = CHR 0x0D" | "c = CHR 0x09"
    | "\<not> byte c < 0x20" "c \<noteq> CHR 0x22" "c \<noteq> CHR 0x5C"
    by blast
  then show ?thesis
  proof cases
    case 8
    then have "c \<notin> {CHR 0x08, CHR 0x0C, CHR 0x0A, CHR 0x0D, CHR 0x09}" by auto
    with 8 have "json_char c = [c]" by (simp add: json_char_def)
    with 8 show ?thesis by simp
  qed (simp_all add: json_char_def simple_escape_def)
qed

lemma string_loop_chars: "string_loop (concat (map json_char s) @ r) out = string_loop r (out @ s)"
  by (induction s arbitrary: out) (simp_all add: string_loop_char)

lemma ParseString_JsonEscape: "ParseString (JsonEscape s @ r) = Some (s, r)"
proof -
  have "Eat (CHR 0x22) (JsonEscape s @ r) = (True, concat (map json_char s) @ [CHR 0x22] @ r)"
    by (simp add: JsonEscape_def Eat_def SkipWs_def is_ws_def)
  then show ?thesis by (simp add: ParseString_def string_loop_chars)
qed

lemma Eat_here: "\<not> is_ws c \<Longrightarrow> Eat c (c # r) = (True, r)"
  by (simp add: Eat_def SkipWs_def)

lemma Eat_other: "\<not> is_ws d \<Longrightarrow> d \<noteq> c \<Longrightarrow> Eat c (d # r) = (False, d # r)"
  by (simp add: Eat_def SkipWs_def)

lemma plain_not_ws [simp]:
  "\<not> is_ws (CHR '','')" "\<not> is_ws (CHR '':'')" "\<not> is_ws (CHR ''}'')" "\<not> is_ws (CHR ''{'')"
  "\<not> is_ws (CHR ''['')" "\<not> is_ws (CHR '']'')"
  by (simp_all add: is_ws_def)

lemma parse_members_entries:
  "parse_members (Join (map json_member (e # es)) '','' @ CHR ''}'' # r) kv =
     (True, r, fold (\<lambda>kv. emplace (fst kv) (snd kv)) (e # es) kv)"
proof (induction es arbitrary: e kv)
  case Nil
  show ?case
    by (subst parse_members.simps)
      (simp add: json_member_def ParseString_JsonEscape Eat_here Eat_other Let_def)
next
  case (Cons f es)
  define J where "J = Join (map json_member (f # es)) '','' @ CHR ''}'' # r"
  have split: "Join (map json_member (e # f # es)) '','' @ CHR ''}'' # r =
      JsonEscape (fst e) @ CHR '':'' # JsonEscape (snd e) @ CHR '','' # J"
    by (simp add: json_member_def J_def)
  have ih: "parse_members J kv' = (True, r, fold (\<lambda>kv. emplace (fst kv) (snd kv)) (f # es) kv')" for kv'
    unfolding J_def by (rule Cons.IH)
  show ?case
    unfolding split
    by (subst parse_members.simps) (simp add: ParseString_JsonEscape Eat_here Let_def ih)
qed

lemma lookup_emplace:
  "RBT.lookup (emplace k v m) = (case RBT.lookup m k of None \<Rightarrow> (RBT.lookup m)(k \<mapsto> v) | Some _ \<Rightarrow> RBT.lookup m)"
  by (simp add: emplace_def split: option.splits)

lemma lookup_emplace_all:
  "RBT.lookup (fold (\<lambda>kv. emplace (fst kv) (snd kv)) es m) = map_of es ++ RBT.lookup m"
proof (induction es arbitrary: m)
  case (Cons e es)
  have "map_of es ++ RBT.lookup (emplace (fst e) (snd e) m) = map_of (e # es) ++ RBT.lookup m"
    by (auto simp: lookup_emplace map_add_def fun_eq_iff split: option.splits)
  moreover have "fold (\<lambda>kv. emplace (fst kv) (snd kv)) (e # es) m =
      fold (\<lambda>kv. emplace (fst kv) (snd kv)) es (emplace (fst e) (snd e) m)" by simp
  ultimately show ?case by (simp only: Cons.IH)
qed simp

lemma ParseSessionJson_dump:
  "fst (ParseSessionJson (DumpSessionJson m)) \<and>
   RBT.lookup (snd (ParseSessionJson (DumpSessionJson m))) = RBT.lookup m"
proof (cases "RBT.entries m")
  case Nil
  then have "RBT.lookup m = Map.empty" by (metis RBT.map_of_entries map_of.simps(1))
  moreover have "DumpSessionJson m = ''{}''" unfolding DumpSessionJson_def Nil by simp
  moreover have "ParseSessionJson ''{}'' = (True, RBT.empty)"
    by (simp add: ParseSessionJson_def JsonParse_def Eat_here SkipWs_def Let_def)
  ultimately show ?thesis by simp
next
  case (Cons e es)
  have ws: "SkipWs (Join (map json_member (e # es)) '','' @ CHR ''}'' # r) =
      Join (map json_member (e # es)) '','' @ CHR ''}'' # r" for r
    by (cases es) (simp_all add: json_member_def JsonEscape_def SkipWs_def is_ws_def)
  have hd: "hd (Join (map json_member (e # es)) '','' @ CHR ''}'' # r) = CHR 0x22" for r
    by (cases es) (simp_all add: json_member_def JsonEscape_def)
  have "ParseSessionJson (DumpSessionJson m) =
      (True, fold (\<lambda>kv. emplace (fst kv) (snd kv)) (e # es) RBT.empty)"
    using ws [of "[]"] hd [of "[]"] parse_members_entries [of e es "[]" RBT.empty]
    by (simp add: ParseSessionJson_def JsonParse_def DumpSessionJson_def Cons Eat_here Let_def)
      (simp add: SkipWs_def)
  moreover have "map_of (e # es) = RBT.lookup m"
    by (metis Cons RBT.map_of_entries)
  ultimately show ?thesis by (simp only: fst_conv snd_conv lookup_emplace_all) simp
qed

lemma parse_items_entries:
  "parse_items (Join (map JsonEscape (e # es)) '','' @ CHR '']'' # r) items = (True, r, items @ e # es)"
proof (induction es arbitrary: e items)
  case Nil
  show ?case
    by (subst parse_items.simps) (simp add: ParseString_JsonEscape Eat_here Eat_other)
next
  case (Cons f es)
  define J where "J = Join (map JsonEscape (f # es)) '','' @ CHR '']'' # r"
  have split: "Join (map JsonEscape (e # f # es)) '','' @ CHR '']'' # r = JsonEscape e @ CHR '','' # J"
    by (simp add: J_def)
  have ih: "parse_items J (items @ [e]) = (True, r, items @ e # f # es)"
    unfolding J_def using Cons.IH [of f "items @ [e]"] by simp
  show ?case
    unfolding split by (subst parse_items.simps) (simp add: ParseString_JsonEscape Eat_here ih)
qed

lemma ParseFlashArray_dump: "ParseFlashArray (DumpFlashArray items) = (True, items)"
proof (cases items)
  case Nil
  then show ?thesis
    by (simp add: ParseFlashArray_def DumpFlashArray_def Eat_here SkipWs_def)
next
  case (Cons e es)
  have ws: "Eat (CHR '']'') (SkipWs (Join (map JsonEscape (e # es)) '','' @ '']'')) =
      (False, Join (map JsonEscape (e # es)) '','' @ '']'')"
    by (cases es) (simp_all add: JsonEscape_def SkipWs_def is_ws_def Eat_def Let_def)
  show ?thesis
    using ws parse_items_entries [of e es "[]" "[]"]
    by (simp add: Cons ParseFlashArray_def DumpFlashArray_def Eat_here) (simp add: SkipWs_def)
qed

section \<open>Properties\<close>

text \<open>
  C24: Session data survives storage: for every map from byte strings to byte strings, with any
  control characters, quotes, backslashes and non-ASCII bytes, parsing the printed object
  succeeds and gives a map with the same entries.
\<close>

theorem session_json_roundtrip:
  "fst (ParseSessionJson (DumpSessionJson m)) \<and>
   RBT.lookup (snd (ParseSessionJson (DumpSessionJson m))) = RBT.lookup m"
  by (rule ParseSessionJson_dump)

end
