(* ===== verification/Redis_Client.thy ===== *)
theory Redis_Client
  imports Uco_Prelude
begin

text \<open>
  The Redis client of \<open>core/uredis.cpp\<close>: the RESP2 request printer and reply parser, sending and
  receiving on a connection under a total deadline, the commands, and connecting. The parser's
  position in its buffer is given by the rest of the buffer. What the kernel answers is an
  argument: a list with one entry per call of \<open>usend\<close> or \<open>urecv\<close>, each with the nanoseconds that
  have passed on the steady clock since the deadline was set; a list that runs out is a call that
  has not returned yet (\<open>None\<close>).
\<close>

section \<open>Replies and errors\<close>

definition kBadArgument :: int where "kBadArgument = - 200"
definition kTimeout :: int where "kTimeout = - 201"
definition kServerError :: int where "kServerError = - 300"
definition ETIME :: int where "ETIME = - 62"
definition EPROTO :: int where "EPROTO = - 71"
definition ECONNRESET :: int where "ECONNRESET = - 104"
definition EAGAIN :: int where "EAGAIN = - 11"
definition EINTR :: int where "EINTR = - 4"

lemmas error_codes =
  kBadArgument_def kTimeout_def kServerError_def ETIME_def EPROTO_def ECONNRESET_def
  EAGAIN_def EINTR_def

datatype reply_type = NIL | STRING | STATUS | INTEGER | ARRAY

datatype Reply =
  Reply (ret_code: int) (err_msg: string) (rtype: reply_type) (integer: int) (str: string)
    (elements: "Reply list")

definition empty_reply :: Reply where
  "empty_reply = Reply 0 [] NIL 0 [] []"

definition Retryable :: "Reply \<Rightarrow> bool" where
  "Retryable e \<longleftrightarrow>
     ret_code e = kTimeout \<or>
     (ret_code e < 0 \<and> ret_code e \<noteq> kBadArgument \<and> ret_code e \<noteq> kServerError)"

text \<open>\<open>strerror\<close> is the C library's table of messages.\<close>

definition fill_error :: "(int \<Rightarrow> string) \<Rightarrow> int \<Rightarrow> Reply \<Rightarrow> Reply" where
  "fill_error strerror r e =
     (if r = ETIME
      then Reply kTimeout ''uredis: operation timeout'' (rtype e) (integer e) (str e) (elements e)
      else Reply r (''uredis: '' @ strerror (- r)) (rtype e) (integer e) (str e) (elements e))"

section \<open>Requests\<close>

definition CRLF :: string where "CRLF = [CR, LF]"

definition bulk :: "string \<Rightarrow> string" where
  "bulk arg = ''$'' @ nat_to_string (length arg) @ [CR, LF] @ arg @ [CR, LF]"

definition serialize :: "string list \<Rightarrow> string" where
  "serialize args = ''*'' @ nat_to_string (length args) @ [CR, LF] @ concat (map bulk args)"

section \<open>The reply parser\<close>

text \<open>The line up to the next CRLF and what follows it.\<close>

fun find_line :: "string \<Rightarrow> (string \<times> string) option" where
  "find_line (a # b # s) =
     (if a = CR \<and> b = LF then Some ([], s)
      else map_option (\<lambda>(l, r). (a # l, r)) (find_line (b # s)))"
| "find_line _ = None"

text \<open>64-bit arithmetic: a value outside the range of \<open>int64_t\<close> wraps around.\<close>

definition wrap64 :: "int \<Rightarrow> int" where
  "wrap64 v = signed_take_bit 63 v"

fun digits_loop :: "string \<Rightarrow> int \<Rightarrow> int option" where
  "digits_loop [] v = Some v"
| "digits_loop (c # s) v =
     (if is_digit c then digits_loop s (wrap64 (v * 10 + int (digit_val c))) else None)"

definition parse_int :: "string \<Rightarrow> int option" where
  "parse_int s =
     (if s = [] then None
      else if hd s = CHR ''-'' then
        (if tl s = [] then None
         else map_option (\<lambda>v. wrap64 (- v)) (digits_loop (tl s) 0))
      else digits_loop s 0)"

text \<open>
  The results 0, 1 and -1 of \<open>parse_one\<close>. The recursion over nested arrays is bounded by fuel,
  one unit per nesting level; \<open>parse_reply\<close> supplies more than the input has bytes, and
  \<open>NoFuel\<close> is never its result (\<open>parse_reply_total\<close>).
\<close>

datatype parse_result = Parsed Reply string | NeedMore | ProtoError | NoFuel

fun parse_one :: "nat \<Rightarrow> string \<Rightarrow> parse_result"
  and parse_elements :: "nat \<Rightarrow> nat \<Rightarrow> string \<Rightarrow> Reply list \<Rightarrow> parse_result" where
  "parse_one 0 s = NoFuel"
| "parse_one (Suc n) [] = NeedMore"
| "parse_one (Suc n) (t # s) =
     (if t = CHR ''+'' \<or> t = CHR ''-'' \<or> t = CHR '':'' then
        (case find_line s of
           None \<Rightarrow> NeedMore
         | Some (l, r) \<Rightarrow>
             (if t = CHR '':'' then
                (case parse_int l of
                   None \<Rightarrow> ProtoError
                 | Some v \<Rightarrow> Parsed (Reply 0 [] INTEGER v [] []) r)
              else if t = CHR ''-'' then Parsed (Reply kServerError l STATUS 0 l []) r
              else Parsed (Reply 0 [] STATUS 0 l []) r))
      else if t = CHR ''$'' then
        (case find_line s of
           None \<Rightarrow> NeedMore
         | Some (l, r) \<Rightarrow>
             (case parse_int l of
                None \<Rightarrow> ProtoError
              | Some len \<Rightarrow>
                  (if len < 0 then Parsed empty_reply r
                   else if int (length r) < wrap64 (len + 2) then NeedMore
                   else Parsed (Reply 0 [] STRING 0 (take (nat len) r) []) (drop (nat len + 2) r))))
      else if t = CHR ''*'' then
        (case find_line s of
           None \<Rightarrow> NeedMore
         | Some (l, r) \<Rightarrow>
             (case parse_int l of
                None \<Rightarrow> ProtoError
              | Some cnt \<Rightarrow>
                  (if cnt < 0 then Parsed empty_reply r else parse_elements n (nat cnt) r [])))
      else ProtoError)"
| "parse_elements n 0 s acc = Parsed (Reply 0 [] ARRAY 0 [] acc) s"
| "parse_elements n (Suc k) s acc =
     (case parse_one n s of
        Parsed x r \<Rightarrow> parse_elements n k r (acc @ [x])
      | e \<Rightarrow> e)"

definition parse_reply :: "string \<Rightarrow> parse_result" where
  "parse_reply s = parse_one (Suc (length s)) s"

section \<open>Sending and receiving\<close>

text \<open>\<open>deadline::remain\<close>: \<open>Some (0, 0)\<close> is no limit and \<open>None\<close> is too late.\<close>

definition deadline_remain :: "uco_time \<Rightarrow> int \<Rightarrow> uco_time option" where
  "deadline_remain ts elapsed =
     (if ts = (0, 0) then Some (0, 0)
      else (let left = total_ns ts - elapsed in
            if left \<le> 0 then None else Some (left div 1000000000, left mod 1000000000)))"

function send_all :: "uco_time \<Rightarrow> string \<Rightarrow> (int \<times> int) list \<Rightarrow> int option \<times> string" where
  "send_all ts data [] = (if data = [] then (Some 0, []) else (None, []))"
| "send_all ts data ((elapsed, n) # outs) =
     (if data = [] then (Some 0, [])
      else if deadline_remain ts elapsed = None then (Some ETIME, [])
      else if n < 0 then
        (if n = EAGAIN \<or> n = EINTR then send_all ts data outs else (Some n, []))
      else if n = 0 then (Some ECONNRESET, [])
      else (case send_all ts (drop (nat n) data) outs of
              (r, sent) \<Rightarrow> (r, take (nat n) data @ sent)))"
  by pat_completeness auto
termination by (relation "measure (\<lambda>(ts, data, outs). length outs)") auto

datatype recv_result = RecvErr int | RecvData string

function read_loop ::
  "uco_time \<Rightarrow> string \<Rightarrow> (int \<times> recv_result) list \<Rightarrow> int option \<times> Reply option \<times> string" where
  "read_loop ts rbuf evs =
     (case parse_reply rbuf of
        Parsed r rest \<Rightarrow> (Some 0, Some r, rest)
      | NeedMore \<Rightarrow>
          (case evs of
             [] \<Rightarrow> (None, None, rbuf)
           | (elapsed, x) # evs' \<Rightarrow>
               (if deadline_remain ts elapsed = None then (Some ETIME, None, rbuf)
                else (case x of
                        RecvErr n \<Rightarrow> (Some n, None, rbuf)
                      | RecvData d \<Rightarrow>
                          (if d = [] then (Some ECONNRESET, None, rbuf)
                           else read_loop ts (rbuf @ d) evs'))))
      | _ \<Rightarrow> (Some EPROTO, None, rbuf))"
  by pat_completeness auto
termination by (relation "measure (\<lambda>(ts, rbuf, evs). length evs)") auto

declare read_loop.simps [simp del]

record uconnection =
  conn_fd :: int
  broken :: bool
  rbuf :: string

definition read_reply ::
  "uco_time \<Rightarrow> (int \<times> recv_result) list \<Rightarrow> uconnection \<Rightarrow> int option \<times> Reply option \<times> uconnection" where
  "read_reply ts evs c =
     (case read_loop ts [] evs of (r, out, buf) \<Rightarrow> (r, out, c\<lparr>rbuf := buf\<rparr>))"

section \<open>Commands\<close>

text \<open>
  The reply (\<open>None\<close> while a system call is pending), the connection afterwards and the bytes sent.
\<close>

definition ucommand ::
  "(int \<Rightarrow> string) \<Rightarrow> uco_time \<Rightarrow> (int \<times> int) list \<Rightarrow> (int \<times> recv_result) list \<Rightarrow> string list \<Rightarrow>
   uconnection option \<Rightarrow> Reply option \<times> uconnection option \<times> string" where
  "ucommand strerror ts sends recvs args co =
     (case co of
        None \<Rightarrow>
          (Some (Reply kBadArgument ''uredis: invalid connection or empty args'' NIL 0 [] []), None, [])
      | Some c \<Rightarrow>
          (if conn_fd c < 0 \<or> broken c \<or> args = [] then
             (Some (Reply kBadArgument ''uredis: invalid connection or empty args'' NIL 0 [] []),
              Some c, [])
           else
             (case send_all ts (serialize args) sends of
                (None, sent) \<Rightarrow> (None, Some c, sent)
              | (Some r, sent) \<Rightarrow>
                  (if r \<noteq> 0 then
                     (Some (fill_error strerror r empty_reply), Some (c\<lparr>broken := True\<rparr>), sent)
                   else
                     (case read_reply ts recvs c of
                        (None, _, c') \<Rightarrow> (None, Some c', sent)
                      | (Some r', out, c') \<Rightarrow>
                          (if r' \<noteq> 0 then
                             (Some (fill_error strerror r' empty_reply), Some (c'\<lparr>broken := True\<rparr>), sent)
                           else (out, Some c', sent)))))))"

definition uset_args :: "string \<Rightarrow> string \<Rightarrow> string list" where
  "uset_args key val = [''SET'', key, val]"

definition uget_args :: "string \<Rightarrow> string list" where
  "uget_args key = [''GET'', key]"

definition udel_args :: "string list \<Rightarrow> string list" where
  "udel_args keys = ''DEL'' # keys"

definition uexists_args :: "string list \<Rightarrow> string list" where
  "uexists_args keys = ''EXISTS'' # keys"

definition uincr_args :: "string \<Rightarrow> string list" where
  "uincr_args key = [''INCR'', key]"

definition uexpire_args :: "string \<Rightarrow> int \<Rightarrow> string list" where
  "uexpire_args key seconds = [''EXPIRE'', key, int_to_string seconds]"

definition uping_args :: "string list" where
  "uping_args = [''PING'']"

section \<open>Connecting\<close>

text \<open>
  \<open>uconnect\<close> makes the socket \<open>fd\<close>, checks the dotted address (\<open>inet_pton\<close>), connects with
  the result \<open>r\<close>, and runs the optional \<open>AUTH\<close> and \<open>SELECT\<close> commands, whose system calls are
  given by \<open>auth_io\<close> and \<open>select_io\<close>. The inner \<open>None\<close> is the null handle.
\<close>

type_synonym command_io = "(int \<times> int) list \<times> (int \<times> recv_result) list"

definition login_step ::
  "(int \<Rightarrow> string) \<Rightarrow> uco_time \<Rightarrow> command_io \<Rightarrow> string list \<Rightarrow> uconnection \<Rightarrow>
   uconnection option option" where
  "login_step strerror ts io args c =
     (case ucommand strerror ts (fst io) (snd io) args (Some c) of
        (None, _, _) \<Rightarrow> None
      | (Some rep, c', _) \<Rightarrow> Some (if ret_code rep \<noteq> 0 then None else c'))"

definition redis_uconnect ::
  "(int \<Rightarrow> string) \<Rightarrow> (string \<Rightarrow> bool) \<Rightarrow> int \<Rightarrow> int \<Rightarrow> command_io \<Rightarrow> command_io \<Rightarrow>
   string option \<Rightarrow> string \<Rightarrow> int \<Rightarrow> uco_time \<Rightarrow> uconnection option option" where
  "redis_uconnect strerror inet_pton fd r auth_io select_io host pass db ts =
     (if fd < 0 then Some None
      else
        (case host of
           None \<Rightarrow> Some None
         | Some h \<Rightarrow>
             (if \<not> inet_pton h then Some None
              else if r \<noteq> 0 then Some None
              else
                (let c = \<lparr>conn_fd = fd, broken = False, rbuf = []\<rparr>;
                     c1 = (if pass \<noteq> [] then login_step strerror ts auth_io [''AUTH'', pass] c
                           else Some (Some c))
                 in case c1 of
                      None \<Rightarrow> None
                    | Some None \<Rightarrow> Some None
                    | Some (Some c') \<Rightarrow>
                        (if db \<noteq> 0
                         then login_step strerror ts select_io [''SELECT'', int_to_string db] c'
                         else Some (Some c'))))))"

section \<open>Facts about the parser\<close>

lemma find_line_length: "find_line s = Some (l, r) \<Longrightarrow> length r < length s"
  by (induction s arbitrary: l r rule: find_line.induct) (force split: if_splits)+

lemma find_line_line: "CR \<notin> set l \<Longrightarrow> find_line (l @ CR # LF # r) = Some (l, r)"
proof (induction l)
  case (Cons a l)
  then show ?case by (cases l) auto
qed simp

lemma find_line_open:
  "p @ q = l @ [CR, LF] \<Longrightarrow> q \<noteq> [] \<Longrightarrow> CR \<notin> set l \<Longrightarrow> find_line p = None"
proof (induction p arbitrary: l rule: find_line.induct)
  case (1 a b s)
  show ?case
  proof (cases l)
    case Nil
    with 1 show ?thesis by auto
  next
    case (Cons x l')
    with 1 have "(b # s) @ q = l' @ [CR, LF]" "CR \<notin> set l'" "a \<noteq> CR" by auto
    with 1 show ?thesis by auto
  qed
qed auto

lemma parse_fuel:
  "length s < n \<Longrightarrow> parse_one n s \<noteq> NoFuel \<and>
     (\<forall>x r. parse_one n s = Parsed x r \<longrightarrow> length r < length s)"
  "length s < n \<Longrightarrow> parse_elements n k s acc \<noteq> NoFuel \<and>
     (\<forall>x r. parse_elements n k s acc = Parsed x r \<longrightarrow> length r \<le> length s)"
proof (induction n s and n k s acc rule: parse_one_parse_elements.induct)
  case (3 n t s)
  have "length r < length s" if "find_line s = Some (l, r)" for l r
    using find_line_length [OF that] .
  with 3 show ?case
    by (fastforce split: option.splits if_splits)
next
  case (5 n k s acc)
  show ?case
  proof (cases "parse_one n s")
    case (Parsed x r)
    with 5 have "length r < length s" by auto
    with 5 Parsed show ?thesis by fastforce
  qed (use 5 in auto)
qed auto

lemma parse_reply_total: "parse_reply s \<noteq> NoFuel"
  using parse_fuel(1) [of s "Suc (length s)"] by (simp add: parse_reply_def)

lemma wrap64_id: "int64_min \<le> v \<Longrightarrow> v \<le> int64_max \<Longrightarrow> wrap64 v = v"
  unfolding wrap64_def by (rule signed_take_bit_int_eq_self) auto

lemma digits_loop_dec:
  "list_all is_digit ds \<Longrightarrow> v \<ge> 0 \<Longrightarrow> foldl (\<lambda>v c. v * 10 + int (digit_val c)) v ds \<le> int64_max \<Longrightarrow>
   digits_loop ds v = Some (foldl (\<lambda>v c. v * 10 + int (digit_val c)) v ds)"
proof (induction ds arbitrary: v)
  case (Cons c ds)
  have mono: "w \<le> foldl (\<lambda>v c. v * 10 + int (digit_val c)) w ds" if "w \<ge> 0" for w :: int and ds
    using that
  proof (induction ds arbitrary: w)
    case (Cons c ds)
    have "w \<le> w * 10 + int (digit_val c)" using Cons.prems by simp
    also have "\<dots> \<le> foldl (\<lambda>v c. v * 10 + int (digit_val c)) (w * 10 + int (digit_val c)) ds"
      by (rule Cons.IH) (use Cons.prems in simp)
    finally show ?case by simp
  qed simp
  let ?v = "v * 10 + int (digit_val c)"
  have "?v \<le> int64_max" using mono [of ?v ds] Cons.prems by simp
  then have "wrap64 ?v = ?v" using Cons.prems by (intro wrap64_id) auto
  with Cons show ?case by simp
qed simp

lemma foldl_dec_val: "foldl (\<lambda>v c. v * 10 + int (digit_val c)) (int w) ds =
  int (foldl (\<lambda>v c. v * 10 + digit_val c) w ds)"
proof (induction ds arbitrary: w)
  case (Cons c ds)
  show ?case using Cons [of "w * 10 + digit_val c"] by simp
qed simp

lemma digits_loop_nat: "int n \<le> int64_max \<Longrightarrow> digits_loop (nat_to_string n) 0 = Some (int n)"
  using digits_loop_dec [of "nat_to_string n" 0] foldl_dec_val [of 0 "nat_to_string n"]
    dec_val_nat_to_string [of n]
  by (simp add: list_all_iff nat_to_string_digits dec_val_def)

lemma parse_int_nat: "int n \<le> int64_max \<Longrightarrow> parse_int (nat_to_string n) = Some (int n)"
  by (simp add: parse_int_def nat_to_string_ne hd_nat_to_string digits_loop_nat)

lemma parse_int_int:
  "int64_min < v \<Longrightarrow> v \<le> int64_max \<Longrightarrow> parse_int (int_to_string v) = Some v"
  by (auto simp: int_to_string_def parse_int_def nat_to_string_ne digits_loop_nat hd_nat_to_string
      intro!: wrap64_id)

lemma CR_not_digit: "\<not> is_digit CR"
  by (simp add: is_digit_def)

lemma CR_notin_nat: "CR \<notin> set (nat_to_string n)"
  using nat_to_string_digits CR_not_digit by blast

lemma CR_notin_int: "CR \<notin> set (int_to_string v)"
  by (auto simp: int_to_string_def CR_notin_nat)

section \<open>Replies as the server writes them\<close>

text \<open>The RESP2 form of a reply, and the replies that have one.\<close>

fun resp :: "Reply \<Rightarrow> string" where
  "resp (Reply code msg t v s es) =
     (case t of
        NIL \<Rightarrow> ''$-1'' @ [CR, LF]
      | STRING \<Rightarrow> bulk s
      | STATUS \<Rightarrow> (if code = 0 then ''+'' else ''-'') @ s @ [CR, LF]
      | INTEGER \<Rightarrow> '':'' @ int_to_string v @ [CR, LF]
      | ARRAY \<Rightarrow> ''*'' @ nat_to_string (length es) @ [CR, LF] @ concat (map resp es))"

fun resp_ok :: "Reply \<Rightarrow> bool" where
  "resp_ok (Reply code msg t v s es) \<longleftrightarrow>
     (case t of
        NIL \<Rightarrow> code = 0 \<and> msg = [] \<and> v = 0 \<and> s = [] \<and> es = []
      | STRING \<Rightarrow> code = 0 \<and> msg = [] \<and> v = 0 \<and> es = [] \<and> int (length s) + 2 \<le> int64_max
      | STATUS \<Rightarrow> CR \<notin> set s \<and> v = 0 \<and> es = [] \<and>
          (code = 0 \<and> msg = [] \<or> code = kServerError \<and> msg = s)
      | INTEGER \<Rightarrow> code = 0 \<and> msg = [] \<and> s = [] \<and> es = [] \<and> int64_min < v \<and> v \<le> int64_max
      | ARRAY \<Rightarrow> code = 0 \<and> msg = [] \<and> v = 0 \<and> s = [] \<and> int (length es) \<le> int64_max \<and>
          list_all resp_ok es)"

lemma resp_ne: "resp r \<noteq> []"
  by (cases r) (simp add: bulk_def split: reply_type.split)

lemma find_line_num: "find_line (nat_to_string n @ CR # LF # r) = Some (nat_to_string n, r)"
  "find_line (int_to_string v @ CR # LF # r) = Some (int_to_string v, r)"
  by (simp_all add: find_line_line CR_notin_nat CR_notin_int)

lemma parse_bulk:
  assumes "int (length s) + 2 \<le> int64_max"
  shows "parse_one (Suc n) (bulk s @ rest) = Parsed (Reply 0 [] STRING 0 s []) rest"
proof -
  have "wrap64 (int (length s) + 2) = int (length s) + 2" using assms by (intro wrap64_id) auto
  then show ?thesis using assms
    by (simp add: bulk_def find_line_num parse_int_nat)
qed

lemma minus_one: "int_to_string (- 1) = ''-1''"
  by (simp add: int_to_string_def digit_chr_def char_of_def) code_simp

lemma parse_elements_resp:
  "(\<And>e rest. e \<in> set es \<Longrightarrow> parse_one m (resp e @ rest) = Parsed e rest) \<Longrightarrow>
   parse_elements m (length es) (concat (map resp es) @ rest) acc =
     Parsed (Reply 0 [] ARRAY 0 [] (acc @ es)) rest"
  by (induction es arbitrary: acc) auto

lemma length_resp_element:
  "e \<in> set es \<Longrightarrow> length (resp e) \<le> length (concat (map resp es))"
  by (induction es) auto

lemma parse_resp:
  "resp_ok r \<Longrightarrow> length (resp r) < n \<Longrightarrow> parse_one n (resp r @ rest) = Parsed r rest"
proof (induction r arbitrary: n rest)
  case (Reply code msg t v s es)
  from Reply.prems(2) obtain m where n: "n = Suc m" by (cases n) auto
  show ?case
  proof (cases t)
    case ARRAY
    have "parse_one m (resp e @ rest') = Parsed e rest'" if e: "e \<in> set es" for e rest'
    proof (rule Reply.IH [OF e])
      show "resp_ok e" using Reply.prems e ARRAY by (auto simp: list_all_iff)
      show "length (resp e) < m"
        using length_resp_element [OF e] Reply.prems(2) ARRAY n by simp
    qed
    with parse_elements_resp [of es m rest "[]"] Reply.prems ARRAY n show ?thesis
      by (simp add: find_line_num parse_int_nat)
  next
    case INTEGER
    with Reply.prems n show ?thesis by (simp add: find_line_num parse_int_int)
  next
    case STATUS
    with Reply.prems n show ?thesis by (auto simp: find_line_line kServerError_def)
  next
    case STRING
    with Reply.prems n show ?thesis by (simp add: parse_bulk)
  next
    case NIL
    have "find_line (CHR ''-'' # CHR ''1'' # CR # LF # rest) = Some (''-1'', rest)"
      using find_line_line [of "''-1''" rest] by simp
    moreover have "parse_int ''-1'' = Some (- 1)"
      using parse_int_int [of "- 1"] minus_one by simp
    ultimately show ?thesis using NIL Reply.prems n by (simp add: empty_reply_def)
  qed
qed

lemma parse_elements_open:
  assumes full: "\<And>e rest. e \<in> set es \<Longrightarrow> length (resp e) < m \<Longrightarrow> parse_one m (resp e @ rest) = Parsed e rest"
    and part: "\<And>e p q. e \<in> set es \<Longrightarrow> p @ q = resp e \<Longrightarrow> q \<noteq> [] \<Longrightarrow> length p < m \<Longrightarrow> parse_one m p = NeedMore"
    and p: "p @ q = concat (map resp es)" "q \<noteq> []" "length p < m"
  shows "parse_elements m (length es) p acc = NeedMore"
  using assms
proof (induction es arbitrary: p acc)
  case (Cons e es)
  from Cons.prems(3) have "p @ q = resp e @ concat (map resp es)" by simp
  from append_eq_append_conv2 [THEN iffD1, OF this] obtain u where
    "p = resp e @ u \<and> u @ q = concat (map resp es) \<or> p @ u = resp e \<and> q = u @ concat (map resp es)"
    by blast
  then consider (whole) u where "p = resp e @ u" "u @ q = concat (map resp es)"
    | (cut) u where "p @ u = resp e" "u \<noteq> []"
    by (metis append.right_neutral append_Nil)
  then show ?case
  proof cases
    case whole
    have "parse_elements m (length es) u (acc @ [e]) = NeedMore"
    proof (rule Cons.IH)
      show "parse_one m (resp e' @ rest) = Parsed e' rest"
        if "e' \<in> set es" "length (resp e') < m" for e' rest
        using Cons.prems(1) [of e'] that by simp
      show "parse_one m x = NeedMore"
        if "e' \<in> set es" "x @ y = resp e'" "y \<noteq> []" "length x < m" for e' x y
        using Cons.prems(2) [of e' x y] that by simp
      show "length u < m" using Cons.prems(5) whole by simp
    qed (use whole Cons.prems(4) in auto)
    with Cons.prems(1) [of e u] Cons.prems(5) whole show ?thesis by simp
  next
    case cut
    with Cons.prems(2) [of e p u] Cons.prems(5) show ?thesis by simp
  qed
qed simp

text \<open>What begins like \<open>l CRLF body\<close>: the line is open, or the body is cut.\<close>

lemma cut_line:
  assumes "p @ q = l @ CR # LF # body" "q \<noteq> []" "CR \<notin> set l"
  obtains "find_line p = None" | b where "p = l @ CR # LF # b" "b @ q = body"
proof -
  have "p @ q = (l @ [CR, LF]) @ body" using assms(1) by simp
  from append_eq_append_conv2 [THEN iffD1, OF this] obtain u where
    "p = (l @ [CR, LF]) @ u \<and> u @ q = body \<or> p @ u = l @ [CR, LF] \<and> q = u @ body"
    by blast
  then show thesis
  proof
    assume "p = (l @ [CR, LF]) @ u \<and> u @ q = body"
    then show thesis using that(2) [of u] by simp
  next
    assume u: "p @ u = l @ [CR, LF] \<and> q = u @ body"
    show thesis
    proof (cases "u = []")
      case True
      with u show thesis using that(2) [of "[]"] by simp
    next
      case False
      with u assms(3) have "find_line p = None" by (simp add: find_line_open [of p u l])
      then show thesis by (rule that(1))
    qed
  qed
qed

lemma parse_resp_open:
  "resp_ok r \<Longrightarrow> p @ q = resp r \<Longrightarrow> q \<noteq> [] \<Longrightarrow> length p < n \<Longrightarrow> parse_one n p = NeedMore"
proof (induction r arbitrary: n p q)
  case (Reply code msg t v s es)
  from Reply.prems(4) obtain m where n: "n = Suc m" by (cases n) auto
  show ?case
  proof (cases p)
    case Nil
    then show ?thesis using n by simp
  next
    case p: (Cons c p')
    show ?thesis
    proof (cases t)
      case ARRAY
      with Reply.prems p have c: "c = CHR ''*''"
        and p': "p' @ q = nat_to_string (length es) @ CR # LF # concat (map resp es)" by auto
      from p' Reply.prems(3) CR_notin_nat show ?thesis
      proof (cases rule: cut_line)
        case 1
        then show ?thesis using p c n by simp
      next
        case (2 b)
        have "parse_elements m (length es) b [] = NeedMore"
        proof (rule parse_elements_open [OF _ _ 2(2) Reply.prems(3)])
          show "parse_one m (resp e @ rest) = Parsed e rest"
            if "e \<in> set es" "length (resp e) < m" for e rest
            using that Reply.prems(1) ARRAY by (auto simp: list_all_iff intro!: parse_resp)
          show "parse_one m x = NeedMore"
            if "e \<in> set es" "x @ y = resp e" "y \<noteq> []" "length x < m" for e x y
            using Reply.IH that Reply.prems(1) ARRAY by (auto simp: list_all_iff)
          show "length b < m" using Reply.prems(4) 2 p n by simp
        qed
        with 2 p c n Reply.prems(1) ARRAY show ?thesis
          by (simp add: find_line_num parse_int_nat)
      qed
    next
      case INTEGER
      with Reply.prems p have c: "c = CHR '':''"
        and p': "p' @ q = int_to_string v @ CR # LF # []" by auto
      from p' Reply.prems(3) CR_notin_int show ?thesis
        by (cases rule: cut_line) (use p c n Reply.prems(3) in auto)
    next
      case STATUS
      with Reply.prems p have c: "c = CHR ''+'' \<or> c = CHR ''-''"
        and p': "p' @ q = s @ CR # LF # []" "CR \<notin> set s" by (auto split: if_splits)
      from p'(1) Reply.prems(3) p'(2) show ?thesis
        by (cases rule: cut_line) (use p c n Reply.prems(3) in auto)
    next
      case STRING
      with Reply.prems p have c: "c = CHR ''$''"
        and p': "p' @ q = nat_to_string (length s) @ CR # LF # (s @ [CR, LF])"
        and len: "int (length s) + 2 \<le> int64_max" by (auto simp: bulk_def)
      have w: "wrap64 (int (length s) + 2) = int (length s) + 2" using len by (intro wrap64_id) auto
      from p' Reply.prems(3) CR_notin_nat show ?thesis
      proof (cases rule: cut_line)
        case 1
        then show ?thesis using p c n by simp
      next
        case (2 b)
        then have "length b + length q = length s + 2" by (metis length_append length_Cons list.size(3) add_2_eq_Suc' add.right_neutral add_Suc_right)
        then have "length b < length s + 2" using Reply.prems(3) by (cases q) auto
        with 2 p c n w len show ?thesis by (simp add: find_line_num parse_int_nat)
      qed
    next
      case NIL
      with Reply.prems p have c: "c = CHR ''$''"
        and p': "p' @ q = ''-1'' @ CR # LF # []" by auto
      from p' Reply.prems(3) show ?thesis
        by (cases rule: cut_line) (use p c n Reply.prems(3) in auto)
    qed
  qed
qed

section \<open>Properties\<close>

definition bulk_reply :: "string \<Rightarrow> Reply" where
  "bulk_reply s = Reply 0 [] STRING 0 s []"

definition array_reply :: "Reply list \<Rightarrow> Reply" where
  "array_reply es = Reply 0 [] ARRAY 0 [] es"

lemma serialize_resp: "serialize args = resp (array_reply (map bulk_reply args))"
  by (simp add: serialize_def array_reply_def bulk_reply_def comp_def)

text \<open>
  A serialised command is read back by a RESP2 reader as exactly its arguments, whatever bytes
  they contain and whatever follows: no argument can inject a second command or change the number
  of arguments.
\<close>

theorem serialize_roundtrip:
  assumes "int (length args) \<le> int64_max" "list_all (\<lambda>a. int (length a) + 2 \<le> int64_max) args"
  shows "parse_reply (serialize args @ rest) = Parsed (array_reply (map bulk_reply args)) rest"
proof -
  have "resp_ok (array_reply (map bulk_reply args))"
    using assms by (simp add: array_reply_def bulk_reply_def list_all_iff)
  then show ?thesis
    unfolding parse_reply_def serialize_resp by (rule parse_resp) simp
qed

theorem serialize_roundtrip_witness:
  "parse_reply (serialize [''SET'', ''k'', [CR, LF, CHR ''*'']] @ ''+'') =
     Parsed (array_reply [bulk_reply ''SET'', bulk_reply ''k'', bulk_reply [CR, LF, CHR ''*'']]) ''+''"
  using serialize_roundtrip [of "[''SET'', ''k'', [CR, LF, CHR ''*'']]" "''+''"] by simp

definition sent_in_time :: "uco_time \<Rightarrow> int \<times> int \<Rightarrow> bool" where
  "sent_in_time ts ev \<longleftrightarrow> deadline_remain ts (fst ev) \<noteq> None \<and> 0 < snd ev"

definition data_in_time :: "uco_time \<Rightarrow> int \<times> recv_result \<Rightarrow> bool" where
  "data_in_time ts ev \<longleftrightarrow>
     deadline_remain ts (fst ev) \<noteq> None \<and>
     (case snd ev of RecvErr n \<Rightarrow> False | RecvData d \<Rightarrow> d \<noteq> [])"

fun received :: "(int \<times> recv_result) list \<Rightarrow> string" where
  "received [] = []"
| "received ((e, RecvData d) # evs) = d @ received evs"
| "received ((e, RecvErr n) # evs) = received evs"

lemma sent_in_time_sum: "list_all (sent_in_time ts) outs \<Longrightarrow> 0 \<le> sum_list (map snd outs)"
  by (induction outs) (auto simp: sent_in_time_def)

lemma send_all_done:
  "list_all (sent_in_time ts) sends \<Longrightarrow> int (length data) \<le> sum_list (map snd sends) \<Longrightarrow>
   send_all ts data sends = (Some 0, data)"
proof (induction ts data sends rule: send_all.induct)
  case (2 ts data e n outs)
  show ?case
  proof (cases "data = []")
    case False
    have "0 \<le> sum_list (map snd outs)" using sent_in_time_sum [of ts outs] "2.prems"(1) by simp
    with 2 False have "send_all ts (drop (nat n) data) outs = (Some 0, drop (nat n) data)"
      by (intro "2.IH"(2)) (auto simp: sent_in_time_def EAGAIN_def EINTR_def nat_le_iff int_ops(6))
    with 2 False show ?thesis by (simp add: sent_in_time_def)
  qed simp
qed simp

lemma read_loop_pieces:
  assumes "resp_ok r"
  shows "list_all (data_in_time ts) evs \<Longrightarrow> buf @ received evs = resp r \<Longrightarrow>
    read_loop ts buf evs = (Some 0, Some r, [])"
proof (induction ts buf evs rule: read_loop.induct)
  case (1 ts buf evs)
  show ?case
  proof (cases "received evs = []")
    case True
    then have "parse_reply buf = Parsed r []"
      using parse_resp [OF assms, of "Suc (length (resp r))" "[]"] "1.prems"(2)
      by (simp add: parse_reply_def)
    then show ?thesis by (simp add: read_loop.simps)
  next
    case False
    then have more: "parse_reply buf = NeedMore"
      using parse_resp_open [OF assms "1.prems"(2)] by (simp add: parse_reply_def)
    from False "1.prems"(1) obtain e d evs' where evs: "evs = (e, RecvData d) # evs'"
      by (cases evs rule: received.cases) (auto simp: data_in_time_def)
    with "1.IH" [OF more evs] "1.prems" more show ?thesis
      by (subst read_loop.simps) (simp add: data_in_time_def)
  qed
qed

text \<open>
  C25: A command on a healthy connection, all of whose system calls make progress in time, sends
  exactly its serialised form, however the kernel splits it, and returns exactly the server's
  reply, however its bytes are split into reads; the connection stays usable and holds no left-over
  bytes.
\<close>

theorem ucommand_reply:
  assumes "args \<noteq> []" "conn_fd c \<ge> 0" "\<not> broken c" "resp_ok r"
    and "list_all (sent_in_time ts) sends" "int (length (serialize args)) \<le> sum_list (map snd sends)"
    and "list_all (data_in_time ts) recvs" "received recvs = resp r"
  shows "ucommand strerror ts sends recvs args (Some c) =
    (Some r, Some (c\<lparr>rbuf := []\<rparr>), serialize args)"
  using assms read_loop_pieces [of r ts recvs "[]"] send_all_done [of ts sends "serialize args"]
  by (simp add: ucommand_def read_reply_def)

theorem ucommand_reply_witness:
  "ucommand (\<lambda>_. []) (10, 0) [(0, 5), (7, 9)] [(9, RecvData ''+O''), (11, RecvData (''K'' @ [CR])), (12, RecvData [LF])]
     [''PING''] (Some \<lparr>conn_fd = 3, broken = False, rbuf = []\<rparr>) =
   (Some (Reply 0 [] STATUS 0 ''OK'' []), Some \<lparr>conn_fd = 3, broken = False, rbuf = []\<rparr>, serialize [''PING''])"
proof -
  have "length (serialize [''PING'']) = 14" by code_simp
  then show ?thesis
    using ucommand_reply [of "[''PING'']" "\<lparr>conn_fd = 3, broken = False, rbuf = []\<rparr>"
        "Reply 0 [] STATUS 0 ''OK'' []" "(10, 0)" "[(0, 5), (7, 9)]"
        "[(9, RecvData ''+O''), (11, RecvData (''K'' @ [CR])), (12, RecvData [LF])]" "\<lambda>_. []"]
    by (simp add: sent_in_time_def data_in_time_def deadline_remain_def total_ns_def)
qed

lemma parsed_code:
  "parse_one n s = Parsed x r \<Longrightarrow> ret_code x = 0 \<or> ret_code x = kServerError"
  "parse_elements n k s acc = Parsed x r \<Longrightarrow> ret_code x = 0 \<or> ret_code x = kServerError"
  by (induction n s and n k s acc rule: parse_one_parse_elements.induct)
    (auto simp: empty_reply_def split: if_splits option.splits parse_result.splits)

definition errno_result :: "int \<Rightarrow> bool" where
  "errno_result n \<longleftrightarrow> - 133 \<le> n"

lemma send_all_result:
  "send_all ts data sends = (Some r, sent) \<Longrightarrow> list_all (\<lambda>(e, n). errno_result n) sends \<Longrightarrow>
   r \<noteq> 0 \<Longrightarrow> - 133 \<le> r \<and> r < 0"
  by (induction ts data sends arbitrary: sent rule: send_all.induct)
    (auto simp: errno_result_def ETIME_def ECONNRESET_def split: if_splits prod.splits)

definition recv_errno :: "recv_result \<Rightarrow> bool" where
  "recv_errno x \<longleftrightarrow> (case x of RecvErr n \<Rightarrow> - 133 \<le> n \<and> n < 0 | RecvData d \<Rightarrow> True)"

lemma read_loop_result:
  "read_loop ts buf evs = (Some r, out, buf') \<Longrightarrow> list_all (\<lambda>(e, x). recv_errno x) evs \<Longrightarrow>
   (r = 0 \<and> (\<exists>n x. out = Some x \<and> parse_reply (buf @ received (take n evs)) = Parsed x buf')) \<or>
   (- 133 \<le> r \<and> r < 0)"
proof (induction ts buf evs rule: read_loop.induct)
  case (1 ts buf evs)
  show ?case
  proof (cases "parse_reply buf")
    case (Parsed x rest)
    with "1.prems" show ?thesis
      by (auto simp: read_loop.simps intro!: exI [of _ 0])
  next
    case NeedMore
    with "1.prems"(1) obtain e x evs' where evs: "evs = (e, x) # evs'"
      by (cases evs) (auto simp: read_loop.simps)
    show ?thesis
    proof (cases "deadline_remain ts e = None \<or> x = RecvData []")
      case True
      with "1.prems" NeedMore evs show ?thesis
        by (auto simp: read_loop.simps ETIME_def ECONNRESET_def recv_errno_def split: recv_result.splits if_splits)
    next
      case False
      show ?thesis
      proof (cases x)
        case (RecvErr n)
        with "1.prems" NeedMore evs False show ?thesis
          by (auto simp: read_loop.simps recv_errno_def)
      next
        case (RecvData d)
        with "1.prems"(1) NeedMore evs False have "read_loop ts (buf @ d) evs' = (Some r, out, buf')"
          by (subst (asm) read_loop.simps) auto
        with "1.IH" [OF NeedMore evs] RecvData False "1.prems"(2) evs
        have "(r = 0 \<and> (\<exists>n x. out = Some x \<and> parse_reply ((buf @ d) @ received (take n evs')) = Parsed x buf')) \<or>
           (- 133 \<le> r \<and> r < 0)"
          by auto
        moreover have "received (take (Suc n) evs) = d @ received (take n evs')" for n
          using evs RecvData by simp
        ultimately show ?thesis by (metis append.assoc)
      qed
    qed
  qed (use "1.prems" parse_reply_total in \<open>auto simp: read_loop.simps EPROTO_def\<close>)
qed

definition refused :: Reply where
  "refused = Reply kBadArgument ''uredis: invalid connection or empty args'' NIL 0 [] []"

lemma ucommand_broken_refused:
  "broken c \<Longrightarrow> ucommand strerror ts sends recvs args (Some c) = (Some refused, Some c, [])"
  by (simp add: ucommand_def refused_def)

text \<open>
  A command that completes on a healthy connection either returns a reply parsed from the bytes
  the server sent, server errors included, and the connection stays in use; or it reports a
  retryable transport error, the connection is marked broken, and every later command on it is
  refused without sending a byte.
\<close>

theorem ucommand_broken:
  assumes "ucommand strerror ts sends recvs args (Some c) = (Some rep, Some c', sent)"
    and "args \<noteq> []" "conn_fd c \<ge> 0" "\<not> broken c"
    and "list_all (\<lambda>(e, n). errno_result n) sends" "list_all (\<lambda>(e, x). recv_errno x) recvs"
  shows "(broken c' \<longleftrightarrow> Retryable rep) \<and>
    (if broken c'
     then (\<forall>ts2 sends2 recvs2 args2.
             ucommand strerror ts2 sends2 recvs2 args2 (Some c') = (Some refused, Some c', []))
     else (\<exists>n. parse_reply (received (take n recvs)) = Parsed rep (rbuf c')))"
proof -
  obtain r where s: "send_all ts (serialize args) sends = (Some r, sent)"
    using assms(1-4) by (auto simp: ucommand_def split: option.splits prod.splits if_splits)
  have fill: "Retryable (fill_error strerror e empty_reply)" if "- 133 \<le> e" "e < 0" for e
    using that by (auto simp: fill_error_def Retryable_def error_codes)
  show ?thesis
  proof (cases "r = 0")
    case False
    with s assms have "rep = fill_error strerror r empty_reply" "broken c'"
      by (auto simp: ucommand_def)
    with fill send_all_result [OF s assms(5) False] ucommand_broken_refused show ?thesis by simp
  next
    case True
    obtain r' out buf' where l: "read_loop ts [] recvs = (Some r', out, buf')"
      using assms(1-4) s True
      by (auto simp: ucommand_def read_reply_def split: option.splits prod.splits if_splits)
    from read_loop_result [OF l assms(6)] show ?thesis
    proof
      assume "r' = 0 \<and> (\<exists>n x. out = Some x \<and> parse_reply ([] @ received (take n recvs)) = Parsed x buf')"
      then obtain n x where x: "r' = 0" "out = Some x" "parse_reply (received (take n recvs)) = Parsed x buf'"
        by auto
      with s True l assms(1-4) have "rep = x" "c' = c\<lparr>rbuf := buf'\<rparr>"
        by (auto simp: ucommand_def read_reply_def)
      moreover have "\<not> Retryable x"
        using parsed_code(1) [OF x(3) [unfolded parse_reply_def]]
        by (auto simp: Retryable_def error_codes)
      ultimately show ?thesis using x(3) assms(4) by auto
    next
      assume e: "- 133 \<le> r' \<and> r' < 0"
      with s True l assms(1-4) have "rep = fill_error strerror r' empty_reply" "broken c'"
        by (auto simp: ucommand_def read_reply_def)
      with fill e ucommand_broken_refused show ?thesis by simp
    qed
  qed
qed

theorem ucommand_broken_witness:
  "Retryable (Reply kTimeout ''uredis: operation timeout'' NIL 0 [] [])"
proof -
  let ?c = "\<lparr>conn_fd = 3, broken = False, rbuf = []\<rparr>"
  have r: "ucommand (\<lambda>_. []) (0, 5) [(9, 1)] [] [''PING''] (Some ?c) =
      (Some (Reply kTimeout ''uredis: operation timeout'' NIL 0 [] []), Some (?c\<lparr>broken := True\<rparr>), [])"
    by (simp add: ucommand_def serialize_def deadline_remain_def total_ns_def fill_error_def
        ETIME_def empty_reply_def)
  show ?thesis
    using ucommand_broken [OF r] by (simp add: errno_result_def)
qed

end
