(* ===== verification/Session_Store.thy ===== *)
theory Session_Store
  imports Http_Context Session_Json Redis_Client
begin

text \<open>
  Sessions (\<open>http/session.cpp\<close>, second part, and \<open>http/session.h\<close>): the store with its Redis
  commands and cookie signatures, the per-request session object, its loading, saving and
  rotation, and the middleware. The world \<open>'w\<close> is everything outside the program; the record
  \<open>session_env\<close> holds what the code calls there: taking and returning a pooled connection, one
  Redis command on it, OpenSSL's random bytes and HMAC, and \<open>std::random_device\<close>. A session acts
  on the request context it was made for, which its operations take and return.
\<close>

record 'w session_env =
  pool_acquire :: "'w \<Rightarrow> bool \<times> 'w"
  pool_release :: "'w \<Rightarrow> 'w"
  redis_command :: "string list \<Rightarrow> 'w \<Rightarrow> Reply \<times> 'w"
  rand_bytes :: "nat \<Rightarrow> 'w \<Rightarrow> string option \<times> 'w"
  random_device :: "nat \<Rightarrow> 'w \<Rightarrow> string \<times> 'w"
  hmac_sha256 :: "string \<Rightarrow> string \<Rightarrow> string"

section \<open>The store\<close>

record session_store =
  m_keyPrefix :: string
  m_secretKey :: string
  m_cookieName :: string
  m_flashKey :: string
  m_maxAge :: int
  m_maxAnonymousAge :: int
  m_cookiePath :: string
  m_cookieDomain :: string
  m_secure :: bool
  m_httpOnly :: bool
  m_autoSave :: bool
  m_sliding :: bool

text \<open>The constructor; the arguments read the configuration with a default.\<close>

definition mk_store ::
  "'w session_env \<Rightarrow> (string \<Rightarrow> string \<Rightarrow> string) \<Rightarrow> (string \<Rightarrow> int \<Rightarrow> int) \<Rightarrow> (string \<Rightarrow> bool \<Rightarrow> bool) \<Rightarrow>
   'w \<Rightarrow> session_store \<times> 'w" where
  "mk_store env get_string get_int get_bool w =
     (let prefix = get_string ''session.redis_key_prefix'' ''uco:sess:'';
          secret = get_string ''session.secret_key'' ''uco-session-secret'';
          age = get_int ''session.max_age_sec'' (86400 * 30);
          (secret', w') =
            (if secret \<noteq> [] then (secret, w)
             else (case rand_bytes env 32 w of
                     (Some buf, w') \<Rightarrow> (HexEncode buf, w')
                   | (None, w') \<Rightarrow> (''uco-session-fallback-secret'', w')))
      in (\<lparr>m_keyPrefix = (if prefix = [] then ''uco:sess:'' else prefix),
           m_secretKey = secret',
           m_cookieName = get_string ''session.cookie_name'' ''uco_session'',
           m_flashKey = get_string ''session.flash_key'' ''_flash'',
           m_maxAge = (if age \<le> 0 then 86400 * 30 else age),
           m_maxAnonymousAge = get_int ''session.anonymous_max_age_sec'' 600,
           m_cookiePath = get_string ''session.cookie_path'' ''/'',
           m_cookieDomain = get_string ''session.cookie_domain'' [],
           m_secure = get_bool ''session.cookie_secure'' False,
           m_httpOnly = get_bool ''session.cookie_http_only'' True,
           m_autoSave = get_bool ''session.auto_save'' True,
           m_sliding = get_bool ''session.sliding'' False\<rparr>, w'))"

datatype LoadResult = kOK string | kMissing | kError

text \<open>
  The frame of every store operation: acquire a connection, run one command, and release the
  connection when the guard goes out of scope. \<open>None\<close> is a failed acquire.
\<close>

definition with_conn :: "'w session_env \<Rightarrow> string list \<Rightarrow> 'w \<Rightarrow> Reply option \<times> 'w" where
  "with_conn env args w =
     (case pool_acquire env w of
        (False, w1) \<Rightarrow> (None, w1)
      | (True, w1) \<Rightarrow>
          (case redis_command env args w1 of (r, w2) \<Rightarrow> (Some r, pool_release env w2)))"

definition LoadValues :: "'w session_env \<Rightarrow> session_store \<Rightarrow> string \<Rightarrow> 'w \<Rightarrow> LoadResult \<times> 'w" where
  "LoadValues env st sid w =
     (case with_conn env (uget_args (m_keyPrefix st @ sid)) w of
        (None, w') \<Rightarrow> (kError, w')
      | (Some r, w') \<Rightarrow>
          (if ret_code r \<noteq> 0 then kError else if rtype r = NIL then kMissing else kOK (str r), w'))"

definition SaveValues ::
  "'w session_env \<Rightarrow> session_store \<Rightarrow> string \<Rightarrow> string \<Rightarrow> int \<Rightarrow> 'w \<Rightarrow> bool \<times> 'w" where
  "SaveValues env st sid json ttl w =
     (case with_conn env
             [''SET'', m_keyPrefix st @ sid, json, ''EX'',
              int_to_string (if ttl \<le> 0 then m_maxAge st else ttl)] w of
        (None, w') \<Rightarrow> (False, w')
      | (Some r, w') \<Rightarrow> (ret_code r = 0 \<and> rtype r = STATUS \<and> str r = ''OK'', w'))"

definition RemoveKey :: "'w session_env \<Rightarrow> session_store \<Rightarrow> string \<Rightarrow> 'w \<Rightarrow> bool \<times> 'w" where
  "RemoveKey env st sid w =
     (case with_conn env (udel_args [m_keyPrefix st @ sid]) w of
        (None, w') \<Rightarrow> (False, w')
      | (Some r, w') \<Rightarrow> (ret_code r = 0, w'))"

definition TouchTTL :: "'w session_env \<Rightarrow> session_store \<Rightarrow> string \<Rightarrow> int \<Rightarrow> 'w \<Rightarrow> bool \<times> 'w" where
  "TouchTTL env st sid ttl w =
     (case with_conn env
             (uexpire_args (m_keyPrefix st @ sid) (if ttl \<le> 0 then m_maxAge st else ttl)) w of
        (None, w') \<Rightarrow> (False, w')
      | (Some r, w') \<Rightarrow> (ret_code r = 0, w'))"

section \<open>Identifiers and signatures\<close>

definition NewSessionID :: "'w session_env \<Rightarrow> 'w \<Rightarrow> string \<times> 'w" where
  "NewSessionID env w =
     (case rand_bytes env 16 w of
        (Some buf, w') \<Rightarrow> (HexEncode buf, w')
      | (None, w') \<Rightarrow> (case random_device env 16 w' of (buf, w'') \<Rightarrow> (HexEncode buf, w'')))"

definition SignID :: "'w session_env \<Rightarrow> session_store \<Rightarrow> string \<Rightarrow> string" where
  "SignID env st sid = HexEncode (hmac_sha256 env (m_secretKey st) sid)"

text \<open>\<open>std::string::rfind\<close> of one character.\<close>

definition rfind_char :: "char \<Rightarrow> string \<Rightarrow> nat option" where
  "rfind_char c s = map_option (\<lambda>i. length s - Suc i) (find_char c (rev s))"

text \<open>The identifier of a correctly signed cookie, or \<open>None\<close> for \<open>false\<close>.\<close>

definition ParseSignedCookie :: "'w session_env \<Rightarrow> session_store \<Rightarrow> string \<Rightarrow> string option" where
  "ParseSignedCookie env st cookie =
     (case rfind_char (CHR ''.'') cookie of
        None \<Rightarrow> None
      | Some dot \<Rightarrow>
          (if dot = 0 \<or> dot + 1 \<ge> length cookie then None
           else
             (let sid = take dot cookie; got = drop (dot + 1) cookie in
              if \<not> list_all (\<lambda>c. CharToHex c \<ge> 0) sid then None
              else if length got \<noteq> length (SignID env st sid) then None
              else if got = SignID env st sid then Some sid else None)))"

section \<open>The session object\<close>

record session =
  m_sName :: string
  m_sID :: string
  m_mapValues :: string_map
  m_iMaxAgeOverride :: int
  m_bNew :: bool
  m_bWritten :: bool
  m_bLoadOK :: bool
  m_bDestroy :: bool

definition mk_session :: "string \<Rightarrow> session" where
  "mk_session name =
     \<lparr>m_sName = name, m_sID = [], m_mapValues = RBT.empty, m_iMaxAgeOverride = -1, m_bNew = True,
      m_bWritten = False, m_bLoadOK = False, m_bDestroy = False\<rparr>"

definition Session_Get :: "string \<Rightarrow> string \<Rightarrow> session \<Rightarrow> string" where
  "Session_Get key dflt s = (case RBT.lookup (m_mapValues s) key of None \<Rightarrow> dflt | Some v \<Rightarrow> v)"

text \<open>
  \<open>strtoll\<close> works on the text before the first NUL byte; it must be used up, and a value outside
  64 bits sets \<open>errno\<close>.
\<close>

definition GetInt64 :: "string \<Rightarrow> int \<Rightarrow> session \<Rightarrow> int" where
  "GetInt64 key dflt s =
     (case RBT.lookup (m_mapValues s) key of
        None \<Rightarrow> dflt
      | Some v \<Rightarrow>
          (if v = [] then dflt
           else
             (let t = takeWhile (\<lambda>c. c \<noteq> NUL) v;
                  b = dropWhile c_isspace t;
                  neg = b \<noteq> [] \<and> hd b = CHR ''-'';
                  u = (if b \<noteq> [] \<and> (hd b = CHR ''-'' \<or> hd b = CHR ''+'') then tl b else b);
                  ds = takeWhile is_digit u;
                  n = (if neg then - int (dec_val ds) else int (dec_val ds))
              in if ds = [] then (if t = [] then 0 else dflt)
                 else if n < int64_min \<or> int64_max < n then dflt
                 else if dropWhile is_digit u \<noteq> [] then dflt
                 else n)))"

definition GetBool :: "string \<Rightarrow> bool \<Rightarrow> session \<Rightarrow> bool" where
  "GetBool key dflt s =
     (case RBT.lookup (m_mapValues s) key of
        None \<Rightarrow> dflt
      | Some v \<Rightarrow>
          (if v = ''1'' \<or> v = ''true'' \<or> v = ''yes'' \<or> v = ''on'' then True
           else if v = ''0'' \<or> v = ''false'' \<or> v = ''no'' \<or> v = ''off'' \<or> v = [] then False
           else dflt))"

definition Session_Has :: "string \<Rightarrow> session \<Rightarrow> bool" where
  "Session_Has key s \<longleftrightarrow> RBT.lookup (m_mapValues s) key \<noteq> None"

definition Session_Set :: "string \<Rightarrow> string \<Rightarrow> session \<Rightarrow> session" where
  "Session_Set key val s =
     s\<lparr>m_mapValues := RBT.insert key val (m_mapValues s), m_bWritten := True\<rparr>"

definition SetInt64 :: "string \<Rightarrow> int \<Rightarrow> session \<Rightarrow> session" where
  "SetInt64 key val s = Session_Set key (int_to_string val) s"

definition SetBool :: "string \<Rightarrow> bool \<Rightarrow> session \<Rightarrow> session" where
  "SetBool key val s = Session_Set key (if val then ''1'' else ''0'') s"

definition Session_Delete :: "string \<Rightarrow> session \<Rightarrow> session" where
  "Session_Delete key s =
     (if RBT.lookup (m_mapValues s) key \<noteq> None
      then s\<lparr>m_mapValues := RBT.delete key (m_mapValues s), m_bWritten := True\<rparr> else s)"

definition Session_Clear :: "session \<Rightarrow> session" where
  "Session_Clear s =
     (if \<not> RBT.is_empty (m_mapValues s) then s\<lparr>m_mapValues := RBT.empty, m_bWritten := True\<rparr> else s)"

definition flash_key :: "session_store \<Rightarrow> string \<Rightarrow> string" where
  "flash_key st inkey = (if inkey = [] then m_flashKey st else inkey)"

definition AddFlash :: "session_store \<Rightarrow> string \<Rightarrow> string \<Rightarrow> session \<Rightarrow> session" where
  "AddFlash st val inkey s =
     (let key = flash_key st inkey;
          items = snd (ParseFlashArray (Session_Get key [] s))
      in Session_Set key (DumpFlashArray (items @ [val])) s)"

definition Flashes :: "session_store \<Rightarrow> string \<Rightarrow> session \<Rightarrow> string list \<times> session" where
  "Flashes st inkey s =
     (let key = flash_key st inkey in
      case ParseFlashArray (Session_Get key [] s) of
        (False, _) \<Rightarrow> ([], s)
      | (True, items) \<Rightarrow> (items, Session_Delete key s))"

definition SetMaxAge :: "int \<Rightarrow> session \<Rightarrow> session" where
  "SetMaxAge seconds s =
     (if seconds < 0 then s\<lparr>m_bDestroy := True, m_bWritten := True\<rparr>
      else s\<lparr>m_iMaxAgeOverride := seconds, m_bWritten := True\<rparr>)"

definition Destroy :: "session \<Rightarrow> session" where
  "Destroy s = s\<lparr>m_bDestroy := True, m_bWritten := True\<rparr>"

definition EffectiveMaxAge :: "session_store \<Rightarrow> session \<Rightarrow> int" where
  "EffectiveMaxAge st s = (if m_iMaxAgeOverride s \<ge> 0 then m_iMaxAgeOverride s else m_maxAge st)"

definition MaxAnonymousAge :: "session_store \<Rightarrow> int" where
  "MaxAnonymousAge st = m_maxAnonymousAge st"

section \<open>Loading and saving\<close>

definition InitLoad ::
  "'w session_env \<Rightarrow> session_store \<Rightarrow> http_context \<Rightarrow> session \<Rightarrow> 'w \<Rightarrow> session \<times> 'w" where
  "InitLoad env st c s w =
     (let cookie = GetCookie (m_sName s) c in
      if cookie = [] then (s, w)
      else
        (case ParseSignedCookie env st cookie of
           None \<Rightarrow> (s, w)
         | Some sid \<Rightarrow>
             (let s1 = s\<lparr>m_sID := sid\<rparr>;
                  (r, w1) = LoadValues env st sid w;
                  s2 = (case r of
                          kOK raw \<Rightarrow>
                            (case ParseSessionJson raw of
                               (True, kv) \<Rightarrow> s1\<lparr>m_mapValues := kv, m_bNew := False, m_bLoadOK := True\<rparr>
                             | (False, kv) \<Rightarrow> s1\<lparr>m_mapValues := kv\<rparr>)
                        | kMissing \<Rightarrow> s1
                        | kError \<Rightarrow> s1)
              in if m_sliding st \<and> \<not> m_bNew s2
                 then (s2, snd (TouchTTL env st sid (EffectiveMaxAge st s2) w1))
                 else (s2, w1))))"

definition WriteCookie ::
  "'w session_env \<Rightarrow> session_store \<Rightarrow> int \<Rightarrow> session \<Rightarrow> http_context \<Rightarrow> http_context" where
  "WriteCookie env st max_age s c =
     SetCookie (m_sName s) (m_sID s @ ''.'' @ SignID env st (m_sID s)) max_age (m_cookiePath st)
       (m_cookieDomain st) (m_secure st) (m_httpOnly st) (c\<lparr>m_eSameSite := eSameSiteLax\<rparr>)"

definition ExpireCookie :: "session_store \<Rightarrow> session \<Rightarrow> http_context \<Rightarrow> http_context" where
  "ExpireCookie st s c =
     SetCookie (m_sName s) [] (-1) (m_cookiePath st) (m_cookieDomain st) (m_secure st) (m_httpOnly st)
       (c\<lparr>m_eSameSite := eSameSiteLax\<rparr>)"

definition Save ::
  "'w session_env \<Rightarrow> session_store \<Rightarrow> session \<Rightarrow> http_context \<Rightarrow> 'w \<Rightarrow>
   bool \<times> session \<times> http_context \<times> 'w" where
  "Save env st s c w =
     (if \<not> m_bWritten s then (True, s, c, w)
      else if \<not> m_bNew s \<and> \<not> m_bLoadOK s then (False, s, c, w)
      else
        (let s = s\<lparr>m_bWritten := False\<rparr> in
         if m_bDestroy s \<or> RBT.is_empty (m_mapValues s) then
           (let (ok, w1) = (if m_sID s \<noteq> [] then RemoveKey env st (m_sID s) w else (True, w)) in
            if \<not> ok then (False, s, c, w1)
            else (True, s\<lparr>m_sID := [], m_bNew := True, m_bLoadOK := False, m_bDestroy := False\<rparr>,
                  ExpireCookie st s c, w1))
         else
           (let (sid, w1) = (if m_sID s = [] then NewSessionID env w else (m_sID s, w));
                s = s\<lparr>m_sID := sid\<rparr>;
                age = EffectiveMaxAge st s;
                (ok, w2) = SaveValues env st sid (DumpSessionJson (m_mapValues s)) age w1
            in if \<not> ok then (False, s, c, w2)
               else (True, s, WriteCookie env st age s c, w2))))"

definition Rotate ::
  "'w session_env \<Rightarrow> session_store \<Rightarrow> session \<Rightarrow> http_context \<Rightarrow> 'w \<Rightarrow>
   bool \<times> session \<times> http_context \<times> 'w" where
  "Rotate env st s c w =
     (let old_id = m_sID s; was_new = m_bNew s; was_written = m_bWritten s;
          old_max_age = m_iMaxAgeOverride s;
          (sid, w1) = NewSessionID env w;
          s1 = s\<lparr>m_sID := sid, m_bNew := True, m_bWritten := True, m_iMaxAgeOverride := -1\<rparr>;
          (ok, s2, c2, w2) = Save env st s1 c w1
      in if \<not> ok then
           (False, s2\<lparr>m_sID := old_id, m_bNew := was_new, m_bWritten := was_written,
                      m_iMaxAgeOverride := old_max_age\<rparr>, c2, w2)
         else if old_id \<noteq> [] then (True, s2, c2, snd (RemoveKey env st old_id w2))
         else (True, s2, c2, w2))"

section \<open>The middleware\<close>

definition kSessionKey :: string where "kSessionKey = ''uco:session''"

text \<open>
  \<open>FromContext\<close>: the pointer stored by the middleware; without one it sets 500 and throws. The
  context pointer is never null here.
\<close>

definition FromContext :: "http_context \<Rightarrow> (nat option \<times> http_context) outcome" where
  "FromContext c =
     (case Load kSessionKey c of
        Some p \<Rightarrow> Ret (Some p, c)
      | None \<Rightarrow> Throw ''session middleware missing'' (None, Status 500 c))"

text \<open>
  \<open>Sessions\<close>: \<open>ptr\<close> is the address of the new session and \<open>next\<close> is \<open>ctx->Next()\<close>, which runs
  the rest of the chain on session, context and world and returns the exception that leaves it, if
  any. The guard removes the pointer on every way out.
\<close>

definition Sessions ::
  "'w session_env \<Rightarrow> session_store \<Rightarrow> nat \<Rightarrow>
   (session \<times> http_context \<times> 'w \<Rightarrow> exn option \<times> session \<times> http_context \<times> 'w) \<Rightarrow>
   http_context \<Rightarrow> 'w \<Rightarrow> exn option \<times> session \<times> http_context \<times> 'w" where
  "Sessions env st ptr next c w =
     (let (s, w1) = InitLoad env st c (mk_session (m_cookieName st)) w;
          (e, s1, c1, w2) = next (s, Store kSessionKey ptr c, w1)
      in if e = None \<and> m_autoSave st \<and> m_bWritten s1 then
           (let (ok, s2, c2, w3) = Save env st s1 c1 w2 in
            (None, s2, StoreGuard_Release kSessionKey ptr c2, w3))
         else (e, s1, StoreGuard_Release kSessionKey ptr c1, w2))"

section \<open>What Redis, OpenSSL and the pool promise\<close>

text \<open>
  The documented behaviour the sessions rely on, for a view \<open>kv\<close> of the keys and values Redis
  holds: only commands change it; \<open>GET\<close> tells it, \<open>SET\<close> and \<open>DEL\<close> that report success have
  changed their key, and when they report a failure they may or may not have been carried out. The
  random source returns as many bytes as were asked for, and a MAC is not empty.
\<close>

definition set_law :: "Reply \<times> 'w \<Rightarrow> ('w \<Rightarrow> string \<Rightarrow> string option) \<Rightarrow> 'w \<Rightarrow> string \<Rightarrow> string \<Rightarrow> bool" where
  "set_law rw kv w k v \<longleftrightarrow>
     kv (snd rw) = (kv w)(k \<mapsto> v) \<or>
     kv (snd rw) = kv w \<and> \<not> (ret_code (fst rw) = 0 \<and> rtype (fst rw) = STATUS \<and> str (fst rw) = ''OK'')"

definition get_law :: "Reply \<times> 'w \<Rightarrow> ('w \<Rightarrow> string \<Rightarrow> string option) \<Rightarrow> 'w \<Rightarrow> string \<Rightarrow> bool" where
  "get_law rw kv w k \<longleftrightarrow>
     kv (snd rw) = kv w \<and>
     (ret_code (fst rw) \<noteq> 0 \<or>
      (case kv w k of None \<Rightarrow> rtype (fst rw) = NIL | Some v \<Rightarrow> rtype (fst rw) = STRING \<and> str (fst rw) = v))"

definition del_law :: "Reply \<times> 'w \<Rightarrow> ('w \<Rightarrow> string \<Rightarrow> string option) \<Rightarrow> 'w \<Rightarrow> string \<Rightarrow> bool" where
  "del_law rw kv w k \<longleftrightarrow>
     kv (snd rw) = (kv w)(k := None) \<or> kv (snd rw) = kv w \<and> ret_code (fst rw) \<noteq> 0"

definition redis_kv :: "'w session_env \<Rightarrow> ('w \<Rightarrow> string \<Rightarrow> string option) \<Rightarrow> bool" where
  "redis_kv env kv \<longleftrightarrow>
     (\<forall>w. kv (snd (pool_acquire env w)) = kv w \<and> kv (pool_release env w) = kv w) \<and>
     (\<forall>w n. kv (snd (rand_bytes env n w)) = kv w \<and> kv (snd (random_device env n w)) = kv w) \<and>
     (\<forall>w k v t. set_law (redis_command env [''SET'', k, v, ''EX'', t] w) kv w k v) \<and>
     (\<forall>w k. get_law (redis_command env [''GET'', k] w) kv w k) \<and>
     (\<forall>w k. del_law (redis_command env [''DEL'', k] w) kv w k) \<and>
     (\<forall>w k t. kv (snd (redis_command env [''EXPIRE'', k, t] w)) = kv w)"

definition random_law :: "'w session_env \<Rightarrow> bool" where
  "random_law env \<longleftrightarrow>
     (\<forall>w n. (case fst (rand_bytes env n w) of None \<Rightarrow> True | Some b \<Rightarrow> length b = n) \<and>
            length (fst (random_device env n w)) = n)"

definition hmac_law :: "'w session_env \<Rightarrow> bool" where
  "hmac_law env \<longleftrightarrow> (\<forall>k m. hmac_sha256 env k m \<noteq> [])"

section \<open>The store's operations over that view\<close>

lemma LoadValues_kv:
  assumes "redis_kv env kv" "LoadValues env st sid w = (r, w')"
  shows "kv w' = kv w \<and>
    (r = kError \<or> r = (case kv w (m_keyPrefix st @ sid) of None \<Rightarrow> kMissing | Some v \<Rightarrow> kOK v))"
proof -
  let ?k = "m_keyPrefix st @ sid"
  obtain b w1 where a: "pool_acquire env w = (b, w1)" by fastforce
  obtain rep w2 where c: "redis_command env [''GET'', ?k] w1 = (rep, w2)" by fastforce
  have k1: "kv w1 = kv w" "kv (pool_release env w2) = kv w2"
    using assms(1) a by (auto simp: redis_kv_def elim: allE [of _ w])
  have k2: "get_law (rep, w2) kv w1 ?k" using assms(1) c unfolding redis_kv_def by metis
  show ?thesis
    using assms(2) a c k1 k2
    by (cases b) (auto simp: LoadValues_def with_conn_def uget_args_def get_law_def split: option.splits if_splits)
qed

lemma SaveValues_kv:
  assumes "redis_kv env kv" "SaveValues env st sid json ttl w = (ok, w')"
  shows "kv w' = (kv w)(m_keyPrefix st @ sid \<mapsto> json) \<or> \<not> ok \<and> kv w' = kv w"
proof -
  let ?k = "m_keyPrefix st @ sid"
  obtain b w1 where a: "pool_acquire env w = (b, w1)" by fastforce
  obtain rep w2 where c: "redis_command env
      [''SET'', ?k, json, ''EX'', int_to_string (if ttl \<le> 0 then m_maxAge st else ttl)] w1 = (rep, w2)"
    by fastforce
  have k1: "kv w1 = kv w" "kv (pool_release env w2) = kv w2"
    using assms(1) a by (auto simp: redis_kv_def elim: allE [of _ w])
  have k2: "set_law (rep, w2) kv w1 ?k json"
    using assms(1) c unfolding redis_kv_def by metis
  show ?thesis
    using assms(2) a c k1 k2
    by (cases b) (auto simp: SaveValues_def with_conn_def set_law_def)
qed

lemma RemoveKey_kv:
  assumes "redis_kv env kv" "RemoveKey env st sid w = (ok, w')"
  shows "kv w' = (kv w)(m_keyPrefix st @ sid := None) \<or> \<not> ok \<and> kv w' = kv w"
proof -
  let ?k = "m_keyPrefix st @ sid"
  obtain b w1 where a: "pool_acquire env w = (b, w1)" by fastforce
  obtain rep w2 where c: "redis_command env [''DEL'', ?k] w1 = (rep, w2)" by fastforce
  have k1: "kv w1 = kv w" "kv (pool_release env w2) = kv w2"
    using assms(1) a by (auto simp: redis_kv_def elim: allE [of _ w])
  have k2: "del_law (rep, w2) kv w1 ?k" using assms(1) c unfolding redis_kv_def by metis
  show ?thesis
    using assms(2) a c k1 k2
    by (cases b) (auto simp: RemoveKey_def with_conn_def udel_args_def del_law_def)
qed

lemma TouchTTL_kv:
  assumes "redis_kv env kv"
  shows "kv (snd (TouchTTL env st sid ttl w)) = kv w"
proof -
  let ?a = "uexpire_args (m_keyPrefix st @ sid) (if ttl \<le> 0 then m_maxAge st else ttl)"
  obtain b w1 where a: "pool_acquire env w = (b, w1)" by fastforce
  obtain rep w2 where c: "redis_command env ?a w1 = (rep, w2)" by fastforce
  have k1: "kv w1 = kv w" "kv (pool_release env w2) = kv w2"
    using assms a by (auto simp: redis_kv_def elim: allE [of _ w])
  have k2: "kv w2 = kv w1"
    using assms c unfolding redis_kv_def uexpire_args_def by (metis snd_conv)
  show ?thesis
    using a c k1 k2 by (cases b) (auto simp: TouchTTL_def with_conn_def)
qed

lemma hex_pair_hex: "c \<in> set (hex_pair kHexLower x) \<Longrightarrow> CharToHex c \<ge> 0"
  using hex_pair_decode(2,3) [of kHexLower x] by (auto simp: hex_pair_def)

definition hex_id :: "string \<Rightarrow> bool" where
  "hex_id s \<longleftrightarrow> s \<noteq> [] \<and> list_all (\<lambda>c. CharToHex c \<ge> 0) s"

lemma HexEncode_hex: "list_all (\<lambda>c. CharToHex c \<ge> 0) (HexEncode s)"
  by (auto simp: HexEncode_def list_all_iff dest: hex_pair_hex)

lemma HexEncode_Nil: "HexEncode s = [] \<longleftrightarrow> s = []"
  by (cases s) (auto simp: HexEncode_def hex_pair_def)

lemma dot_not_hex: "\<not> CharToHex (CHR ''.'') \<ge> 0"
  by (simp add: CharToHex_def)

lemma SignID_dot: "CHR ''.'' \<notin> set (SignID env st sid)"
  using HexEncode_hex dot_not_hex by (auto simp: SignID_def list_all_iff)

lemma rfind_char_last: "c \<notin> set y \<Longrightarrow> rfind_char c (x @ c # y) = Some (length x)"
  using find_char_append [of c "rev y" "rev x"] by (simp add: rfind_char_def)

lemma rfind_char_split:
  assumes "rfind_char c s = Some i"
  shows "s = take i s @ c # drop (i + 1) s"
proof -
  obtain j where j: "find_char c (rev s) = Some j" "i = length s - Suc j"
    using assms by (auto simp: rfind_char_def)
  then have "j < length s" "rev s ! j = c" using find_char_SomeD [OF j(1)] by auto
  then have "i < length s" "s ! i = c" using j(2) by (auto simp: rev_nth)
  then show ?thesis using id_take_nth_drop [of i s] by simp
qed

lemma ParseSignedCookie_signed:
  assumes "hex_id sid" "hmac_law env"
  shows "ParseSignedCookie env st (sid @ ''.'' @ SignID env st sid) = Some sid"
proof -
  have "SignID env st sid \<noteq> []" using assms(2) by (simp add: SignID_def HexEncode_Nil hmac_law_def)
  then show ?thesis
    using assms(1) rfind_char_last [OF SignID_dot, of sid env st sid]
    by (simp add: ParseSignedCookie_def hex_id_def)
qed

lemma ParseSignedCookie_SomeD:
  assumes "ParseSignedCookie env st ck = Some sid"
  shows "ck = sid @ ''.'' @ SignID env st sid \<and> hex_id sid"
proof -
  obtain dot where d: "rfind_char (CHR ''.'') ck = Some dot" "dot \<noteq> 0" "dot + 1 < length ck"
    "sid = take dot ck" "list_all (\<lambda>c. CharToHex c \<ge> 0) sid" "drop (dot + 1) ck = SignID env st sid"
    using assms by (auto simp: ParseSignedCookie_def Let_def split: option.splits if_splits)
  with rfind_char_split [OF d(1)] show ?thesis by (auto simp: hex_id_def)
qed

lemma NewSessionID_hex:
  assumes "random_law env" "NewSessionID env w = (sid, w')"
  shows "hex_id sid \<and> length sid = 32"
proof -
  have len: "length (HexEncode b) = 2 * length b" for b
    by (induction b) (simp_all add: HexEncode_def hex_pair_def)
  obtain b where b: "sid = HexEncode b" "length b = 16"
  proof (cases "rand_bytes env 16 w")
    case (Pair x w1)
    have law: "case fst (rand_bytes env 16 w) of None \<Rightarrow> True | Some b \<Rightarrow> length b = 16"
      "length (fst (random_device env 16 w1)) = 16"
      using assms(1) by (auto simp: random_law_def)
    show thesis
    proof (cases x)
      case None
      with assms(2) Pair law(2) that show thesis
        by (cases "random_device env 16 w1") (auto simp: NewSessionID_def)
    next
      case (Some buf)
      with assms(2) Pair law(1) that show thesis by (auto simp: NewSessionID_def)
    qed
  qed
  then show ?thesis using HexEncode_hex [of b] len [of b] by (auto simp: hex_id_def)
qed

lemma NewSessionID_kv:
  assumes "redis_kv env kv" "NewSessionID env w = (sid, w')"
  shows "kv w' = kv w"
proof -
  have law: "kv (snd (rand_bytes env n w)) = kv w" "kv (snd (random_device env n w)) = kv w" for n w
    using assms(1) by (auto simp: redis_kv_def)
  show ?thesis using assms(2) law [of 16] unfolding NewSessionID_def
    by (auto split: prod.splits option.splits) (metis snd_conv)+
qed

section \<open>Loading what was saved\<close>

lemma Save_store:
  assumes "m_bWritten s" "\<not> m_bDestroy s" "\<not> RBT.is_empty (m_mapValues s)" "m_bNew s \<or> m_bLoadOK s"
    and "(sid, w1) = (if m_sID s = [] then NewSessionID env w else (m_sID s, w))"
    and "SaveValues env st sid (DumpSessionJson (m_mapValues s)) (EffectiveMaxAge st s) w1 = (ok, w2)"
  shows "Save env st s c w =
    (let s' = s\<lparr>m_bWritten := False, m_sID := sid\<rparr> in
     (ok, s', if ok then WriteCookie env st (EffectiveMaxAge st s) s' c else c, w2))"
  using assms by (auto simp: Save_def Let_def EffectiveMaxAge_def split: prod.splits if_splits)

lemma Save_guard:
  "Save env st s c w = (True, s', c', w') \<Longrightarrow> m_bWritten s \<Longrightarrow> m_bNew s \<or> m_bLoadOK s"
  by (auto simp: Save_def split: if_splits)

lemma InitLoad_signed:
  assumes "GetCookie (m_sName s) c = sid @ ''.'' @ SignID env st sid" "hex_id sid" "hmac_law env"
  shows "InitLoad env st c s w =
    (let s1 = s\<lparr>m_sID := sid\<rparr>;
         (r, w1) = LoadValues env st sid w;
         s2 = (case r of
                 kOK raw \<Rightarrow>
                   (case ParseSessionJson raw of
                      (True, kv) \<Rightarrow> s1\<lparr>m_mapValues := kv, m_bNew := False, m_bLoadOK := True\<rparr>
                    | (False, kv) \<Rightarrow> s1\<lparr>m_mapValues := kv\<rparr>)
               | kMissing \<Rightarrow> s1
               | kError \<Rightarrow> s1)
     in if m_sliding st \<and> \<not> m_bNew s2
        then (s2, snd (TouchTTL env st sid (EffectiveMaxAge st s2) w1)) else (s2, w1))"
  using ParseSignedCookie_signed [OF assms(2,3), of st] assms(1)
  by (simp add: InitLoad_def Let_def)

text \<open>
  C17: What a successful \<open>Save\<close> has stored is what the next request with the issued cookie
  loads: the same entries under the same identifier, as an existing session. The cookie that
  \<open>Save\<close> sets holds the identifier and its signature and lives as long as the Redis key.
\<close>

theorem session_save_reload:
  assumes "redis_kv env kv" "random_law env" "hmac_law env"
    and "Save env st s c w = (True, s', c', w')" "m_bWritten s" "\<not> m_bDestroy s"
    and "\<not> RBT.is_empty (m_mapValues s)" "m_sID s = [] \<or> hex_id (m_sID s)"
    and "kv w2 (m_keyPrefix st @ m_sID s') = kv w' (m_keyPrefix st @ m_sID s')"
    and "GetCookie (m_sName s) c2 = m_sID s' @ ''.'' @ SignID env st (m_sID s')"
    and "fst (LoadValues env st (m_sID s') w2) \<noteq> kError"
    and "InitLoad env st c2 (mk_session (m_sName s)) w2 = (t, w3)"
  shows "RBT.lookup (m_mapValues t) = RBT.lookup (m_mapValues s) \<and> m_sID t = m_sID s' \<and>
    \<not> m_bNew t \<and> m_bLoadOK t \<and> c' = WriteCookie env st (EffectiveMaxAge st s) s' c"
proof -
  let ?D = "DumpSessionJson (m_mapValues s)"
  obtain sid w1 where sid: "(sid, w1) = (if m_sID s = [] then NewSessionID env w else (m_sID s, w))"
    by (metis surj_pair)
  obtain ok w1' where sv: "SaveValues env st sid ?D (EffectiveMaxAge st s) w1 = (ok, w1')"
    by fastforce
  note save = Save_store [OF assms(5-7) Save_guard [OF assms(4,5)] sid sv, of c]
  with assms(4) have res: "ok" "s' = s\<lparr>m_bWritten := False, m_sID := sid\<rparr>" "w' = w1'"
    "c' = WriteCookie env st (EffectiveMaxAge st s) s' c"
    by (auto simp: Let_def)
  have hex: "hex_id (m_sID s')"
    using sid NewSessionID_hex [OF assms(2), of w sid w1] assms(8) res(2) by (auto split: if_splits)
  have "kv w' (m_keyPrefix st @ sid) = Some ?D"
    using SaveValues_kv [OF assms(1) sv] res by auto
  then have stored: "kv w2 (m_keyPrefix st @ m_sID s') = Some ?D" using assms(9) res(2) by simp
  obtain r wl where ld: "LoadValues env st (m_sID s') w2 = (r, wl)" by fastforce
  with LoadValues_kv [OF assms(1) ld] stored assms(11) have "r = kOK ?D" by auto
  moreover obtain m where m: "ParseSessionJson ?D = (True, m)" "RBT.lookup m = RBT.lookup (m_mapValues s)"
    using ParseSessionJson_dump [of "m_mapValues s"] by (metis prod.collapse)
  ultimately show ?thesis
    using InitLoad_signed [of "mk_session (m_sName s)" c2 "m_sID s'", OF _ hex assms(3), of st w2]
      assms(10,12) ld res(4)
    by (auto simp: mk_session_def Let_def split: if_splits)
qed

text \<open>
  C33: Only a cookie the server signed selects a session: a request is given the identifier in its
  cookie exactly when the cookie is a hexadecimal identifier followed by a dot and that
  identifier's signature. Any other cookie, or none, gives a fresh session, and Redis is not asked.
\<close>

theorem session_cookie_authentic:
  assumes "InitLoad env st c (mk_session name) w = (t, w')" "hmac_law env"
  shows "if \<exists>sid. hex_id sid \<and> GetCookie name c = sid @ ''.'' @ SignID env st sid
    then hex_id (m_sID t) \<and> GetCookie name c = m_sID t @ ''.'' @ SignID env st (m_sID t)
    else t = mk_session name \<and> w' = w"
proof (cases "GetCookie name c = [] \<or> ParseSignedCookie env st (GetCookie name c) = None")
  case True
  then have "t = mk_session name \<and> w' = w"
    using assms(1) by (elim disjE) (simp_all add: InitLoad_def mk_session_def Let_def split: if_splits)
  moreover have "\<nexists>sid. hex_id sid \<and> GetCookie name c = sid @ ''.'' @ SignID env st sid"
    using True ParseSignedCookie_signed [OF _ assms(2), of _ st] by auto
  ultimately show ?thesis by (intro iffD2 [OF if_not_P]) auto
next
  case False
  then obtain sid where p: "ParseSignedCookie env st (GetCookie name c) = Some sid" by auto
  from ParseSignedCookie_SomeD [OF p] have sid: "hex_id sid" "GetCookie name c = sid @ ''.'' @ SignID env st sid"
    by auto
  have "m_sID t = sid"
    using assms(1) False p
    by (auto simp: InitLoad_def mk_session_def Let_def split: prod.splits if_splits LoadResult.splits bool.splits)
  with sid show ?thesis by auto
qed

text \<open>
  C32: Rotation. The data goes to a new key and never to the old one. When it succeeds the new key
  holds the data, the new cookie is issued with the default lifetime, and the old key is deleted
  or, if the deletion failed, still holds what it held. When it fails, session, response and the
  old key are exactly as before. No other key changes.
\<close>

theorem Rotate_safe:
  assumes "redis_kv env kv" "NewSessionID env w = (sid, w0)" "sid \<noteq> []" "sid \<noteq> m_sID s" "m_sID s \<noteq> []"
    and "\<not> m_bDestroy s" "\<not> RBT.is_empty (m_mapValues s)"
    and "Rotate env st s c w = (ok, s', c', w')"
  shows "if ok
    then m_sID s' = sid \<and> m_mapValues s' = m_mapValues s \<and>
      kv w' (m_keyPrefix st @ sid) = Some (DumpSessionJson (m_mapValues s)) \<and>
      (kv w' (m_keyPrefix st @ m_sID s) = None \<or>
       kv w' (m_keyPrefix st @ m_sID s) = kv w (m_keyPrefix st @ m_sID s)) \<and>
      c' = WriteCookie env st (m_maxAge st) s' c \<and>
      kv w' = (kv w)(m_keyPrefix st @ sid := kv w' (m_keyPrefix st @ sid),
                     m_keyPrefix st @ m_sID s := kv w' (m_keyPrefix st @ m_sID s))
    else s' = s \<and> c' = c \<and> kv w' = (kv w)(m_keyPrefix st @ sid := kv w' (m_keyPrefix st @ sid))"
proof -
  let ?s1 = "s\<lparr>m_sID := sid, m_bNew := True, m_bWritten := True, m_iMaxAgeOverride := -1\<rparr>"
  obtain ok2 w2 where sv: "SaveValues env st sid (DumpSessionJson (m_mapValues ?s1)) (EffectiveMaxAge st ?s1) w0 = (ok2, w2)"
    by fastforce
  have save: "Save env st ?s1 c w0 = (let s' = ?s1\<lparr>m_bWritten := False, m_sID := sid\<rparr> in
     (ok2, s', if ok2 then WriteCookie env st (EffectiveMaxAge st ?s1) s' c else c, w2))"
    by (rule Save_store [where ?w1.0 = w0]) (use assms(3,6,7) sv in auto)
  have kv0: "kv w0 = kv w" by (rule NewSessionID_kv [OF assms(1,2)])
  note kv2 = SaveValues_kv [OF assms(1) sv]
  show ?thesis
  proof (cases ok2)
    case False
    with assms(2,8) save have "\<not> ok" "s' = s" "c' = c" "w' = w2"
      by (auto simp: Rotate_def Let_def)
    with kv2 kv0 show ?thesis by (auto simp: fun_eq_iff)
  next
    case True
    obtain okr w3 where rm: "RemoveKey env st (m_sID s) w2 = (okr, w3)" by fastforce
    have "ok" "s' = ?s1\<lparr>m_bWritten := False\<rparr>" "w' = w3" "c' = WriteCookie env st (m_maxAge st) s' c"
      using True assms(2,5,8) save rm by (auto simp: Rotate_def Let_def EffectiveMaxAge_def)
    with kv2 kv0 True RemoveKey_kv [OF assms(1) rm] assms(4) show ?thesis
      by (auto simp: fun_eq_iff)
  qed
qed

text \<open>
  A Redis failure while loading does not protect the stored session: the session is treated
  as new under its old identifier, and if the request then writes one value and Redis works again,
  the save goes through and replaces all of the stored data by that one value.
\<close>

theorem load_error_overwrites:
  assumes "redis_kv env kv" "hmac_law env" "hex_id sid"
    and "GetCookie name c = sid @ ''.'' @ SignID env st sid"
    and "fst (LoadValues env st sid w) = kError"
    and "InitLoad env st c (mk_session name) w = (s, w1)"
    and "Save env st (Session_Set k v s) c w1 = (True, s', c', w2)"
  shows "kv w1 (m_keyPrefix st @ sid) = kv w (m_keyPrefix st @ sid) \<and>
    kv w2 (m_keyPrefix st @ sid) = Some (DumpSessionJson (RBT.insert k v RBT.empty))"
proof -
  obtain wl where ld: "LoadValues env st sid w = (kError, wl)" using assms(5) by (metis prod.collapse)
  have s: "s = (mk_session name)\<lparr>m_sID := sid\<rparr>" "w1 = wl"
    using InitLoad_signed [of "mk_session name" c sid env st w] assms(2-4,6) ld
    by (auto simp: mk_session_def Let_def)
  have ne: "\<not> RBT.is_empty (RBT.insert k v (RBT.empty :: string_map))"
    by (metis RBT.is_empty_empty RBT.lookup_empty RBT.lookup_insert fun_upd_same option.distinct(1))
  obtain ok w2' where sv: "SaveValues env st sid (DumpSessionJson (m_mapValues (Session_Set k v s)))
      (EffectiveMaxAge st (Session_Set k v s)) w1 = (ok, w2')" by fastforce
  have "Save env st (Session_Set k v s) c w1 = (let s' = (Session_Set k v s)\<lparr>m_bWritten := False, m_sID := sid\<rparr> in
     (ok, s', if ok then WriteCookie env st (EffectiveMaxAge st (Session_Set k v s)) s' c else c, w2'))"
    by (rule Save_store [OF _ _ _ _ _ sv])
      (use assms(3) ne in \<open>auto simp: s(1) Session_Set_def mk_session_def hex_id_def\<close>)
  with assms(7) have "ok" "w2 = w2'" by (auto simp: Let_def)
  with SaveValues_kv [OF assms(1) sv] LoadValues_kv [OF assms(1) ld] s show ?thesis
    by (auto simp: Session_Set_def mk_session_def)
qed

section \<open>The states of a session\<close>

text \<open>The session objects a request can have: loaded by the middleware, then any operations.\<close>

inductive session_reachable :: "'w session_env \<Rightarrow> session_store \<Rightarrow> session \<Rightarrow> bool"
  for env st where
  load: "InitLoad env st c (mk_session name) w = (s, w') \<Longrightarrow> session_reachable env st s"
| set_value: "session_reachable env st s \<Longrightarrow> session_reachable env st (Session_Set k v s)"
| delete_value: "session_reachable env st s \<Longrightarrow> session_reachable env st (Session_Delete k s)"
| clear: "session_reachable env st s \<Longrightarrow> session_reachable env st (Session_Clear s)"
| add_flash: "session_reachable env st s \<Longrightarrow> session_reachable env st (AddFlash st v k s)"
| flashes: "session_reachable env st s \<Longrightarrow> session_reachable env st (snd (Flashes st k s))"
| max_age: "session_reachable env st s \<Longrightarrow> session_reachable env st (SetMaxAge n s)"
| destroy: "session_reachable env st s \<Longrightarrow> session_reachable env st (Destroy s)"
| save: "session_reachable env st s \<Longrightarrow> Save env st s c w = (ok, s', c', w') \<Longrightarrow>
    session_reachable env st s'"
| rotate: "session_reachable env st s \<Longrightarrow> Rotate env st s c w = (ok, s', c', w') \<Longrightarrow>
    session_reachable env st s'"

definition session_inv :: "session \<Rightarrow> bool" where
  "session_inv s \<longleftrightarrow>
     (m_bNew s \<or> m_bLoadOK s) \<and> (m_sID s = [] \<longrightarrow> m_bNew s) \<and>
     (m_sID s = [] \<or> hex_id (m_sID s)) \<and> - 1 \<le> m_iMaxAgeOverride s"

lemma InitLoad_inv:
  assumes "InitLoad env st c (mk_session name) w = (s, w')"
  shows "session_inv s"
proof (cases "GetCookie name c = [] \<or> ParseSignedCookie env st (GetCookie name c) = None")
  case True
  then have "s = mk_session name"
    using assms by (elim disjE) (simp_all add: InitLoad_def mk_session_def Let_def split: if_splits)
  then show ?thesis by (simp add: mk_session_def session_inv_def)
next
  case False
  then obtain sid where p: "ParseSignedCookie env st (GetCookie name c) = Some sid" by auto
  from ParseSignedCookie_SomeD [OF p] have "hex_id sid" by simp
  moreover then have "sid \<noteq> []" by (simp add: hex_id_def)
  ultimately show ?thesis
    using assms False p
    by (auto simp: InitLoad_def mk_session_def session_inv_def Let_def
        split: prod.splits if_splits LoadResult.splits bool.splits)
qed

lemma Save_inv:
  assumes "session_inv s" "random_law env" "Save env st s c w = (ok, s', c', w')"
  shows "session_inv s'"
proof (cases "m_bWritten s \<and> (m_bNew s \<or> m_bLoadOK s) \<and> \<not> (m_bDestroy s \<or> RBT.is_empty (m_mapValues s))")
  case True
  obtain sid w1 where sid: "(sid, w1) = (if m_sID s = [] then NewSessionID env w else (m_sID s, w))"
    by (metis surj_pair)
  obtain ok2 w2 where sv: "SaveValues env st sid (DumpSessionJson (m_mapValues s)) (EffectiveMaxAge st s) w1 = (ok2, w2)"
    by fastforce
  have "s' = s\<lparr>m_bWritten := False, m_sID := sid\<rparr>"
    using Save_store [OF _ _ _ _ sid sv, of c] True assms(3) by (auto simp: Let_def)
  moreover have "hex_id sid"
    using sid NewSessionID_hex [OF assms(2), of w sid w1] assms(1)
    by (auto simp: session_inv_def split: if_splits)
  ultimately show ?thesis using assms(1) by (auto simp: session_inv_def hex_id_def)
next
  case False
  show ?thesis
  proof (cases "m_bWritten s \<and> (m_bNew s \<or> m_bLoadOK s)")
    case True
    with False assms(1,3) show ?thesis
      by (auto simp: Save_def session_inv_def Let_def split: prod.splits if_splits)
  next
    case False
    with assms(1,3) show ?thesis by (auto simp: Save_def split: if_splits)
  qed
qed

lemma Save_fail_fields:
  "Save env st s c w = (False, s', c', w') \<Longrightarrow>
   m_bLoadOK s' = m_bLoadOK s \<and> m_bDestroy s' = m_bDestroy s \<and> m_mapValues s' = m_mapValues s"
  by (auto simp: Save_def Let_def split: prod.splits if_splits)

lemma Rotate_inv:
  assumes "session_inv s" "random_law env" "Rotate env st s c w = (ok, s', c', w')"
  shows "session_inv s'"
proof -
  obtain sid w1 where sid: "NewSessionID env w = (sid, w1)" by fastforce
  let ?s1 = "s\<lparr>m_sID := sid, m_bNew := True, m_bWritten := True, m_iMaxAgeOverride := -1\<rparr>"
  obtain ok2 s2 c2 w2 where sv: "Save env st ?s1 c w1 = (ok2, s2, c2, w2)" by (metis surj_pair)
  have "session_inv ?s1" using NewSessionID_hex [OF assms(2) sid] by (simp add: session_inv_def)
  from Save_inv [OF this assms(2) sv] have inv: "session_inv s2" .
  show ?thesis
  proof (cases ok2)
    case True
    with assms(3) sid sv inv show ?thesis by (auto simp: Rotate_def Let_def split: if_splits)
  next
    case False
    with Save_fail_fields sv have "m_bLoadOK s2 = m_bLoadOK s" by fastforce
    with assms(1,3) sid sv False show ?thesis
      by (auto simp: Rotate_def Let_def session_inv_def)
  qed
qed

lemma session_reachable_inv:
  assumes "session_reachable env st s" "random_law env"
  shows "session_inv s"
  using assms(1)
proof induction
  case (load c name w s w')
  then show ?case by (rule InitLoad_inv)
next
  case (save s c w ok s' c' w')
  show ?case by (rule Save_inv [OF save.IH assms(2) save.hyps(2)])
next
  case (rotate s c w ok s' c' w')
  show ?case by (rule Rotate_inv [OF rotate.IH assms(2) rotate.hyps(2)])
next
  case (flashes s k)
  then show ?case
    by (auto simp: Flashes_def Let_def session_inv_def Session_Delete_def split: prod.splits bool.splits)
qed (auto simp: session_inv_def Session_Set_def Session_Delete_def Session_Clear_def AddFlash_def
    Let_def SetMaxAge_def Destroy_def)

text \<open>
  In every state a session can reach, a save fails only because Redis failed: the check
  that is to refuse saves after a failed load never applies. Identifiers are always hexadecimal,
  and a session without one is new.
\<close>

theorem Save_fails_only_with_Redis:
  assumes "session_reachable env st s" "random_law env"
    and "(sid, w1) = (if m_sID s = [] then NewSessionID env w else (m_sID s, w))"
  shows "session_inv s \<and>
    (fst (Save env st s c w) \<longleftrightarrow>
      (if \<not> m_bWritten s then True
       else if m_bDestroy s \<or> RBT.is_empty (m_mapValues s)
       then m_sID s = [] \<or> fst (RemoveKey env st (m_sID s) w)
       else fst (SaveValues env st sid (DumpSessionJson (m_mapValues s)) (EffectiveMaxAge st s) w1)))"
proof -
  have inv: "session_inv s" by (rule session_reachable_inv [OF assms(1,2)])
  have guard: "m_bNew s \<or> m_bLoadOK s" using inv by (simp add: session_inv_def)
  obtain ok w2 where sv: "SaveValues env st sid (DumpSessionJson (m_mapValues s)) (EffectiveMaxAge st s) w1 = (ok, w2)"
    by fastforce
  obtain okr wr where rm: "RemoveKey env st (m_sID s) w = (okr, wr)" by fastforce
  show ?thesis
  proof (cases "m_bWritten s \<and> \<not> (m_bDestroy s \<or> RBT.is_empty (m_mapValues s))")
    case True
    with Save_store [OF _ _ _ guard assms(3) sv, of c] inv sv show ?thesis by (auto simp: Let_def)
  next
    case False
    then consider "\<not> m_bWritten s"
      | "m_bWritten s" "m_bDestroy s \<or> RBT.is_empty (m_mapValues s)" by blast
    then show ?thesis
    proof cases
      case 1
      with inv show ?thesis by (simp add: Save_def)
    next
      case 2
      with inv guard rm show ?thesis by (auto simp: Save_def Let_def)
    qed
  qed
qed

text \<open>
  Logging out. A successful save of a destroyed or emptied session has deleted its key,
  issues a cookie that expires at once, and leaves a session that is as new.
\<close>

theorem Save_logout:
  assumes "redis_kv env kv" "Save env st s c w = (True, s', c', w')" "m_bWritten s"
    and "m_bDestroy s \<or> RBT.is_empty (m_mapValues s)"
  shows "(if m_sID s = [] then w' = w else kv w' = (kv w)(m_keyPrefix st @ m_sID s := None)) \<and>
    c' = SetCookie (m_sName s) [] (-1) (m_cookiePath st) (m_cookieDomain st) (m_secure st)
           (m_httpOnly st) (c\<lparr>m_eSameSite := eSameSiteLax\<rparr>) \<and>
    m_sID s' = [] \<and> m_bNew s' \<and> \<not> m_bDestroy s' \<and> \<not> m_bWritten s'"
proof -
  obtain ok w1 where rm: "RemoveKey env st (m_sID s) w = (ok, w1)" by fastforce
  have "m_bNew s \<or> m_bLoadOK s" by (rule Save_guard [OF assms(2,3)])
  with assms(2-4) rm RemoveKey_kv [OF assms(1) rm] show ?thesis
    by (auto simp: Save_def Let_def ExpireCookie_def split: if_splits)
qed

lemma AddFlash_get:
  assumes "ParseFlashArray (Session_Get (flash_key st k) [] s) = (b, items)"
  shows "Session_Get (flash_key st k) [] (AddFlash st v k s) = DumpFlashArray (items @ [v]) \<and>
    RBT.lookup (m_mapValues (AddFlash st v k s)) =
      (RBT.lookup (m_mapValues s))(flash_key st k \<mapsto> DumpFlashArray (items @ [v]))"
  using assms by (simp add: AddFlash_def Session_Get_def Session_Set_def Let_def)

lemma AddFlash_all:
  assumes "RBT.lookup (m_mapValues s) (flash_key st k) = None" "vs \<noteq> []"
  shows "RBT.lookup (m_mapValues (fold (\<lambda>v. AddFlash st v k) vs s)) =
    (RBT.lookup (m_mapValues s))(flash_key st k \<mapsto> DumpFlashArray vs)"
  using assms(2)
proof (induction vs rule: rev_induct)
  case (snoc v vs)
  let ?s = "fold (\<lambda>v. AddFlash st v k) vs s"
  show ?case
  proof (cases "vs = []")
    case True
    have "ParseFlashArray (Session_Get (flash_key st k) [] s) = (False, [])"
      using assms(1) by (simp add: Session_Get_def ParseFlashArray_def)
    from AddFlash_get [OF this, of v] True show ?thesis by simp
  next
    case False
    then have l: "RBT.lookup (m_mapValues ?s) = (RBT.lookup (m_mapValues s))(flash_key st k \<mapsto> DumpFlashArray vs)"
      by (rule snoc.IH)
    then have "ParseFlashArray (Session_Get (flash_key st k) [] ?s) = (True, vs)"
      by (simp add: Session_Get_def ParseFlashArray_dump)
    from AddFlash_get [OF this, of v] l show ?thesis by (simp add: fun_eq_iff)
  qed
qed simp

text \<open>
  Flash messages are read once: after any number of messages have been added under a key
  that held nothing, \<open>Flashes\<close> returns exactly those, in order, restores the data that was there
  before, and a second call returns nothing.
\<close>

theorem flash_read_once:
  assumes "RBT.lookup (m_mapValues s) (flash_key st k) = None" "vs \<noteq> []"
    and "Flashes st k (fold (\<lambda>v. AddFlash st v k) vs s) = (got, s2)"
  shows "got = vs \<and> RBT.lookup (m_mapValues s2) = RBT.lookup (m_mapValues s) \<and> m_bWritten s2 \<and>
    Flashes st k s2 = ([], s2)"
proof -
  let ?s = "fold (\<lambda>v. AddFlash st v k) vs s"
  have l: "RBT.lookup (m_mapValues ?s) = (RBT.lookup (m_mapValues s))(flash_key st k \<mapsto> DumpFlashArray vs)"
    by (rule AddFlash_all [OF assms(1,2)])
  then have "ParseFlashArray (Session_Get (flash_key st k) [] ?s) = (True, vs)"
    by (simp add: Session_Get_def ParseFlashArray_dump)
  then have r: "got = vs" "s2 = ?s\<lparr>m_mapValues := RBT.delete (flash_key st k) (m_mapValues ?s), m_bWritten := True\<rparr>"
    using assms(3) l by (auto simp: Flashes_def Session_Delete_def Let_def)
  have "RBT.lookup (m_mapValues s2) = RBT.lookup (m_mapValues s)"
    using assms(1) l r by (auto simp: restrict_map_def fun_eq_iff)
  moreover then have "Session_Get (flash_key st k) [] s2 = []" using assms(1) by (simp add: Session_Get_def)
  ultimately show ?thesis using r
    by (simp add: Flashes_def Let_def ParseFlashArray_def)
qed

lemma FromContext_store: "FromContext (Store kSessionKey p c) = Ret (Some p, Store kSessionKey p c)"
  by (simp add: FromContext_def Load_def Store_def AList.update_conv')

lemma Load_release: "Load k (StoreGuard_Release k p c) \<noteq> Some p"
  by (auto simp: Load_def StoreGuard_Release_def AList.delete_conv')

text \<open>
  The middleware. The handlers after it find the session; when they leave by an exception,
  or leave the session unchanged, or when automatic saving is off, nothing is written; otherwise
  the session is saved. On every way out the pointer to the session is gone from the context.
\<close>

theorem Sessions_lifecycle:
  assumes "InitLoad env st c (mk_session (m_cookieName st)) w = (s, w1)"
    and "next (s, Store kSessionKey ptr c, w1) = (e, s1, c1, w2)"
    and "Sessions env st ptr next c w = (e', s', c', w')"
  shows "FromContext (Store kSessionKey ptr c) = Ret (Some ptr, Store kSessionKey ptr c) \<and>
    e' = e \<and> Load kSessionKey c' \<noteq> Some ptr \<and>
    (if e = None \<and> m_autoSave st \<and> m_bWritten s1
     then (\<exists>ok c2. Save env st s1 c1 w2 = (ok, s', c2, w') \<and> c' = StoreGuard_Release kSessionKey ptr c2)
     else s' = s1 \<and> w' = w2 \<and> c' = StoreGuard_Release kSessionKey ptr c1)"
  using assms Load_release [of kSessionKey ptr]
  by (auto simp: Sessions_def Let_def FromContext_store split: prod.splits if_splits)

section \<open>Sample runs\<close>

text \<open>
  A Redis that keeps its keys in a list and carries out a command, or loses it, as its second
  component says; a constant random source and a constant MAC.
\<close>

type_synonym sim_world = "(string \<times> string) list \<times> bool list"

definition sim_kv :: "sim_world \<Rightarrow> string \<Rightarrow> string option" where
  "sim_kv w = map_of (fst w)"

definition sim_command :: "string list \<Rightarrow> sim_world \<Rightarrow> Reply \<times> sim_world" where
  "sim_command args w =
     (if snd w \<noteq> [] \<and> \<not> hd (snd w) then (Reply kTimeout [] NIL 0 [] [], fst w, tl (snd w))
      else if length args = 5 \<and> args ! 0 = ''SET'' then
        (Reply 0 [] STATUS 0 ''OK'' [], AList.update (args ! 1) (args ! 2) (fst w), tl (snd w))
      else if length args = 2 \<and> args ! 0 = ''GET'' then
        (case map_of (fst w) (args ! 1) of
           None \<Rightarrow> empty_reply
         | Some v \<Rightarrow> Reply 0 [] STRING 0 v [], fst w, tl (snd w))
      else if length args = 2 \<and> args ! 0 = ''DEL'' then
        (Reply 0 [] INTEGER 1 [] [], AList.delete (args ! 1) (fst w), tl (snd w))
      else (Reply 0 [] INTEGER 1 [] [], fst w, tl (snd w)))"

definition sim_env :: "sim_world session_env" where
  "sim_env =
     \<lparr>pool_acquire = (\<lambda>w. (True, w)), pool_release = (\<lambda>w. w), redis_command = sim_command,
      rand_bytes = (\<lambda>n w. (Some (replicate n (CHR ''Z'')), w)),
      random_device = (\<lambda>n w. (replicate n (CHR ''Z''), w)), hmac_sha256 = (\<lambda>k m. ''Z'')\<rparr>"

definition sim_store :: session_store where
  "sim_store = fst (mk_store sim_env (\<lambda>k d. d) (\<lambda>k d. d) (\<lambda>k d. d) ([], []))"

definition sim_session :: session where
  "sim_session = (Session_Set ''k'' ''v'' (mk_session ''u''))\<lparr>m_sID := ''a''\<rparr>"

definition sim_context :: http_context where
  "sim_context = cookie_context ''u=a.5a''"

lemma sim_redis: "redis_kv sim_env sim_kv"
  by (simp add: redis_kv_def sim_env_def set_law_def get_law_def del_law_def sim_command_def sim_kv_def
      AList.update_conv' AList.delete_conv' kTimeout_def empty_reply_def split: option.split)

lemma sim_laws: "random_law sim_env" "hmac_law sim_env"
  by (simp_all add: random_law_def hmac_law_def sim_env_def)

lemma sim_fields [simp]:
  "m_keyPrefix sim_store = ''uco:sess:''" "m_cookieName sim_store = ''uco_session''"
  "m_autoSave sim_store" "\<not> m_sliding sim_store" "m_maxAge sim_store = 2592000"
  by (simp_all add: sim_store_def mk_store_def Let_def)

lemma sim_sign: "SignID sim_env sim_store sid = ''5a''"
  by (simp add: SignID_def sim_env_def) code_simp

lemma sim_cookie: "GetCookie ''u'' sim_context = ''a'' @ ''.'' @ SignID sim_env sim_store ''a''"
proof -
  have "GetHeader ''Cookie'' sim_context = ''u=a.5a''"
  proof -
    have "EqualsIgnoreCase ''cookie'' ''Cookie''" by code_simp
    then show ?thesis by (simp add: sim_context_def cookie_context_def mk_context_def GetHeader_def)
  qed
  moreover have "cookie_scan ''u'' (getlines (CHR '';'') ''u=a.5a'') None = Some ''a.5a''" by code_simp
  moreover have "UrlDecode ''a.5a'' False = ''a.5a''" by code_simp
  ultimately show ?thesis by (simp add: GetCookie_def sim_sign)
qed

lemma sim_session_fields:
  "m_bWritten sim_session" "\<not> m_bDestroy sim_session" "m_bNew sim_session" "m_sID sim_session = ''a''"
  "m_sName sim_session = ''u''" "hex_id ''a''" "m_mapValues sim_session = RBT.insert ''k'' ''v'' RBT.empty"
  by (simp_all add: sim_session_def Session_Set_def mk_session_def hex_id_def CharToHex_def)

lemma singleton_not_empty: "RBT.insert k v (RBT.empty :: string_map) \<noteq> RBT.empty"
  by (metis RBT.lookup_empty RBT.lookup_insert fun_upd_same option.distinct(1))

lemma sim_save_values:
  "SaveValues sim_env sim_store sid json ttl (kv, []) =
     (True, AList.update (''uco:sess:'' @ sid) json kv, [])"
  by (simp add: SaveValues_def with_conn_def sim_env_def sim_command_def)

lemma sim_load_values:
  "LoadValues sim_env sim_store sid (kv, []) =
     (case map_of kv (''uco:sess:'' @ sid) of None \<Rightarrow> kMissing | Some v \<Rightarrow> kOK v, kv, [])"
  "LoadValues sim_env sim_store sid (kv, [False]) = (kError, kv, [])"
  by (simp_all add: LoadValues_def with_conn_def sim_env_def sim_command_def uget_args_def
      empty_reply_def kTimeout_def split: option.split)

lemma sim_save:
  "Save sim_env sim_store sim_session sim_context (kv, []) =
     (True, sim_session\<lparr>m_bWritten := False, m_sID := ''a''\<rparr>,
      WriteCookie sim_env sim_store 2592000 (sim_session\<lparr>m_bWritten := False, m_sID := ''a''\<rparr>) sim_context,
      AList.update ''uco:sess:a'' (DumpSessionJson (RBT.insert ''k'' ''v'' RBT.empty)) kv, [])"
proof -
  have "EffectiveMaxAge sim_store sim_session = 2592000"
    by (simp add: EffectiveMaxAge_def sim_session_def Session_Set_def mk_session_def)
  then show ?thesis
    using Save_store [of sim_session "''a''" "(kv, [])" sim_env "(kv, [])" sim_store True
        "(AList.update ''uco:sess:a'' (DumpSessionJson (RBT.insert ''k'' ''v'' RBT.empty)) kv, [])" sim_context]
    by (simp add: sim_session_fields singleton_not_empty sim_save_values Let_def)
qed

theorem session_save_reload_witness:
  "\<exists>t w. InitLoad sim_env sim_store sim_context (mk_session ''u'')
       ([(''uco:sess:a'', DumpSessionJson (RBT.insert ''k'' ''v'' RBT.empty))], []) = (t, w) \<and>
     RBT.lookup (m_mapValues t) = RBT.lookup (RBT.insert ''k'' ''v'' RBT.empty) \<and> m_sID t = ''a''"
proof -
  let ?w = "([(''uco:sess:a'', DumpSessionJson (RBT.insert ''k'' ''v'' (RBT.empty :: string_map)))], []) :: sim_world"
  obtain t w3 where i: "InitLoad sim_env sim_store sim_context (mk_session ''u'') ?w = (t, w3)" by (metis prod.collapse)
  have s: "Save sim_env sim_store sim_session sim_context ([], []) = (True, sim_session\<lparr>m_bWritten := False, m_sID := ''a''\<rparr>,
      WriteCookie sim_env sim_store 2592000 (sim_session\<lparr>m_bWritten := False, m_sID := ''a''\<rparr>) sim_context, ?w)"
    using sim_save [of "[]"] by simp
  show ?thesis
    using session_save_reload [OF sim_redis sim_laws s, of ?w sim_context t w3] i sim_cookie
    by (simp add: sim_session_fields singleton_not_empty sim_load_values)
qed

theorem session_cookie_authentic_witness:
  "m_sID (fst (InitLoad sim_env sim_store sim_context (mk_session ''u'') ([], []))) = ''a''"
proof -
  obtain t w where i: "InitLoad sim_env sim_store sim_context (mk_session ''u'') ([], []) = (t, w)" by (metis prod.collapse)
  have "\<exists>sid. hex_id sid \<and> GetCookie ''u'' sim_context = sid @ ''.'' @ SignID sim_env sim_store sid"
    using sim_cookie sim_session_fields(6) by blast
  with session_cookie_authentic [OF i sim_laws(2)]
  have "GetCookie ''u'' sim_context = m_sID t @ ''.'' @ SignID sim_env sim_store (m_sID t)"
    by (simp only: if_True)
  then show ?thesis using i sim_cookie by (simp add: sim_sign)
qed

theorem Rotate_safe_witness:
  "\<exists>s' c' w'. Rotate sim_env sim_store sim_session sim_context ([(''uco:sess:a'', ''old'')], [False]) =
     (False, s', c', w') \<and> s' = sim_session \<and> sim_kv w' ''uco:sess:a'' = Some ''old''"
proof -
  let ?w = "([(''uco:sess:a'', ''old'')], [False]) :: sim_world"
  obtain ok s' c' w' where r: "Rotate sim_env sim_store sim_session sim_context ?w = (ok, s', c', w')"
    by (metis prod.collapse)
  have id: "NewSessionID sim_env ?w = (HexEncode (replicate 16 (CHR ''Z'')), ?w)"
    by (simp add: NewSessionID_def sim_env_def)
  have ne: "HexEncode (replicate 16 (CHR ''Z'')) \<noteq> []" "HexEncode (replicate 16 (CHR ''Z'')) \<noteq> ''a''"
    by code_simp+
  have "\<not> ok" using r id ne
    by (auto simp: Rotate_def Save_def Let_def sim_session_fields singleton_not_empty SaveValues_def
        with_conn_def sim_env_def sim_command_def kTimeout_def split: prod.splits if_splits)
  with Rotate_safe [OF sim_redis id ne(1) _ _ _ _ r] ne
  have same: "s' = sim_session" and
    eq: "sim_kv w' = (sim_kv ?w)(''uco:sess:'' @ HexEncode (replicate 16 (CHR ''Z'')) :=
      sim_kv w' (''uco:sess:'' @ HexEncode (replicate 16 (CHR ''Z''))))"
    by (simp_all add: sim_session_fields singleton_not_empty)
  have "sim_kv w' ''uco:sess:a'' = Some ''old''"
    by (subst eq) (use ne in \<open>simp add: sim_kv_def\<close>)
  with same r \<open>\<not> ok\<close> show ?thesis by simp
qed

theorem load_error_overwrites_witness:
  "\<exists>s' c' w'. Save sim_env sim_store
       (Session_Set ''k'' ''v'' (fst (InitLoad sim_env sim_store sim_context (mk_session ''u'')
          ([(''uco:sess:a'', ''old'')], [False])))) sim_context ([(''uco:sess:a'', ''old'')], []) =
     (True, s', c', w') \<and>
   sim_kv w' ''uco:sess:a'' = Some (DumpSessionJson (RBT.insert ''k'' ''v'' RBT.empty))"
proof -
  let ?w = "([(''uco:sess:a'', ''old'')], [False]) :: sim_world"
  have i: "InitLoad sim_env sim_store sim_context (mk_session ''u'') ?w =
      ((mk_session ''u'')\<lparr>m_sID := ''a''\<rparr>, [(''uco:sess:a'', ''old'')], [])"
    using InitLoad_signed [of "mk_session ''u''" sim_context "''a''" sim_env sim_store ?w]
      sim_cookie sim_session_fields(6) sim_laws(2)
    by (simp add: sim_load_values mk_session_def)
  have s: "Session_Set ''k'' ''v'' ((mk_session ''u'')\<lparr>m_sID := ''a''\<rparr>) = sim_session"
    by (simp add: sim_session_def Session_Set_def mk_session_def)
  obtain s' c' w' where sv: "Save sim_env sim_store sim_session sim_context ([(''uco:sess:a'', ''old'')], []) =
      (True, s', c', w')" using sim_save [of "[(''uco:sess:a'', ''old'')]"] by simp
  show ?thesis
    using load_error_overwrites [OF sim_redis sim_laws(2) sim_session_fields(6) sim_cookie _ i] s sv i
    by (simp add: sim_load_values)
qed

theorem Save_fails_only_with_Redis_witness:
  "session_inv (mk_session ''u'') \<and> fst (Save sim_env sim_store (mk_session ''u'') sim_context ([], []))"
proof -
  have "InitLoad sim_env sim_store (cookie_context []) (mk_session ''u'') ([], []) = (mk_session ''u'', [], [])"
    by (simp add: InitLoad_def GetCookie_def mk_session_def Let_def cookie_context_def mk_context_def GetHeader_def)
  then have "session_reachable sim_env sim_store (mk_session ''u'')" by (rule session_reachable.load)
  from Save_fails_only_with_Redis [OF this sim_laws(1), of _ _ "([], [])" sim_context] show ?thesis
    by (metis (no_types, opaque_lifting) mk_session_def prod.collapse session.select_convs(6))
qed

theorem Save_logout_witness:
  "sim_kv (snd (snd (snd (Save sim_env sim_store (Destroy sim_session) sim_context
     ([(''uco:sess:a'', ''old'')], []))))) = Map.empty"
proof -
  let ?w = "([(''uco:sess:a'', ''old'')], []) :: sim_world"
  obtain s' c' w' where sv: "Save sim_env sim_store (Destroy sim_session) sim_context ?w = (True, s', c', w')"
    by (simp add: Save_def Destroy_def Let_def sim_session_fields RemoveKey_def with_conn_def sim_env_def
        sim_command_def udel_args_def)
  from Save_logout [OF sim_redis sv] sv show ?thesis
    by (simp add: Destroy_def sim_session_fields sim_kv_def fun_eq_iff)
qed

theorem flash_read_once_witness:
  "fst (Flashes sim_store [] (fold (\<lambda>v. AddFlash sim_store v []) [''x'', ''y''] (mk_session ''u''))) = [''x'', ''y'']"
  using flash_read_once [of "mk_session ''u''" sim_store "[]" "[''x'', ''y'']"]
  by (metis RBT.lookup_empty list.distinct(1) mk_session_def prod.collapse session.select_convs(3))

theorem Sessions_lifecycle_witness:
  "Load kSessionKey (fst (snd (snd (Sessions sim_env sim_store 7 (\<lambda>(s, c, w). (None, s, c, w))
     sim_context ([], []))))) \<noteq> Some 7"
  using Sessions_lifecycle [of sim_env sim_store sim_context "([], [])" _ _
      "\<lambda>(s, c, w). (None, s, c, w)" 7 None]
  by (metis (no_types, lifting) prod.collapse case_prod_conv)

end
