(* ===== verification/Usync_Sema.thy ===== *)
theory Usync_Sema
  imports Uco_Prelude
begin

text \<open>
  The coroutine semaphore \<open>usema\<close> (\<open>core/usync.cpp\<close>). Its operations run concurrently on several
  threads, so the model is a machine in which any number of agents (coroutines) each have a
  program counter, and one step of one agent is one access to the shared state: the atomics
  \<open>count\<close> and \<open>nwait\<close>, or a section under the spin lock. What is only touched under the lock
  (the waiter list, \<open>killed\<close>) is accessed in the step that also releases it. A coroutine that
  suspends is \<open>Parked\<close> until another agent pushes it to its thread again. \<open>s_taken\<close> and
  \<open>s_posted\<close> only record history.
\<close>

section \<open>State and steps\<close>

definition MAX_SPIN :: nat where "MAX_SPIN = 32"

text \<open>
  Where an agent is. \<open>wait\<close>: spinning in round \<open>i\<close> (\<open>W_Load\<close>, \<open>W_Cas\<close> with the value it
  loaded), taking the lock, holding it, trying once more under it (\<open>W_Load2\<close>, \<open>W_Cas2\<close>),
  undoing \<open>++nwait\<close>, releasing, pushing itself, parked. \<open>signal\<close>: adding the permit, reading
  \<open>nwait\<close>, locking, popping, waking. \<open>kill_broadcast\<close>: locking, killing, waking all.
\<close>

datatype sema_pc =
    Idle
  | W_Load bool nat | W_Cas bool nat nat | W_Lock bool | W_Locked bool
  | W_Load2 bool | W_Cas2 bool nat | W_Undo | W_Release | W_Push bool | Parked bool
  | T_Load | T_Cas nat
  | S_Inc | S_Read | S_Lock | S_Locked | S_Wake nat
  | K_Lock | K_Locked | K_Wake "nat list"

record sema =
  s_count :: nat
  s_nwait :: nat
  s_waiters :: "nat list"
  s_lock :: "nat option"
  s_killed :: bool
  s_abort :: bool
  s_pcs :: "sema_pc list"
  s_taken :: nat
  s_posted :: nat

definition mk_sema :: "nat \<Rightarrow> nat \<Rightarrow> sema" where
  "mk_sema cnt agents =
     \<lparr>s_count = cnt, s_nwait = 0, s_waiters = [], s_lock = None, s_killed = False, s_abort = False,
      s_pcs = replicate agents Idle, s_taken = 0, s_posted = 0\<rparr>"

datatype sema_op = OpWait bool | OpTry | OpSignal | OpKill

fun start_op :: "sema_op \<Rightarrow> sema_pc" where
  "start_op (OpWait lifo) = W_Load lifo 0"
| "start_op OpTry = T_Load"
| "start_op OpSignal = S_Inc"
| "start_op OpKill = K_Lock"

definition goto_pc :: "nat \<Rightarrow> sema_pc \<Rightarrow> sema \<Rightarrow> sema" where
  "goto_pc i p s = s\<lparr>s_pcs := (s_pcs s)[i := p]\<rparr>"

definition resume :: "nat \<Rightarrow> sema \<Rightarrow> sema" where
  "resume w s =
     (case s_pcs s ! w of Parked lifo \<Rightarrow> goto_pc w (W_Load lifo 0) s | _ \<Rightarrow> s)"

text \<open>The next step of agent \<open>i\<close>; \<open>None\<close> when it cannot move by itself.\<close>

definition sema_step :: "nat \<Rightarrow> sema \<Rightarrow> sema option" where
  "sema_step i s =
     (case s_pcs s ! i of
        Idle \<Rightarrow> None
      | W_Load lifo k \<Rightarrow>
          Some (if s_count s \<noteq> 0 then goto_pc i (W_Cas lifo k (s_count s)) s
                else if Suc k < MAX_SPIN then goto_pc i (W_Load lifo (Suc k)) s
                else goto_pc i (W_Lock lifo) s)
      | W_Cas lifo k cur \<Rightarrow>
          Some (if s_count s = cur
                then goto_pc i Idle (s\<lparr>s_count := cur - 1, s_taken := Suc (s_taken s)\<rparr>)
                else goto_pc i (W_Load lifo k) s)
      | W_Lock lifo \<Rightarrow>
          (if s_lock s = None then Some (goto_pc i (W_Locked lifo) (s\<lparr>s_lock := Some i\<rparr>)) else None)
      | W_Locked lifo \<Rightarrow>
          Some (if s_killed s then goto_pc i Idle (s\<lparr>s_lock := None\<rparr>)
                else goto_pc i (W_Load2 lifo) (s\<lparr>s_nwait := Suc (s_nwait s)\<rparr>))
      | W_Load2 lifo \<Rightarrow>
          Some (if s_count s \<noteq> 0 then goto_pc i (W_Cas2 lifo (s_count s)) s
                else goto_pc i (W_Push lifo) s)
      | W_Cas2 lifo cur \<Rightarrow>
          Some (if s_count s = cur
                then goto_pc i W_Undo (s\<lparr>s_count := cur - 1, s_taken := Suc (s_taken s)\<rparr>)
                else goto_pc i (W_Load2 lifo) s)
      | W_Undo \<Rightarrow> Some (goto_pc i W_Release (s\<lparr>s_nwait := s_nwait s - 1\<rparr>))
      | W_Release \<Rightarrow> Some (goto_pc i Idle (s\<lparr>s_lock := None\<rparr>))
      | W_Push lifo \<Rightarrow>
          Some (goto_pc i (Parked lifo)
                 (s\<lparr>s_waiters := (if lifo then i # s_waiters s else s_waiters s @ [i]), s_lock := None\<rparr>))
      | Parked lifo \<Rightarrow> None
      | T_Load \<Rightarrow> Some (if s_count s = 0 then goto_pc i Idle s else goto_pc i (T_Cas (s_count s)) s)
      | T_Cas cur \<Rightarrow>
          Some (if s_count s = cur
                then goto_pc i Idle (s\<lparr>s_count := cur - 1, s_taken := Suc (s_taken s)\<rparr>)
                else goto_pc i T_Load s)
      | S_Inc \<Rightarrow> Some (goto_pc i S_Read (s\<lparr>s_count := Suc (s_count s), s_posted := Suc (s_posted s)\<rparr>))
      | S_Read \<Rightarrow> Some (goto_pc i (if s_nwait s = 0 then Idle else S_Lock) s)
      | S_Lock \<Rightarrow>
          (if s_lock s = None then Some (goto_pc i S_Locked (s\<lparr>s_lock := Some i\<rparr>)) else None)
      | S_Locked \<Rightarrow>
          Some (if s_nwait s = 0 \<or> s_waiters s = [] then goto_pc i Idle (s\<lparr>s_lock := None\<rparr>)
                else goto_pc i (S_Wake (hd (s_waiters s)))
                       (s\<lparr>s_waiters := tl (s_waiters s), s_nwait := s_nwait s - 1, s_lock := None\<rparr>))
      | S_Wake w \<Rightarrow> Some (goto_pc i Idle (resume w s))
      | K_Lock \<Rightarrow>
          (if s_lock s = None then Some (goto_pc i K_Locked (s\<lparr>s_lock := Some i\<rparr>)) else None)
      | K_Locked \<Rightarrow>
          Some (if s_killed s then goto_pc i Idle (s\<lparr>s_lock := None, s_abort := True\<rparr>)
                else goto_pc i (K_Wake (s_waiters s))
                       (s\<lparr>s_killed := True, s_nwait := 0, s_waiters := [], s_lock := None\<rparr>))
      | K_Wake [] \<Rightarrow> Some (goto_pc i Idle s)
      | K_Wake (w # ws) \<Rightarrow> Some (goto_pc i (K_Wake ws) (resume w s)))"

text \<open>
  The states the semaphore can reach from \<open>cnt\<close> permits: an idle agent calls an operation, or an
  agent makes a step. Nothing moves after the process was aborted by a second kill.
\<close>

inductive sema_reachable :: "nat \<Rightarrow> sema \<Rightarrow> bool" for cnt where
  start: "sema_reachable cnt (mk_sema cnt agents)"
| call: "sema_reachable cnt s \<Longrightarrow> i < length (s_pcs s) \<Longrightarrow> s_pcs s ! i = Idle \<Longrightarrow> \<not> s_abort s \<Longrightarrow>
    sema_reachable cnt (goto_pc i (start_op f) s)"
| step: "sema_reachable cnt s \<Longrightarrow> i < length (s_pcs s) \<Longrightarrow> \<not> s_abort s \<Longrightarrow> sema_step i s = Some t \<Longrightarrow>
    sema_reachable cnt t"

section \<open>The invariant\<close>

fun holds_lock :: "sema_pc \<Rightarrow> bool" where
  "holds_lock (W_Locked _) = True" | "holds_lock (W_Load2 _) = True" | "holds_lock (W_Cas2 _ _) = True"
| "holds_lock W_Undo = True" | "holds_lock W_Release = True" | "holds_lock (W_Push _) = True"
| "holds_lock S_Locked = True" | "holds_lock K_Locked = True" | "holds_lock _ = False"

text \<open>Agents that have counted themselves in \<open>nwait\<close> but are not in the list.\<close>

fun announced :: "sema_pc \<Rightarrow> nat" where
  "announced (W_Load2 _) = 1" | "announced (W_Cas2 _ _) = 1" | "announced W_Undo = 1"
| "announced (W_Push _) = 1" | "announced _ = 0"

fun pushing :: "sema_pc \<Rightarrow> nat" where
  "pushing (W_Push _) = 1" | "pushing _ = 0"

text \<open>Agents that will still try for a permit or wake another agent.\<close>

fun active :: "sema_pc \<Rightarrow> nat" where
  "active (W_Load _ _) = 1" | "active (W_Cas _ _ _) = 1" | "active (W_Lock _) = 1"
| "active (W_Locked _) = 1" | "active (W_Load2 _) = 1" | "active (W_Cas2 _ _) = 1"
| "active S_Read = 1" | "active S_Lock = 1" | "active S_Locked = 1" | "active (S_Wake _) = 1"
| "active (K_Wake ws) = length ws" | "active _ = 0"

fun is_parked :: "sema_pc \<Rightarrow> bool" where
  "is_parked (Parked _) = True" | "is_parked _ = False"

text \<open>How often an agent is about to be woken.\<close>

fun waking :: "nat \<Rightarrow> sema_pc \<Rightarrow> nat" where
  "waking p (S_Wake w) = of_bool (w = p)"
| "waking p (K_Wake ws) = count_list ws p"
| "waking p _ = 0"

definition lock_inv :: "sema \<Rightarrow> bool" where
  "lock_inv s \<longleftrightarrow>
     (\<forall>i < length (s_pcs s). holds_lock (s_pcs s ! i) \<longleftrightarrow> s_lock s = Some i) \<and>
     (\<forall>i. s_lock s = Some i \<longrightarrow> i < length (s_pcs s))"

definition parked_inv :: "sema \<Rightarrow> bool" where
  "parked_inv s \<longleftrightarrow>
     (\<forall>p. int (count_list (s_waiters s) p) + total (waking p) (s_pcs s) =
          (if p < length (s_pcs s) \<and> is_parked (s_pcs s ! p) then 1 else 0))"

definition nwait_inv :: "sema \<Rightarrow> bool" where
  "nwait_inv s \<longleftrightarrow>
     int (s_nwait s) = int (length (s_waiters s)) + total announced (s_pcs s) \<and>
     (s_killed s \<longrightarrow> s_waiters s = [] \<and> total announced (s_pcs s) = 0)"

definition permit_inv :: "nat \<Rightarrow> sema \<Rightarrow> bool" where
  "permit_inv cnt s \<longleftrightarrow> s_count s + s_taken s = cnt + s_posted s"

definition wake_inv :: "sema \<Rightarrow> bool" where
  "wake_inv s \<longleftrightarrow>
     int (s_count s) \<le> total active (s_pcs s) \<or> s_waiters s = [] \<and> total pushing (s_pcs s) = 0"

lemma goto_pc_fields [simp]:
  "s_pcs (goto_pc i p s) = (s_pcs s)[i := p]" "s_count (goto_pc i p s) = s_count s"
  "s_nwait (goto_pc i p s) = s_nwait s" "s_waiters (goto_pc i p s) = s_waiters s"
  "s_lock (goto_pc i p s) = s_lock s" "s_killed (goto_pc i p s) = s_killed s"
  "s_abort (goto_pc i p s) = s_abort s" "s_taken (goto_pc i p s) = s_taken s"
  "s_posted (goto_pc i p s) = s_posted s"
  by (simp_all add: goto_pc_def)

lemma resume_fields [simp]:
  "s_count (resume w s) = s_count s" "s_nwait (resume w s) = s_nwait s"
  "s_waiters (resume w s) = s_waiters s" "s_lock (resume w s) = s_lock s"
  "s_killed (resume w s) = s_killed s" "s_abort (resume w s) = s_abort s"
  "s_taken (resume w s) = s_taken s" "s_posted (resume w s) = s_posted s"
  "length (s_pcs (resume w s)) = length (s_pcs s)"
  by (simp_all add: resume_def split: sema_pc.split)

lemma resume_parked:
  assumes "w < length (s_pcs s)" "is_parked (s_pcs s ! w)"
  obtains lifo where "s_pcs s ! w = Parked lifo" "s_pcs (resume w s) = (s_pcs s)[w := W_Load lifo 0]"
  using assms by (cases "s_pcs s ! w") (auto simp: resume_def)

text \<open>Agents compare-and-swap only values other than zero.\<close>

fun cas_ok :: "sema_pc \<Rightarrow> bool" where
  "cas_ok (W_Cas _ _ c) \<longleftrightarrow> c \<noteq> 0" | "cas_ok (W_Cas2 _ c) \<longleftrightarrow> c \<noteq> 0"
| "cas_ok (T_Cas c) \<longleftrightarrow> c \<noteq> 0" | "cas_ok _ \<longleftrightarrow> True"

definition cas_inv :: "sema \<Rightarrow> bool" where
  "cas_inv s \<longleftrightarrow> (\<forall>i < length (s_pcs s). cas_ok (s_pcs s ! i))"

lemma resume_pc:
  "j < length (s_pcs s) \<Longrightarrow>
   s_pcs (resume w s) ! j = s_pcs s ! j \<or> (\<exists>lifo. s_pcs s ! j = Parked lifo \<and> s_pcs (resume w s) ! j = W_Load lifo 0)"
  by (cases "s_pcs s ! w"; cases "w = j") (auto simp: resume_def)

lemma cas_step:
  assumes "cas_inv s" "i < length (s_pcs s)" "sema_step i s = Some t"
  shows "cas_inv t"
proof -
  have r: "cas_ok (s_pcs (resume w s) ! j)" if "j < length (s_pcs s)" for w j
    using resume_pc [OF that, of w] assms(1) that by (auto simp: cas_inv_def)
  show ?thesis
    using assms r
    by (auto simp: cas_inv_def sema_step_def nth_list_update split: sema_pc.splits if_splits list.splits)
qed

lemma permit_step:
  assumes "permit_inv cnt s" "cas_inv s" "i < length (s_pcs s)" "sema_step i s = Some t"
  shows "permit_inv cnt t"
proof -
  have "cas_ok (s_pcs s ! i)" using assms(2,3) by (simp add: cas_inv_def)
  with assms(1,4) show ?thesis
    by (auto simp: permit_inv_def sema_step_def split: sema_pc.splits if_splits list.splits)
qed

lemma lock_step:
  assumes "lock_inv s" "i < length (s_pcs s)" "sema_step i s = Some t"
  shows "lock_inv t"
proof -
  have r: "holds_lock (s_pcs (resume w s) ! j) \<longleftrightarrow> s_lock s = Some j" if "j < length (s_pcs s)" for w j
    using resume_pc [OF that, of w] assms(1) that by (auto simp: lock_inv_def)
  have l: "holds_lock (s_pcs s ! j) \<longleftrightarrow> s_lock s = Some j" if "j < length (s_pcs s)" for j
    using assms(1) that by (simp add: lock_inv_def)
  have o: "s_lock s = Some j \<Longrightarrow> j < length (s_pcs s)" for j
    using assms(1) by (simp add: lock_inv_def)
  show ?thesis
    by (cases "s_pcs s ! i")
      (use assms(2,3) l [OF assms(2)] in
        \<open>auto simp: lock_inv_def sema_step_def nth_list_update l o r split: if_splits list.splits\<close>)
qed

lemma announced_holds: "\<not> holds_lock p \<Longrightarrow> announced p = 0"
  by (cases p) auto

lemma pushing_holds: "\<not> holds_lock p \<Longrightarrow> pushing p = 0"
  by (cases p) auto

text \<open>While agent \<open>i\<close> holds the lock, no other agent is in a locked section.\<close>

lemma alone:
  assumes "lock_inv s" "i < length (s_pcs s)" "holds_lock (s_pcs s ! i)" "f (s_pcs s ! i) = 0"
    and "\<And>p. \<not> holds_lock p \<Longrightarrow> f p = 0"
  shows "total f (s_pcs s) = 0"
proof -
  have "s_lock s = Some i" using assms(1-3) by (simp add: lock_inv_def)
  have "f (s_pcs s ! j) = 0" if "j < length (s_pcs s)" for j
  proof (cases "j = i")
    case False
    with that assms(1) \<open>s_lock s = Some i\<close> have "\<not> holds_lock (s_pcs s ! j)" by (simp add: lock_inv_def)
    then show ?thesis by (rule assms(5))
  qed (use assms(4) in simp)
  then show ?thesis by (simp add: total_0)
qed

lemma length_tl_int: "xs \<noteq> [] \<Longrightarrow> int (length xs - Suc 0) = int (length xs) - 1"
  by (cases xs) auto

lemma nwait_step:
  assumes "nwait_inv s" "lock_inv s" "i < length (s_pcs s)" "sema_step i s = Some t"
  shows "nwait_inv t"
proof -
  note ge = total_ge [OF assms(3), of announced]
  have r: "total announced (s_pcs (resume w s)) = total announced (s_pcs s)" for w
  proof (cases "w < length (s_pcs s)")
    case True
    then show ?thesis by (cases "s_pcs s ! w") (auto simp: resume_def total_update)
  next
    case False
    then show ?thesis by (cases "s_pcs s ! w") (auto simp: resume_def list_update_beyond)
  qed
  have r': "announced (s_pcs (resume w s) ! i) = announced (s_pcs s ! i)" for w
    using resume_pc [OF assms(3), of w] by auto
  have k: "total announced (s_pcs s) = 0" if "s_pcs s ! i = K_Locked"
    using alone [OF assms(2,3), of announced] that announced_holds by simp
  show ?thesis
    by (cases "s_pcs s ! i")
      (use assms(1,3,4) ge k r' in
        \<open>auto simp: nwait_inv_def sema_step_def total_update r length_tl_int split: if_splits list.splits\<close>)
qed
lemma waking_cases: "waking w p \<noteq> 0 \<Longrightarrow> \<exists>v. p = S_Wake v \<or> (\<exists>ws. p = K_Wake (v # ws))"
proof (cases p)
  case (K_Wake ws)
  then show "waking w p \<noteq> 0 \<Longrightarrow> ?thesis" by (cases ws) auto
qed auto

text \<open>The agent that is about to be woken is parked.\<close>

lemma waking_target:
  assumes "parked_inv s" "i < length (s_pcs s)" "waking w (s_pcs s ! i) \<noteq> 0"
  obtains lifo where "w < length (s_pcs s)" "w \<noteq> i" "s_pcs s ! w = Parked lifo"
    "s_pcs (resume w s) = (s_pcs s)[w := W_Load lifo 0]"
proof -
  have "0 < total (waking w) (s_pcs s)" using total_ge [OF assms(2), of "waking w"] assms(3) by simp
  then have p: "w < length (s_pcs s)" "is_parked (s_pcs s ! w)"
    using assms(1) by (auto simp: parked_inv_def split: if_splits)
  moreover have "w \<noteq> i" using p assms(3) by (cases "s_pcs s ! w") auto
  ultimately show thesis using that resume_parked [OF p] by metis
qed

lemma parked_step:
  assumes "parked_inv s" "i < length (s_pcs s)" "sema_step i s = Some t"
  shows "parked_inv t"
proof (cases "\<exists>w. waking w (s_pcs s ! i) \<noteq> 0")
  case True
  then obtain w where w: "s_pcs s ! i = S_Wake w \<or> (\<exists>ws. s_pcs s ! i = K_Wake (w # ws))"
    using waking_cases by blast
  then have "waking w (s_pcs s ! i) \<noteq> 0" by auto
  from waking_target [OF assms(1,2) this] obtain lifo where l: "w < length (s_pcs s)" "w \<noteq> i"
    "s_pcs s ! w = Parked lifo" "s_pcs (resume w s) = (s_pcs s)[w := W_Load lifo 0]" .
  have p: "total (waking p) (s_pcs s) =
      (if p < length (s_pcs s) \<and> is_parked (s_pcs s ! p) then 1 else 0) - int (count_list (s_waiters s) p)" for p
    using assms(1) [unfolded parked_inv_def, rule_format, of p] by linarith
  from w show ?thesis
  proof
    assume a: "s_pcs s ! i = S_Wake w"
    with assms(3) have "t = goto_pc i Idle (resume w s)" by (simp add: sema_step_def)
    with l p a assms(2) show ?thesis
      by (auto simp: parked_inv_def total_update nth_list_update of_bool_def)
  next
    assume "\<exists>ws. s_pcs s ! i = K_Wake (w # ws)"
    then obtain ws where a: "s_pcs s ! i = K_Wake (w # ws)" by blast
    with assms(3) have "t = goto_pc i (K_Wake ws) (resume w s)" by (simp add: sema_step_def)
    with l p a assms(2) show ?thesis
      by (auto simp: parked_inv_def total_update nth_list_update)
  qed
next
  case False
  have p: "total (waking p) (s_pcs s) =
      (if p < length (s_pcs s) \<and> is_parked (s_pcs s ! p) then 1 else 0) - int (count_list (s_waiters s) p)" for p
    using assms(1) [unfolded parked_inv_def, rule_format, of p] by linarith
  have hd: "int (count_list (tl xs) p) = int (count_list xs p) - of_bool (hd xs = p)" if "xs \<noteq> []"
    for xs and p :: nat using that by (cases xs) auto
  show ?thesis
    by (cases "s_pcs s ! i")
      (use False assms(2,3) p in \<open>auto simp: parked_inv_def sema_step_def total_update nth_list_update hd
         split: if_splits list.splits\<close>)
qed
lemma wake_step:
  assumes "wake_inv s" "nwait_inv s" "parked_inv s" "lock_inv s" "i < length (s_pcs s)"
    "sema_step i s = Some t" "cas_inv s"
  shows "wake_inv t"
proof (cases "\<exists>w. waking w (s_pcs s ! i) \<noteq> 0")
  case True
  then obtain w where w: "s_pcs s ! i = S_Wake w \<or> (\<exists>ws. s_pcs s ! i = K_Wake (w # ws))"
    using waking_cases by blast
  then have "waking w (s_pcs s ! i) \<noteq> 0" by auto
  from waking_target [OF assms(3,5) this] obtain lifo where l: "w < length (s_pcs s)" "w \<noteq> i"
    "s_pcs s ! w = Parked lifo" "s_pcs (resume w s) = (s_pcs s)[w := W_Load lifo 0]" .
  from w show ?thesis
  proof
    assume a: "s_pcs s ! i = S_Wake w"
    with assms(6) have "t = goto_pc i Idle (resume w s)" by (simp add: sema_step_def)
    with l assms(1,5) a show ?thesis by (auto simp: wake_inv_def total_update)
  next
    assume "\<exists>ws. s_pcs s ! i = K_Wake (w # ws)"
    then obtain ws where a: "s_pcs s ! i = K_Wake (w # ws)" by blast
    with assms(6) have "t = goto_pc i (K_Wake ws) (resume w s)" by (simp add: sema_step_def)
    with l assms(1,5) a show ?thesis by (auto simp: wake_inv_def total_update)
  qed
next
  case False
  have le: "total pushing (s_pcs s) \<le> total announced (s_pcs s)"
  proof -
    have "pushing p \<le> announced p" for p by (cases p) auto
    then have "total pushing xs \<le> total announced xs" for xs
      by (auto simp: total_def intro!: sum_list_mono)
    then show ?thesis .
  qed
  have none: "total pushing (s_pcs s) = 0" if "holds_lock (s_pcs s ! i)" "pushing (s_pcs s ! i) = 0"
    by (rule alone [where f = pushing, OF assms(4,5) that pushing_holds])
  have none': "total announced (s_pcs s) = 0" if "holds_lock (s_pcs s ! i)" "announced (s_pcs s ! i) = 0"
    by (rule alone [where f = announced, OF assms(4,5) that announced_holds])
  have ge: "int (pushing (s_pcs s ! i)) \<le> total pushing (s_pcs s)" by (rule total_ge [OF assms(5)])
  have z: "s_waiters s = []" if "s_nwait s = 0"
  proof -
    have "int (length (s_waiters s)) = 0"
      using assms(2) that total_nonneg [of announced "s_pcs s"] unfolding nwait_inv_def by linarith
    then show ?thesis by simp
  qed
  have ok: "cas_ok (s_pcs s ! i)" using assms(5,7) by (simp add: cas_inv_def)
  note facts = total_nonneg [of pushing "s_pcs s"] total_nonneg [of announced "s_pcs s"]
    total_ge [OF assms(5), of active] le ge none none' ok z
  show ?thesis
    by (cases "s_pcs s ! i")
      (use False facts assms(1,2,5,6) in
        \<open>auto simp: wake_inv_def nwait_inv_def sema_step_def total_update split: if_splits list.splits\<close>)
qed
definition sema_inv :: "nat \<Rightarrow> sema \<Rightarrow> bool" where
  "sema_inv cnt s \<longleftrightarrow>
     lock_inv s \<and> parked_inv s \<and> nwait_inv s \<and> cas_inv s \<and> permit_inv cnt s \<and> wake_inv s"

lemma sema_inv_start: "sema_inv cnt (mk_sema cnt agents)"
proof -
  have t: "total f (replicate agents Idle) = 0" if "f Idle = 0" for f
    using that by (rule total_replicate)
  show ?thesis
    by (simp add: sema_inv_def lock_inv_def parked_inv_def nwait_inv_def cas_inv_def permit_inv_def
        wake_inv_def mk_sema_def t)
qed

lemma sema_inv_call:
  assumes "sema_inv cnt s" "i < length (s_pcs s)" "s_pcs s ! i = Idle"
  shows "sema_inv cnt (goto_pc i (start_op f) s)"
  using assms
  by (cases f) (auto simp: sema_inv_def lock_inv_def parked_inv_def nwait_inv_def cas_inv_def permit_inv_def
      wake_inv_def total_update nth_list_update)

lemma sema_reachable_inv: "sema_reachable cnt s \<Longrightarrow> sema_inv cnt s"
proof (induction rule: sema_reachable.induct)
  case (start agents)
  show ?case by (rule sema_inv_start)
next
  case (call s i f)
  then show ?case by (blast intro: sema_inv_call)
next
  case (step s i t)
  then show ?case
    unfolding sema_inv_def
    by (metis cas_step lock_step nwait_step parked_step permit_step wake_step)
qed

lemma holder_moves: "holds_lock (s_pcs s ! i) \<Longrightarrow> \<exists>t. sema_step i s = Some t"
  by (cases "s_pcs s ! i") (auto simp: sema_step_def)

lemma free_lock_moves:
  "s_lock s = None \<Longrightarrow> s_pcs s ! i \<noteq> Idle \<Longrightarrow> \<not> is_parked (s_pcs s ! i) \<Longrightarrow> \<exists>t. sema_step i s = Some t"
  by (cases "s_pcs s ! i") (auto simp: sema_step_def split: list.splits)

section \<open>Properties\<close>

text \<open>
  C26: No permit and no wake-up is lost. In every state the semaphore can reach, permits held plus
  permits taken are the initial ones plus those posted; and when a coroutine is parked although a
  permit is there, or after the semaphore was killed, some other agent is on its way that will try
  for a permit or wake it. So when every agent is idle or parked and one is parked, there is no
  permit and the semaphore was not killed.
\<close>

theorem sema_no_lost_wakeup:
  assumes "sema_reachable cnt s" "p < length (s_pcs s)" "is_parked (s_pcs s ! p)"
  shows "s_count s + s_taken s = cnt + s_posted s \<and>
    (s_count s > 0 \<or> s_killed s \<longrightarrow> (\<exists>i < length (s_pcs s). active (s_pcs s ! i) > 0)) \<and>
    ((\<forall>i < length (s_pcs s). s_pcs s ! i = Idle \<or> is_parked (s_pcs s ! i)) \<longrightarrow>
       s_count s = 0 \<and> \<not> s_killed s)"
proof -
  have inv: "sema_inv cnt s" by (rule sema_reachable_inv [OF assms(1)])
  have act: "\<exists>i < length (s_pcs s). active (s_pcs s ! i) > 0" if c: "s_count s > 0 \<or> s_killed s"
  proof (cases "s_waiters s = []")
    case True
    then have "total (waking p) (s_pcs s) \<noteq> 0"
      using inv assms(2,3) by (simp add: sema_inv_def parked_inv_def)
    then obtain i where i: "i < length (s_pcs s)" "waking p (s_pcs s ! i) \<noteq> 0"
      by (auto simp: total_0)
    then have "active (s_pcs s ! i) > 0" using waking_cases [OF i(2)] by auto
    with i show ?thesis by blast
  next
    case False
    then have "\<not> s_killed s" using inv by (simp add: sema_inv_def nwait_inv_def)
    with c False inv have "0 < total active (s_pcs s)" by (auto simp: sema_inv_def wake_inv_def)
    then show ?thesis by (metis bot_nat_0.not_eq_extremum less_irrefl total_0)
  qed
  moreover have "active q = 0" if "q = Idle \<or> is_parked q" for q
    using that by (cases q) auto
  ultimately show ?thesis
    using inv by (fastforce simp: sema_inv_def permit_inv_def)
qed

text \<open>
  The semaphore cannot deadlock: unless the process was aborted by a second kill, as long as
  an agent is neither idle nor parked, some agent can make a step.
\<close>

theorem sema_progress:
  assumes "sema_reachable cnt s" "i < length (s_pcs s)" "s_pcs s ! i \<noteq> Idle" "\<not> is_parked (s_pcs s ! i)"
  shows "\<exists>j < length (s_pcs s). \<exists>t. sema_step j s = Some t"
proof (cases "s_lock s")
  case None
  from free_lock_moves [OF this assms(3,4)] assms(2) show ?thesis by blast
next
  case (Some j)
  with sema_reachable_inv [OF assms(1)] have "j < length (s_pcs s)" "holds_lock (s_pcs s ! j)"
    by (simp_all add: sema_inv_def lock_inv_def)
  with holder_moves show ?thesis by blast
qed

text \<open>
  The semaphore implements a counter: every step of an agent leaves the permits alone, adds
  one (the first step of \<open>signal\<close>), or takes one that is there (the compare-and-swap of
  \<open>wait\<close> and \<open>try_wait\<close>).
\<close>

theorem sema_refines_counter:
  assumes "sema_reachable cnt s" "i < length (s_pcs s)" "sema_step i s = Some t"
  shows "s_count t = s_count s \<and> s_taken t = s_taken s \<and> s_posted t = s_posted s \<or>
    s_count t = Suc (s_count s) \<and> s_taken t = s_taken s \<and> s_posted t = Suc (s_posted s) \<or>
    s_count s = Suc (s_count t) \<and> s_taken t = Suc (s_taken s) \<and> s_posted t = s_posted s"
proof -
  have "cas_ok (s_pcs s ! i)"
    using sema_reachable_inv [OF assms(1)] assms(2) by (simp add: sema_inv_def cas_inv_def)
  with assms(3) show ?thesis
    by (cases "s_pcs s ! i"; (simp add: sema_step_def split: if_split_asm list.split_asm)?; (elim disjE conjE)?; clarsimp)
qed

section \<open>Sample runs\<close>

text \<open>A schedule: which agent moves, and the operation it calls when it is idle.\<close>

fun sema_run :: "(nat \<times> sema_op option) list \<Rightarrow> sema \<Rightarrow> sema option" where
  "sema_run [] s = Some s"
| "sema_run ((i, Some f) # acts) s =
     (if i < length (s_pcs s) \<and> s_pcs s ! i = Idle \<and> \<not> s_abort s
      then sema_run acts (goto_pc i (start_op f) s) else None)"
| "sema_run ((i, None) # acts) s =
     (if i < length (s_pcs s) \<and> \<not> s_abort s
      then (case sema_step i s of None \<Rightarrow> None | Some t \<Rightarrow> sema_run acts t) else None)"

lemma sema_run_reachable:
  "sema_run acts s = Some t \<Longrightarrow> sema_reachable cnt s \<Longrightarrow> sema_reachable cnt t"
  by (induction acts s rule: sema_run.induct)
    (auto split: if_splits option.splits intro: sema_reachable.call sema_reachable.step)

definition parked_run :: "(nat \<times> sema_op option) list" where
  "parked_run = (0, Some (OpWait False)) # replicate 36 (0, None) @ [(1, Some OpSignal), (1, None)]"

definition parked_state :: sema where
  "parked_state = the (sema_run parked_run (mk_sema 0 2))"

lemma parked_state_run: "sema_run parked_run (mk_sema 0 2) = Some parked_state"
proof -
  have "sema_run parked_run (mk_sema 0 2) \<noteq> None" by code_simp
  then show ?thesis by (auto simp: parked_state_def)
qed

lemma parked_state_reachable: "sema_reachable 0 parked_state"
  by (rule sema_run_reachable [OF parked_state_run sema_reachable.start])

theorem sema_no_lost_wakeup_witness:
  "s_count parked_state = 1 \<and> (\<exists>i < length (s_pcs parked_state). active (s_pcs parked_state ! i) > 0)"
proof -
  have "s_count parked_state = 1" "0 < length (s_pcs parked_state)" "is_parked (s_pcs parked_state ! 0)"
    by code_simp+
  with sema_no_lost_wakeup [OF parked_state_reachable, of 0] show ?thesis by simp
qed

theorem sema_progress_witness:
  "\<exists>j < length (s_pcs parked_state). \<exists>t. sema_step j parked_state = Some t"
proof -
  have "1 < length (s_pcs parked_state)" "s_pcs parked_state ! 1 \<noteq> Idle"
    "\<not> is_parked (s_pcs parked_state ! 1)" by code_simp+
  from sema_progress [OF parked_state_reachable this] show ?thesis .
qed

theorem sema_refines_counter_witness:
  "\<exists>t. sema_step 1 parked_state = Some t \<and> s_posted t \<noteq> 0"
proof -
  have len: "1 < length (s_pcs parked_state)" and pc: "s_pcs parked_state ! 1 = S_Read"
    and c: "s_posted parked_state = 1"
    by code_simp+
  define t where "t = goto_pc 1 (if s_nwait parked_state = 0 then Idle else S_Lock) parked_state"
  then have t: "sema_step 1 parked_state = Some t" using pc by (simp add: sema_step_def)
  from sema_refines_counter [OF parked_state_reachable len t] c have "s_posted t \<noteq> 0" by linarith
  with t show ?thesis by blast
qed

end
