(* ===== verification/Usync_Mutex.thy ===== *)
theory Usync_Mutex
  imports Usync_Sema
begin

unbundle bit_operations_syntax

text \<open>
  The coroutine mutex \<open>umutex\<close> (\<open>core/usync.cpp\<close>): one atomic word with the bits locked, woken and
  starving and above them the number of waiters, and a semaphore on which waiters sleep. As in
  \<open>Usync_Sema\<close> every agent has a program counter, and a step is one access to the word or to the
  semaphore, with the local computation that follows it. The semaphore is its counter: taking a
  permit is a step that waits for one, \<open>signal\<close> adds one (\<open>sema_refines_counter\<close>). Whether more
  than a millisecond has passed when a waiter wakes is an argument of the step. \<open>SYSFTL\<close>, which
  ends the process, sets \<open>mu_fatal\<close>.
\<close>

definition mutexLocked :: int where "mutexLocked = 1"
definition mutexWoken :: int where "mutexWoken = 2"
definition mutexStarving :: int where "mutexStarving = 4"
definition mutexWaiterShift :: nat where "mutexWaiterShift = 3"

lemmas mutex_bits = mutexLocked_def mutexWoken_def mutexStarving_def mutexWaiterShift_def

text \<open>The local variables of \<open>lock\<close>; \<open>lv_queued\<close> says that \<open>waitStartTime\<close> is set.\<close>

record lock_vars =
  lv_old :: int
  lv_starving :: bool
  lv_awoke :: bool
  lv_queued :: bool
  lv_iter :: nat

text \<open>
  \<open>lock\<close>: the first compare-and-swap, the first load, the top of the loop, the load after
  spinning, the load after a failed swap, waiting, having a permit, and the final \<open>iState += delta\<close>.
  \<open>M_Owner\<close> holds the mutex. \<open>unlock\<close>: the subtraction, the loop, its reload, the signal.
\<close>

datatype mutex_pc =
    M_Idle | M_Fast | M_Start | M_Loop lock_vars | M_SpinLoad lock_vars | M_Reload lock_vars
  | M_Wait lock_vars | M_Got lock_vars | M_AddDelta bool | M_Owner | M_Try
  | U_Sub | U_Loop int | U_Load | U_Signal

record mutex =
  m_iState :: int
  m_sema :: nat
  m_pcs :: "mutex_pc list"
  mu_fatal :: bool

definition mk_mutex :: "nat \<Rightarrow> mutex" where
  "mk_mutex agents = \<lparr>m_iState = 0, m_sema = 0, m_pcs = replicate agents M_Idle, mu_fatal = False\<rparr>"

datatype mutex_op = Lock | TryLock | Unlock

text \<open>An idle agent may lock, the owner may unlock.\<close>

fun mutex_start :: "mutex_op \<Rightarrow> mutex_pc \<Rightarrow> mutex_pc option" where
  "mutex_start Lock M_Idle = Some M_Fast"
| "mutex_start TryLock M_Idle = Some M_Try"
| "mutex_start Unlock M_Owner = Some U_Sub"
| "mutex_start _ _ = None"

definition can_spin :: "lock_vars \<Rightarrow> bool" where
  "can_spin v \<longleftrightarrow>
     lv_old v AND (mutexLocked OR mutexStarving) = mutexLocked \<and> lv_iter v < MAX_SPIN"

definition sets_woken :: "lock_vars \<Rightarrow> bool" where
  "sets_woken v \<longleftrightarrow>
     \<not> lv_awoke v \<and> lv_old v AND mutexWoken = 0 \<and> drop_bit mutexWaiterShift (lv_old v) \<noteq> 0"

text \<open>\<open>newstate\<close> before and after the woken bit is cleared.\<close>

definition new_state :: "lock_vars \<Rightarrow> int" where
  "new_state v =
     (let old = lv_old v;
          n1 = (if old AND mutexStarving = 0 then old OR mutexLocked else old);
          n2 = (if old AND (mutexLocked OR mutexStarving) \<noteq> 0 then n1 + push_bit mutexWaiterShift 1 else n1)
      in if lv_starving v \<and> old AND mutexLocked \<noteq> 0 then n2 OR mutexStarving else n2)"

definition set_pc :: "nat \<Rightarrow> mutex_pc \<Rightarrow> mutex \<Rightarrow> mutex" where
  "set_pc i p s = s\<lparr>m_pcs := (m_pcs s)[i := p]\<rparr>"

definition fatal :: "mutex \<Rightarrow> mutex" where
  "fatal s = s\<lparr>mu_fatal := True\<rparr>"

text \<open>One round of the loop of \<open>lock\<close>.\<close>

definition loop_step :: "nat \<Rightarrow> lock_vars \<Rightarrow> mutex \<Rightarrow> mutex" where
  "loop_step i v s =
     (if can_spin v then
        (if sets_woken v then
           (if m_iState s = lv_old v
            then set_pc i (M_SpinLoad (v\<lparr>lv_awoke := True\<rparr>)) (s\<lparr>m_iState := lv_old v OR mutexWoken\<rparr>)
            else set_pc i (M_SpinLoad v) s)
         else set_pc i (M_Loop (v\<lparr>lv_old := m_iState s, lv_iter := Suc (lv_iter v)\<rparr>)) s)
      else
        (let n = new_state v in
         if lv_awoke v \<and> n AND mutexWoken = 0 then fatal s
         else
           (let n' = (if lv_awoke v then n AND NOT mutexWoken else n) in
            if m_iState s = lv_old v then
              (if lv_old v AND (mutexLocked OR mutexStarving) = 0
               then set_pc i M_Owner (s\<lparr>m_iState := n'\<rparr>)
               else set_pc i (M_Wait (v\<lparr>lv_queued := True\<rparr>)) (s\<lparr>m_iState := n'\<rparr>))
            else set_pc i (M_Reload v) s)))"

text \<open>After a wait: \<open>late\<close> says that the waiter has waited for more than a millisecond.\<close>

definition got_step :: "nat \<Rightarrow> bool \<Rightarrow> lock_vars \<Rightarrow> mutex \<Rightarrow> mutex" where
  "got_step i late v s =
     (let starving = lv_starving v \<or> late; old = m_iState s in
      if old AND mutexStarving \<noteq> 0 then
        (if old AND (mutexLocked OR mutexWoken) \<noteq> 0 \<or> drop_bit mutexWaiterShift old = 0 then fatal s
         else set_pc i (M_AddDelta (\<not> starving \<or> drop_bit mutexWaiterShift old = 1)) s)
      else
        set_pc i (M_Loop (v\<lparr>lv_old := old, lv_starving := starving, lv_awoke := True, lv_iter := 0\<rparr>)) s)"

definition mutex_step :: "nat \<Rightarrow> bool \<Rightarrow> mutex \<Rightarrow> mutex option" where
  "mutex_step i late s =
     (case m_pcs s ! i of
        M_Idle \<Rightarrow> None
      | M_Owner \<Rightarrow> None
      | M_Fast \<Rightarrow>
          Some (if m_iState s = 0 then set_pc i M_Owner (s\<lparr>m_iState := 1\<rparr>) else set_pc i M_Start s)
      | M_Try \<Rightarrow>
          Some (if m_iState s = 0 then set_pc i M_Owner (s\<lparr>m_iState := 1\<rparr>) else set_pc i M_Idle s)
      | M_Start \<Rightarrow>
          Some (set_pc i (M_Loop \<lparr>lv_old = m_iState s, lv_starving = False, lv_awoke = False,
                                  lv_queued = False, lv_iter = 0\<rparr>) s)
      | M_Loop v \<Rightarrow> Some (loop_step i v s)
      | M_SpinLoad v \<Rightarrow>
          Some (set_pc i (M_Loop (v\<lparr>lv_old := m_iState s, lv_iter := Suc (lv_iter v)\<rparr>)) s)
      | M_Reload v \<Rightarrow> Some (set_pc i (M_Loop (v\<lparr>lv_old := m_iState s\<rparr>)) s)
      | M_Wait v \<Rightarrow>
          (if m_sema s = 0 then None else Some (set_pc i (M_Got v) (s\<lparr>m_sema := m_sema s - 1\<rparr>)))
      | M_Got v \<Rightarrow> Some (got_step i late v s)
      | M_AddDelta b \<Rightarrow>
          Some (set_pc i M_Owner
            (s\<lparr>m_iState := m_iState s + (mutexLocked - push_bit mutexWaiterShift 1 -
                                          (if b then mutexStarving else 0))\<rparr>))
      | U_Sub \<Rightarrow>
          (let old = m_iState s; n = old - mutexLocked; s' = s\<lparr>m_iState := n\<rparr> in
           Some (if old = mutexLocked then set_pc i M_Idle s'
                 else if old AND mutexLocked = 0 then fatal s'
                 else if n AND mutexStarving = 0 then set_pc i (U_Loop n) s'
                 else set_pc i U_Signal s'))
      | U_Loop old \<Rightarrow>
          Some (if drop_bit mutexWaiterShift old = 0 \<or>
                   old AND (mutexLocked OR mutexWoken OR mutexStarving) \<noteq> 0
                then set_pc i M_Idle s
                else if m_iState s = old
                then set_pc i U_Signal
                       (s\<lparr>m_iState := (old - push_bit mutexWaiterShift 1) OR mutexWoken\<rparr>)
                else set_pc i U_Load s)
      | U_Load \<Rightarrow> Some (set_pc i (U_Loop (m_iState s)) s)
      | U_Signal \<Rightarrow> Some (set_pc i M_Idle (s\<lparr>m_sema := Suc (m_sema s)\<rparr>)))"

inductive mutex_reachable :: "mutex \<Rightarrow> bool" where
  start: "mutex_reachable (mk_mutex agents)"
| call: "mutex_reachable s \<Longrightarrow> i < length (m_pcs s) \<Longrightarrow> mutex_start f (m_pcs s ! i) = Some p \<Longrightarrow>
    mutex_reachable (set_pc i p s)"
| step: "mutex_reachable s \<Longrightarrow> i < length (m_pcs s) \<Longrightarrow> \<not> mu_fatal s \<Longrightarrow>
    mutex_step i late s = Some t \<Longrightarrow> mutex_reachable t"

section \<open>The word as bits and a count\<close>

definition enc :: "bool \<Rightarrow> bool \<Rightarrow> bool \<Rightarrow> int \<Rightarrow> int" where
  "enc l w s n = of_bool l + 2 * of_bool w + 4 * of_bool s + 8 * n"

lemma low_and: "0 \<le> k \<Longrightarrow> k < 8 \<Longrightarrow> 0 \<le> j \<Longrightarrow> j < 8 \<Longrightarrow> (k + 8 * m) AND j = k AND (j :: int)"
proof -
  assume a: "0 \<le> k" "k < 8" "0 \<le> j" "j < 8"
  have j: "take_bit 3 j = j" and k: "take_bit 3 (k + 8 * m) = k"
    using a by (simp_all add: take_bit_eq_mod)
  have "(k + 8 * m) AND j = take_bit 3 ((k + 8 * m) AND j)"
    using j by (metis take_bit_and take_bit_eq_mask and.assoc and.commute and.left_idem)
  then show ?thesis by (simp add: take_bit_and j k)
qed

lemma low_or: "0 \<le> k \<Longrightarrow> k < 8 \<Longrightarrow> 0 \<le> j \<Longrightarrow> j < 8 \<Longrightarrow> (k + 8 * m) OR j = (k OR j) + 8 * (m :: int)"
proof -
  assume a: "0 \<le> k" "k < 8" "0 \<le> j" "j < 8"
  have d: "x + 8 * m = x OR push_bit 3 m" if "take_bit 3 x = x" for x :: int
  proof -
    have "\<not> bit x n" if "n \<ge> 3" for n
      using \<open>take_bit 3 x = x\<close> that by (metis bit_take_bit_iff not_le)
    then have "x + push_bit 3 m = x OR push_bit 3 m"
      by (intro disjunctive_add) (auto simp: bit_push_bit_iff not_le)
    then show ?thesis by (simp add: push_bit_eq_mult)
  qed
  have j: "take_bit 3 j = j" and k: "take_bit 3 k = k"
    using a by (simp_all add: take_bit_eq_mod)
  have "take_bit 3 (k OR j) = k OR j" using j k by (simp add: take_bit_or)
  with d [OF k] d [of "k OR j"] show ?thesis by (simp add: ac_simps)
qed

lemma and_not: "x AND NOT y = x - (x AND y)" for x y :: int
proof -
  have "(x AND NOT y) + (x AND y) = (x AND NOT y) OR (x AND y)"
    by (rule disjunctive_add) (auto simp: bit_and_iff bit_not_iff)
  also have "\<dots> = x" by (rule bit_eqI) (auto simp: bit_or_iff bit_and_iff bit_not_iff)
  finally show ?thesis by simp
qed

lemma enc_low:
  assumes "0 \<le> j" "j < 8"
  shows "enc l w s n AND j = (of_bool l + 2 * of_bool w + 4 * of_bool s) AND j"
    and "enc l w s n OR j = ((of_bool l + 2 * of_bool w + 4 * of_bool s) OR j) + 8 * n"
  unfolding enc_def using assms by (intro low_and low_or; cases l; cases w; cases s; simp)+

lemma enc_and:
  "enc l w s n AND 1 = of_bool l" "enc l w s n AND 2 = 2 * of_bool w" "enc l w s n AND 4 = 4 * of_bool s"
  "enc l w s n AND 3 = of_bool l + 2 * of_bool w" "enc l w s n AND 5 = of_bool l + 4 * of_bool s"
  "enc l w s n AND 7 = of_bool l + 2 * of_bool w + 4 * of_bool s"
  by (subst enc_low; cases l; cases w; cases s; simp)+

lemma enc_or:
  "enc l w s n OR 1 = enc True w s n" "enc l w s n OR 2 = enc l True s n" "enc l w s n OR 4 = enc l w True n"
  by (subst enc_low; cases l; cases w; cases s; simp add: enc_def)+

lemma enc_and_not: "enc l w s n AND - 3 = enc l False s n"
  using and_not [of "enc l w s n" 2] by (simp only: enc_and) (simp add: enc_def)

lemma enc_drop: "drop_bit 3 (enc l w s n) = n"
  by (cases l; cases w; cases s) (simp_all add: enc_def drop_bit_eq_div)

lemma enc_add: "enc l w s n + 8 = enc l w s (n + 1)" "enc l w s n - 8 = enc l w s (n - 1)"
  by (simp_all add: enc_def)

lemma enc_eq [simp]: "enc l w s n = enc l' w' s' n' \<longleftrightarrow> l = l' \<and> w = w' \<and> s = s' \<and> n = n'"
proof
  assume e: "enc l w s n = enc l' w' s' n'"
  have "n = n'" using enc_drop [of l w s n] enc_drop [of l' w' s' n'] e by simp
  moreover have "l = l'" using enc_and(1) [of l w s n] enc_and(1) [of l' w' s' n'] e by (cases l; cases l'; simp)
  moreover have "w = w'" using enc_and(2) [of l w s n] enc_and(2) [of l' w' s' n'] e by (cases w; cases w'; simp)
  moreover have "s = s'" using enc_and(3) [of l w s n] enc_and(3) [of l' w' s' n'] e by (cases s; cases s'; simp)
  ultimately show "l = l' \<and> w = w' \<and> s = s' \<and> n = n'" by simp
qed simp

lemma enc_exhaust: obtains l w s n where "x = enc l w s n"
proof
  have "x div 2 div 2 = x div 4" "x div 4 div 2 = x div 8" by simp_all
  then have "x = x mod 2 + 2 * (x div 2 mod 2) + 4 * (x div 4 mod 2) + 8 * (x div 8)"
    using mult_div_mod_eq [of 2 x] mult_div_mod_eq [of 2 "x div 2"] mult_div_mod_eq [of 2 "x div 4"]
    by linarith
  then show "x = enc (odd x) (odd (x div 2)) (odd (x div 4)) (x div 8)"
    by (simp add: enc_def mod_2_eq_odd)
qed

section \<open>The invariant\<close>

text \<open>Agents by what they hold or owe.\<close>

fun owning :: "mutex_pc \<Rightarrow> nat" where
  "owning M_Owner = 1" | "owning U_Sub = 1" | "owning _ = 0"

fun waiting :: "mutex_pc \<Rightarrow> nat" where
  "waiting (M_Wait _) = 1" | "waiting _ = 0"

fun got :: "mutex_pc \<Rightarrow> nat" where
  "got (M_Got _) = 1" | "got _ = 0"

fun adding :: "mutex_pc \<Rightarrow> nat" where
  "adding (M_AddDelta _) = 1" | "adding _ = 0"

fun signalling :: "mutex_pc \<Rightarrow> nat" where
  "signalling U_Signal = 1" | "signalling _ = 0"

fun awake :: "mutex_pc \<Rightarrow> nat" where
  "awake (M_Loop v) = of_bool (lv_awoke v)" | "awake (M_SpinLoad v) = of_bool (lv_awoke v)"
| "awake (M_Reload v) = of_bool (lv_awoke v)" | "awake _ = 0"

text \<open>Unlockers that will still look for a waiter to wake.\<close>

fun unlocking :: "mutex_pc \<Rightarrow> nat" where
  "unlocking (U_Loop old) = of_bool (drop_bit 3 old \<noteq> 0 \<and> old AND 7 = 0)"
| "unlocking U_Load = 1" | "unlocking _ = 0"

fun vars_ok :: "mutex_pc \<Rightarrow> bool" where
  "vars_ok (M_Loop v) \<longleftrightarrow> (lv_awoke v \<longrightarrow> lv_old v AND 2 \<noteq> 0) \<and> (lv_starving v \<longrightarrow> lv_awoke v)"
| "vars_ok (M_SpinLoad v) \<longleftrightarrow> (lv_starving v \<longrightarrow> lv_awoke v)"
| "vars_ok (M_Reload v) \<longleftrightarrow> (lv_starving v \<longrightarrow> lv_awoke v)"
| "vars_ok _ \<longleftrightarrow> True"

definition bits_inv :: "bool \<Rightarrow> bool \<Rightarrow> bool \<Rightarrow> int \<Rightarrow> nat \<Rightarrow> mutex_pc list \<Rightarrow> bool" where
  "bits_inv l w st n sema ps \<longleftrightarrow>
     total owning ps = of_bool l \<and>
     (if st
      then \<not> w \<and> total awake ps = 0 \<and>
           int sema + total signalling ps + total got ps + total adding ps = 1 - of_bool l \<and>
           n = total waiting ps + total got ps + total adding ps
      else total adding ps = 0 \<and>
           int sema + total signalling ps + total got ps + total awake ps = of_bool w \<and>
           n + int sema + total signalling ps = total waiting ps \<and>
           (l \<or> w \<or> n = 0 \<or> 0 < total unlocking ps))"

definition mutex_inv :: "mutex \<Rightarrow> bool" where
  "mutex_inv s \<longleftrightarrow>
     \<not> mu_fatal s \<and> (\<forall>i < length (m_pcs s). vars_ok (m_pcs s ! i)) \<and>
     (\<exists>l w st n. m_iState s = enc l w st n \<and> 0 \<le> n \<and> bits_inv l w st n (m_sema s) (m_pcs s))"

lemma set_pc_fields [simp]:
  "m_iState (set_pc i p s) = m_iState s" "m_sema (set_pc i p s) = m_sema s"
  "m_pcs (set_pc i p s) = (m_pcs s)[i := p]" "mu_fatal (set_pc i p s) = mu_fatal s"
  by (simp_all add: set_pc_def)

lemma mutex_inv_start: "mutex_inv (mk_mutex agents)"
proof -
  have "total f (replicate agents M_Idle) = 0" if "f M_Idle = 0" for f :: "mutex_pc \<Rightarrow> nat"
    using that by (rule total_replicate)
  moreover have "0 = enc False False False 0" by (simp add: enc_def)
  ultimately show ?thesis
    by (auto simp: mutex_inv_def mk_mutex_def bits_inv_def intro!: exI [of _ False] exI [of _ "0::int"])
qed

text \<open>An agent moves to a new place: what has to be shown of the new word and permits.\<close>

lemma mutex_invI:
  assumes "mutex_inv s" "i < length (m_pcs s)" "vars_ok p" "m_iState t = enc l w st n" "0 \<le> n"
    and "bits_inv l w st n (m_sema t) ((m_pcs s)[i := p])" "m_pcs t = (m_pcs s)[i := p]" "\<not> mu_fatal t"
  shows "mutex_inv t"
  using assms by (auto simp: mutex_inv_def nth_list_update)

lemma mutex_inv_call:
  assumes "mutex_inv s" "i < length (m_pcs s)" "mutex_start f (m_pcs s ! i) = Some p"
  shows "mutex_inv (set_pc i p s)"
proof -
  obtain l w st n where e: "m_iState s = enc l w st n" "0 \<le> n" "bits_inv l w st n (m_sema s) (m_pcs s)"
    using assms(1) by (auto simp: mutex_inv_def)
  have "f = Lock \<and> m_pcs s ! i = M_Idle \<and> p = M_Fast \<or> f = TryLock \<and> m_pcs s ! i = M_Idle \<and> p = M_Try \<or>
      f = Unlock \<and> m_pcs s ! i = M_Owner \<and> p = U_Sub"
    using assms(3) by (cases f; cases "m_pcs s ! i") auto
  then show ?thesis
    using assms(1,2) e
    by (intro mutex_invI [OF assms(1,2), of p _ l w st n])
      (auto simp: bits_inv_def total_update mutex_inv_def)
qed

lemma loop_step_inv:
  assumes "mutex_inv s" "i < length (m_pcs s)" "m_pcs s ! i = M_Loop v"
  shows "mutex_inv (loop_step i v s)"
proof -
  obtain l w st n where e: "m_iState s = enc l w st n" "0 \<le> n" "bits_inv l w st n (m_sema s) (m_pcs s)"
    and f: "\<not> mu_fatal s" using assms(1) by (auto simp: mutex_inv_def)
  have ok: "vars_ok (M_Loop v)" using assms by (auto simp: mutex_inv_def)
  note nn = total_nonneg [of signalling "m_pcs s"] total_nonneg [of got "m_pcs s"]
    total_nonneg [of awake "m_pcs s"] total_nonneg [of waiting "m_pcs s"]
    total_nonneg [of adding "m_pcs s"] total_nonneg [of unlocking "m_pcs s"] total_nonneg [of owning "m_pcs s"]
    total_ge [OF assms(2), of awake]
  obtain l' w' st' n' where o: "lv_old v = enc l' w' st' n'" by (rule enc_exhaust)
  have aw: "lv_awoke v \<Longrightarrow> w \<and> \<not> st" using e nn assms(3)
    by (cases w; cases st) (auto simp: bits_inv_def)
  note bits = mutex_bits enc_and enc_or enc_and_not enc_drop enc_add can_spin_def sets_woken_def
    new_state_def Let_def push_bit_eq_mult
  show ?thesis
  proof (cases "can_spin v")
    case True
    then have sp: "l'" "\<not> st'" using o by (cases l'; cases st'; auto simp: bits)+
    show ?thesis
    proof (cases "sets_woken v")
      case sw: True
      then have na: "\<not> lv_awoke v" "\<not> w'" using o by (cases w'; auto simp: bits)+
      show ?thesis
      proof (cases "m_iState s = lv_old v")
        case same: True
        with o e sp na have b: "l" "\<not> st" "\<not> w" "n' = n" by auto
        have "mutex_inv (set_pc i (M_SpinLoad (v\<lparr>lv_awoke := True\<rparr>)) (s\<lparr>m_iState := enc l True st n\<rparr>))"
          using e f nn b na assms(2,3)
          by (intro mutex_invI [OF assms(1,2), of _ _ l True st n]) (auto simp: bits_inv_def total_update)
        moreover have "lv_old v OR 2 = enc l True st n" using o sp b by (simp add: enc_or)
        ultimately show ?thesis using True sw same by (simp add: loop_step_def mutex_bits)
      next
        case False
        have "mutex_inv (set_pc i (M_SpinLoad v) s)"
          using e f ok assms(3)
          by (intro mutex_invI [OF assms(1,2), of _ _ l w st n]) (auto simp: bits_inv_def total_update assms(2))
        then show ?thesis using True sw False by (simp add: loop_step_def)
      qed
    next
      case False
      have "mutex_inv (set_pc i (M_Loop (v\<lparr>lv_old := m_iState s, lv_iter := Suc (lv_iter v)\<rparr>)) s)"
        using e f ok aw assms(3)
        by (intro mutex_invI [OF assms(1,2), of _ _ l w st n])
          (auto simp: bits_inv_def total_update assms(2) enc_and)
      then show ?thesis using True False by (simp add: loop_step_def)
    qed
  next
    case False
    have new: "new_state v = enc (l' \<or> \<not> st') w' (st' \<or> lv_starving v \<and> l') (n' + of_bool (l' \<or> st'))"
      using o by (cases l'; cases st') (auto simp: bits)
    have woken: "lv_awoke v \<Longrightarrow> w'" using ok o by (cases w') (auto simp: enc_and)
    have notfatal: "\<not> (lv_awoke v \<and> new_state v AND mutexWoken = 0)"
      using woken by (auto simp: new mutex_bits enc_and)
    define new' where "new' = enc (l' \<or> \<not> st') (w' \<and> \<not> lv_awoke v) (st' \<or> lv_starving v \<and> l')
      (n' + of_bool (l' \<or> st'))"
    have new': "(if lv_awoke v then new_state v AND NOT mutexWoken else new_state v) = new'"
      using woken by (auto simp: new new'_def mutex_bits enc_and_not)
    have free: "lv_old v AND (mutexLocked OR mutexStarving) = 0 \<longleftrightarrow> \<not> l' \<and> \<not> st'"
      using o by (cases l'; cases st') (auto simp: bits)
    have ls: "loop_step i v s =
      (if m_iState s = lv_old v
       then if \<not> l' \<and> \<not> st' then set_pc i M_Owner (s\<lparr>m_iState := new'\<rparr>)
         else set_pc i (M_Wait (v\<lparr>lv_queued := True\<rparr>)) (s\<lparr>m_iState := new'\<rparr>)
       else set_pc i (M_Reload v) s)"
      by (simp only: loop_step_def Let_def new' notfatal False free if_False if_True)
    show ?thesis
    proof (cases "m_iState s = lv_old v")
      case same: True
      with o e have b: "l' = l" "w' = w" "st' = st" "n' = n" by auto
      show ?thesis
      proof (cases "\<not> l \<and> \<not> st")
        case True
        have "mutex_inv (set_pc i M_Owner (s\<lparr>m_iState := new'\<rparr>))"
          using e f nn True b aw assms(2,3)
          by (intro mutex_invI [OF assms(1,2), of _ _ True "w \<and> \<not> lv_awoke v" False n])
            (auto simp: bits_inv_def total_update new'_def)
        then show ?thesis
          using same True b by (simp add: ls)
      next
        case busy: False
        have "mutex_inv (set_pc i (M_Wait (v\<lparr>lv_queued := True\<rparr>)) (s\<lparr>m_iState := new'\<rparr>))"
        proof (rule mutex_invI [OF assms(1,2), of _ _ l "w \<and> \<not> lv_awoke v" "st \<or> lv_starving v" "n + 1"])
          show "bits_inv l (w \<and> \<not> lv_awoke v) (st \<or> lv_starving v) (n + 1)
              (m_sema (set_pc i (M_Wait (v\<lparr>lv_queued := True\<rparr>)) (s\<lparr>m_iState := new'\<rparr>)))
              ((m_pcs s)[i := M_Wait (v\<lparr>lv_queued := True\<rparr>)])"
            using e(3) nn(1-5) nn(8) busy aw ok assms(2,3)
            by (cases "lv_awoke v"; cases st; cases l; cases "lv_starving v"; simp add: bits_inv_def total_update)
        qed (use e f b busy in \<open>auto simp: new'_def\<close>)
        then show ?thesis
          using same busy b by (auto simp: ls)
      qed
    next
      case diff: False
      have "mutex_inv (set_pc i (M_Reload v) s)"
        using e f ok assms(2,3)
        by (intro mutex_invI [OF assms(1,2), of _ _ l w st n]) (auto simp: bits_inv_def total_update)
      then show ?thesis using diff by (simp add: ls)
    qed
  qed
qed

lemma got_step_inv:
  assumes "mutex_inv s" "i < length (m_pcs s)" "m_pcs s ! i = M_Got v"
  shows "mutex_inv (got_step i late v s)"
proof -
  obtain l w st n where e: "m_iState s = enc l w st n" "0 \<le> n" "bits_inv l w st n (m_sema s) (m_pcs s)"
    and f: "\<not> mu_fatal s" using assms(1) by (auto simp: mutex_inv_def)
  note nn = total_nonneg [of signalling "m_pcs s"] total_nonneg [of got "m_pcs s"]
    total_nonneg [of awake "m_pcs s"] total_nonneg [of waiting "m_pcs s"]
    total_nonneg [of adding "m_pcs s"] total_ge [OF assms(2), of got]
  show ?thesis
  proof (cases st)
    case True
    have b: "\<not> l" "\<not> w" "0 < n" using True e nn assms(3) by (cases l; auto simp: bits_inv_def)+
    have "mutex_inv (set_pc i (M_AddDelta c) s)" for c
      using e f True nn assms(2,3)
      by (intro mutex_invI [OF assms(1,2), of _ _ l w st n]) (auto simp: bits_inv_def total_update)
    then show ?thesis using True b e by (simp add: got_step_def Let_def mutex_bits enc_and enc_drop)
  next
    case False
    have w: "w" using False e nn assms(3) by (cases w) (auto simp: bits_inv_def)
    have "mutex_inv (set_pc i (M_Loop (v\<lparr>lv_old := m_iState s, lv_starving := c, lv_awoke := True, lv_iter := 0\<rparr>)) s)" for c
      using e f False nn w assms(2,3)
      by (intro mutex_invI [OF assms(1,2), of _ _ l w st n]) (auto simp: bits_inv_def total_update enc_and)
    then show ?thesis using False e by (simp add: got_step_def Let_def mutex_bits enc_and)
  qed
qed


lemma mutex_step_inv:
  assumes "mutex_inv s" "i < length (m_pcs s)" "mutex_step i late s = Some t"
  shows "mutex_inv t"
proof -
  obtain l w st n where e: "m_iState s = enc l w st n" "0 \<le> n" "bits_inv l w st n (m_sema s) (m_pcs s)"
    and f: "\<not> mu_fatal s" using assms(1) by (auto simp: mutex_inv_def)
  have z: "enc l w st n = 0 \<longleftrightarrow> \<not> l \<and> \<not> w \<and> \<not> st \<and> n = 0"
    using enc_eq [of l w st n False False False 0] by (simp add: enc_def [of False False False 0])
  have one: "enc l w st n = 1 \<longleftrightarrow> l \<and> \<not> w \<and> \<not> st \<and> n = 0" "1 = enc True False False 0"
    using enc_eq [of l w st n True False False 0] by (simp_all add: enc_def [of True False False 0])
  note nn = total_nonneg [of signalling "m_pcs s"] total_nonneg [of got "m_pcs s"]
    total_nonneg [of awake "m_pcs s"] total_nonneg [of waiting "m_pcs s"]
    total_nonneg [of adding "m_pcs s"] total_nonneg [of unlocking "m_pcs s"] total_nonneg [of owning "m_pcs s"]
  note aux = bits_inv_def total_update assms(2)
  note keep = mutex_invI [OF assms(1,2), of _ _ l w st n]
  have fast: "mutex_inv (if m_iState s = 0 then set_pc i M_Owner (s\<lparr>m_iState := 1\<rparr>) else set_pc i p s)"
    if "p = M_Start \<or> p = M_Idle" "m_pcs s ! i = M_Fast \<or> m_pcs s ! i = M_Try" for p
  proof (cases "m_iState s = 0")
    case True
    with z e have b: "\<not> l" "\<not> w" "\<not> st" "n = 0" by auto
    have "mutex_inv (set_pc i M_Owner (s\<lparr>m_iState := 1\<rparr>))"
      using e f that b nn by (intro mutex_invI [OF assms(1,2), of _ _ True False False 0]) (auto simp: aux one)
    then show ?thesis using True by simp
  next
    case False
    have "mutex_inv (set_pc i p s)" using e f that by (intro keep) (auto simp: aux)
    then show ?thesis using False by simp
  qed
  show ?thesis
  proof (cases "m_pcs s ! i")
    case M_Start
    then have "t = set_pc i (M_Loop \<lparr>lv_old = m_iState s, lv_starving = False, lv_awoke = False,
        lv_queued = False, lv_iter = 0\<rparr>) s" using assms(3) by (simp add: mutex_step_def)
    then show ?thesis using e f M_Start by (auto simp: aux intro!: keep)
  next
    case (M_SpinLoad v)
    then have "t = set_pc i (M_Loop (v\<lparr>lv_old := m_iState s, lv_iter := Suc (lv_iter v)\<rparr>)) s"
      using assms(3) by (simp add: mutex_step_def)
    moreover have "vars_ok (M_SpinLoad v)" using assms(1,2) M_SpinLoad by (auto simp: mutex_inv_def)
    moreover have "lv_awoke v \<Longrightarrow> w" using e nn M_SpinLoad total_ge [OF assms(2), of awake]
      by (cases w; cases st) (auto simp: bits_inv_def)
    ultimately show ?thesis using e f M_SpinLoad by (auto simp: aux enc_and intro!: keep)
  next
    case (M_Reload v)
    then have "t = set_pc i (M_Loop (v\<lparr>lv_old := m_iState s\<rparr>)) s"
      using assms(3) by (simp add: mutex_step_def)
    moreover have "vars_ok (M_Reload v)" using assms(1,2) M_Reload by (auto simp: mutex_inv_def)
    moreover have "lv_awoke v \<Longrightarrow> w" using e nn M_Reload total_ge [OF assms(2), of awake]
      by (cases w; cases st) (auto simp: bits_inv_def)
    ultimately show ?thesis using e f M_Reload by (auto simp: aux enc_and intro!: keep)
  next
    case (M_Wait v)
    then have "m_sema s \<noteq> 0" "t = set_pc i (M_Got v) (s\<lparr>m_sema := m_sema s - 1\<rparr>)"
      using assms(3) by (simp_all add: mutex_step_def split: if_splits)
    then show ?thesis using e f M_Wait by (auto simp: aux intro!: keep)
  next
    case (M_AddDelta b)
    have "st" "\<not> l" "0 < n" using e nn M_AddDelta total_ge [OF assms(2), of adding]
      by (cases st; cases l; auto simp: bits_inv_def)+
    moreover have "t = set_pc i M_Owner (s\<lparr>m_iState := m_iState s + (1 - 8 - (if b then 4 else 0))\<rparr>)"
      using assms(3) M_AddDelta by (cases b) (simp_all add: mutex_step_def mutex_bits push_bit_eq_mult)
    moreover have "enc False w True n + (1 - 8 - (if b then 4 else 0)) = enc True w (\<not> b) (n - 1)"
      by (cases b) (simp_all add: enc_def)
    ultimately show ?thesis using e f M_AddDelta nn total_ge [OF assms(2), of adding]
      by (intro mutex_invI [OF assms(1,2), of _ _ True w "\<not> b" "n - 1"]) (auto simp: aux)
  next
    case U_Sub
    have l: "l" using e nn U_Sub total_ge [OF assms(2), of owning] by (cases l) (auto simp: bits_inv_def)
    have new: "m_iState s - 1 = enc False w st n" using e l by (simp add: enc_def)
    consider "\<not> w" "\<not> st" "n = 0" | "w \<or> n \<noteq> 0" "\<not> st" | "st" by blast
    then show ?thesis
    proof cases
      case 1
      then have "t = set_pc i M_Idle (s\<lparr>m_iState := enc False w st n\<rparr>)"
        using assms(3) U_Sub new e l by (simp add: mutex_step_def mutex_bits one)
      then show ?thesis using e f U_Sub l 1
        by (intro mutex_invI [OF assms(1,2), of _ _ False w st n]) (auto simp: aux)
    next
      case 2
      then have "t = set_pc i (U_Loop (enc False w st n)) (s\<lparr>m_iState := enc False w st n\<rparr>)"
        using assms(3) U_Sub new e l one by (auto simp: mutex_step_def mutex_bits enc_and Let_def)
      then show ?thesis using e f U_Sub l 2 nn
        by (intro mutex_invI [OF assms(1,2), of _ _ False w st n]) (auto simp: aux enc_drop enc_and)
    next
      case 3
      then have "t = set_pc i U_Signal (s\<lparr>m_iState := enc False w st n\<rparr>)"
        using assms(3) U_Sub new e l one by (auto simp: mutex_step_def mutex_bits enc_and Let_def)
      then show ?thesis using e f U_Sub l 3
        by (intro mutex_invI [OF assms(1,2), of _ _ False w st n]) (auto simp: aux)
    qed
  next
    case (U_Loop old)
    let ?stop = "drop_bit 3 old = 0 \<or> old AND 7 \<noteq> 0"
    consider "?stop" | "\<not> ?stop" "m_iState s = old" | "\<not> ?stop" "m_iState s \<noteq> old" by blast
    then show ?thesis
    proof cases
      case 1
      then have "t = set_pc i M_Idle s" using assms(3) U_Loop by (auto simp: mutex_step_def mutex_bits)
      then show ?thesis using e f U_Loop 1 by (auto simp: aux intro!: keep)
    next
      case 2
      then have b: "n \<noteq> 0" "\<not> l" "\<not> w" "\<not> st" using e
        by (cases l; cases w; cases st; auto simp: enc_drop enc_and)+
      have "t = set_pc i U_Signal (s\<lparr>m_iState := (old - 8) OR 2\<rparr>)"
        using assms(3) U_Loop 2 by (simp add: mutex_step_def mutex_bits push_bit_eq_mult)
      moreover have "(old - 8) OR 2 = enc False True False (n - 1)"
        using 2 e b enc_add(2) [of l w st n] enc_or(2) [of l w st "n - 1"] by simp
      ultimately show ?thesis using e f U_Loop b 2
        by (intro mutex_invI [OF assms(1,2), of _ _ False True False "n - 1"]) (auto simp: aux)
    next
      case 3
      then have "t = set_pc i U_Load s"
        using assms(3) U_Loop by (auto simp: mutex_step_def mutex_bits)
      then show ?thesis using e f U_Loop 3 nn by (auto simp: aux intro!: keep)
    qed
  next
    case U_Load
    then have "t = set_pc i (U_Loop (m_iState s)) s" using assms(3) by (simp add: mutex_step_def)
    then show ?thesis using e f U_Load nn
      by (cases l; cases w; cases st; auto simp: aux enc_drop enc_and intro!: keep)
  next
    case U_Signal
    then have "t = set_pc i M_Idle (s\<lparr>m_sema := Suc (m_sema s)\<rparr>)" using assms(3) by (simp add: mutex_step_def)
    then show ?thesis using e f U_Signal by (auto simp: aux intro!: keep)
  qed (use assms fast loop_step_inv got_step_inv in \<open>auto simp: mutex_step_def\<close>)
qed

lemma mutex_reachable_inv: "mutex_reachable s \<Longrightarrow> mutex_inv s"
  by (induction rule: mutex_reachable.induct)
    (auto intro: mutex_inv_start mutex_inv_call mutex_step_inv)

section \<open>Properties\<close>

text \<open>
  C4: The mutex excludes. In every state that any interleaving of \<open>lock\<close>, \<open>try_lock\<close> and
  \<open>unlock\<close> can reach, at most one coroutine owns the mutex and the locked bit says whether one
  does; no consistency check of \<open>lock\<close> and \<open>unlock\<close> ever ends the process; and the word
  stays within eight times the number of coroutines.
\<close>

theorem mutex_safe:
  assumes "mutex_reachable s"
  shows "(\<forall>i < length (m_pcs s). \<forall>j < length (m_pcs s).
            owning (m_pcs s ! i) = 1 \<and> owning (m_pcs s ! j) = 1 \<longrightarrow> i = j) \<and>
    (m_iState s AND mutexLocked \<noteq> 0 \<longleftrightarrow> (\<exists>i < length (m_pcs s). owning (m_pcs s ! i) = 1)) \<and>
    \<not> mu_fatal s \<and> 0 \<le> m_iState s \<and> m_iState s < 8 * int (length (m_pcs s)) + 16"
proof -
  obtain l w st n where e: "m_iState s = enc l w st n" "0 \<le> n" "bits_inv l w st n (m_sema s) (m_pcs s)"
    and f: "\<not> mu_fatal s" using mutex_reachable_inv [OF assms] by (auto simp: mutex_inv_def)
  have own: "total owning (m_pcs s) = of_bool l" using e(3) by (simp add: bits_inv_def)
  have one: "owning p = 1 \<longleftrightarrow> owning p \<noteq> 0" for p by (cases p) auto
  have "i = j" if "i < length (m_pcs s)" "j < length (m_pcs s)" "owning (m_pcs s ! i) = 1"
    "owning (m_pcs s ! j) = 1" for i j
    using total_two [of i "m_pcs s" j owning] that own by (cases l) fastforce+
  moreover have "l \<longleftrightarrow> (\<exists>i < length (m_pcs s). owning (m_pcs s ! i) = 1)"
    using own total_0 [of owning "m_pcs s"] one by (cases l) auto
  moreover have "waiting p \<le> 1" for p by (cases p) auto
  then have "total waiting (m_pcs s) \<le> int (length (m_pcs s))" by (rule total_le)
  then have "n \<le> int (length (m_pcs s)) + 1"
    using e(3) total_nonneg [of signalling "m_pcs s"]
    by (cases l; cases st) (auto simp: bits_inv_def)
  then have "enc l w st n < 8 * int (length (m_pcs s)) + 16" "0 \<le> enc l w st n"
    using e(2,3) by (cases l; cases w; cases st; simp add: enc_def bits_inv_def)+
  ultimately show ?thesis using f e(1) by (simp add: mutex_bits enc_and)
qed

lemma others_move:
  "m_pcs s ! i \<notin> {M_Idle, M_Owner} \<Longrightarrow> waiting (m_pcs s ! i) = 0 \<Longrightarrow> \<exists>t. mutex_step i late s = Some t"
  by (cases "m_pcs s ! i") (auto simp: mutex_step_def Let_def)

text \<open>
  C5: No coroutine sleeps on the mutex for ever: as long as some agent is in \<open>lock\<close> or
  \<open>unlock\<close> and no agent just holds the mutex, some agent can make a step.
\<close>

theorem mutex_progress:
  assumes "mutex_reachable s" "i < length (m_pcs s)" "m_pcs s ! i \<noteq> M_Idle"
    and "\<And>j. j < length (m_pcs s) \<Longrightarrow> m_pcs s ! j \<noteq> M_Owner"
  shows "\<exists>j < length (m_pcs s). \<exists>t. mutex_step j late s = Some t"
proof (cases "m_sema s = 0 \<and> waiting (m_pcs s ! i) \<noteq> 0")
  case False
  then show ?thesis
    using others_move [of s i late] assms(2-4)
    by (cases "m_pcs s ! i") (force simp: mutex_step_def)+
next
  case True
  obtain l w st n where e: "m_iState s = enc l w st n" "0 \<le> n" "bits_inv l w st n (m_sema s) (m_pcs s)"
    using mutex_reachable_inv [OF assms(1)] by (auto simp: mutex_inv_def)
  have moves: "\<exists>j < length (m_pcs s). \<exists>t. mutex_step j late s = Some t"
    if "0 < total g (m_pcs s)" "\<And>p. g p \<noteq> 0 \<Longrightarrow> p \<noteq> M_Idle \<and> (p \<noteq> M_Owner \<longrightarrow> waiting p = 0)" for g
    using total_pos [OF that(1)] that(2) others_move assms(4) by (metis insert_iff singletonD)
  have "0 < total waiting (m_pcs s)" using total_ge [OF assms(2), of waiting] True by linarith
  with e(3) True have "0 < total owning (m_pcs s) \<or> 0 < total signalling (m_pcs s) \<or> 0 < total got (m_pcs s) \<or>
      0 < total adding (m_pcs s) \<or> 0 < total awake (m_pcs s) \<or> 0 < total unlocking (m_pcs s)"
    using total_nonneg [of signalling "m_pcs s"] total_nonneg [of got "m_pcs s"]
      total_nonneg [of awake "m_pcs s"] total_nonneg [of adding "m_pcs s"]
      total_nonneg [of unlocking "m_pcs s"]
    by (cases l; cases st; cases w; simp add: bits_inv_def) linarith+
  then show ?thesis
  proof (elim disjE)
    have tgt: "p \<noteq> M_Idle \<and> (p \<noteq> M_Owner \<longrightarrow> waiting p = 0)"
      if "owning p \<noteq> 0 \<or> signalling p \<noteq> 0 \<or> got p \<noteq> 0 \<or> adding p \<noteq> 0 \<or> awake p \<noteq> 0 \<or> unlocking p \<noteq> 0" for p
      using that by (cases p) auto
    show ?thesis if "0 < total owning (m_pcs s)" using that tgt by (rule moves) blast
    show ?thesis if "0 < total signalling (m_pcs s)" using that tgt by (rule moves) blast
    show ?thesis if "0 < total got (m_pcs s)" using that tgt by (rule moves) blast
    show ?thesis if "0 < total adding (m_pcs s)" using that tgt by (rule moves) blast
    show ?thesis if "0 < total awake (m_pcs s)" using that tgt by (rule moves) blast
    show ?thesis if "0 < total unlocking (m_pcs s)" using that tgt by (rule moves) blast
  qed
qed

section \<open>Sample runs\<close>

fun mutex_run :: "(nat \<times> mutex_op option) list \<Rightarrow> mutex \<Rightarrow> mutex option" where
  "mutex_run [] s = Some s"
| "mutex_run ((i, Some f) # acts) s =
     (if i < length (m_pcs s)
      then (case mutex_start f (m_pcs s ! i) of None \<Rightarrow> None | Some p \<Rightarrow> mutex_run acts (set_pc i p s))
      else None)"
| "mutex_run ((i, None) # acts) s =
     (if i < length (m_pcs s) \<and> \<not> mu_fatal s
      then (case mutex_step i False s of None \<Rightarrow> None | Some t \<Rightarrow> mutex_run acts t) else None)"

lemma mutex_run_reachable: "mutex_run acts s = Some t \<Longrightarrow> mutex_reachable s \<Longrightarrow> mutex_reachable t"
  by (induction acts s rule: mutex_run.induct)
    (auto split: if_splits option.splits intro: mutex_reachable.call mutex_reachable.step)

text \<open>One agent locks, a second one spins and goes to sleep.\<close>

definition contended_run :: "(nat \<times> mutex_op option) list" where
  "contended_run = [(0, Some Lock), (0, None), (1, Some Lock)] @ replicate 35 (1, None)"

text \<open>The first agent unlocks and is about to wake the second.\<close>

definition handover_run :: "(nat \<times> mutex_op option) list" where
  "handover_run = contended_run @ [(0, Some Unlock), (0, None), (0, None)]"

definition run_state :: "(nat \<times> mutex_op option) list \<Rightarrow> mutex" where
  "run_state acts = the (mutex_run acts (mk_mutex 2))"

lemma run_state_reachable: "mutex_run acts (mk_mutex 2) \<noteq> None \<Longrightarrow> mutex_reachable (run_state acts)"
  by (auto simp: run_state_def intro: mutex_run_reachable mutex_reachable.start)

theorem mutex_safe_witness:
  "\<not> mu_fatal (run_state contended_run) \<and> m_iState (run_state contended_run) = 9 \<and>
   m_pcs (run_state contended_run) ! 0 = M_Owner"
proof -
  have "mutex_run contended_run (mk_mutex 2) \<noteq> None" by code_simp
  moreover have "m_iState (run_state contended_run) = 9" "m_pcs (run_state contended_run) ! 0 = M_Owner"
    by code_simp+
  ultimately show ?thesis using mutex_safe [OF run_state_reachable] by blast
qed

theorem mutex_progress_witness:
  "\<exists>j < 2. \<exists>t. mutex_step j False (run_state handover_run) = Some t"
proof -
  have "mutex_run handover_run (mk_mutex 2) \<noteq> None" by code_simp
  moreover have pcs: "length (m_pcs (run_state handover_run)) = 2"
    "m_pcs (run_state handover_run) ! 1 \<noteq> M_Idle" "waiting (m_pcs (run_state handover_run) ! 1) = 1"
    "m_pcs (run_state handover_run) ! 0 = U_Signal" by code_simp+
  moreover have "m_pcs (run_state handover_run) ! j \<noteq> M_Owner" if "j < 2" for j
    using that pcs(3,4) by (cases "j = 0") (auto simp: less_2_cases_iff)
  ultimately show ?thesis
    using mutex_progress [OF run_state_reachable, of handover_run 1] by simp
qed

end
