(* ===== verification/Usync_Shared.thy ===== *)
theory Usync_Shared
  imports Usync_Mutex
begin

text \<open>
  The coroutine readers-writer lock \<open>ushared_mutex\<close> (\<open>core/usync.cpp\<close>, the implementation that
  \<open>USE_NEW_SHARED_MUTEX_IMPL\<close> selects). Agents and steps as in \<open>Usync_Mutex\<close>: a step is one
  access to \<open>readers_\<close>, \<open>reader_wait_\<close>, the writers' mutex \<open>w_\<close> or a semaphore. \<open>w_\<close> is its
  owned bit (\<open>mutex_safe\<close>) and a semaphore its counter (\<open>sema_refines_counter\<close>). \<open>try_lock\<close> of
  \<open>w_\<close> may refuse although nobody owns it, and a weak compare-and-swap may fail: the argument
  \<open>refuse\<close> of a step.
\<close>

definition kMaxReaders :: int where "kMaxReaders = 2 ^ 30"

text \<open>
  \<open>lock\<close>: taking \<open>w_\<close>, announcing, adding the old readers to \<open>reader_wait_\<close>, waiting for them;
  \<open>SM_Writer\<close> holds the lock. \<open>try_lock\<close>: \<open>w_\<close>, the swap, giving \<open>w_\<close> back. \<open>unlock\<close>: the
  addition, the signals that are left, \<open>w_\<close>. The readers' operations likewise.
\<close>

datatype sm_pc =
    SM_Idle
  | WL_Lock | WL_Announce | WL_Count int | WL_Drain | SM_Writer
  | WT_Lock | WT_Cas | WT_Undo
  | WU_Add | WU_Signal nat | WU_Unlock
  | RL_Add | RL_Wait | SM_Reader
  | RT_Load | RT_Cas int
  | RU_Sub | RU_Count | RU_Signal

record shared_mutex =
  w_locked :: bool
  reader_sema :: nat
  writer_sema :: nat
  readers :: int
  reader_wait :: int
  sm_pcs :: "sm_pc list"
  sm_fatal :: bool

definition mk_shared_mutex :: "nat \<Rightarrow> shared_mutex" where
  "mk_shared_mutex agents =
     \<lparr>w_locked = False, reader_sema = 0, writer_sema = 0, readers = 0, reader_wait = 0,
      sm_pcs = replicate agents SM_Idle, sm_fatal = False\<rparr>"

datatype sm_op = WLock | WTryLock | WUnlock | RLock | RTryLock | RUnlock

fun sm_start :: "sm_op \<Rightarrow> sm_pc \<Rightarrow> sm_pc option" where
  "sm_start WLock SM_Idle = Some WL_Lock"
| "sm_start WTryLock SM_Idle = Some WT_Lock"
| "sm_start WUnlock SM_Writer = Some WU_Add"
| "sm_start RLock SM_Idle = Some RL_Add"
| "sm_start RTryLock SM_Idle = Some RT_Load"
| "sm_start RUnlock SM_Reader = Some RU_Sub"
| "sm_start _ _ = None"

definition sm_goto :: "nat \<Rightarrow> sm_pc \<Rightarrow> shared_mutex \<Rightarrow> shared_mutex" where
  "sm_goto i p s = s\<lparr>sm_pcs := (sm_pcs s)[i := p]\<rparr>"

definition sm_step :: "nat \<Rightarrow> bool \<Rightarrow> shared_mutex \<Rightarrow> shared_mutex option" where
  "sm_step i refuse s =
     (case sm_pcs s ! i of
        SM_Idle \<Rightarrow> None
      | SM_Writer \<Rightarrow> None
      | SM_Reader \<Rightarrow> None
      | WL_Lock \<Rightarrow> (if w_locked s then None else Some (sm_goto i WL_Announce (s\<lparr>w_locked := True\<rparr>)))
      | WL_Announce \<Rightarrow>
          (let r = readers s; s' = s\<lparr>readers := r - kMaxReaders\<rparr> in
           Some (sm_goto i (if r \<noteq> 0 then WL_Count r else SM_Writer) s'))
      | WL_Count r \<Rightarrow>
          (let s' = s\<lparr>reader_wait := reader_wait s + r\<rparr> in
           Some (sm_goto i (if reader_wait s \<noteq> - r then WL_Drain else SM_Writer) s'))
      | WL_Drain \<Rightarrow>
          (if writer_sema s = 0 then None
           else Some (sm_goto i SM_Writer (s\<lparr>writer_sema := writer_sema s - 1\<rparr>)))
      | WT_Lock \<Rightarrow>
          Some (if w_locked s \<or> refuse then sm_goto i SM_Idle s
                else sm_goto i WT_Cas (s\<lparr>w_locked := True\<rparr>))
      | WT_Cas \<Rightarrow>
          Some (if readers s = 0 then sm_goto i SM_Writer (s\<lparr>readers := - kMaxReaders\<rparr>)
                else sm_goto i WT_Undo s)
      | WT_Undo \<Rightarrow> Some (sm_goto i SM_Idle (s\<lparr>w_locked := False\<rparr>))
      | WU_Add \<Rightarrow>
          (let old = readers s; s' = s\<lparr>readers := old + kMaxReaders\<rparr> in
           Some (if old \<ge> 0 then s'\<lparr>sm_fatal := True\<rparr>
                 else sm_goto i (WU_Signal (nat (old + kMaxReaders))) s'))
      | WU_Signal n \<Rightarrow>
          Some (case n of 0 \<Rightarrow> sm_goto i WU_Unlock s
                | Suc m \<Rightarrow> sm_goto i (WU_Signal m) (s\<lparr>reader_sema := Suc (reader_sema s)\<rparr>))
      | WU_Unlock \<Rightarrow> Some (sm_goto i SM_Idle (s\<lparr>w_locked := False\<rparr>))
      | RL_Add \<Rightarrow>
          Some (sm_goto i (if readers s < 0 then RL_Wait else SM_Reader) (s\<lparr>readers := readers s + 1\<rparr>))
      | RL_Wait \<Rightarrow>
          (if reader_sema s = 0 then None
           else Some (sm_goto i SM_Reader (s\<lparr>reader_sema := reader_sema s - 1\<rparr>)))
      | RT_Load \<Rightarrow> Some (sm_goto i (if readers s \<ge> 0 then RT_Cas (readers s) else SM_Idle) s)
      | RT_Cas c \<Rightarrow>
          Some (if readers s = c \<and> \<not> refuse then sm_goto i SM_Reader (s\<lparr>readers := c + 1\<rparr>)
                else sm_goto i (if readers s \<ge> 0 then RT_Cas (readers s) else SM_Idle) s)
      | RU_Sub \<Rightarrow>
          (let old = readers s; s' = s\<lparr>readers := old - 1\<rparr> in
           Some (if old > 0 then sm_goto i SM_Idle s'
                 else if old = 0 then s'\<lparr>sm_fatal := True\<rparr>
                 else sm_goto i RU_Count s'))
      | RU_Count \<Rightarrow>
          (let old = reader_wait s; s' = s\<lparr>reader_wait := old - 1\<rparr> in
           Some (sm_goto i (if old = 1 then RU_Signal else SM_Idle) s'))
      | RU_Signal \<Rightarrow> Some (sm_goto i SM_Idle (s\<lparr>writer_sema := Suc (writer_sema s)\<rparr>)))"

text \<open>The states that fewer than \<open>kMaxReaders\<close> agents can reach.\<close>

inductive sm_reachable :: "shared_mutex \<Rightarrow> bool" where
  start: "int agents < kMaxReaders \<Longrightarrow> sm_reachable (mk_shared_mutex agents)"
| call: "sm_reachable s \<Longrightarrow> i < length (sm_pcs s) \<Longrightarrow> sm_start f (sm_pcs s ! i) = Some p \<Longrightarrow>
    sm_reachable (sm_goto i p s)"
| step: "sm_reachable s \<Longrightarrow> i < length (sm_pcs s) \<Longrightarrow> \<not> sm_fatal s \<Longrightarrow>
    sm_step i refuse s = Some t \<Longrightarrow> sm_reachable t"

section \<open>The invariant\<close>

fun holding :: "sm_pc \<Rightarrow> nat" where
  "holding SM_Reader = 1" | "holding RU_Sub = 1" | "holding _ = 0"

fun queued :: "sm_pc \<Rightarrow> nat" where
  "queued RL_Wait = 1" | "queued _ = 0"

fun leaving :: "sm_pc \<Rightarrow> nat" where
  "leaving RU_Count = 1" | "leaving _ = 0"

fun owes_writer :: "sm_pc \<Rightarrow> nat" where
  "owes_writer RU_Signal = 1" | "owes_writer _ = 0"

fun owes_readers :: "sm_pc \<Rightarrow> nat" where
  "owes_readers (WU_Signal n) = n" | "owes_readers _ = 0"

fun in_w :: "sm_pc \<Rightarrow> nat" where
  "in_w WL_Announce = 1" | "in_w (WL_Count _) = 1" | "in_w WL_Drain = 1" | "in_w SM_Writer = 1"
| "in_w WT_Cas = 1" | "in_w WT_Undo = 1" | "in_w WU_Add = 1" | "in_w (WU_Signal _) = 1"
| "in_w WU_Unlock = 1" | "in_w _ = 0"

text \<open>
  The phase of the lock: no writer announced; a writer that saw \<open>r\<close> readers and has not counted
  them yet; a writer waiting for them; a writer that owns the lock.
\<close>

datatype sm_phase = Open | Counting int | Draining | Closed

fun pc_phase :: "sm_pc \<Rightarrow> sm_phase" where
  "pc_phase (WL_Count r) = Counting r" | "pc_phase WL_Drain = Draining" | "pc_phase SM_Writer = Closed"
| "pc_phase WU_Add = Closed" | "pc_phase _ = Open"

fun try_ok :: "sm_pc \<Rightarrow> bool" where
  "try_ok (RT_Cas c) \<longleftrightarrow> 0 \<le> c" | "try_ok _ \<longleftrightarrow> True"

fun phase_counts :: "sm_phase \<Rightarrow> shared_mutex \<Rightarrow> bool" where
  "phase_counts Open s \<longleftrightarrow>
     int (reader_sema s) + total owes_readers (sm_pcs s) = total queued (sm_pcs s) \<and>
     total leaving (sm_pcs s) = 0 \<and> reader_wait s = 0 \<and> total owes_writer (sm_pcs s) = 0 \<and> writer_sema s = 0"
| "phase_counts (Counting r) s \<longleftrightarrow>
     int (reader_sema s) \<le> total queued (sm_pcs s) \<and> reader_wait s \<le> 0 \<and>
     total holding (sm_pcs s) + int (reader_sema s) + total leaving (sm_pcs s) = r + reader_wait s \<and>
     total owes_writer (sm_pcs s) = 0 \<and> writer_sema s = 0"
| "phase_counts Draining s \<longleftrightarrow>
     int (reader_sema s) \<le> total queued (sm_pcs s) \<and>
     reader_wait s = total holding (sm_pcs s) + int (reader_sema s) + total leaving (sm_pcs s) \<and>
     total owes_writer (sm_pcs s) + int (writer_sema s) = of_bool (reader_wait s = 0)"
| "phase_counts Closed s \<longleftrightarrow>
     reader_sema s = 0 \<and> total holding (sm_pcs s) = 0 \<and> total leaving (sm_pcs s) = 0 \<and>
     reader_wait s = 0 \<and> total owes_writer (sm_pcs s) = 0 \<and> writer_sema s = 0"

definition sm_inv :: "sm_phase \<Rightarrow> shared_mutex \<Rightarrow> bool" where
  "sm_inv ph s \<longleftrightarrow>
     \<not> sm_fatal s \<and> int (length (sm_pcs s)) < kMaxReaders \<and>
     total in_w (sm_pcs s) = of_bool (w_locked s) \<and>
     (\<forall>i < length (sm_pcs s). try_ok (sm_pcs s ! i)) \<and>
     (ph \<noteq> Open \<longrightarrow> (\<exists>i < length (sm_pcs s). pc_phase (sm_pcs s ! i) = ph)) \<and>
     (\<forall>i < length (sm_pcs s). pc_phase (sm_pcs s ! i) \<noteq> Open \<longrightarrow> pc_phase (sm_pcs s ! i) = ph) \<and>
     readers s = total holding (sm_pcs s) + total queued (sm_pcs s) - kMaxReaders * of_bool (ph \<noteq> Open) \<and>
     phase_counts ph s"

lemma sm_goto_fields [simp]:
  "w_locked (sm_goto i p s) = w_locked s" "reader_sema (sm_goto i p s) = reader_sema s"
  "writer_sema (sm_goto i p s) = writer_sema s" "readers (sm_goto i p s) = readers s"
  "reader_wait (sm_goto i p s) = reader_wait s" "sm_pcs (sm_goto i p s) = (sm_pcs s)[i := p]"
  "sm_fatal (sm_goto i p s) = sm_fatal s"
  by (simp_all add: sm_goto_def)

lemma pc_phase_in_w: "pc_phase p \<noteq> Open \<Longrightarrow> in_w p = 1"
  by (cases p) auto

text \<open>An agent outside the writers' section moves: the phase stays.\<close>

lemma sm_inv_reader:
  assumes "sm_inv ph s" "i < length (sm_pcs s)" "pc_phase (sm_pcs s ! i) = Open" "pc_phase p = Open"
    and "sm_pcs t = (sm_pcs s)[i := p]" "try_ok p" "\<not> sm_fatal t"
    and "total in_w (sm_pcs t) = of_bool (w_locked t)"
    and "readers t = total holding (sm_pcs t) + total queued (sm_pcs t) - kMaxReaders * of_bool (ph \<noteq> Open)"
    and "phase_counts ph t"
  shows "sm_inv ph t"
proof -
  have "\<exists>j < length (sm_pcs t). pc_phase (sm_pcs t ! j) = ph" if n: "ph \<noteq> Open"
  proof -
    from n obtain j where "j < length (sm_pcs s)" "pc_phase (sm_pcs s ! j) = ph"
      using assms(1) by (auto simp: sm_inv_def)
    moreover from this assms(3) n have "j \<noteq> i" by auto
    ultimately show ?thesis using assms(5) by (intro exI [of _ j]) simp
  qed
  moreover have "pc_phase (sm_pcs t ! j) = ph" if "j < length (sm_pcs t)" "pc_phase (sm_pcs t ! j) \<noteq> Open" for j
    using that assms(1,2,4,5) by (cases "j = i") (auto simp: sm_inv_def)
  moreover have "int (length (sm_pcs t)) < kMaxReaders" using assms(1,5) by (simp add: sm_inv_def)
  moreover have "try_ok (sm_pcs t ! j)" if "j < length (sm_pcs t)" for j
    using that assms(1,2,5,6) by (cases "j = i") (auto simp: sm_inv_def)
  ultimately show ?thesis unfolding sm_inv_def using assms(7-10) by blast
qed

text \<open>The owner of \<open>w_\<close> moves: the phase is that of its new place.\<close>

lemma sm_inv_writer:
  assumes "sm_inv ph s" "i < length (sm_pcs s)" "in_w (sm_pcs s ! i) = 1"
    and "sm_pcs t = (sm_pcs s)[i := p]" "try_ok p" "\<not> sm_fatal t"
    and "total in_w (sm_pcs t) = of_bool (w_locked t)"
    and "readers t = total holding (sm_pcs t) + total queued (sm_pcs t) -
      kMaxReaders * of_bool (pc_phase p \<noteq> Open)"
    and "phase_counts (pc_phase p) t"
  shows "sm_inv (pc_phase p) t"
proof -
  have "pc_phase (sm_pcs s ! j) = Open" if "j < length (sm_pcs s)" "j \<noteq> i" for j
    using that assms(1-3) total_two [of i "sm_pcs s" j in_w] pc_phase_in_w [of "sm_pcs s ! j"]
    by (cases "w_locked s") (auto simp: sm_inv_def)
  then have "pc_phase (sm_pcs t ! j) = pc_phase p" if "j < length (sm_pcs t)" "pc_phase (sm_pcs t ! j) \<noteq> Open" for j
    using that assms(2,4) by (cases "j = i") auto
  moreover have "pc_phase (sm_pcs t ! i) = pc_phase p" "i < length (sm_pcs t)" using assms(2,4) by simp_all
  moreover have "int (length (sm_pcs t)) < kMaxReaders" using assms(1,4) by (simp add: sm_inv_def)
  moreover have "try_ok (sm_pcs t ! j)" if "j < length (sm_pcs t)" for j
    using that assms(1,2,4,5) by (cases "j = i") (auto simp: sm_inv_def)
  ultimately show ?thesis unfolding sm_inv_def using assms(6-9) by blast
qed

text \<open>The owner of \<open>w_\<close> is alone there, so its place gives the phase.\<close>

lemma owner_phase:
  assumes "sm_inv ph s" "i < length (sm_pcs s)" "in_w (sm_pcs s ! i) = 1"
  shows "ph = pc_phase (sm_pcs s ! i)" "w_locked s" "total in_w (sm_pcs s) = 1"
    "total owes_readers (sm_pcs s) = int (owes_readers (sm_pcs s ! i))"
proof -
  have le: "total in_w (sm_pcs s) = of_bool (w_locked s)" using assms(1) by (simp add: sm_inv_def)
  then show w: "w_locked s" "total in_w (sm_pcs s) = 1"
    using total_ge [OF assms(2), of in_w] assms(3) by (cases "w_locked s"; simp)+
  have other: "in_w (sm_pcs s ! j) = 0" if "j < length (sm_pcs s)" "j \<noteq> i" for j
    using that assms(2,3) total_two [of i "sm_pcs s" j in_w] w by auto
  show "ph = pc_phase (sm_pcs s ! i)"
  proof (cases "ph = Open")
    case True
    then show ?thesis using assms(1,2) by (auto simp: sm_inv_def)
  next
    case False
    then obtain j where j: "j < length (sm_pcs s)" "pc_phase (sm_pcs s ! j) = ph"
      using assms(1) by (auto simp: sm_inv_def)
    with False pc_phase_in_w [of "sm_pcs s ! j"] other [of j] have "j = i" by force
    with j show ?thesis by simp
  qed
  have "owes_readers p = 0" if "in_w p = 0" for p using that by (cases p) auto
  then have "total owes_readers ((sm_pcs s)[i := SM_Idle]) = 0"
    using other assms(2) by (simp add: total_0 nth_list_update)
  then show "total owes_readers (sm_pcs s) = int (owes_readers (sm_pcs s ! i))"
    using total_update [OF assms(2), of owes_readers SM_Idle] by simp
qed

lemma reader_sum:
  assumes "sm_inv ph s"
  shows "0 \<le> total holding (sm_pcs s) + total queued (sm_pcs s)"
    and "total holding (sm_pcs s) + total queued (sm_pcs s) < kMaxReaders"
proof -
  have "holding p + queued p \<le> 1" for p by (cases p) auto
  then have "total (\<lambda>p. holding p + queued p) (sm_pcs s) \<le> int (length (sm_pcs s))" by (rule total_le)
  moreover have "total (\<lambda>p. holding p + queued p) xs = total holding xs + total queued xs" for xs
    by (induction xs) (auto simp: total_def)
  ultimately show "total holding (sm_pcs s) + total queued (sm_pcs s) < kMaxReaders"
    using assms by (simp add: sm_inv_def)
  show "0 \<le> total holding (sm_pcs s) + total queued (sm_pcs s)"
    by (intro add_nonneg_nonneg total_nonneg)
qed

lemma sm_inv_start: "int agents < kMaxReaders \<Longrightarrow> sm_inv Open (mk_shared_mutex agents)"
  by (simp add: sm_inv_def mk_shared_mutex_def total_replicate)

text \<open>The agent only moves on: nothing it holds or owes changes.\<close>

lemma sm_inv_same:
  assumes "sm_inv ph s" "i < length (sm_pcs s)" "pc_phase (sm_pcs s ! i) = Open" "pc_phase p = Open"
    and "try_ok p" "holding p = holding (sm_pcs s ! i)" "queued p = queued (sm_pcs s ! i)"
    and "leaving p = leaving (sm_pcs s ! i)" "owes_writer p = owes_writer (sm_pcs s ! i)"
    and "owes_readers p = owes_readers (sm_pcs s ! i)" "in_w p = in_w (sm_pcs s ! i)"
  shows "sm_inv ph (sm_goto i p s)"
proof -
  have "total f ((sm_pcs s)[i := p]) = total f (sm_pcs s)" if "f p = f (sm_pcs s ! i)" for f
    using that total_update [OF assms(2)] by simp
  note same = this [OF assms(6)] this [OF assms(7)] this [OF assms(8)] this [OF assms(9)]
    this [OF assms(10)] this [OF assms(11)]
  have "phase_counts ph (sm_goto i p s)"
    using assms(1) by (cases ph) (simp_all add: sm_inv_def same)
  then show ?thesis
    using assms(1) by (intro sm_inv_reader [OF assms(1-4)]) (simp_all add: sm_inv_def same assms(5))
qed

lemma sm_inv_call:
  assumes "sm_inv ph s" "i < length (sm_pcs s)" "sm_start f (sm_pcs s ! i) = Some p"
  shows "\<exists>ph. sm_inv ph (sm_goto i p s)"
proof (cases "f = WUnlock")
  case True
  then have p: "sm_pcs s ! i = SM_Writer" "p = WU_Add" using assms(3) by (cases "sm_pcs s ! i"; simp)+
  then have "ph = Closed" using owner_phase(1) [OF assms(1,2)] by simp
  then have "sm_inv (pc_phase WU_Add) (sm_goto i p s)"
    using p assms(1)
    by (intro sm_inv_writer [OF assms(1,2)]) (simp_all add: sm_inv_def total_update [OF assms(2)])
  then show ?thesis by blast
next
  case False
  then have "sm_inv ph (sm_goto i p s)"
    using assms(3) by (intro sm_inv_same [OF assms(1,2)]; cases f; cases "sm_pcs s ! i"; force)
  then show ?thesis by blast
qed

lemma writer_step_inv:
  assumes "sm_inv ph s" "i < length (sm_pcs s)" "in_w (sm_pcs s ! i) = 1" "sm_step i refuse s = Some t"
  shows "\<exists>ph. sm_inv ph t"
proof -
  note own = owner_phase [OF assms(1-3)]
  note sum = reader_sum [OF assms(1)]
  note inv = assms(1) [unfolded sm_inv_def]
  note go = sm_inv_writer [OF assms(1-3)]
  note aux = total_update [OF assms(2)]
  note nn = total_nonneg [of holding "sm_pcs s"] total_nonneg [of queued "sm_pcs s"]
    total_nonneg [of leaving "sm_pcs s"] total_nonneg [of owes_writer "sm_pcs s"]
    total_nonneg [of owes_readers "sm_pcs s"]
  have K: "0 < kMaxReaders" by (simp add: kMaxReaders_def)
  show ?thesis
  proof (cases "sm_pcs s ! i")
    case WL_Announce
    then have o: "ph = Open" using own by simp
    have t: "t = sm_goto i (if readers s \<noteq> 0 then WL_Count (readers s) else SM_Writer)
        (s\<lparr>readers := readers s - kMaxReaders\<rparr>)"
      using assms(4) WL_Announce by (simp add: sm_step_def Let_def)
    have "sm_inv (pc_phase (if readers s \<noteq> 0 then WL_Count (readers s) else SM_Writer)) t"
      using o inv own WL_Announce nn unfolding t by (intro go) (auto simp: aux)
    then show ?thesis by blast
  next
    case (WL_Count r)
    then have o: "ph = Counting r" using own by simp
    have t: "t = sm_goto i (if reader_wait s \<noteq> - r then WL_Drain else SM_Writer)
        (s\<lparr>reader_wait := reader_wait s + r\<rparr>)"
      using assms(4) WL_Count by (simp add: sm_step_def Let_def)
    have "sm_inv (pc_phase (if reader_wait s \<noteq> - r then WL_Drain else SM_Writer)) t"
      using o inv own WL_Count nn unfolding t by (intro go) (auto simp: aux)
    then show ?thesis by blast
  next
    case WL_Drain
    then have o: "ph = Draining" using own by simp
    have t: "t = sm_goto i SM_Writer (s\<lparr>writer_sema := writer_sema s - 1\<rparr>)" "writer_sema s \<noteq> 0"
      using assms(4) WL_Drain by (simp_all add: sm_step_def split: if_splits)
    have "reader_wait s = 0" using o inv t(2) nn by (cases "reader_wait s = 0") auto
    then have "sm_inv (pc_phase SM_Writer) t"
      using o inv own WL_Drain nn t(2) unfolding t by (intro go) (auto simp: aux)
    then show ?thesis by blast
  next
    case SM_Writer
    then show ?thesis using assms(4) by (simp add: sm_step_def)
  next
    case WT_Cas
    then have o: "ph = Open" using own by simp
    have t: "t = (if readers s = 0 then sm_goto i SM_Writer (s\<lparr>readers := - kMaxReaders\<rparr>) else sm_goto i WT_Undo s)"
      using assms(4) WT_Cas by (simp add: sm_step_def)
    have "sm_inv (pc_phase (if readers s = 0 then SM_Writer else WT_Undo)) t"
      using o inv own WT_Cas nn unfolding t by (intro go) (auto simp: aux)
    then show ?thesis by blast
  next
    case WT_Undo
    then have o: "ph = Open" using own by simp
    have t: "t = sm_goto i SM_Idle (s\<lparr>w_locked := False\<rparr>)"
      using assms(4) WT_Undo by (simp add: sm_step_def)
    have "sm_inv (pc_phase SM_Idle) t"
      using o inv own WT_Undo unfolding t by (intro go) (auto simp: aux)
    then show ?thesis by blast
  next
    case WU_Add
    then have o: "ph = Closed" using own by simp
    then have r: "readers s < 0" "nat (readers s + kMaxReaders) = nat (total queued (sm_pcs s))"
      using inv sum by simp_all
    have t: "t = sm_goto i (WU_Signal (nat (readers s + kMaxReaders))) (s\<lparr>readers := readers s + kMaxReaders\<rparr>)"
      using assms(4) WU_Add r by (simp add: sm_step_def Let_def)
    have "sm_inv (pc_phase (WU_Signal (nat (readers s + kMaxReaders)))) t"
      using o inv own WU_Add nn r unfolding t by (intro go) (auto simp: aux)
    then show ?thesis by blast
  next
    case (WU_Signal n)
    then have o: "ph = Open" using own by simp
    have t: "t = (case n of 0 \<Rightarrow> sm_goto i WU_Unlock s
        | Suc m \<Rightarrow> sm_goto i (WU_Signal m) (s\<lparr>reader_sema := Suc (reader_sema s)\<rparr>))"
      using assms(4) WU_Signal by (simp add: sm_step_def)
    have "sm_inv (pc_phase (case n of 0 \<Rightarrow> WU_Unlock | Suc m \<Rightarrow> WU_Signal m)) t"
      using o inv own WU_Signal unfolding t by (intro go; cases n) (auto simp: aux)
    then show ?thesis by blast
  next
    case WU_Unlock
    then have o: "ph = Open" using own by simp
    have t: "t = sm_goto i SM_Idle (s\<lparr>w_locked := False\<rparr>)"
      using assms(4) WU_Unlock by (simp add: sm_step_def)
    have "sm_inv (pc_phase SM_Idle) t"
      using o inv own WU_Unlock unfolding t by (intro go) (auto simp: aux)
    then show ?thesis by blast
  qed (use assms(3) in simp_all)
qed

lemma reader_step_inv:
  assumes "sm_inv ph s" "i < length (sm_pcs s)" "in_w (sm_pcs s ! i) = 0" "sm_step i refuse s = Some t"
  shows "\<exists>ph. sm_inv ph t"
proof -
  note sum = reader_sum [OF assms(1)]
  note inv = assms(1) [unfolded sm_inv_def]
  have op: "pc_phase (sm_pcs s ! i) = Open" using assms(3) pc_phase_in_w [of "sm_pcs s ! i"] by force
  note go = sm_inv_reader [OF assms(1,2) op] and same = sm_inv_same [OF assms(1,2) op]
  note aux = total_update [OF assms(2)]
  note nn = total_nonneg [of holding "sm_pcs s"] total_nonneg [of queued "sm_pcs s"]
    total_nonneg [of leaving "sm_pcs s"] total_nonneg [of owes_writer "sm_pcs s"]
    total_nonneg [of owes_readers "sm_pcs s"]
  have ge: "int (f (sm_pcs s ! i)) \<le> total f (sm_pcs s)" for f using assms(2) by (rule total_ge)
  have K: "0 < kMaxReaders" by (simp add: kMaxReaders_def)
  have neg: "readers s < 0 \<longleftrightarrow> ph \<noteq> Open" using inv sum by auto
  show ?thesis
  proof (cases "sm_pcs s ! i")
    case WL_Lock
    then have t: "t = sm_goto i WL_Announce (s\<lparr>w_locked := True\<rparr>)" "\<not> w_locked s"
      using assms(4) by (simp_all add: sm_step_def split: if_splits)
    have "sm_inv ph t" using inv WL_Lock t(2) unfolding t
      by (intro go [of WL_Announce]; cases ph) (simp_all add: aux)
    then show ?thesis by blast
  next
    case WT_Lock
    then have t: "t = (if w_locked s \<or> refuse then sm_goto i SM_Idle s else sm_goto i WT_Cas (s\<lparr>w_locked := True\<rparr>))"
      using assms(4) by (simp add: sm_step_def)
    have "sm_inv ph (sm_goto i SM_Idle s)" using WT_Lock by (intro same) simp_all
    moreover have "sm_inv ph (sm_goto i WT_Cas (s\<lparr>w_locked := True\<rparr>))" if "\<not> w_locked s"
      using inv WT_Lock that by (intro go [of WT_Cas]; cases ph) (simp_all add: aux)
    ultimately show ?thesis unfolding t by (metis (full_types))
  next
    case RL_Add
    then have t: "t = sm_goto i (if readers s < 0 then RL_Wait else SM_Reader) (s\<lparr>readers := readers s + 1\<rparr>)"
      using assms(4) by (simp add: sm_step_def)
    have "sm_inv ph t" using inv RL_Add neg unfolding t
      by (intro go [of "if readers s < 0 then RL_Wait else SM_Reader"]; cases ph) (simp_all add: aux)
    then show ?thesis by blast
  next
    case RL_Wait
    then have t: "t = sm_goto i SM_Reader (s\<lparr>reader_sema := reader_sema s - 1\<rparr>)" "reader_sema s \<noteq> 0"
      using assms(4) by (simp_all add: sm_step_def split: if_splits)
    have "sm_inv ph t" using inv RL_Wait t(2) unfolding t
      by (intro go [of SM_Reader]; cases ph) (simp_all add: aux)
    then show ?thesis by blast
  next
    case RT_Load
    then have t: "t = sm_goto i (if readers s \<ge> 0 then RT_Cas (readers s) else SM_Idle) s"
      using assms(4) by (simp add: sm_step_def)
    have "sm_inv ph t" using RT_Load unfolding t by (intro same) simp_all
    then show ?thesis by blast
  next
    case (RT_Cas c)
    then have t: "t = (if readers s = c \<and> \<not> refuse then sm_goto i SM_Reader (s\<lparr>readers := c + 1\<rparr>)
        else sm_goto i (if readers s \<ge> 0 then RT_Cas (readers s) else SM_Idle) s)"
      using assms(4) by (simp add: sm_step_def)
    have c: "0 \<le> c" using inv assms(2) RT_Cas by force
    show ?thesis
    proof (cases "readers s = c \<and> \<not> refuse")
      case True
      with c neg have "ph = Open" by auto
      then have "sm_inv ph t" using inv RT_Cas True unfolding t
        by (intro go [of SM_Reader]) (simp_all add: aux)
      then show ?thesis by blast
    next
      case False
      then have "t = sm_goto i (if readers s \<ge> 0 then RT_Cas (readers s) else SM_Idle) s" using t by auto
      moreover have "sm_inv ph (sm_goto i (if readers s \<ge> 0 then RT_Cas (readers s) else SM_Idle) s)"
        using RT_Cas by (intro same) simp_all
      ultimately have "sm_inv ph t" by simp
      then show ?thesis by blast
    qed
  next
    case RU_Sub
    have h: "0 < total holding (sm_pcs s)" using ge [of holding] RU_Sub by simp
    have nz: "readers s \<noteq> 0" using h sum neg inv nn(2) by (cases "ph = Open") auto
    have t: "t = sm_goto i (if readers s > 0 then SM_Idle else RU_Count) (s\<lparr>readers := readers s - 1\<rparr>)"
      using assms(4) RU_Sub nz by (cases "readers s > 0") (simp_all add: sm_step_def Let_def)
    have pos: "readers s > 0 \<longleftrightarrow> ph = Open" using h inv sum nn by auto
    have "sm_inv ph t" using inv RU_Sub pos h unfolding t
      by (intro go [of "if readers s > 0 then SM_Idle else RU_Count"]; cases ph) (simp_all add: aux)
    then show ?thesis by blast
  next
    case RU_Count
    have h: "0 < total leaving (sm_pcs s)" using ge [of leaving] RU_Count by simp
    then have t: "t = sm_goto i (if reader_wait s = 1 then RU_Signal else SM_Idle) (s\<lparr>reader_wait := reader_wait s - 1\<rparr>)"
      using assms(4) RU_Count by (auto simp: sm_step_def Let_def)
    have "sm_inv ph t" using inv RU_Count h nn unfolding t
      by (intro go [of "if reader_wait s = 1 then RU_Signal else SM_Idle"]; cases ph) (simp_all add: aux)
    then show ?thesis by blast
  next
    case RU_Signal
    have h: "0 < total owes_writer (sm_pcs s)" using ge [of owes_writer] RU_Signal by simp
    have t: "t = sm_goto i SM_Idle (s\<lparr>writer_sema := Suc (writer_sema s)\<rparr>)"
      using assms(4) RU_Signal by (simp add: sm_step_def)
    have "sm_inv ph t" using inv RU_Signal h unfolding t
      by (intro go [of SM_Idle]; cases ph) (simp_all add: aux)
    then show ?thesis by blast
  qed (use assms(3,4) in \<open>simp_all add: sm_step_def\<close>)
qed


lemma sm_reachable_inv: "sm_reachable s \<Longrightarrow> \<exists>ph. sm_inv ph s"
proof (induction rule: sm_reachable.induct)
  case (step s i refuse t)
  then obtain ph where "sm_inv ph s" by blast
  moreover have "in_w (sm_pcs s ! i) = 0 \<or> in_w (sm_pcs s ! i) = 1" by (cases "sm_pcs s ! i") auto
  ultimately show ?case using step reader_step_inv writer_step_inv by blast
qed (use sm_inv_start sm_inv_call in blast)+

section \<open>Properties\<close>

text \<open>
  C23: Readers and writers exclude each other. With fewer than \<open>kMaxReaders\<close> coroutines, in every
  state that any interleaving of the six operations can reach, a coroutine that holds the write
  lock is the only one that holds the lock in either mode, and no consistency check of \<open>unlock\<close>
  and \<open>unlock_shared\<close> ends the process.
\<close>

theorem shared_mutex_safe:
  assumes "sm_reachable s"
  shows "(\<forall>i < length (sm_pcs s). \<forall>j < length (sm_pcs s). sm_pcs s ! i = SM_Writer \<and>
            (sm_pcs s ! j = SM_Writer \<or> sm_pcs s ! j = SM_Reader) \<longrightarrow> i = j) \<and> \<not> sm_fatal s"
proof -
  obtain ph where inv: "sm_inv ph s" using sm_reachable_inv [OF assms] by blast
  have "i = j" if ij: "i < length (sm_pcs s)" "j < length (sm_pcs s)" "sm_pcs s ! i = SM_Writer"
    "sm_pcs s ! j = SM_Writer \<or> sm_pcs s ! j = SM_Reader" for i j
  proof -
    have own: "ph = Closed" "total in_w (sm_pcs s) = 1"
      using owner_phase [OF inv ij(1)] ij(3) by simp_all
    then have "total holding (sm_pcs s) = 0" using inv by (simp add: sm_inv_def)
    then have "sm_pcs s ! j = SM_Writer" using total_ge [OF ij(2), of holding] ij(4) by auto
    then show ?thesis using total_two [OF ij(1,2), of in_w] ij(3) own by auto
  qed
  with inv show ?thesis by (auto simp: sm_inv_def)
qed

lemma sm_moves:
  assumes "sm_pcs s ! i \<notin> {SM_Idle, SM_Writer, SM_Reader, WL_Lock, WL_Drain, RL_Wait}"
  shows "\<exists>t. sm_step i refuse s = Some t"
  using assms by (cases "sm_pcs s ! i") (auto simp: sm_step_def Let_def)

text \<open>
  The lock cannot deadlock: as long as some coroutine is inside an operation and none merely
  holds the lock, some coroutine can make a step. So the last of the old readers wakes the
  writer, and a writer that leaves lets the readers it kept out and the next writer in.
\<close>

theorem shared_mutex_progress:
  assumes "sm_reachable s" "i < length (sm_pcs s)" "sm_pcs s ! i \<noteq> SM_Idle"
    and "\<And>j. j < length (sm_pcs s) \<Longrightarrow> sm_pcs s ! j \<noteq> SM_Writer \<and> sm_pcs s ! j \<noteq> SM_Reader"
  shows "\<exists>j < length (sm_pcs s). \<exists>t. sm_step j refuse s = Some t"
proof (rule ccontr)
  assume stuck: "\<not> ?thesis"
  obtain ph where inv: "sm_inv ph s" using sm_reachable_inv [OF assms(1)] by blast
  have places: "sm_pcs s ! j \<in> {SM_Idle, WL_Lock, WL_Drain, RL_Wait}" if "j < length (sm_pcs s)" for j
    using that stuck sm_moves [of s j refuse] assms(4) by blast
  have zero: "total f (sm_pcs s) = 0" if "f SM_Idle = 0" "f WL_Lock = 0" "f WL_Drain = 0" "f RL_Wait = 0" for f
  proof -
    have "f (sm_pcs s ! j) = 0" if "j < length (sm_pcs s)" for j
      using places [OF that] \<open>f SM_Idle = 0\<close> \<open>f WL_Lock = 0\<close> \<open>f WL_Drain = 0\<close> \<open>f RL_Wait = 0\<close>
      by auto
    then show ?thesis by (simp add: total_0)
  qed
  have z: "total holding (sm_pcs s) = 0" "total leaving (sm_pcs s) = 0" "total owes_writer (sm_pcs s) = 0"
    "total owes_readers (sm_pcs s) = 0" by (intro zero; simp)+
  have rl: "reader_sema s = 0" if "j < length (sm_pcs s)" "sm_pcs s ! j = RL_Wait" for j
  proof -
    have "sm_step j refuse s = None" using stuck that(1) by (metis not_None_eq)
    then show ?thesis using that(2) by (simp add: sm_step_def split: if_splits)
  qed
  have ph: "ph = Open \<or> ph = Draining"
  proof (rule ccontr)
    assume n: "\<not> ?thesis"
    then obtain j where "j < length (sm_pcs s)" "pc_phase (sm_pcs s ! j) = ph"
      using inv by (auto simp: sm_inv_def)
    with places [of j] n show False by auto
  qed
  have rsema: "reader_sema s = 0"
  proof (rule ccontr)
    assume n: "reader_sema s \<noteq> 0"
    then have "0 < total queued (sm_pcs s)" using inv ph z by (auto simp: sm_inv_def)
    then obtain j where "j < length (sm_pcs s)" "queued (sm_pcs s ! j) \<noteq> 0" using total_pos by blast
    with places [of j] rl [of j] n show False by auto
  qed
  show False
  proof (cases "ph = Open")
    case True
    then have q: "total queued (sm_pcs s) = 0" using inv z rsema by (simp add: sm_inv_def)
    have "in_w (sm_pcs s ! j) = 0" if "j < length (sm_pcs s)" for j
    proof -
      have "sm_pcs s ! j \<noteq> WL_Drain" using inv True that by (fastforce simp: sm_inv_def)
      with places [OF that] show ?thesis by auto
    qed
    then have "total in_w (sm_pcs s) = 0" by (simp add: total_0)
    then have "\<not> w_locked s" using inv by (cases "w_locked s") (simp_all add: sm_inv_def)
    moreover have "sm_pcs s ! i = WL_Lock"
    proof -
      have "sm_pcs s ! i \<noteq> WL_Drain" using inv True assms(2) by (fastforce simp: sm_inv_def)
      moreover have "sm_pcs s ! i \<noteq> RL_Wait" using q assms(2) by (auto simp: total_0)
      ultimately show ?thesis using places [OF assms(2)] assms(3) by auto
    qed
    ultimately show False using stuck assms(2) by (auto simp: sm_step_def)
  next
    case False
    with ph have d: "ph = Draining" by simp
    then obtain j where j: "j < length (sm_pcs s)" "pc_phase (sm_pcs s ! j) = Draining"
      using inv by (auto simp: sm_inv_def)
    then have "sm_pcs s ! j = WL_Drain" using places [of j] by auto
    moreover have "writer_sema s \<noteq> 0" using inv d z rsema by (auto simp: sm_inv_def)
    ultimately show False using stuck j by (auto simp: sm_step_def)
  qed
qed

section \<open>Sample run\<close>

fun sm_run :: "(nat \<times> sm_op option) list \<Rightarrow> shared_mutex \<Rightarrow> shared_mutex option" where
  "sm_run [] s = Some s"
| "sm_run ((i, Some f) # acts) s =
     (if i < length (sm_pcs s)
      then (case sm_start f (sm_pcs s ! i) of None \<Rightarrow> None | Some p \<Rightarrow> sm_run acts (sm_goto i p s))
      else None)"
| "sm_run ((i, None) # acts) s =
     (if i < length (sm_pcs s) \<and> \<not> sm_fatal s
      then (case sm_step i False s of None \<Rightarrow> None | Some t \<Rightarrow> sm_run acts t) else None)"

lemma sm_run_reachable: "sm_run acts s = Some t \<Longrightarrow> sm_reachable s \<Longrightarrow> sm_reachable t"
  by (induction acts s rule: sm_run.induct)
    (auto split: if_splits option.splits intro: sm_reachable.call sm_reachable.step)

text \<open>A reader holds the lock, a writer waits for it, a second reader queues behind the writer.\<close>

definition queue_run :: "(nat \<times> sm_op option) list" where
  "queue_run = [(0, Some RLock), (0, None), (1, Some WLock), (1, None), (1, None), (1, None), (2, Some RLock), (2, None)]"

definition sm_state :: "(nat \<times> sm_op option) list \<Rightarrow> shared_mutex" where
  "sm_state acts = the (sm_run acts (mk_shared_mutex 3))"

lemma sm_state_reachable: "sm_run acts (mk_shared_mutex 3) \<noteq> None \<Longrightarrow> sm_reachable (sm_state acts)"
  using sm_reachable.start [of 3] by (auto simp: sm_state_def kMaxReaders_def intro: sm_run_reachable)

text \<open>The reader has left and the writer owns the lock.\<close>

definition writer_run :: "(nat \<times> sm_op option) list" where
  "writer_run = queue_run @ [(0, Some RUnlock), (0, None), (0, None), (0, None), (1, None)]"

theorem shared_mutex_safe_witness:
  "sm_pcs (sm_state writer_run) = [SM_Idle, SM_Writer, RL_Wait] \<and> \<not> sm_fatal (sm_state writer_run)"
proof -
  have "sm_run writer_run (mk_shared_mutex 3) \<noteq> None" by code_simp
  moreover have "sm_pcs (sm_state writer_run) = [SM_Idle, SM_Writer, RL_Wait]" by code_simp
  ultimately show ?thesis using shared_mutex_safe [OF sm_state_reachable] by blast
qed

definition waking_run :: "(nat \<times> sm_op option) list" where
  "waking_run = queue_run @ [(0, Some RUnlock)]"

theorem shared_mutex_progress_witness:
  "\<exists>j < 3. \<exists>t. sm_step j False (sm_state waking_run) = Some t"
proof -
  have "sm_run waking_run (mk_shared_mutex 3) \<noteq> None" by code_simp
  moreover have pcs: "sm_pcs (sm_state waking_run) = [RU_Sub, WL_Drain, RL_Wait]" by code_simp
  moreover have "sm_pcs (sm_state waking_run) ! j \<noteq> SM_Writer \<and> sm_pcs (sm_state waking_run) ! j \<noteq> SM_Reader"
    if "j < 3" for j
    using that by (auto simp: pcs less_Suc_eq numeral_3_eq_3)
  ultimately show ?thesis
    using shared_mutex_progress [OF sm_state_reachable, of waking_run 1 False] by (simp add: numeral_3_eq_3)
qed

end
