(* ===== verification/Redis_Pool.thy ===== *)
theory Redis_Pool
  imports Redis_Client Usync_Sema
begin

text \<open>
  The connection pool \<open>upool\<close> (\<open>core/uredis.cpp\<close>). Any number of agents call \<open>Acquire\<close>,
  \<open>Release\<close> and \<open>Close\<close>, and the reaper runs beside them. A step of an agent is one section under
  \<open>mtx\<close>, one operation of the permit semaphore (its counter, \<open>sema_refines_counter\<close>), one
  \<open>uconnect\<close> (whose result is an argument, see \<open>redis_uconnect\<close>) or one \<open>uclose\<close>. Connections
  are numbered in the order they are made; \<open>p_uclosed\<close> lists the calls of \<open>uclose\<close>, which frees its
  argument.
\<close>

datatype pool_pc =
    P_Idle
  | A_Start | A_Wait | A_Check | A_Connect | A_Fail | A_Insert nat | P_Hold nat
  | R_Start nat | R_Signal "nat option" | R_Close nat
  | C_Start | C_Signal nat "nat list" | C_Wake "nat list" | C_Close "nat list"
  | V_Check | V_Section

record pool =
  p_max_size :: nat
  p_min_idle :: nat
  p_closed :: bool
  p_pending :: nat
  p_permits :: nat
  p_idle :: "nat list"
  p_all :: "nat list"
  p_broken :: "nat list"
  p_next :: nat
  p_uclosed :: "nat list"
  p_pcs :: "pool_pc list"

definition mk_pool :: "nat \<Rightarrow> nat \<Rightarrow> nat \<Rightarrow> pool" where
  "mk_pool max_size min_idle agents =
     \<lparr>p_max_size = (if max_size = 0 then 1 else max_size), p_min_idle = min_idle, p_closed = False,
      p_pending = 0, p_permits = (if max_size = 0 then 1 else max_size), p_idle = [], p_all = [],
      p_broken = [], p_next = 0, p_uclosed = [], p_pcs = replicate agents P_Idle\<rparr>"

text \<open>What an agent may call; a borrower may also find that its connection broke (\<open>ucommand\<close>).\<close>

datatype pool_op = OpAcquire | OpRelease | OpClose | OpReap

fun pool_start :: "pool_op \<Rightarrow> pool_pc \<Rightarrow> pool_pc option" where
  "pool_start OpAcquire P_Idle = Some A_Start"
| "pool_start OpRelease (P_Hold c) = Some (R_Start c)"
| "pool_start OpClose P_Idle = Some C_Start"
| "pool_start OpReap P_Idle = Some V_Check"
| "pool_start _ _ = None"

definition pool_goto :: "nat \<Rightarrow> pool_pc \<Rightarrow> pool \<Rightarrow> pool" where
  "pool_goto i p s = s\<lparr>p_pcs := (p_pcs s)[i := p]\<rparr>"

definition pool_uclose :: "nat \<Rightarrow> pool \<Rightarrow> pool" where
  "pool_uclose c s = s\<lparr>p_uclosed := c # p_uclosed s\<rparr>"

definition acquire_step :: "nat \<Rightarrow> bool \<Rightarrow> pool \<Rightarrow> pool option" where
  "acquire_step i ok s =
     (case p_pcs s ! i of
        A_Start \<Rightarrow>
          Some (if p_closed s then pool_goto i P_Idle s
                else pool_goto i A_Wait (s\<lparr>p_pending := Suc (p_pending s)\<rparr>))
      | A_Wait \<Rightarrow>
          (if p_permits s = 0 then None
           else Some (pool_goto i A_Check (s\<lparr>p_permits := p_permits s - 1\<rparr>)))
      | A_Check \<Rightarrow>
          (let s' = s\<lparr>p_pending := p_pending s - 1\<rparr> in
           Some (if p_closed s then pool_goto i P_Idle s'
                 else case p_idle s of
                   c # cs \<Rightarrow> pool_goto i (P_Hold c) (s'\<lparr>p_idle := cs\<rparr>)
                 | [] \<Rightarrow> pool_goto i A_Connect s'))
      | A_Connect \<Rightarrow>
          Some (if ok then pool_goto i (A_Insert (p_next s)) (s\<lparr>p_next := Suc (p_next s)\<rparr>)
                else pool_goto i A_Fail s)
      | A_Fail \<Rightarrow> Some (pool_goto i P_Idle (s\<lparr>p_permits := Suc (p_permits s)\<rparr>))
      | A_Insert c \<Rightarrow>
          Some (if p_closed s then pool_goto i A_Fail (pool_uclose c s)
                else pool_goto i (P_Hold c) (s\<lparr>p_all := List.insert c (p_all s)\<rparr>))
      | _ \<Rightarrow> None)"

definition release_step :: "nat \<Rightarrow> pool \<Rightarrow> pool option" where
  "release_step i s =
     (case p_pcs s ! i of
        R_Start c \<Rightarrow>
          Some (if c \<notin> set (p_broken s) \<and> \<not> p_closed s
                then pool_goto i (R_Signal None) (s\<lparr>p_idle := p_idle s @ [c]\<rparr>)
                else pool_goto i (R_Signal (Some c)) (s\<lparr>p_all := removeAll c (p_all s)\<rparr>))
      | R_Signal vic \<Rightarrow>
          Some (pool_goto i (case vic of None \<Rightarrow> P_Idle | Some c \<Rightarrow> R_Close c)
                 (s\<lparr>p_permits := Suc (p_permits s)\<rparr>))
      | R_Close c \<Rightarrow> Some (pool_goto i P_Idle (pool_uclose c s))
      | _ \<Rightarrow> None)"

definition close_step :: "nat \<Rightarrow> pool \<Rightarrow> pool option" where
  "close_step i s =
     (case p_pcs s ! i of
        C_Start \<Rightarrow>
          Some (if p_closed s then pool_goto i P_Idle s
                else pool_goto i (C_Signal (p_pending s) (p_all s))
                       (s\<lparr>p_closed := True, p_all := [], p_idle := []\<rparr>))
      | C_Signal n vs \<Rightarrow>
          Some (case n of 0 \<Rightarrow> pool_goto i (C_Wake vs) s
                | Suc m \<Rightarrow> pool_goto i (C_Signal m vs) (s\<lparr>p_permits := Suc (p_permits s)\<rparr>))
      | C_Wake vs \<Rightarrow> Some (pool_goto i (C_Close vs) s)
      | C_Close [] \<Rightarrow> Some (pool_goto i P_Idle s)
      | C_Close (c # vs) \<Rightarrow> Some (pool_goto i (C_Close vs) (pool_uclose c s))
      | _ \<Rightarrow> None)"

definition reaper_step :: "nat \<Rightarrow> pool \<Rightarrow> pool option" where
  "reaper_step i s =
     (case p_pcs s ! i of
        V_Check \<Rightarrow> Some (pool_goto i (if p_closed s then P_Idle else V_Section) s)
      | V_Section \<Rightarrow>
          Some (case p_idle s of
                  c # cs \<Rightarrow>
                    (if \<not> p_closed s \<and> length (p_idle s) > p_min_idle s
                     then pool_goto i (R_Close c) (s\<lparr>p_idle := cs, p_all := removeAll c (p_all s)\<rparr>)
                     else pool_goto i P_Idle s)
                | [] \<Rightarrow> pool_goto i P_Idle s)
      | _ \<Rightarrow> None)"

definition pool_step :: "nat \<Rightarrow> bool \<Rightarrow> pool \<Rightarrow> pool option" where
  "pool_step i ok s =
     (case p_pcs s ! i of
        R_Start _ \<Rightarrow> release_step i s | R_Signal _ \<Rightarrow> release_step i s | R_Close _ \<Rightarrow> release_step i s
      | C_Start \<Rightarrow> close_step i s | C_Signal _ _ \<Rightarrow> close_step i s
      | C_Wake _ \<Rightarrow> close_step i s | C_Close _ \<Rightarrow> close_step i s
      | V_Check \<Rightarrow> reaper_step i s | V_Section \<Rightarrow> reaper_step i s
      | _ \<Rightarrow> acquire_step i ok s)"

inductive pool_reachable :: "pool \<Rightarrow> bool" where
  start: "pool_reachable (mk_pool max_size min_idle agents)"
| call: "pool_reachable s \<Longrightarrow> i < length (p_pcs s) \<Longrightarrow> pool_start f (p_pcs s ! i) = Some p \<Longrightarrow>
    pool_reachable (pool_goto i p s)"
| breaks: "pool_reachable s \<Longrightarrow> i < length (p_pcs s) \<Longrightarrow> p_pcs s ! i = P_Hold c \<Longrightarrow>
    pool_reachable (s\<lparr>p_broken := c # p_broken s\<rparr>)"
| step: "pool_reachable s \<Longrightarrow> i < length (p_pcs s) \<Longrightarrow> pool_step i ok s = Some t \<Longrightarrow> pool_reachable t"

section \<open>The invariant\<close>

text \<open>Agents that hold a permit, that have or make a connection, that wait for a permit.\<close>

fun permit :: "pool_pc \<Rightarrow> nat" where
  "permit A_Check = 1" | "permit A_Connect = 1" | "permit A_Fail = 1" | "permit (A_Insert _) = 1"
| "permit (P_Hold _) = 1" | "permit (R_Start _) = 1" | "permit (R_Signal _) = 1" | "permit _ = 0"

fun busy :: "pool_pc \<Rightarrow> nat" where
  "busy A_Connect = 1" | "busy (A_Insert _) = 1" | "busy (P_Hold _) = 1" | "busy (R_Start _) = 1"
| "busy _ = 0"

fun await :: "pool_pc \<Rightarrow> nat" where
  "await A_Wait = 1" | "await _ = 0"

fun registered :: "pool_pc \<Rightarrow> nat" where
  "registered A_Wait = 1" | "registered A_Check = 1" | "registered _ = 0"

fun close_signals :: "pool_pc \<Rightarrow> nat" where
  "close_signals (C_Signal n _) = n" | "close_signals _ = 0"

text \<open>The connections an agent borrows, has just made, is about to close.\<close>

fun borrows :: "nat \<Rightarrow> pool_pc \<Rightarrow> nat" where
  "borrows c (P_Hold d) = of_bool (c = d)" | "borrows c (R_Start d) = of_bool (c = d)" | "borrows c _ = 0"

fun made :: "nat \<Rightarrow> pool_pc \<Rightarrow> nat" where
  "made c (A_Insert d) = of_bool (c = d)" | "made c _ = 0"

fun closing :: "nat \<Rightarrow> pool_pc \<Rightarrow> nat" where
  "closing c (R_Signal (Some d)) = of_bool (c = d)" | "closing c (R_Close d) = of_bool (c = d)"
| "closing c (C_Signal _ vs) = count_list vs c" | "closing c (C_Wake vs) = count_list vs c"
| "closing c (C_Close vs) = count_list vs c" | "closing c _ = 0"

definition known :: "pool \<Rightarrow> nat \<Rightarrow> int" where
  "known s c = of_bool (c < p_next s)"

text \<open>While the pool is open, a connection is idle, borrowed, new, about to be closed, or closed.\<close>

definition open_conn :: "pool \<Rightarrow> nat \<Rightarrow> bool" where
  "open_conn s c \<longleftrightarrow>
     int (count_list (p_all s) c) = int (count_list (p_idle s) c) + total (borrows c) (p_pcs s) \<and>
     int (count_list (p_all s) c) + total (made c) (p_pcs s) + total (closing c) (p_pcs s) +
       int (count_list (p_uclosed s) c) = known s c"

text \<open>When it is closed, the connections still borrowed have been closed or are about to be.\<close>

definition closed_conn :: "pool \<Rightarrow> nat \<Rightarrow> bool" where
  "closed_conn s c \<longleftrightarrow>
     total (borrows c) (p_pcs s) + total (made c) (p_pcs s) \<le> known s c \<and>
     total (borrows c) (p_pcs s) \<le> total (closing c) (p_pcs s) + int (count_list (p_uclosed s) c)"

definition open_counts :: "pool \<Rightarrow> bool" where
  "open_counts s \<longleftrightarrow>
     0 < p_max_size s \<and> int (p_permits s) + total permit (p_pcs s) = int (p_max_size s) \<and>
     int (length (p_idle s)) + total busy (p_pcs s) \<le> int (p_max_size s) \<and>
     total close_signals (p_pcs s) = 0"

definition closed_counts :: "pool \<Rightarrow> bool" where
  "closed_counts s \<longleftrightarrow>
     p_idle s = [] \<and> p_all s = [] \<and>
     total await (p_pcs s) \<le> int (p_permits s) + total close_signals (p_pcs s)"

definition pool_inv :: "pool \<Rightarrow> bool" where
  "pool_inv s \<longleftrightarrow>
     int (p_pending s) = total registered (p_pcs s) \<and>
     (if p_closed s then closed_counts s else open_counts s) \<and>
     (\<forall>c. if p_closed s then closed_conn s c else open_conn s c)"

lemmas pool_inv_defs = open_conn_def closed_conn_def open_counts_def closed_counts_def

lemma pool_goto_fields [simp]:
  "p_max_size (pool_goto i p s) = p_max_size s" "p_min_idle (pool_goto i p s) = p_min_idle s"
  "p_closed (pool_goto i p s) = p_closed s" "p_pending (pool_goto i p s) = p_pending s"
  "p_permits (pool_goto i p s) = p_permits s" "p_idle (pool_goto i p s) = p_idle s"
  "p_all (pool_goto i p s) = p_all s" "p_broken (pool_goto i p s) = p_broken s"
  "p_next (pool_goto i p s) = p_next s" "p_uclosed (pool_goto i p s) = p_uclosed s"
  "p_pcs (pool_goto i p s) = (p_pcs s)[i := p]"
  by (simp_all add: pool_goto_def)

lemma pool_uclose_fields [simp]:
  "p_max_size (pool_uclose c s) = p_max_size s" "p_closed (pool_uclose c s) = p_closed s"
  "p_pending (pool_uclose c s) = p_pending s" "p_permits (pool_uclose c s) = p_permits s"
  "p_idle (pool_uclose c s) = p_idle s" "p_all (pool_uclose c s) = p_all s"
  "p_next (pool_uclose c s) = p_next s" "p_uclosed (pool_uclose c s) = c # p_uclosed s"
  "p_pcs (pool_uclose c s) = p_pcs s"
  by (simp_all add: pool_uclose_def)

lemma count_removeAll: "count_list (removeAll c xs) d = (if c = d then 0 else count_list xs d)"
  by (induction xs) auto

lemma pool_inv_start: "pool_inv (mk_pool m k n)"
  by (simp add: pool_inv_def pool_inv_defs mk_pool_def total_replicate known_def)

lemma pool_inv_call:
  assumes "pool_inv s" "i < length (p_pcs s)" "pool_start f (p_pcs s ! i) = Some p"
  shows "pool_inv (pool_goto i p s)"
proof -
  have same: "total g ((p_pcs s)[i := p]) = total g (p_pcs s)" if "g p = g (p_pcs s ! i)" for g
    using total_update [OF assms(2)] that by simp
  have start: "f = OpAcquire \<and> p_pcs s ! i = P_Idle \<and> p = A_Start \<or>
      (\<exists>c. f = OpRelease \<and> p_pcs s ! i = P_Hold c \<and> p = R_Start c) \<or>
      f = OpClose \<and> p_pcs s ! i = P_Idle \<and> p = C_Start \<or> f = OpReap \<and> p_pcs s ! i = P_Idle \<and> p = V_Check"
    using assms(3) by (cases f; cases "p_pcs s ! i") auto
  have "total registered ((p_pcs s)[i := p]) = total registered (p_pcs s)"
    "total await ((p_pcs s)[i := p]) = total await (p_pcs s)"
    "total close_signals ((p_pcs s)[i := p]) = total close_signals (p_pcs s)"
    "total permit ((p_pcs s)[i := p]) = total permit (p_pcs s)"
    "total busy ((p_pcs s)[i := p]) = total busy (p_pcs s)"
    "total (borrows c) ((p_pcs s)[i := p]) = total (borrows c) (p_pcs s)"
    "total (made c) ((p_pcs s)[i := p]) = total (made c) (p_pcs s)"
    "total (closing c) ((p_pcs s)[i := p]) = total (closing c) (p_pcs s)" for c
    by (rule same; use start in auto)+
  note same' = this
  have "closed_conn (pool_goto i p s) c = closed_conn s c" "open_conn (pool_goto i p s) c = open_conn s c" for c
    by (simp_all add: pool_inv_defs same' known_def)
  moreover have "closed_counts (pool_goto i p s) = closed_counts s" "open_counts (pool_goto i p s) = open_counts s"
    by (simp_all add: pool_inv_defs same')
  ultimately show ?thesis using assms(1) same'(1) by (simp add: pool_inv_def)
qed

lemma busy_permit: "busy p \<le> permit p"
  by (cases p) auto

text \<open>What has to be shown of a step in an open and in a closed pool.\<close>

lemma pool_inv_open:
  assumes "pool_inv s" "\<not> p_closed s" "\<not> p_closed t" "int (p_pending t) = total registered (p_pcs t)"
    and "open_counts s \<Longrightarrow> open_counts t" "\<And>c. open_conn s c \<Longrightarrow> open_conn t c"
  shows "pool_inv t"
  using assms by (auto simp: pool_inv_def)

lemma pool_inv_closed:
  assumes "pool_inv s" "p_closed s" "p_closed t" "int (p_pending t) = total registered (p_pcs t)"
    and "closed_counts s \<Longrightarrow> closed_counts t" "\<And>c. closed_conn s c \<Longrightarrow> closed_conn t c"
  shows "pool_inv t"
  using assms by (auto simp: pool_inv_def)

lemma pool_inv_step:
  assumes "pool_inv s" "p_closed t = p_closed s" "int (p_pending t) = total registered (p_pcs t)"
    and "\<not> p_closed s \<Longrightarrow> open_counts s \<Longrightarrow> open_counts t" "p_closed s \<Longrightarrow> closed_counts s \<Longrightarrow> closed_counts t"
    and "\<And>c. \<not> p_closed s \<Longrightarrow> open_conn s c \<Longrightarrow> open_conn t c"
    and "\<And>c. p_closed s \<Longrightarrow> closed_conn s c \<Longrightarrow> closed_conn t c"
  shows "pool_inv t"
  using assms by (auto simp: pool_inv_def)

lemma acquire_step_inv:
  assumes "pool_inv s" "i < length (p_pcs s)" "acquire_step i ok s = Some t"
  shows "pool_inv t"
proof -
  note aux = total_update [OF assms(2)] pool_inv_defs
  have pend: "int (p_pending s) = total registered (p_pcs s)" using assms(1) by (simp add: pool_inv_def)
  have ge: "int (f (p_pcs s ! i)) \<le> total f (p_pcs s)" for f using assms(2) by (rule total_ge)
  note step = assms(3) [unfolded acquire_step_def]
  note go = pool_inv_step [OF assms(1)]
  show ?thesis
  proof (cases "p_pcs s ! i")
    case A_Start
    then have t: "t = (if p_closed s then pool_goto i P_Idle s
        else pool_goto i A_Wait (s\<lparr>p_pending := Suc (p_pending s)\<rparr>))"
      using step by simp
    show ?thesis using pend A_Start unfolding t by (intro go) (auto simp: aux known_def)
  next
    case A_Wait
    then have t: "t = pool_goto i A_Check (s\<lparr>p_permits := p_permits s - 1\<rparr>)" "p_permits s \<noteq> 0"
      using step by (simp_all split: if_splits)
    show ?thesis using pend A_Wait t(2) unfolding t(1) by (intro go) (auto simp: aux known_def)
  next
    case A_Check
    have p: "1 \<le> p_pending s" using ge [of registered] pend A_Check by simp
    have b: "total busy (p_pcs s) + 1 \<le> total permit (p_pcs s)"
    proof -
      have "total busy ((p_pcs s)[i := P_Idle]) \<le> total permit ((p_pcs s)[i := P_Idle])"
        by (intro total_mono busy_permit)
      then show ?thesis using A_Check by (simp add: aux)
    qed
    have t: "t = (if p_closed s then pool_goto i P_Idle (s\<lparr>p_pending := p_pending s - 1\<rparr>)
        else case p_idle s of
          c # cs \<Rightarrow> pool_goto i (P_Hold c) (s\<lparr>p_pending := p_pending s - 1, p_idle := cs\<rparr>)
        | [] \<Rightarrow> pool_goto i A_Connect (s\<lparr>p_pending := p_pending s - 1\<rparr>))"
      using A_Check step by (auto simp: Let_def split: list.splits if_splits)
    show ?thesis
    proof (cases "p_closed s")
      case True
      then show ?thesis using pend A_Check p unfolding t by (intro go) (auto simp: aux known_def)
    next
      case False
      then show ?thesis using pend A_Check p b unfolding t
        by (cases "p_idle s"; intro go) (auto simp: aux known_def)
    qed
  next
    case A_Connect
    then have t: "t = (if ok then pool_goto i (A_Insert (p_next s)) (s\<lparr>p_next := Suc (p_next s)\<rparr>)
        else pool_goto i A_Fail s)"
      using step by simp
    show ?thesis using pend A_Connect unfolding t by (intro go) (auto simp: aux known_def less_Suc_eq)
  next
    case A_Fail
    then have t: "t = pool_goto i P_Idle (s\<lparr>p_permits := Suc (p_permits s)\<rparr>)"
      using step by simp
    show ?thesis using pend A_Fail unfolding t by (intro go) (auto simp: aux known_def)
  next
    case (A_Insert c)
    then have t: "t = (if p_closed s then pool_goto i A_Fail (pool_uclose c s)
        else pool_goto i (P_Hold c) (s\<lparr>p_all := List.insert c (p_all s)\<rparr>))"
      using step by simp
    have "List.insert c (p_all s) = c # p_all s" if o: "\<not> p_closed s"
    proof -
      have "open_conn s c" using assms(1) o by (simp add: pool_inv_def)
      then have "count_list (p_all s) c = 0"
        using ge [of "made c"] A_Insert total_nonneg [of "closing c" "p_pcs s"]
        by (cases "c < p_next s") (auto simp: open_conn_def known_def)
      then show ?thesis by (simp add: count_list_0_iff)
    qed
    then show ?thesis using pend A_Insert unfolding t by (intro go) (auto simp: aux known_def)
  qed (use step in simp_all)
qed

lemma release_step_inv:
  assumes "pool_inv s" "i < length (p_pcs s)" "release_step i s = Some t"
  shows "pool_inv t"
proof -
  note aux = total_update [OF assms(2)] pool_inv_defs
  have pend: "int (p_pending s) = total registered (p_pcs s)" using assms(1) by (simp add: pool_inv_def)
  have ge: "int (f (p_pcs s ! i)) \<le> total f (p_pcs s)" for f using assms(2) by (rule total_ge)
  note step = assms(3) [unfolded release_step_def]
  note go = pool_inv_step [OF assms(1)]
  show ?thesis
  proof (cases "p_pcs s ! i")
    case (R_Start c)
    then have t: "t = (if c \<notin> set (p_broken s) \<and> \<not> p_closed s
        then pool_goto i (R_Signal None) (s\<lparr>p_idle := p_idle s @ [c]\<rparr>)
        else pool_goto i (R_Signal (Some c)) (s\<lparr>p_all := removeAll c (p_all s)\<rparr>))"
      using step by simp
    have n: "count_list (p_all s) c = 1 \<and> count_list (p_idle s) c = 0 \<and> total (borrows c) (p_pcs s) = 1"
      if o: "\<not> p_closed s"
    proof -
      have "open_conn s c" using assms(1) o by (simp add: pool_inv_def)
      then show ?thesis
        using ge [of "borrows c"] R_Start total_nonneg [of "closing c" "p_pcs s"] total_nonneg [of "made c" "p_pcs s"]
        by (cases "c < p_next s") (auto simp: open_conn_def known_def)
    qed
    show ?thesis using pend R_Start n unfolding t
      by (intro go) (auto simp: aux known_def count_removeAll)
  next
    case (R_Signal vic)
    then have t: "t = pool_goto i (case vic of None \<Rightarrow> P_Idle | Some c \<Rightarrow> R_Close c) (s\<lparr>p_permits := Suc (p_permits s)\<rparr>)"
      using step by simp
    show ?thesis using pend R_Signal unfolding t
      by (cases vic; intro go) (auto simp: aux known_def)
  next
    case (R_Close c)
    then have t: "t = pool_goto i P_Idle (pool_uclose c s)" using step by simp
    show ?thesis using pend R_Close unfolding t by (intro go) (auto simp: aux known_def)
  qed (use step in simp_all)
qed

lemma close_step_inv:
  assumes "pool_inv s" "i < length (p_pcs s)" "close_step i s = Some t"
  shows "pool_inv t"
proof -
  note aux = total_update [OF assms(2)] pool_inv_defs
  have pend: "int (p_pending s) = total registered (p_pcs s)" using assms(1) by (simp add: pool_inv_def)
  note step = assms(3) [unfolded close_step_def]
  note go = pool_inv_step [OF assms(1)]
  show ?thesis
  proof (cases "p_pcs s ! i")
    case C_Start
    then have t: "t = (if p_closed s then pool_goto i P_Idle s
        else pool_goto i (C_Signal (p_pending s) (p_all s)) (s\<lparr>p_closed := True, p_all := [], p_idle := []\<rparr>))"
      using step by simp
    show ?thesis
    proof (cases "p_closed s")
      case True
      then show ?thesis using pend C_Start unfolding t by (intro go) (auto simp: aux known_def)
    next
      case False
      have "await p \<le> registered p" for p by (cases p) auto
      then have "total await (p_pcs s) \<le> total registered (p_pcs s)" by (rule total_mono)
      then have "closed_counts t"
        using pend C_Start False total_nonneg [of close_signals "p_pcs s"] unfolding t by (simp add: aux)
      moreover have "closed_conn t c" for c
      proof -
        have "open_conn s c" using assms(1) False by (simp add: pool_inv_def)
        then show ?thesis
          using C_Start False total_nonneg [of "closing c" "p_pcs s"] unfolding t
          by (simp add: aux known_def)
      qed
      ultimately show ?thesis using pend C_Start False unfolding t by (simp add: pool_inv_def aux)
    qed
  next
    case (C_Signal n vs)
    then have t: "t = (case n of 0 \<Rightarrow> pool_goto i (C_Wake vs) s
        | Suc m \<Rightarrow> pool_goto i (C_Signal m vs) (s\<lparr>p_permits := Suc (p_permits s)\<rparr>))"
      using step by simp
    have "n = 0" if "open_counts s" using that total_ge [OF assms(2), of close_signals] C_Signal
      by (simp add: open_counts_def)
    then show ?thesis using pend C_Signal unfolding t by (cases n; intro go) (auto simp: aux known_def)
  next
    case (C_Wake vs)
    then have t: "t = pool_goto i (C_Close vs) s" using step by simp
    show ?thesis using pend C_Wake unfolding t by (intro go) (auto simp: aux known_def)
  next
    case (C_Close vs)
    then have t: "t = (case vs of [] \<Rightarrow> pool_goto i P_Idle s | c # cs \<Rightarrow> pool_goto i (C_Close cs) (pool_uclose c s))"
      using step by (cases vs) simp_all
    show ?thesis using pend C_Close unfolding t by (cases vs; intro go) (auto simp: aux known_def)
  qed (use step in simp_all)
qed

lemma reaper_step_inv:
  assumes "pool_inv s" "i < length (p_pcs s)" "reaper_step i s = Some t"
  shows "pool_inv t"
proof -
  note aux = total_update [OF assms(2)] pool_inv_defs
  have pend: "int (p_pending s) = total registered (p_pcs s)" using assms(1) by (simp add: pool_inv_def)
  note step = assms(3) [unfolded reaper_step_def]
  note go = pool_inv_step [OF assms(1)]
  show ?thesis
  proof (cases "p_pcs s ! i")
    case V_Check
    then have t: "t = pool_goto i (if p_closed s then P_Idle else V_Section) s" using step by simp
    show ?thesis using pend V_Check unfolding t by (intro go) (auto simp: aux known_def)
  next
    case V_Section
    have stay: "pool_inv (pool_goto i P_Idle s)" using pend V_Section by (intro go) (auto simp: aux known_def)
    show ?thesis
    proof (cases "p_idle s")
      case Nil
      then show ?thesis using stay V_Section step by simp
    next
      case (Cons c cs)
      show ?thesis
      proof (cases "\<not> p_closed s \<and> length (p_idle s) > p_min_idle s")
        case True
        then have t: "t = pool_goto i (R_Close c) (s\<lparr>p_idle := cs, p_all := removeAll c (p_all s)\<rparr>)"
          using step V_Section Cons by simp
        have "open_conn s c" using assms(1) True by (simp add: pool_inv_def)
        then have "count_list (p_all s) c = 1 \<and> count_list cs c = 0 \<and> total (borrows c) (p_pcs s) = 0"
          using Cons total_nonneg [of "closing c" "p_pcs s"] total_nonneg [of "made c" "p_pcs s"]
            total_nonneg [of "borrows c" "p_pcs s"]
          by (cases "c < p_next s") (auto simp: open_conn_def known_def)
        then show ?thesis using pend V_Section True Cons unfolding t
          by (intro go) (auto simp: aux known_def count_removeAll)
      next
        case False
        then show ?thesis using stay V_Section step Cons by (simp split: if_splits)
      qed
    qed
  qed (use step in simp_all)
qed

lemma pool_step_inv: "pool_inv s \<Longrightarrow> i < length (p_pcs s) \<Longrightarrow> pool_step i ok s = Some t \<Longrightarrow> pool_inv t"
  using acquire_step_inv [of s i ok t] release_step_inv [of s i t] close_step_inv [of s i t]
    reaper_step_inv [of s i t]
  by (cases "p_pcs s ! i") (simp_all add: pool_step_def)

lemma pool_reachable_inv: "pool_reachable s \<Longrightarrow> pool_inv s"
proof (induction rule: pool_reachable.induct)
  case (breaks s i c)
  let ?t = "s\<lparr>p_broken := c # p_broken s\<rparr>"
  have "open_conn ?t d = open_conn s d" "closed_conn ?t d = closed_conn s d" for d
    by (simp_all add: pool_inv_defs known_def)
  moreover have "open_counts ?t = open_counts s" "closed_counts ?t = closed_counts s"
    by (simp_all add: pool_inv_defs)
  ultimately show ?case using breaks by (simp add: pool_inv_def)
qed (auto intro: pool_inv_start pool_inv_call pool_step_inv)

section \<open>Properties\<close>

fun held :: "pool_pc \<Rightarrow> nat option" where
  "held (P_Hold c) = Some c" | "held (R_Start c) = Some c" | "held _ = None"

lemma pool_inv_lends:
  assumes "pool_inv s" "\<not> p_closed s"
  shows "int (length (p_idle s)) + total busy (p_pcs s) \<le> int (p_max_size s) \<and>
    (\<forall>i < length (p_pcs s). \<forall>j < length (p_pcs s). \<forall>c.
       held (p_pcs s ! i) = Some c \<longrightarrow>
         (held (p_pcs s ! j) = Some c \<longrightarrow> i = j) \<and> c \<notin> set (p_idle s) \<and> c \<notin> set (p_uclosed s) \<and>
         closing c (p_pcs s ! j) = 0)"
proof -
  note inv = assms(1)
  have h: "held p = Some c \<longleftrightarrow> borrows c p = 1" for p c by (cases p) auto
  have "(held (p_pcs s ! j) = Some c \<longrightarrow> i = j) \<and> c \<notin> set (p_idle s) \<and> c \<notin> set (p_uclosed s) \<and>
      closing c (p_pcs s ! j) = 0"
    if ij: "i < length (p_pcs s)" "j < length (p_pcs s)" "held (p_pcs s ! i) = Some c" for i j c
  proof -
    have o: "open_conn s c" using inv assms(2) by (simp add: pool_inv_def)
    have b: "1 \<le> total (borrows c) (p_pcs s)" using total_ge [OF ij(1), of "borrows c"] ij(3) h by simp
    have known: "known s c \<le> 1" by (simp add: known_def)
    have n: "count_list (p_idle s) c = 0" "count_list (p_uclosed s) c = 0"
      "total (closing c) (p_pcs s) = 0" "total (borrows c) (p_pcs s) = 1"
      using o b known total_nonneg [of "closing c" "p_pcs s"] total_nonneg [of "made c" "p_pcs s"]
      unfolding open_conn_def by linarith+
    moreover have "i = j" if "held (p_pcs s ! j) = Some c"
      using total_two [OF ij(1,2), of "borrows c"] n(4) ij(3) that h by auto
    ultimately show ?thesis using ij(2) by (auto simp: count_list_0_iff total_0)
  qed
  moreover have "int (length (p_idle s)) + total busy (p_pcs s) \<le> int (p_max_size s)"
    using inv assms(2) by (simp add: pool_inv_def open_counts_def)
  ultimately show ?thesis by blast
qed

text \<open>
  C20: While the pool is open it keeps its promises in every interleaving: the connections that
  exist, idle ones and those of borrowers together, are at most \<open>max_size\<close>; no connection is lent
  to two borrowers; and a borrowed connection is neither idle nor closed nor about to be closed.
\<close>

theorem pool_lends_safely:
  assumes "pool_reachable s" "\<not> p_closed s"
  shows "int (length (p_idle s)) + total busy (p_pcs s) \<le> int (p_max_size s) \<and>
    (\<forall>i < length (p_pcs s). \<forall>j < length (p_pcs s). \<forall>c.
       held (p_pcs s ! i) = Some c \<longrightarrow>
         (held (p_pcs s ! j) = Some c \<longrightarrow> i = j) \<and> c \<notin> set (p_idle s) \<and> c \<notin> set (p_uclosed s) \<and>
         closing c (p_pcs s ! j) = 0)"
  by (rule pool_inv_lends [OF pool_reachable_inv [OF assms(1)] assms(2)])

lemma pool_moves:
  "p_pcs s ! i \<noteq> P_Idle \<Longrightarrow> held (p_pcs s ! i) = None \<or> (\<exists>c. p_pcs s ! i = R_Start c) \<Longrightarrow>
   await (p_pcs s ! i) = 0 \<Longrightarrow> \<exists>t. pool_step i ok s = Some t"
  by (cases "p_pcs s ! i")
    (auto simp: pool_step_def acquire_step_def release_step_def close_step_def reaper_step_def Let_def
      split: list.splits nat.splits)

lemma pool_inv_moves:
  assumes "pool_inv s" "i < length (p_pcs s)" "p_pcs s ! i \<noteq> P_Idle"
    and "\<And>j c. j < length (p_pcs s) \<Longrightarrow> p_pcs s ! j \<noteq> P_Hold c"
  shows "\<exists>j < length (p_pcs s). \<exists>t. pool_step j ok s = Some t"
proof (cases "await (p_pcs s ! i) = 0")
  case True
  have "held (p_pcs s ! i) = None \<or> (\<exists>c. p_pcs s ! i = R_Start c)"
    using assms(2,4) by (cases "p_pcs s ! i") auto
  with pool_moves [OF assms(3) this True] assms(2) show ?thesis by blast
next
  case False
  then have w: "p_pcs s ! i = A_Wait" by (cases "p_pcs s ! i") auto
  show ?thesis
  proof (cases "p_permits s = 0")
    case True
    note inv = assms(1)
    have "1 \<le> total await (p_pcs s)" using total_ge [OF assms(2), of await] w by simp
    then have "0 < total permit (p_pcs s) \<or> 0 < total close_signals (p_pcs s)"
      using inv True by (auto simp: pool_inv_def pool_inv_defs split: if_splits)
    then obtain j where j: "j < length (p_pcs s)" "permit (p_pcs s ! j) \<noteq> 0 \<or> close_signals (p_pcs s ! j) \<noteq> 0"
      using total_pos by blast
    then have "p_pcs s ! j \<noteq> P_Idle" "held (p_pcs s ! j) = None \<or> (\<exists>c. p_pcs s ! j = R_Start c)"
      "await (p_pcs s ! j) = 0" using assms(4) by (cases "p_pcs s ! j"; auto)+
    with pool_moves [OF this] j(1) show ?thesis by blast
  next
    case False
    then show ?thesis using w assms(2) by (auto simp: pool_step_def acquire_step_def)
  qed
qed

text \<open>
  C31: Who waits in the pool, and for what. An agent inside \<open>Acquire\<close>, \<open>Release\<close>, \<open>Close\<close> or a round of
  the reaper can always make its next step, with one exception: an \<open>Acquire\<close> that waits for a permit.
  While the pool is open it waits only when all \<open>max_size\<close> permits are out, with agents that borrow a
  connection or are about to make a step. Once the pool is closed there are at least as many permits,
  or signals that the running \<open>Close\<close> has still to give, as waiting agents: \<open>Close\<close> wakes every waiting
  \<open>Acquire\<close>, which then returns without a connection. (An agent that keeps its connection for ever
  can make the others wait for ever.)
\<close>

theorem pool_never_hangs:
  assumes "pool_reachable s" "i < length (p_pcs s)" "p_pcs s ! i \<noteq> P_Idle" "\<And>c. p_pcs s ! i \<noteq> P_Hold c"
  shows "(p_pcs s ! i \<noteq> A_Wait \<longrightarrow> (\<exists>t. pool_step i ok s = Some t)) \<and>
    (p_pcs s ! i = A_Wait \<longrightarrow> \<not> p_closed s \<longrightarrow> pool_step i ok s = None \<longrightarrow>
       total permit (p_pcs s) = int (p_max_size s) \<and>
       (\<exists>j < length (p_pcs s). permit (p_pcs s ! j) = 1 \<and> ((\<exists>c. p_pcs s ! j = P_Hold c) \<or> (\<exists>t. pool_step j ok s = Some t)))) \<and>
    (p_closed s \<longrightarrow> total await (p_pcs s) \<le> int (p_permits s) + total close_signals (p_pcs s)) \<and>
    (p_pcs s ! i = A_Wait \<longrightarrow> p_closed s \<longrightarrow>
       (if p_permits s = 0
        then \<exists>j < length (p_pcs s). 0 < close_signals (p_pcs s ! j) \<and> (\<exists>t. pool_step j ok s = Some t)
        else \<exists>t u. pool_step i ok s = Some t \<and> pool_step i ok t = Some u \<and> p_pcs u ! i = P_Idle))"
proof -
  have inv: "pool_inv s" by (rule pool_reachable_inv [OF assms(1)])
  have moves: "\<exists>t. pool_step j ok s = Some t" if "p_pcs s ! j \<noteq> P_Idle" "p_pcs s ! j \<noteq> A_Wait" "\<And>c. p_pcs s ! j \<noteq> P_Hold c" for j
    by (rule pool_moves) (use that in \<open>cases "p_pcs s ! j"; auto\<close>)+
  have out: "total permit (p_pcs s) = int (p_max_size s) \<and>
       (\<exists>j < length (p_pcs s). permit (p_pcs s ! j) = 1 \<and> ((\<exists>c. p_pcs s ! j = P_Hold c) \<or> (\<exists>t. pool_step j ok s = Some t)))"
    if "p_pcs s ! i = A_Wait" "\<not> p_closed s" "pool_step i ok s = None"
  proof -
    have "p_permits s = 0" using that by (simp add: pool_step_def acquire_step_def split: if_splits)
    then have all: "total permit (p_pcs s) = int (p_max_size s)" "0 < p_max_size s"
      using inv that(2) by (simp_all add: pool_inv_def open_counts_def)
    then obtain j where j: "j < length (p_pcs s)" "permit (p_pcs s ! j) \<noteq> 0" using total_pos [of permit "p_pcs s"] by auto
    then have "permit (p_pcs s ! j) = 1" "p_pcs s ! j \<noteq> P_Idle" "p_pcs s ! j \<noteq> A_Wait" by (cases "p_pcs s ! j"; auto)+
    with all j moves [of j] show ?thesis by blast
  qed
  have enough: "p_closed s \<Longrightarrow> total await (p_pcs s) \<le> int (p_permits s) + total close_signals (p_pcs s)"
    using inv by (simp add: pool_inv_def closed_counts_def)
  have signals: "\<exists>j < length (p_pcs s). 0 < close_signals (p_pcs s ! j) \<and> (\<exists>t. pool_step j ok s = Some t)"
    if "p_pcs s ! i = A_Wait" "p_closed s" "p_permits s = 0"
  proof -
    have "1 \<le> total await (p_pcs s)" using total_ge [OF assms(2), of await] that(1) by simp
    then have "0 < total close_signals (p_pcs s)" using enough [OF that(2)] that(3) by simp
    then obtain j where j: "j < length (p_pcs s)" "0 < close_signals (p_pcs s ! j)" using total_pos by auto
    then have "p_pcs s ! j \<noteq> P_Idle" "p_pcs s ! j \<noteq> A_Wait" "\<And>c. p_pcs s ! j \<noteq> P_Hold c" by (cases "p_pcs s ! j"; auto)+
    then show ?thesis using j moves by blast
  qed
  have "\<exists>t u. pool_step i ok s = Some t \<and> pool_step i ok t = Some u \<and> p_pcs u ! i = P_Idle"
    if "p_pcs s ! i = A_Wait" "p_closed s" "p_permits s \<noteq> 0"
    using that assms(2) by (simp add: pool_step_def acquire_step_def Let_def)
  with moves [OF assms(3)] out enough signals assms(4) show ?thesis by simp
qed

text \<open>
  \<open>Close\<close> closes borrowed connections under their borrowers' feet. In every reachable state of
  a closed pool, a connection that is still borrowed has been closed or is in the hands of an
  agent that will close it, and the \<open>Release\<close> of its borrower, which reads the freed object first,
  closes it once more.
\<close>

theorem pool_close_frees_borrowed:
  assumes "pool_reachable s" "p_closed s" "i < length (p_pcs s)" "p_pcs s ! i = R_Start c"
  shows "(c \<in> set (p_uclosed s) \<or> (\<exists>j < length (p_pcs s). closing c (p_pcs s ! j) > 0)) \<and>
    pool_step i ok s = Some (pool_goto i (R_Signal (Some c)) s)"
proof -
  have inv: "pool_inv s" by (rule pool_reachable_inv [OF assms(1)])
  then have "closed_conn s c" "p_all s = []" using assms(2) by (simp_all add: pool_inv_def closed_counts_def)
  moreover have "1 \<le> total (borrows c) (p_pcs s)" using total_ge [OF assms(3), of "borrows c"] assms(4) by simp
  ultimately have "0 < total (closing c) (p_pcs s) \<or> count_list (p_uclosed s) c \<noteq> 0"
    by (auto simp: closed_conn_def)
  then have "c \<in> set (p_uclosed s) \<or> (\<exists>j < length (p_pcs s). closing c (p_pcs s ! j) > 0)"
    using total_pos [of "closing c" "p_pcs s"] by (auto simp: count_list_0_iff)
  moreover have "pool_step i ok s = Some (pool_goto i (R_Signal (Some c)) s)"
    using assms(2,4) \<open>p_all s = []\<close> by (simp add: pool_step_def release_step_def pool_goto_def)
  ultimately show ?thesis by blast
qed

section \<open>Sample runs\<close>

fun pool_run :: "(nat \<times> pool_op option) list \<Rightarrow> pool \<Rightarrow> pool option" where
  "pool_run [] s = Some s"
| "pool_run ((i, Some f) # acts) s =
     (if i < length (p_pcs s)
      then (case pool_start f (p_pcs s ! i) of None \<Rightarrow> None | Some p \<Rightarrow> pool_run acts (pool_goto i p s))
      else None)"
| "pool_run ((i, None) # acts) s =
     (if i < length (p_pcs s)
      then (case pool_step i True s of None \<Rightarrow> None | Some t \<Rightarrow> pool_run acts t) else None)"

lemma pool_run_reachable: "pool_run acts s = Some t \<Longrightarrow> pool_reachable s \<Longrightarrow> pool_reachable t"
  by (induction acts s rule: pool_run.induct)
    (auto split: if_splits option.splits intro: pool_reachable.call pool_reachable.step)

definition pool_state :: "(nat \<times> pool_op option) list \<Rightarrow> pool" where
  "pool_state acts = the (pool_run acts (mk_pool 1 0 3))"

lemma pool_state_reachable: "pool_run acts (mk_pool 1 0 3) \<noteq> None \<Longrightarrow> pool_reachable (pool_state acts)"
  by (auto simp: pool_state_def intro: pool_run_reachable pool_reachable.start)

text \<open>One agent borrows the only connection, a second one waits for it.\<close>

definition borrow_run :: "(nat \<times> pool_op option) list" where
  "borrow_run = (0, Some OpAcquire) # replicate 5 (0, None) @ [(1, Some OpAcquire), (1, None)]"

definition closing_run :: "(nat \<times> pool_op option) list" where
  "closing_run = borrow_run @ [(2, Some OpClose), (2, None), (0, Some OpRelease)]"

theorem pool_lends_safely_witness:
  "held (p_pcs (pool_state borrow_run) ! 0) = Some 0 \<and> p_pcs (pool_state borrow_run) ! 1 = A_Wait \<and>
   0 \<notin> set (p_uclosed (pool_state borrow_run))"
proof -
  have "pool_run borrow_run (mk_pool 1 0 3) \<noteq> None" "\<not> p_closed (pool_state borrow_run)" by code_simp+
  moreover have pcs: "p_pcs (pool_state borrow_run) = [P_Hold 0, A_Wait, P_Idle]" by code_simp
  moreover from calculation have "held (p_pcs (pool_state borrow_run) ! 0) = Some 0" by simp
  ultimately have "0 \<notin> set (p_uclosed (pool_state borrow_run))"
    using pool_lends_safely [OF pool_state_reachable, of borrow_run] by (metis length_greater_0_conv list.distinct(1))
  with pcs show ?thesis by simp
qed

lemma closing_state:
  "pool_run closing_run (mk_pool 1 0 3) \<noteq> None" "p_closed (pool_state closing_run)"
  "p_pcs (pool_state closing_run) = [R_Start 0, A_Wait, C_Signal 1 [0]]"
  by code_simp+

theorem pool_never_hangs_witness:
  "p_permits (pool_state closing_run) = 0 \<and> p_pcs (pool_state closing_run) ! 1 = A_Wait \<and>
   (\<exists>j < 3. 0 < close_signals (p_pcs (pool_state closing_run) ! j) \<and> (\<exists>t. pool_step j True (pool_state closing_run) = Some t))"
proof -
  have "p_permits (pool_state closing_run) = 0" "p_pcs (pool_state closing_run) ! 1 = A_Wait" by code_simp+
  then show ?thesis
    using pool_never_hangs [OF pool_state_reachable [OF closing_state(1)], of 1 True] closing_state
    by (simp add: numeral_3_eq_3)
qed

theorem pool_close_frees_borrowed_witness:
  "\<exists>j < 3. closing 0 (p_pcs (pool_state closing_run) ! j) > 0"
proof -
  have "p_uclosed (pool_state closing_run) = []" by code_simp
  then show ?thesis
    using pool_close_frees_borrowed [OF pool_state_reachable [OF closing_state(1)] closing_state(2), of 0 0 True]
    by (simp add: closing_state numeral_3_eq_3)
qed

end
