(* ===== verification/Redis_Lua.thy ===== *)
theory Redis_Lua
  imports Uco_Strings
begin

text \<open>
  The Lua scripts that the program hands to Redis (\<open>core/uredis.cpp\<close>) are text. This theory reads
  such a text and runs it, for the part of the language and the commands of Redis that the scripts
  use: \<open>return\<close>, \<open>if .. == .. then .. else .. end\<close>, numbers, quoted strings, \<open>KEYS\<close>, \<open>ARGV\<close> and
  \<open>redis.call\<close> of \<open>get\<close>, \<open>del\<close> and \<open>pexpire\<close>. So what a script does follows from its text. The keys
  of the server are a map from names to values; how long a key lives is left out.
\<close>

section \<open>Reading a script\<close>

datatype lua_token =
    T_WORD string | T_INT nat | T_TEXT string | T_LP | T_RP | T_LB | T_RB | T_COMMA | T_DOT | T_EQ

definition lua_quote :: char where
  "lua_quote = CHR 0x27"

definition is_word_char :: "char \<Rightarrow> bool" where
  "is_word_char c \<longleftrightarrow> 65 \<le> byte c \<and> byte c \<le> 90 \<or> 97 \<le> byte c \<and> byte c \<le> 122 \<or> c = CHR ''_''"

definition lua_sign :: "char \<Rightarrow> lua_token option" where
  "lua_sign c =
     (if c = CHR ''('' then Some T_LP else if c = CHR '')'' then Some T_RP
      else if c = CHR ''['' then Some T_LB else if c = CHR '']'' then Some T_RB
      else if c = CHR '','' then Some T_COMMA else if c = CHR ''.'' then Some T_DOT else None)"

function lua_lex :: "string \<Rightarrow> lua_token list option" where
  "lua_lex [] = Some []"
| "lua_lex (c # cs) =
     (if c = CHR '' '' then lua_lex cs
      else if is_word_char c
      then map_option (\<lambda>ts. T_WORD (c # takeWhile is_word_char cs) # ts) (lua_lex (dropWhile is_word_char cs))
      else if is_digit c
      then map_option (\<lambda>ts. T_INT (dec_val (c # takeWhile is_digit cs)) # ts) (lua_lex (dropWhile is_digit cs))
      else if c = lua_quote
      then (if lua_quote \<in> set cs
            then map_option (\<lambda>ts. T_TEXT (takeWhile (\<lambda>d. d \<noteq> lua_quote) cs) # ts)
                   (lua_lex (tl (dropWhile (\<lambda>d. d \<noteq> lua_quote) cs)))
            else None)
      else if c = CHR ''=''
      then (if cs \<noteq> [] \<and> hd cs = CHR ''='' then map_option (\<lambda>ts. T_EQ # ts) (lua_lex (tl cs)) else None)
      else Option.bind (lua_sign c) (\<lambda>t. map_option (\<lambda>ts. t # ts) (lua_lex cs)))"
  by pat_completeness auto
termination
  by (relation "measure length") (auto intro: le_imp_less_Suc length_dropWhile_le le_trans [OF diff_le_self])

datatype lua_atom = LKey nat | LArg nat | LText string

datatype lua_expr = LCall "lua_atom list" | LAtom lua_atom | LNum nat

datatype lua_script = LReturn lua_expr | LIf lua_expr lua_expr lua_script lua_script

definition read_atom :: "lua_token list \<Rightarrow> (lua_atom \<times> lua_token list) option" where
  "read_atom ts =
     (case ts of
        T_TEXT s # r \<Rightarrow> Some (LText s, r)
      | T_WORD w # T_LB # T_INT n # T_RB # r \<Rightarrow>
          (if w = ''KEYS'' then Some (LKey n, r) else if w = ''ARGV'' then Some (LArg n, r) else None)
      | _ \<Rightarrow> None)"

text \<open>The arguments up to the closing parenthesis; the number bounds how many there are.\<close>

fun read_args :: "nat \<Rightarrow> lua_token list \<Rightarrow> (lua_atom list \<times> lua_token list) option" where
  "read_args 0 ts = None"
| "read_args (Suc k) ts =
     Option.bind (read_atom ts) (\<lambda>(a, r).
       case r of
         T_RP # r' \<Rightarrow> Some ([a], r')
       | T_COMMA # r' \<Rightarrow> map_option (\<lambda>(as, q). (a # as, q)) (read_args k r')
       | _ \<Rightarrow> None)"

definition read_expr :: "lua_token list \<Rightarrow> (lua_expr \<times> lua_token list) option" where
  "read_expr ts =
     (case ts of
        T_INT n # r \<Rightarrow> Some (LNum n, r)
      | T_WORD w # T_DOT # T_WORD v # T_LP # r \<Rightarrow>
          (if w = ''redis'' \<and> v = ''call'' then map_option (\<lambda>(as, q). (LCall as, q)) (read_args (length r) r) else None)
      | _ \<Rightarrow> map_option (\<lambda>(a, q). (LAtom a, q)) (read_atom ts))"

definition expect :: "lua_token \<Rightarrow> lua_token list \<Rightarrow> lua_token list option" where
  "expect t ts = (case ts of [] \<Rightarrow> None | u # r \<Rightarrow> if u = t then Some r else None)"

fun read_block :: "nat \<Rightarrow> lua_token list \<Rightarrow> (lua_script \<times> lua_token list) option" where
  "read_block 0 ts = None"
| "read_block (Suc k) ts =
     (case ts of
        [] \<Rightarrow> None
      | t # r \<Rightarrow>
          if t = T_WORD ''return'' then map_option (\<lambda>(e, q). (LReturn e, q)) (read_expr r)
          else if t = T_WORD ''if''
          then Option.bind (read_expr r) (\<lambda>(a, r1).
               Option.bind (expect T_EQ r1) (\<lambda>r2.
               Option.bind (read_expr r2) (\<lambda>(b, r3).
               Option.bind (expect (T_WORD ''then'') r3) (\<lambda>r4.
               Option.bind (read_block k r4) (\<lambda>(yes, r5).
               Option.bind (expect (T_WORD ''else'') r5) (\<lambda>r6.
               Option.bind (read_block k r6) (\<lambda>(no, r7).
               map_option (\<lambda>r8. (LIf a b yes no, r8)) (expect (T_WORD ''end'') r7))))))))
          else None)"

definition lua_parse :: "string \<Rightarrow> lua_script option" where
  "lua_parse text =
     Option.bind (lua_lex text) (\<lambda>ts.
       case read_block (length ts) ts of Some (b, []) \<Rightarrow> Some b | _ \<Rightarrow> None)"

section \<open>Running a script\<close>

text \<open>Values of Lua; Redis hands a missing key to Lua as \<open>false\<close>. \<open>None\<close> is an error that ends the script.\<close>

datatype lua_value = VNil | VFalse | VText string | VInt int

type_synonym redis_keys = "string \<Rightarrow> string option"

definition positive_text :: "string \<Rightarrow> bool" where
  "positive_text s \<longleftrightarrow> s \<noteq> [] \<and> list_all is_digit s \<and> 0 < dec_val s"

definition redis_call :: "string list \<Rightarrow> redis_keys \<Rightarrow> (lua_value \<times> redis_keys) option" where
  "redis_call args m =
     (case args of
        [cmd, k] \<Rightarrow>
          if cmd = ''get'' then Some (case m k of None \<Rightarrow> VFalse | Some v \<Rightarrow> VText v, m)
          else if cmd = ''del'' then Some (VInt (if m k = None then 0 else 1), m(k := None))
          else None
      | [cmd, k, ms] \<Rightarrow>
          if cmd = ''pexpire'' \<and> positive_text ms then Some (VInt (if m k = None then 0 else 1), m) else None
      | _ \<Rightarrow> None)"

definition lua_nth :: "string list \<Rightarrow> nat \<Rightarrow> string option" where
  "lua_nth xs n = (if 1 \<le> n \<and> n \<le> length xs then Some (xs ! (n - 1)) else None)"

fun lua_text :: "string list \<Rightarrow> string list \<Rightarrow> lua_atom \<Rightarrow> string option" where
  "lua_text keys argv (LKey n) = lua_nth keys n"
| "lua_text keys argv (LArg n) = lua_nth argv n"
| "lua_text keys argv (LText s) = Some s"

fun lua_texts :: "string list \<Rightarrow> string list \<Rightarrow> lua_atom list \<Rightarrow> string list option" where
  "lua_texts keys argv [] = Some []"
| "lua_texts keys argv (a # as) =
     Option.bind (lua_text keys argv a) (\<lambda>s. map_option (\<lambda>ss. s # ss) (lua_texts keys argv as))"

fun lua_eval :: "string list \<Rightarrow> string list \<Rightarrow> lua_expr \<Rightarrow> redis_keys \<Rightarrow> (lua_value \<times> redis_keys) option" where
  "lua_eval keys argv (LNum n) m = Some (VInt (int n), m)"
| "lua_eval keys argv (LAtom a) m = Some (case lua_text keys argv a of None \<Rightarrow> VNil | Some s \<Rightarrow> VText s, m)"
| "lua_eval keys argv (LCall as) m = Option.bind (lua_texts keys argv as) (\<lambda>args. redis_call args m)"

fun lua_run :: "string list \<Rightarrow> string list \<Rightarrow> lua_script \<Rightarrow> redis_keys \<Rightarrow> (lua_value \<times> redis_keys) option" where
  "lua_run keys argv (LReturn e) m = lua_eval keys argv e m"
| "lua_run keys argv (LIf a b yes no) m =
     Option.bind (lua_eval keys argv a m) (\<lambda>(x, m1).
     Option.bind (lua_eval keys argv b m1) (\<lambda>(y, m2).
       if x = y then lua_run keys argv yes m2 else lua_run keys argv no m2))"

text \<open>\<open>EVAL text 1 key argv\<close>.\<close>

definition eval_script :: "string \<Rightarrow> string \<Rightarrow> string list \<Rightarrow> redis_keys \<Rightarrow> (lua_value \<times> redis_keys) option" where
  "eval_script text key argv m = Option.bind (lua_parse text) (\<lambda>s. lua_run [key] argv s m)"

lemma lua_parse_example:
  "lua_parse (''if redis.call('' @ [lua_quote] @ ''get'' @ [lua_quote] @ '', KEYS[1]) == ARGV[12] then return 0 else return ARGV[1] end'') =
     Some (LIf (LCall [LText ''get'', LKey 1]) (LAtom (LArg 12)) (LReturn (LNum 0)) (LReturn (LAtom (LArg 1))))"
  by code_simp

end
