(* ===== verification/Redis_Lock.thy ===== *)
theory Redis_Lock
  imports Redis_Client Redis_Lua "HOL-Library.Word"
begin

unbundle bit_operations_syntax

text \<open>
  The distributed lock \<open>ulock\<close> (\<open>core/uredis.cpp\<close>). The operations of one lock run one after the
  other (they hold \<open>cmd_mtx\<close>), so each is a function from the lock's state, the process-wide token
  counter and the outside world to their new values. The world (the Redis server, the network, the
  clock and the random device) is a type variable, and what the code calls of it are the fields of
  \<open>lock_env\<close>: \<open>lock_exec\<close> is \<open>ucommand\<close> on the lock's connection, \<open>lock_connect\<close> is \<open>uconnect\<close>.
\<close>

section \<open>Tokens\<close>

text \<open>\<open>"%016llx"\<close>.\<close>

definition nibble :: "64 word \<Rightarrow> nat \<Rightarrow> char" where
  "nibble x k = ''0123456789abcdef'' ! unat (take_bit 4 (drop_bit (4 * k) x))"

definition hex16 :: "64 word \<Rightarrow> string" where
  "hex16 x = map (nibble x) (rev [0..<16])"

text \<open>Clock, thread id, address of the counter, random number, counter.\<close>

definition gen_token :: "64 word \<Rightarrow> 64 word \<Rightarrow> 64 word \<Rightarrow> 64 word \<Rightarrow> nat \<Rightarrow> string" where
  "gen_token now tid addr rd seq =
     hex16 now @ hex16 (push_bit 32 tid XOR addr) @
     hex16 (push_bit 32 rd XOR (of_nat seq + 0x9e3779b97f4a7c15))"

section \<open>The lock\<close>

record lock_config =
  lc_key :: string
  lc_ttl_ms :: nat
  lc_retry_ms :: nat
  lc_renew_ms :: nat

record ulock =
  lk_cfg :: lock_config
  lk_stopped :: bool
  lk_watchdog :: bool
  lk_token :: string
  lk_conn :: "uconnection option"

record 'w lock_env =
  lock_exec :: "string list \<Rightarrow> uconnection \<Rightarrow> 'w \<Rightarrow> Reply \<times> uconnection \<times> 'w"
  lock_connect :: "'w \<Rightarrow> uconnection option \<times> 'w"
  lock_close :: "uconnection \<Rightarrow> 'w \<Rightarrow> 'w"
  token_input :: "'w \<Rightarrow> (64 word \<times> 64 word \<times> 64 word \<times> 64 word) \<times> 'w"

definition mk_ulock :: "lock_config \<Rightarrow> ulock" where
  "mk_ulock cfg =
     (let ttl = (if lc_ttl_ms cfg = 0 then 10000 else lc_ttl_ms cfg);
          renew = (if lc_renew_ms cfg \<noteq> 0 \<and> lc_renew_ms cfg \<ge> ttl then ttl div 3 else lc_renew_ms cfg)
      in \<lparr>lk_cfg = cfg\<lparr>lc_ttl_ms := ttl, lc_renew_ms := renew\<rparr>, lk_stopped = False,
          lk_watchdog = (renew \<noteq> 0), lk_token = [], lk_conn = None\<rparr>)"

definition ULOCK_RELEASE_LUA :: string where
  "ULOCK_RELEASE_LUA =
     ''if redis.call('' @ [CHR 0x27] @ ''get'' @ [CHR 0x27] @ '', KEYS[1]) == ARGV[1] then '' @
     ''return redis.call('' @ [CHR 0x27] @ ''del'' @ [CHR 0x27] @ '', KEYS[1]) '' @
     ''else return 0 end''"

definition ULOCK_RENEW_LUA :: string where
  "ULOCK_RENEW_LUA =
     ''if redis.call('' @ [CHR 0x27] @ ''get'' @ [CHR 0x27] @ '', KEYS[1]) == ARGV[1] then '' @
     ''return redis.call('' @ [CHR 0x27] @ ''pexpire'' @ [CHR 0x27] @ '', KEYS[1], ARGV[2]) '' @
     ''else return 0 end''"

definition set_nx_args :: "string \<Rightarrow> string \<Rightarrow> nat \<Rightarrow> string list" where
  "set_nx_args key tok ttl = [''SET'', key, tok, ''NX'', ''PX'', nat_to_string ttl]"

definition release_args :: "string \<Rightarrow> string \<Rightarrow> string list" where
  "release_args key tok = [''EVAL'', ULOCK_RELEASE_LUA, ''1'', key, tok]"

definition renew_args :: "string \<Rightarrow> string \<Rightarrow> nat \<Rightarrow> string list" where
  "renew_args key tok ttl = [''EVAL'', ULOCK_RENEW_LUA, ''1'', key, tok, nat_to_string ttl]"

fun is_one :: "Reply \<Rightarrow> bool" where
  "is_one (Reply code msg ty n s els) \<longleftrightarrow> code = 0 \<and> ty = INTEGER \<and> n = 1"

fun is_ok :: "Reply \<Rightarrow> bool" where
  "is_ok (Reply code msg ty n s els) \<longleftrightarrow> code = 0 \<and> ty = STATUS \<and> s = ''OK''"

definition usable :: "uconnection option \<Rightarrow> bool" where
  "usable co \<longleftrightarrow> (case co of None \<Rightarrow> False | Some c \<Rightarrow> \<not> broken c)"

definition do_renew :: "'w lock_env \<Rightarrow> ulock \<Rightarrow> 'w \<Rightarrow> bool \<times> ulock \<times> 'w" where
  "do_renew env l w =
     (if lk_stopped l then (False, l, w)
      else if lk_token l = [] then (False, l, w)
      else (case lk_conn l of
              None \<Rightarrow> (False, l\<lparr>lk_token := []\<rparr>, w)
            | Some c \<Rightarrow>
                (if broken c then (False, l\<lparr>lk_token := []\<rparr>, w)
                 else (case lock_exec env
                              (renew_args (lc_key (lk_cfg l)) (lk_token l) (lc_ttl_ms (lk_cfg l))) c w of
                         (r, c', w') \<Rightarrow>
                           (if is_one r then (True, l\<lparr>lk_conn := Some c'\<rparr>, w')
                            else (False, l\<lparr>lk_conn := Some c', lk_token := []\<rparr>, w'))))))"

text \<open>\<open>TryAcquire\<close> first makes sure of a connection.\<close>

definition ensure_conn :: "'w lock_env \<Rightarrow> ulock \<Rightarrow> 'w \<Rightarrow> uconnection option \<times> 'w" where
  "ensure_conn env l w =
     (case lk_conn l of
        None \<Rightarrow> lock_connect env w
      | Some c \<Rightarrow> (if broken c then lock_connect env (lock_close env c w) else (Some c, w)))"

definition TryAcquire :: "'w lock_env \<Rightarrow> ulock \<Rightarrow> nat \<Rightarrow> 'w \<Rightarrow> bool \<times> ulock \<times> nat \<times> 'w" where
  "TryAcquire env l seq w =
     (if lk_stopped l then (False, l, seq, w)
      else if lc_key (lk_cfg l) = [] then (False, l, seq, w)
      else if lk_token l \<noteq> [] then (True, l, seq, w)
      else (case ensure_conn env l w of
              (None, w1) \<Rightarrow> (False, l\<lparr>lk_conn := None\<rparr>, seq, w1)
            | (Some c, w1) \<Rightarrow>
                (case token_input env w1 of
                   ((now, tid, addr, rd), w2) \<Rightarrow>
                     (let token = gen_token now tid addr rd seq in
                      case lock_exec env (set_nx_args (lc_key (lk_cfg l)) token (lc_ttl_ms (lk_cfg l))) c w2 of
                        (r, c', w3) \<Rightarrow>
                          (if is_ok r then (True, l\<lparr>lk_conn := Some c', lk_token := token\<rparr>, Suc seq, w3)
                           else (False, l\<lparr>lk_conn := Some c'\<rparr>, Suc seq, w3))))))"

definition lock_Release :: "'w lock_env \<Rightarrow> ulock \<Rightarrow> 'w \<Rightarrow> bool \<times> ulock \<times> 'w" where
  "lock_Release env l w =
     (if lk_stopped l then (False, l, w)
      else (let token = lk_token l; l' = l\<lparr>lk_token := []\<rparr> in
            if token = [] then (False, l', w)
            else (case lk_conn l of
                    None \<Rightarrow> (False, l', w)
                  | Some c \<Rightarrow>
                      (if broken c then (False, l', w)
                       else (case lock_exec env (release_args (lc_key (lk_cfg l)) token) c w of
                               (r, c', w') \<Rightarrow> (is_one r, l'\<lparr>lk_conn := Some c'\<rparr>, w'))))))"

definition Owns :: "ulock \<Rightarrow> bool" where
  "Owns l \<longleftrightarrow> lk_token l \<noteq> []"

definition lock_Close :: "'w lock_env \<Rightarrow> ulock \<Rightarrow> 'w \<Rightarrow> ulock \<times> 'w" where
  "lock_Close env l w =
     (let l' = l\<lparr>lk_stopped := True, lk_token := []\<rparr> in
      if lk_watchdog l then (l', w)
      else (case lk_conn l of
              None \<Rightarrow> (l', w)
            | Some c \<Rightarrow> (l'\<lparr>lk_conn := None\<rparr>, lock_close env c w)))"

text \<open>One round of the watchdog after its sleep; the first component says whether it goes on.\<close>

definition watchdog_round :: "'w lock_env \<Rightarrow> ulock \<Rightarrow> 'w \<Rightarrow> bool \<times> ulock \<times> 'w" where
  "watchdog_round env l w =
     (if lk_stopped l then
        (case lk_conn l of
           None \<Rightarrow> (False, l, w)
         | Some c \<Rightarrow> (False, l\<lparr>lk_conn := None\<rparr>, lock_close env c w))
      else if lk_token l = [] then (True, l, w)
      else (case do_renew env l w of (_, l', w') \<Rightarrow> (True, l', w')))"

text \<open>
  \<open>Acquire\<close> does not hold \<open>cmd_mtx\<close> between its tries. The list holds, for each failed try, the
  nanoseconds that have then passed since the call, and what everybody else makes of the lock, the
  counter and the world until the next try; \<open>None\<close> when it has not returned by the end of the list.
  Also the milliseconds it slept after each try.
\<close>

fun acquire_loop ::
  "'w lock_env \<Rightarrow> uco_time \<Rightarrow> (int \<times> (ulock \<times> nat \<times> 'w \<Rightarrow> ulock \<times> nat \<times> 'w)) list \<Rightarrow> ulock \<Rightarrow> nat \<Rightarrow> 'w \<Rightarrow>
   bool option \<times> int list \<times> ulock \<times> nat \<times> 'w" where
  "acquire_loop env ts [] l seq w = (None, [], l, seq, w)"
| "acquire_loop env ts ((elapsed, others) # rest) l seq w =
     (case TryAcquire env l seq w of
        (True, l', seq', w') \<Rightarrow> (Some True, [], l', seq', w')
      | (False, l', seq', w') \<Rightarrow>
          (case deadline_remain ts elapsed of
             None \<Rightarrow> (Some False, [], l', seq', w')
           | Some (sec, ns) \<Rightarrow>
               (let retry = int (lc_retry_ms (lk_cfg l));
                    remain = sec * 1000 + ns div 1000000 in
                if ts \<noteq> (0, 0) \<and> remain = 0 then (Some False, [], l', seq', w')
                else (let wait = (if ts \<noteq> (0, 0) then min retry remain else retry) in
                      case others (l', seq', w') of
                        (l2, seq2, w2) \<Rightarrow>
                          (case acquire_loop env ts rest l2 seq2 w2 of
                             (res, waits, out) \<Rightarrow> (res, wait # waits, out))))))"

definition lock_Acquire ::
  "'w lock_env \<Rightarrow> uco_time \<Rightarrow> (int \<times> (ulock \<times> nat \<times> 'w \<Rightarrow> ulock \<times> nat \<times> 'w)) list \<Rightarrow> ulock \<Rightarrow> nat \<Rightarrow> 'w \<Rightarrow>
   bool option \<times> int list \<times> ulock \<times> nat \<times> 'w" where
  "lock_Acquire env ts tries l seq w =
     (if lc_retry_ms (lk_cfg l) = 0
      then (case TryAcquire env l seq w of (ok, l', seq', w') \<Rightarrow> (Some ok, [], l', seq', w'))
      else acquire_loop env ts tries l seq w)"

section \<open>Tokens are distinct\<close>

lemma nibble_inj: "nibble x k = nibble y k \<Longrightarrow> take_bit 4 (drop_bit (4 * k) x) = take_bit 4 (drop_bit (4 * k) y)"
proof -
  assume e: "nibble x k = nibble y k"
  have lt: "unat (take_bit 4 z) < 16" for z :: "64 word"
    using take_bit_nat_less_exp [of 4 "unat z"] by (simp add: unsigned_take_bit_eq)
  have "distinct ''0123456789abcdef''" by simp
  moreover have "unat (take_bit 4 z) < length ''0123456789abcdef''" for z :: "64 word"
    using lt [of z] by simp
  ultimately have "unat (take_bit 4 (drop_bit (4 * k) x)) = unat (take_bit 4 (drop_bit (4 * k) y))"
    using e unfolding nibble_def by (metis nth_eq_iff_index_eq)
  then show ?thesis by (rule word_unat_eq_iff [THEN iffD2])
qed

lemma hex16_inj: "hex16 x = hex16 y \<Longrightarrow> x = y"
proof (rule bit_word_eqI)
  fix n assume e: "hex16 x = hex16 y" and "n < LENGTH(64)"
  then have n: "n div 4 < 16" by simp
  with e have "nibble x (n div 4) = nibble y (n div 4)" by (simp add: hex16_def)
  from nibble_inj [OF this]
  have "bit (take_bit 4 (drop_bit (4 * (n div 4)) x)) (n mod 4) = bit (take_bit 4 (drop_bit (4 * (n div 4)) y)) (n mod 4)"
    by simp
  then show "bit x n = bit y n" by (simp add: bit_take_bit_iff bit_drop_bit_eq)
qed

lemma length_hex16 [simp]: "length (hex16 x) = 16"
  by (simp add: hex16_def)

lemma gen_token_ne [simp]: "gen_token now tid addr rd n \<noteq> []"
  by (simp add: gen_token_def flip: length_greater_0_conv)

lemma mod_shift:
  assumes "(m + k) mod q = (n + k) mod q" "m < q" "n < (q :: nat)"
  shows "m = n"
proof -
  from assms(1) obtain a b where "m + k + q * a = n + k + q * b" by (auto simp: nat_mod_eq_iff)
  then have "m mod q = n mod q" by (auto simp: nat_mod_eq_iff)
  then show ?thesis using assms(2,3) by simp
qed

text \<open>
  Two tokens of one process differ: whatever the clock, the thread and the random device say,
  tokens made with different values of the counter are different as long as the counter has not
  gone around its low 32 bits.
\<close>

lemma tokens_differ:
  assumes "m < 2 ^ 32" "n < 2 ^ 32" "m \<noteq> n"
  shows "gen_token now tid addr rd m \<noteq> gen_token now' tid' addr' rd' n"
proof
  assume "gen_token now tid addr rd m = gen_token now' tid' addr' rd' n"
  then have "hex16 (push_bit 32 rd XOR (of_nat m + 0x9e3779b97f4a7c15)) =
      hex16 (push_bit 32 rd' XOR (of_nat n + 0x9e3779b97f4a7c15))"
    by (simp add: gen_token_def)
  then have e: "push_bit 32 rd XOR (of_nat m + 0x9e3779b97f4a7c15) =
      push_bit 32 rd' XOR (of_nat n + (0x9e3779b97f4a7c15 :: 64 word))"
    by (rule hex16_inj)
  have low: "take_bit 32 (push_bit 32 z XOR y) = take_bit 32 y" for z y :: "64 word"
    by (rule bit_word_eqI) (auto simp: bit_take_bit_iff bit_xor_iff bit_push_bit_iff)
  have "take_bit 32 (of_nat m + 0x9e3779b97f4a7c15 :: 64 word) = take_bit 32 (of_nat n + 0x9e3779b97f4a7c15)"
    using arg_cong [OF e, of "take_bit 32"] by (simp only: low)
  from this [THEN arg_cong [where f = unat]]
  have "take_bit 32 (unat (of_nat m + 0x9e3779b97f4a7c15 :: 64 word)) =
      take_bit 32 (unat (of_nat n + 0x9e3779b97f4a7c15 :: 64 word))"
    by (simp only: unsigned_take_bit_eq)
  moreover have "take_bit 32 (unat (of_nat k + 0x9e3779b97f4a7c15 :: 64 word)) = (k + 0x9e3779b97f4a7c15) mod 2 ^ 32" for k
  proof -
    have "of_nat k + 0x9e3779b97f4a7c15 = (of_nat (k + 0x9e3779b97f4a7c15) :: 64 word)"
      by (simp only: of_nat_add of_nat_numeral)
    then have "unat (of_nat k + 0x9e3779b97f4a7c15 :: 64 word) = take_bit 64 (k + 0x9e3779b97f4a7c15)"
      by (simp only: unsigned_of_nat) simp
    then show ?thesis by (simp only: take_bit_take_bit) (simp add: take_bit_eq_mod)
  qed
  ultimately have "(m + 0x9e3779b97f4a7c15) mod 2 ^ 32 = (n + 0x9e3779b97f4a7c15) mod 2 ^ 32" by simp
  then show False using assms mod_shift by blast
qed

section \<open>Many locks and a server\<close>

text \<open>
  What the lock relies on of Redis, for the map \<open>h w\<close> of the keys: \<open>SET NX PX\<close> sets a key that nobody
  has, and answers \<open>OK\<close> only then. \<open>EVAL\<close> runs the script that it is given, as a whole or not at all
  (when the command fails), and answers with an integer only when the script has run and returned it.
  Connecting and closing change no key. What the lock's scripts do is read off from their text.
\<close>

definition lock_server :: "'w lock_env \<Rightarrow> ('w \<Rightarrow> redis_keys) \<Rightarrow> bool" where
  "lock_server env h \<longleftrightarrow>
     (\<forall>w. h (snd (lock_connect env w)) = h w) \<and> (\<forall>c w. h (lock_close env c w) = h w) \<and>
     (\<forall>w. h (snd (token_input env w)) = h w) \<and>
     (\<forall>key tok ttl c w r c' w'. lock_exec env (set_nx_args key tok ttl) c w = (r, c', w') \<longrightarrow>
        (h w' = h w \<or> h w key = None \<and> h w' = (h w)(key := Some tok)) \<and>
        (is_ok r \<longrightarrow> h w key = None \<and> h w' key = Some tok)) \<and>
     (\<forall>text key argv c w r c' w' v m. lock_exec env ([''EVAL'', text, ''1'', key] @ argv) c w = (r, c', w') \<longrightarrow>
        eval_script text key argv (h w) = Some (v, m) \<longrightarrow>
        (h w' = h w \<or> h w' = m) \<and> (is_one r \<longrightarrow> h w' = m \<and> v = VInt 1))"

text \<open>The two scripts.\<close>

lemma release_parse:
  "lua_parse ULOCK_RELEASE_LUA =
     Some (LIf (LCall [LText ''get'', LKey 1]) (LAtom (LArg 1)) (LReturn (LCall [LText ''del'', LKey 1])) (LReturn (LNum 0)))"
  by code_simp

lemma renew_parse:
  "lua_parse ULOCK_RENEW_LUA =
     Some (LIf (LCall [LText ''get'', LKey 1]) (LAtom (LArg 1)) (LReturn (LCall [LText ''pexpire'', LKey 1, LArg 2])) (LReturn (LNum 0)))"
  by code_simp

lemma release_script:
  "eval_script ULOCK_RELEASE_LUA key [tok] m =
     Some (if m key = Some tok then (VInt 1, m(key := None)) else (VInt 0, m))"
  by (auto simp: eval_script_def release_parse redis_call_def lua_nth_def split: option.splits)

lemma renew_script:
  assumes "0 < ttl"
  shows "eval_script ULOCK_RENEW_LUA key [tok, nat_to_string ttl] m = Some (if m key = Some tok then VInt 1 else VInt 0, m)"
proof -
  have "positive_text (nat_to_string ttl)"
    using assms nat_to_string_ne nat_to_string_digits by (simp add: positive_text_def list_all_iff dec_simps)
  then show ?thesis
    by (auto simp: eval_script_def renew_parse redis_call_def lua_nth_def split: option.splits)
qed

datatype lock_op = LTryAcquire | LRelease | LRenew | LWatchdog | LClose

fun lock_do :: "'w lock_env \<Rightarrow> lock_op \<Rightarrow> ulock \<Rightarrow> nat \<Rightarrow> 'w \<Rightarrow> bool \<times> ulock \<times> nat \<times> 'w" where
  "lock_do env LTryAcquire l seq w = TryAcquire env l seq w"
| "lock_do env LRelease l seq w = (case lock_Release env l w of (ok, l', w') \<Rightarrow> (ok, l', seq, w'))"
| "lock_do env LRenew l seq w = (case do_renew env l w of (ok, l', w') \<Rightarrow> (ok, l', seq, w'))"
| "lock_do env LWatchdog l seq w = (case watchdog_round env l w of (ok, l', w') \<Rightarrow> (ok, l', seq, w'))"
| "lock_do env LClose l seq w = (case lock_Close env l w of (l', w') \<Rightarrow> (True, l', seq, w'))"

text \<open>
  \<open>Close\<close> and the end of the watchdog do not take \<open>cmd_mtx\<close>, so \<open>Close\<close> may come while an operation of
  the same lock is under way: \<open>early\<close> before the operation has read the token, otherwise after that.
  The lock is then stopped and without its old token; a \<open>TryAcquire\<close> that succeeds afterwards stores its
  new one all the same. The connection is closed with it, by \<open>Close\<close> or by the watchdog, or stays
  open. That it is closed only when the operation is through with it is an assumption of the
  code; otherwise the operation uses freed memory.
\<close>

datatype lock_event = Alone lock_op | Closing lock_op bool bool

definition lock_do_closing ::
  "'w lock_env \<Rightarrow> lock_op \<Rightarrow> bool \<Rightarrow> bool \<Rightarrow> ulock \<Rightarrow> nat \<Rightarrow> 'w \<Rightarrow> bool \<times> ulock \<times> nat \<times> 'w" where
  "lock_do_closing env f early drop_conn l seq w =
     (let l0 = (if early then l\<lparr>lk_token := []\<rparr> else l) in
      case lock_do env f l0 seq w of
        (ok, l', seq', w') \<Rightarrow>
          (let l2 = l'\<lparr>lk_stopped := True, lk_token := (if f = LTryAcquire \<and> lk_token l0 = [] then lk_token l' else [])\<rparr> in
           case (if drop_conn then lk_conn l2 else None) of
             None \<Rightarrow> (ok, l2, seq', w')
           | Some c \<Rightarrow> (ok, l2\<lparr>lk_conn := None\<rparr>, seq', lock_close env c w')))"

fun lock_handle :: "'w lock_env \<Rightarrow> lock_event \<Rightarrow> ulock \<Rightarrow> nat \<Rightarrow> 'w \<Rightarrow> bool \<times> ulock \<times> nat \<times> 'w" where
  "lock_handle env (Alone f) l seq w = lock_do env f l seq w"
| "lock_handle env (Closing f early drop_conn) l seq w = lock_do_closing env f early drop_conn l seq w"

fun tries_lock :: "lock_event \<Rightarrow> bool" where
  "tries_lock (Alone f) \<longleftrightarrow> f = LTryAcquire"
| "tries_lock (Closing f early drop_conn) \<longleftrightarrow> f = LTryAcquire"

text \<open>
  The states that the locks of one process on one key can reach, with the counter of tokens: a
  lock performs an operation, alone or with its closing, or the key expires.
\<close>

inductive locks_reachable :: "'w lock_env \<Rightarrow> ('w \<Rightarrow> redis_keys) \<Rightarrow> string \<Rightarrow> ulock list \<Rightarrow> nat \<Rightarrow> 'w \<Rightarrow> bool"
  for env h key where
  start: "(\<forall>cfg \<in> set cfgs. lc_key cfg = key) \<Longrightarrow> locks_reachable env h key (map mk_ulock cfgs) 0 w"
| operation: "locks_reachable env h key ls seq w \<Longrightarrow> i < length ls \<Longrightarrow>
    lock_handle env f (ls ! i) seq w = (ok, l', seq', w') \<Longrightarrow> locks_reachable env h key (ls[i := l']) seq' w'"
| expires: "locks_reachable env h key ls seq w \<Longrightarrow> h w' = (h w)(key := None) \<Longrightarrow>
    locks_reachable env h key ls seq w'"

definition made_token :: "nat \<Rightarrow> string \<Rightarrow> bool" where
  "made_token n t \<longleftrightarrow> (\<exists>now tid addr rd. t = gen_token now tid addr rd n)"

lemma lock_server_set:
  assumes "lock_server env h" "lock_exec env (set_nx_args key tok ttl) c w = (r, c', w')"
  shows "(h w' = h w \<or> h w key = None \<and> h w' = (h w)(key := Some tok)) \<and>
    (is_ok r \<longrightarrow> h w key = None \<and> h w' key = Some tok)"
  by (rule assms(1) [unfolded lock_server_def, THEN conjunct2, THEN conjunct2, THEN conjunct2, THEN conjunct1,
      rule_format, OF assms(2)])

lemma lock_server_eval:
  assumes "lock_server env h" "lock_exec env ([''EVAL'', text, ''1'', key] @ argv) c w = (r, c', w')"
    and "eval_script text key argv (h w) = Some (v, m)"
  shows "(h w' = h w \<or> h w' = m) \<and> (is_one r \<longrightarrow> h w' = m \<and> v = VInt 1)"
  by (rule assms(1) [unfolded lock_server_def, THEN conjunct2, THEN conjunct2, THEN conjunct2, THEN conjunct2,
      rule_format, OF assms(2,3)])

lemma lock_server_release:
  assumes "lock_server env h" "lock_exec env (release_args key tok) c w = (r, c', w')"
  shows "h w' = h w \<or> h w key = Some tok \<and> h w' = (h w)(key := None)"
  using lock_server_eval [OF assms(1), of ULOCK_RELEASE_LUA key "[tok]" c w r c' w'] assms(2) release_script [of key tok "h w"]
  by (auto simp: release_args_def split: if_splits)

lemma lock_server_renew:
  assumes "lock_server env h" "lock_exec env (renew_args key tok ttl) c w = (r, c', w')" "0 < ttl"
  shows "h w' = h w \<and> (is_one r \<longrightarrow> h w key = Some tok)"
  using lock_server_eval [OF assms(1), of ULOCK_RENEW_LUA key "[tok, nat_to_string ttl]" c w r c' w'] assms(2)
    renew_script [OF assms(3), of key tok "h w"]
  by (auto simp: renew_args_def split: if_splits)

lemma lock_server_other:
  assumes "lock_server env h"
  shows "h (snd (lock_connect env w)) = h w" "h (lock_close env c w) = h w" "h (snd (token_input env w)) = h w"
  using assms by (simp_all add: lock_server_def)

text \<open>What one operation does to its lock, to the counter and to the key.\<close>

lemma lock_do_cfg:
  assumes "lock_do env f l seq w = (ok, l', seq', w')"
  shows "lk_cfg l' = lk_cfg l"
proof (cases f)
  case LTryAcquire
  then show ?thesis using assms by (auto simp: TryAcquire_def Let_def split: if_splits option.splits prod.splits)
next
  case LRelease
  then show ?thesis using assms by (auto simp: lock_Release_def Let_def split: if_splits option.splits prod.splits)
next
  case LRenew
  then show ?thesis using assms by (auto simp: do_renew_def split: if_splits option.splits prod.splits)
next
  case LWatchdog
  then show ?thesis using assms by (auto simp: watchdog_round_def do_renew_def split: if_splits option.splits prod.splits)
next
  case LClose
  then show ?thesis using assms by (auto simp: lock_Close_def Let_def split: if_splits option.splits prod.splits)
qed

lemma lock_do_cases:
  assumes srv: "lock_server env h" and ttl: "0 < lc_ttl_ms (lk_cfg l)"
    and l: "lock_do env f l seq w = (ok, l', seq', w')" "lc_key (lk_cfg l) = key"
  obtains (same) "seq' = seq" "lc_key (lk_cfg l') = key" "lk_token l' = lk_token l \<or> lk_token l' = []" "h w' = h w"
      "f = LTryAcquire \<longrightarrow> lk_token l = [] \<longrightarrow> \<not> ok"
  | (freed) "seq' = seq" "lc_key (lk_cfg l') = key" "lk_token l' = []" "f = LRelease"
      "h w key = Some (lk_token l)" "h w' = (h w)(key := None)"
  | (tried) t where "seq' = Suc seq" "lc_key (lk_cfg l') = key" "made_token seq t" "f = LTryAcquire"
      "lk_token l = []" "lk_token l' = (if ok then t else [])"
      "h w' = h w \<or> h w key = None \<and> h w' = (h w)(key := Some t)"
      "ok \<longrightarrow> h w key = None \<and> h w' key = Some t"
proof -
  note laws = lock_server_other [OF srv]
  have renew: thesis if "do_renew env l w = (ok', l', w')" "seq' = seq" "f \<noteq> LTryAcquire" for ok'
    using that l(2) lock_server_renew [OF srv _ ttl]
    by (intro same) (auto simp: do_renew_def split: if_splits option.splits prod.splits)
  show thesis
  proof (cases f)
    case LTryAcquire
    with l(1) have t: "TryAcquire env l seq w = (ok, l', seq', w')" by simp
    show thesis
    proof (cases "lk_stopped l \<or> lc_key (lk_cfg l) = [] \<or> lk_token l \<noteq> []")
      case True
      then show thesis using t l(2) by (intro same) (auto simp: TryAcquire_def split: if_splits)
    next
      case False
      obtain co w1 where e: "ensure_conn env l w = (co, w1)" by force
      have h1: "h w1 = h w"
        using laws arg_cong [OF e, of snd] by (auto simp: ensure_conn_def split: option.splits if_splits)
      show thesis
      proof (cases co)
        case None
        then show thesis using t False e h1 l(2) by (intro same) (auto simp: TryAcquire_def)
      next
        case (Some c)
        obtain now tid addr rd w2 where i: "token_input env w1 = ((now, tid, addr, rd), w2)"
          by (metis prod.collapse)
        then have h2: "h w2 = h w" using laws(3) [of w1] h1 by simp
        let ?t = "gen_token now tid addr rd seq"
        obtain r c' w3 where x: "lock_exec env (set_nx_args key ?t (lc_ttl_ms (lk_cfg l))) c w2 = (r, c', w3)"
          by (metis prod.collapse)
        then have law: "h w3 = h w2 \<or> h w2 key = None \<and> h w3 = (h w2)(key := Some ?t)"
          "is_ok r \<longrightarrow> h w2 key = None \<and> h w3 key = Some ?t" using lock_server_set [OF srv x] by simp_all
        have out: "ok = is_ok r" "l' = (if is_ok r then l\<lparr>lk_conn := Some c', lk_token := ?t\<rparr> else l\<lparr>lk_conn := Some c'\<rparr>)"
          "seq' = Suc seq" "w' = w3"
          using t False e Some i x l(2) by (auto simp: TryAcquire_def Let_def split: if_splits)
        have "made_token seq ?t" by (auto simp: made_token_def)
        then show thesis using False out law h2 l(2) LTryAcquire by (intro tried [of ?t]) auto
      qed
    qed
  next
    case LRelease
    with l(1) have t: "lock_Release env l w = (ok, l', w')" "seq' = seq" by (auto split: prod.splits)
    show thesis
    proof (cases "lk_stopped l \<or> lk_token l = [] \<or> \<not> usable (lk_conn l)")
      case True
      then show thesis using t l(2) LRelease
        by (intro same) (auto simp: lock_Release_def Let_def usable_def split: if_splits option.splits prod.splits)
    next
      case False
      then obtain c where c: "lk_conn l = Some c" "\<not> broken c" by (auto simp: usable_def split: option.splits)
      obtain r c' w1 where x: "lock_exec env (release_args key (lk_token l)) c w = (r, c', w1)"
        by (metis prod.collapse)
      then have law: "h w1 = h w \<or> h w key = Some (lk_token l) \<and> h w1 = (h w)(key := None)"
        by (rule lock_server_release [OF srv])
      have out: "l' = l\<lparr>lk_token := [], lk_conn := Some c'\<rparr>" "w' = w1"
        using t(1) False c x l(2) by (auto simp: lock_Release_def Let_def)
      from law show thesis
      proof
        assume "h w1 = h w"
        then show thesis using out t(2) l(2) LRelease by (intro same) auto
      next
        assume "h w key = Some (lk_token l) \<and> h w1 = (h w)(key := None)"
        then show thesis using out t(2) l(2) LRelease by (intro freed) auto
      qed
    qed
  next
    case LRenew
    then show thesis using l renew by (auto split: prod.splits)
  next
    case LWatchdog
    then have w: "watchdog_round env l w = (ok, l', w')" "seq' = seq" using l(1) by (auto split: prod.splits)
    show thesis
    proof (cases "lk_stopped l \<or> lk_token l = []")
      case True
      then show thesis using w laws l(2) LWatchdog
        by (intro same) (auto simp: watchdog_round_def split: if_splits option.splits)
    next
      case False
      then obtain ok' where "do_renew env l w = (ok', l', w')"
        using w by (auto simp: watchdog_round_def split: prod.splits)
      then show thesis using w(2) LWatchdog by (intro renew) auto
    qed
  next
    case LClose
    then show thesis using l laws LClose
      by (intro same) (auto simp: lock_Close_def Let_def split: if_splits option.splits prod.splits)
  qed
qed

text \<open>The same of an operation alone or with the closing of its lock.\<close>

lemma lock_handle_cases:
  assumes srv: "lock_server env h" and ttl: "0 < lc_ttl_ms (lk_cfg l)"
    and l: "lock_handle env e l seq w = (ok, l', seq', w')" "lc_key (lk_cfg l) = key"
  obtains (same) "seq' = seq" "lk_token l' = lk_token l \<or> lk_token l' = []" "h w' = h w"
      "tries_lock e \<longrightarrow> lk_token l = [] \<longrightarrow> \<not> ok"
  | (freed) "seq' = seq" "lk_token l' = []" "\<not> tries_lock e" "h w key = Some (lk_token l)" "h w' = (h w)(key := None)"
  | (tried) t where "seq' = Suc seq" "made_token seq t" "tries_lock e" "lk_token l' = (if ok then t else [])"
      "h w' = h w \<or> h w key = None \<and> h w' = (h w)(key := Some t)"
      "ok \<longrightarrow> h w key = None \<and> h w' key = Some t"
proof (cases e)
  case (Alone f)
  then have "lock_do env f l seq w = (ok, l', seq', w')" using l(1) by simp
  from lock_do_cases [OF srv ttl this l(2)] Alone show thesis by cases (auto intro: same freed tried)
next
  case (Closing f early dc)
  define l0 where "l0 = (if early then l\<lparr>lk_token := []\<rparr> else l)"
  obtain m v where d: "lock_do env f l0 seq w = (ok, m, seq', v)" "h w' = h v"
    "lk_token l' = (if f = LTryAcquire \<and> lk_token l0 = [] then lk_token m else [])"
    using l(1) Closing lock_server_other(2) [OF srv]
    by (auto simp: lock_do_closing_def l0_def Let_def split: prod.splits option.splits if_splits)
  have l0: "0 < lc_ttl_ms (lk_cfg l0)" "lc_key (lk_cfg l0) = key" "lk_token l0 = lk_token l \<or> lk_token l0 = []"
    using ttl l(2) by (auto simp: l0_def)
  show thesis
    using srv l0(1) d(1) l0(2)
  proof (cases rule: lock_do_cases)
    case same
    then show thesis using d Closing l0(3) by (intro that(1)) auto
  next
    case freed
    have "lk_token l0 = lk_token l \<or> h w key = Some []" using freed l0(3) by auto
    show thesis
    proof (cases "lk_token l0 = lk_token l")
      case True
      then show thesis using freed d Closing by (intro that(2)) auto
    next
      case False
      then have n: "lk_token l0 = []" using l0(3) by simp
      then have "h v = h w"
        using d(1) freed(4) by (auto simp: lock_Release_def Let_def split: if_splits)
      then show thesis using freed d Closing by (intro that(1)) auto
    qed
  next
    case (tried t)
    then show thesis using d Closing by (intro that(3) [of t]) auto
  qed
qed

lemma lock_handle_cfg:
  assumes "lock_handle env e l seq w = (ok, l', seq', w')"
  shows "lk_cfg l' = lk_cfg l"
proof (cases e)
  case (Alone f)
  then show ?thesis using assms lock_do_cfg by simp
next
  case (Closing f early dc)
  obtain m v where d: "lock_do env f (if early then l\<lparr>lk_token := []\<rparr> else l) seq w = (ok, m, seq', v)" "lk_cfg l' = lk_cfg m"
    using assms Closing by (auto simp: lock_do_closing_def Let_def split: prod.splits option.splits if_splits)
  then show ?thesis using lock_do_cfg [OF d(1)] by (auto split: if_splits)
qed

definition locks_inv :: "('w \<Rightarrow> redis_keys) \<Rightarrow> string \<Rightarrow> ulock list \<Rightarrow> nat \<Rightarrow> 'w \<Rightarrow> bool" where
  "locks_inv h key ls seq w \<longleftrightarrow>
     (\<forall>i < length ls. lc_key (lk_cfg (ls ! i)) = key \<and> 0 < lc_ttl_ms (lk_cfg (ls ! i)) \<and>
        (lk_token (ls ! i) \<noteq> [] \<longrightarrow> (\<exists>n < seq. made_token n (lk_token (ls ! i))))) \<and>
     (\<forall>i < length ls. \<forall>j < length ls. i \<noteq> j \<longrightarrow> lk_token (ls ! i) \<noteq> [] \<longrightarrow> lk_token (ls ! i) \<noteq> lk_token (ls ! j))"

lemma mk_ulock_fields:
  "lc_key (lk_cfg (mk_ulock cfg)) = lc_key cfg" "lk_token (mk_ulock cfg) = []" "0 < lc_ttl_ms (lk_cfg (mk_ulock cfg))"
  by (simp_all add: mk_ulock_def Let_def)

lemma made_tokens_differ:
  "made_token m t \<Longrightarrow> made_token n t \<Longrightarrow> m < 2 ^ 32 \<Longrightarrow> n < 2 ^ 32 \<Longrightarrow> m = n"
  unfolding made_token_def using tokens_differ by (metis (no_types, lifting))

lemma lock_seq_mono:
  "lock_server env h \<Longrightarrow> 0 < lc_ttl_ms (lk_cfg l) \<Longrightarrow> lock_handle env e l seq w = (ok, l', seq', w') \<Longrightarrow> seq \<le> seq'"
  by (erule lock_handle_cases [of env h l e seq w ok l' seq' w' "lc_key (lk_cfg l)"]) auto

lemma locks_inv_step:
  assumes inv: "locks_inv h key ls seq w" and srv: "lock_server env h" and i: "i < length ls"
    and step: "lock_handle env e (ls ! i) seq w = (ok, l', seq', w')" and few: "seq' \<le> 2 ^ 32"
  shows "locks_inv h key (ls[i := l']) seq' w'"
proof -
  have k: "lc_key (lk_cfg (ls ! i)) = key" "0 < lc_ttl_ms (lk_cfg (ls ! i))" using inv i by (simp_all add: locks_inv_def)
  have cfg: "lc_key (lk_cfg l') = key" "0 < lc_ttl_ms (lk_cfg l')" using lock_handle_cfg [OF step] k by simp_all
  have mono: "seq \<le> seq'" using lock_seq_mono [OF srv k(2) step] .
  from lock_handle_cases [OF srv k(2) step k(1)] consider
    "lk_token l' = lk_token (ls ! i) \<or> lk_token l' = []"
    | t where "seq' = Suc seq" "made_token seq t" "lk_token l' = t"
    by (metis (full_types))
  then show ?thesis
  proof cases
    case 1
    have "lk_token l' \<noteq> [] \<Longrightarrow> lk_token l' = lk_token (ls ! i)" using 1 by blast
    then show ?thesis using inv cfg i mono
      unfolding locks_inv_def length_list_update
      by (auto simp: nth_list_update) (meson order_less_le_trans)+
  next
    case (2 t)
    have fresh: "lk_token (ls ! j) \<noteq> t" if "j < length ls" for j
    proof
      assume "lk_token (ls ! j) = t"
      moreover have "t \<noteq> []" using 2(2) by (auto simp: made_token_def)
      ultimately obtain n where "n < seq" "made_token n t"
        using inv \<open>j < length ls\<close> by (auto simp: locks_inv_def)
      with made_tokens_differ [OF 2(2) this(2)] few 2(1) show False by simp
    qed
    then show ?thesis using inv 2 cfg i mono
      unfolding locks_inv_def length_list_update
      by (auto simp: nth_list_update) (metis fresh less_SucI)+
  qed
qed

lemma locks_reachable_cfg:
  "locks_reachable env h key ls seq w \<Longrightarrow> i < length ls \<Longrightarrow> 0 < lc_ttl_ms (lk_cfg (ls ! i))"
proof (induction arbitrary: i rule: locks_reachable.induct)
  case (operation ls seq w j f ok l' seq' w')
  then show ?case using lock_handle_cfg [OF operation.hyps(3)] by (auto simp: nth_list_update)
qed (simp_all add: mk_ulock_fields)

lemma locks_reachable_inv:
  "locks_reachable env h key ls seq w \<Longrightarrow> lock_server env h \<Longrightarrow> seq \<le> 2 ^ 32 \<Longrightarrow> locks_inv h key ls seq w"
proof (induction rule: locks_reachable.induct)
  case (start cfgs w)
  then show ?case by (auto simp: locks_inv_def mk_ulock_fields)
next
  case (operation ls seq w i f ok l' seq' w')
  then have "seq \<le> 2 ^ 32" using lock_seq_mono locks_reachable_cfg by (meson order_trans)
  with operation have "locks_inv h key ls seq w" by simp
  from locks_inv_step [OF this] operation show ?case by simp
next
  case (expires ls seq w w')
  then show ?case by (simp add: locks_inv_def)
qed

section \<open>Properties\<close>

text \<open>
  C19: The distributed lock excludes. In every reachable state of the locks of one process on one
  key (while fewer than 2^32 tokens have been made), no operation of one lock, alone or with the
  closing of this lock while it is under way, changes the key while the server gives it to another
  lock, nor lets the first take the other's token; and a lock that has no token succeeds in
  \<open>TryAcquire\<close> only when nobody held the key, and then the server gives it the key. (A lock that still
  has a token answers true to \<open>TryAcquire\<close> without asking: see \<open>TryAcquire_stale\<close>.)
\<close>

theorem ulock_exclusive:
  assumes "lock_server env h" "locks_reachable env h key ls seq w" "i < length ls"
    and "lock_handle env e (ls ! i) seq w = (ok, l', seq', w')" "seq' \<le> 2 ^ 32"
  shows "(\<forall>j < length ls. j \<noteq> i \<longrightarrow> lk_token (ls ! j) \<noteq> [] \<longrightarrow> h w key = Some (lk_token (ls ! j)) \<longrightarrow>
            h w' key = h w key \<and> lk_token l' \<noteq> lk_token (ls ! j)) \<and>
    (tries_lock e \<longrightarrow> lk_token (ls ! i) = [] \<longrightarrow> ok \<longrightarrow>
       h w key = None \<and> h w' key = Some (lk_token l') \<and> Owns l')"
proof -
  have ttl: "0 < lc_ttl_ms (lk_cfg (ls ! i))" by (rule locks_reachable_cfg [OF assms(2,3)])
  have "seq \<le> 2 ^ 32" using lock_seq_mono [OF assms(1) ttl assms(4)] assms(5) by simp
  then have inv: "locks_inv h key ls seq w" using locks_reachable_inv [OF assms(2,1)] by simp
  have inv': "locks_inv h key (ls[i := l']) seq' w'" by (rule locks_inv_step [OF inv assms(1,3-5)])
  have k: "lc_key (lk_cfg (ls ! i)) = key" using inv assms(3) by (simp add: locks_inv_def)
  have other: "lk_token l' \<noteq> lk_token (ls ! j) \<and> lk_token (ls ! i) \<noteq> lk_token (ls ! j)"
    if j: "j < length ls" "j \<noteq> i" "lk_token (ls ! j) \<noteq> []" for j
  proof -
    have "lk_token (ls ! j) \<noteq> lk_token (ls ! i)" using inv j assms(3) by (auto simp: locks_inv_def)
    moreover have "\<forall>a < length ls. \<forall>b < length ls. a \<noteq> b \<longrightarrow> lk_token (ls[i := l'] ! a) \<noteq> [] \<longrightarrow>
        lk_token (ls[i := l'] ! a) \<noteq> lk_token (ls[i := l'] ! b)"
      using inv' by (simp add: locks_inv_def)
    from this [rule_format, of j i] have "lk_token (ls ! j) \<noteq> lk_token l'" using j assms(3) by simp
    ultimately show ?thesis using j assms(3) by simp
  qed
  show ?thesis
    using assms(1) ttl assms(4) k
  proof (cases rule: lock_handle_cases)
    case same
    then show ?thesis using other by auto
  next
    case freed
    then show ?thesis using other by auto
  next
    case (tried t)
    then show ?thesis using other by (auto simp: Owns_def made_token_def)
  qed
qed

lemma remain_ms: "(x div 1000000000) * 1000 + (x mod 1000000000) div 1000000 = x div (1000000 :: int)"
proof -
  have "x = 1000000 * (1000 * (x div 1000000000)) + x mod 1000000000" by simp
  then have "x div 1000000 = 1000 * (x div 1000000000) + (x mod 1000000000) div 1000000"
    by (metis div_mult_self4 zero_neq_numeral add.commute)
  then show ?thesis by simp
qed

lemma TryAcquire_won:
  assumes "lock_server env h" "0 < lc_ttl_ms (lk_cfg l)" "lk_token l = []" "TryAcquire env l seq w = (ok, l', seq', w')"
  shows "if ok then h w' (lc_key (lk_cfg l)) = Some (lk_token l') \<and> Owns l' else lk_token l' = []"
proof -
  have d: "lock_do env LTryAcquire l seq w = (ok, l', seq', w')" using assms(4) by simp
  show ?thesis
    using assms(1,2) d refl
  proof (cases rule: lock_do_cases)
    case same
    then show ?thesis using assms(3) by auto
  next
    case freed
    then show ?thesis by simp
  next
    case (tried t)
    then show ?thesis by (auto simp: Owns_def made_token_def)
  qed
qed

text \<open>Everybody else may do anything, but nobody else acquires through this lock while it tries.\<close>

definition others_ok :: "(int \<times> (ulock \<times> nat \<times> 'w \<Rightarrow> ulock \<times> nat \<times> 'w)) list \<Rightarrow> bool" where
  "others_ok tries \<longleftrightarrow>
     (\<forall>t \<in> set tries. \<forall>l seq w. lk_cfg (fst (snd t (l, seq, w))) = lk_cfg l \<and>
        (lk_token l = [] \<longrightarrow> lk_token (fst (snd t (l, seq, w))) = []))"

lemma acquire_loop_in_time:
  assumes "acquire_loop env ts tries l seq w = (res, waits, l', seq', w')" "ts \<noteq> (0, 0)"
  shows "((\<exists>t \<in> set tries. total_ns ts \<le> fst t) \<longrightarrow> res \<noteq> None) \<and>
      (\<forall>(t, ms) \<in> set (zip tries waits). fst t + ms * 1000000 \<le> total_ns ts)"
  using assms(1)
proof (induction tries arbitrary: l seq w waits)
  case (Cons t rest)
  obtain e g where e: "t = (e, g)" by force
  obtain ok m sq v where t: "TryAcquire env l seq w = (ok, m, sq, v)" by (metis prod.collapse)
  obtain l2 seq2 w2 where g: "g (m, sq, v) = (l2, seq2, w2)" by (metis prod.collapse)
  show ?case
  proof (cases "ok \<or> deadline_remain ts e = None")
    case True
    then show ?thesis using Cons.prems t e by (cases ok) auto
  next
    case False
    then obtain sec ns where r: "deadline_remain ts e = Some (sec, ns)" "\<not> ok" by force
    have left: "e < total_ns ts" "sec * 1000 + ns div 1000000 = (total_ns ts - e) div 1000000"
      using r \<open>ts \<noteq> (0, 0)\<close> remain_ms [of "total_ns ts - e"]
      by (auto simp: deadline_remain_def Let_def split: if_splits)
    show ?thesis
    proof (cases "sec * 1000 + ns div 1000000 = 0")
      case True
      then show ?thesis using Cons.prems t e r \<open>ts \<noteq> (0, 0)\<close> by (auto simp: Let_def)
    next
      case more: False
      obtain waits' where rec: "acquire_loop env ts rest l2 seq2 w2 = (res, waits', l', seq', w')"
        and waits: "waits = min (int (lc_retry_ms (lk_cfg l))) (sec * 1000 + ns div 1000000) # waits'"
        using Cons.prems t e g r \<open>ts \<noteq> (0, 0)\<close> more by (auto simp: Let_def split: prod.splits)
      have "e + min (int (lc_retry_ms (lk_cfg l))) (sec * 1000 + ns div 1000000) * 1000000 \<le> total_ns ts"
        using left by (simp add: min_def) linarith
      then show ?thesis using Cons.IH [OF rec] left(1) waits e by auto
    qed
  qed
qed simp

lemma acquire_loop_won:
  assumes "acquire_loop env ts tries l seq w = (Some True, waits, l', seq', w')" "lock_server env h"
    and "0 < lc_ttl_ms (lk_cfg l)" "lk_token l = []" "others_ok tries"
  shows "h w' (lc_key (lk_cfg l)) = Some (lk_token l') \<and> Owns l'"
  using assms(1,3-5)
proof (induction tries arbitrary: l seq w waits)
  case (Cons t rest)
  obtain e g where e: "t = (e, g)" by force
  obtain ok m sq v where t: "TryAcquire env l seq w = (ok, m, sq, v)" by (metis prod.collapse)
  obtain l2 seq2 w2 where g: "g (m, sq, v) = (l2, seq2, w2)" by (metis prod.collapse)
  note won = TryAcquire_won [OF assms(2) Cons.prems(2,3) t]
  show ?case
  proof (cases ok)
    case True
    then show ?thesis using Cons.prems(1) t e won by simp
  next
    case False
    then obtain waits' where rec: "acquire_loop env ts rest l2 seq2 w2 = (Some True, waits', l', seq', w')"
      using Cons.prems(1) t e g by (auto simp: Let_def split: prod.splits option.splits if_splits)
    have "lock_do env LTryAcquire l seq w = (ok, m, sq, v)" using t by simp
    from lock_do_cfg [OF this] have m: "lk_cfg m = lk_cfg l" .
    have "lk_token m = []" using won False by simp
    then have l2: "lk_cfg l2 = lk_cfg l" "lk_token l2 = []"
      using Cons.prems(4) [unfolded others_ok_def, rule_format, of t m sq v] e g m by simp_all
    have "others_ok rest" using Cons.prems(4) by (simp add: others_ok_def)
    from Cons.IH [OF rec _ l2(2) this] show ?thesis using l2(1) Cons.prems(2) by simp
  qed
qed simp

text \<open>
  C37: \<open>Acquire\<close> with a deadline returns: once a failed try ends at or after the deadline it gives up,
  whatever Redis and everybody else does, and it never sleeps past the deadline. When the lock has
  no token at the start and nobody else acquires through the same lock meanwhile, true means that
  the server then gives the key to the token of this lock. When it has a token at the start, true
  is the immediate answer, without asking the server, and may be stale (\<open>TryAcquire_stale\<close>).
\<close>

theorem ulock_acquire_returns:
  assumes "lock_Acquire env ts tries l seq w = (res, waits, l', seq', w')" "0 \<le> fst ts" "0 \<le> snd ts" "ts \<noteq> (0, 0)"
    and "lock_server env h" "0 < lc_ttl_ms (lk_cfg l)"
  shows "((\<exists>t \<in> set tries. total_ns ts \<le> fst t) \<longrightarrow> res \<noteq> None) \<and>
    (\<forall>(t, ms) \<in> set (zip tries waits). fst t + ms * 1000000 \<le> total_ns ts) \<and>
    (res = Some True \<longrightarrow> lk_token l = [] \<longrightarrow> others_ok tries \<longrightarrow>
       h w' (lc_key (lk_cfg l)) = Some (lk_token l') \<and> Owns l') \<and>
    (lk_token l \<noteq> [] \<longrightarrow> \<not> lk_stopped l \<longrightarrow> lc_key (lk_cfg l) \<noteq> [] \<longrightarrow> tries \<noteq> [] \<longrightarrow>
       res = Some True \<and> waits = [] \<and> l' = l \<and> w' = w)"
proof (cases "lc_retry_ms (lk_cfg l) = 0")
  case True
  then obtain ok where "TryAcquire env l seq w = (ok, l', seq', w')" "res = Some ok" "waits = []"
    using assms(1) by (auto simp: lock_Acquire_def split: prod.splits)
  then show ?thesis using TryAcquire_won [OF assms(5,6)] by (auto simp: TryAcquire_def)
next
  case False
  then have loop: "acquire_loop env ts tries l seq w = (res, waits, l', seq', w')"
    using assms(1) by (simp add: lock_Acquire_def)
  have "res = Some True \<and> waits = [] \<and> l' = l \<and> w' = w"
    if "lk_token l \<noteq> []" "\<not> lk_stopped l" "lc_key (lk_cfg l) \<noteq> []" "tries \<noteq> []"
    using loop that by (cases tries) (auto simp: TryAcquire_def)
  then show ?thesis
    using acquire_loop_in_time [OF loop assms(4)] acquire_loop_won [of env ts tries l seq w waits l' seq' w' h] loop assms(5,6)
    by blast
qed

text \<open>
  A lock that lost the key does not notice in \<open>TryAcquire\<close>. When the key has expired and now
  belongs to another holder, \<open>TryAcquire\<close> of the lock that held it before answers true at once,
  without asking the server, although the key is held by somebody else.
\<close>

theorem TryAcquire_stale:
  assumes "lock_server env h" "locks_reachable env h key ls seq w" "seq \<le> 2 ^ 32" "i < length ls" "key \<noteq> []"
    and "Owns (ls ! i)" "\<not> lk_stopped (ls ! i)" "h w key = Some t" "t \<noteq> lk_token (ls ! i)"
  shows "TryAcquire env (ls ! i) seq w = (True, ls ! i, seq, w) \<and>
    fst (lock_Acquire env ts (t1 # tries) (ls ! i) seq w) = Some True"
proof -
  have "lc_key (lk_cfg (ls ! i)) = key"
    using locks_reachable_inv [OF assms(2,1,3)] assms(4) by (simp add: locks_inv_def)
  then have "TryAcquire env (ls ! i) seq w = (True, ls ! i, seq, w)"
    using assms(5-7) by (simp add: TryAcquire_def Owns_def)
  then show ?thesis by (cases t1) (simp add: lock_Acquire_def)
qed

section \<open>A server in memory\<close>

text \<open>A Redis with one map, reached by a connection that never fails; the clock counts.\<close>

type_synonym lock_world = "redis_keys \<times> nat"

definition mem_exec :: "string list \<Rightarrow> uconnection \<Rightarrow> lock_world \<Rightarrow> Reply \<times> uconnection \<times> lock_world" where
  "mem_exec args c w =
     (if args ! 0 = ''SET'' then
        (if fst w (args ! 1) = None
         then (Reply 0 [] STATUS 0 ''OK'' [], c, ((fst w)(args ! 1 := Some (args ! 2)), snd w))
         else (Reply 0 [] NIL 0 [] [], c, w))
      else (case eval_script (args ! 1) (args ! 3) (drop 4 args) (fst w) of
              None \<Rightarrow> (Reply (- 1) [] NIL 0 [] [], c, w)
            | Some (VInt n, m) \<Rightarrow> (Reply 0 [] INTEGER n [] [], c, (m, snd w))
            | Some (_, m) \<Rightarrow> (Reply 0 [] NIL 0 [] [], c, (m, snd w))))"

definition mem_env :: "lock_world lock_env" where
  "mem_env =
     \<lparr>lock_exec = mem_exec, lock_connect = (\<lambda>w. (Some \<lparr>conn_fd = 3, broken = False, rbuf = []\<rparr>, w)),
      lock_close = (\<lambda>c w. w), token_input = (\<lambda>w. ((of_nat (snd w), 1, 2, 3), (fst w, Suc (snd w))))\<rparr>"

lemma mem_server: "lock_server mem_env fst"
  by (auto simp: lock_server_def mem_env_def mem_exec_def set_nx_args_def Let_def
      split: if_splits option.splits prod.splits lua_value.splits)

definition mem_locks :: "ulock list" where
  "mem_locks = map mk_ulock (replicate 2 \<lparr>lc_key = ''k'', lc_ttl_ms = 0, lc_retry_ms = 100, lc_renew_ms = 0\<rparr>)"

text \<open>The first lock takes the key, the key expires, the second lock takes it.\<close>

definition mem_first :: ulock where
  "mem_first = fst (snd (TryAcquire mem_env (mem_locks ! 0) 0 (\<lambda>_. None, 0)))"

definition mem_second :: ulock where
  "mem_second = fst (snd (TryAcquire mem_env (mem_locks ! 1) 1 (\<lambda>_. None, 1)))"

lemma mem_tokens:
  "lk_token mem_first = gen_token 0 1 2 3 0" "lk_token mem_second = gen_token 1 1 2 3 1"
  by (simp_all add: mem_first_def mem_second_def mem_locks_def numeral_2_eq_2 mk_ulock_def TryAcquire_def
      ensure_conn_def mem_env_def mem_exec_def set_nx_args_def Let_def)

lemma mem_try:
  "TryAcquire mem_env (mem_locks ! 0) 0 (\<lambda>_. None, 0) = (True, mem_first, 1, (\<lambda>_. None)(''k'' := Some (lk_token mem_first)), 1)"
  "TryAcquire mem_env (mem_locks ! 1) 1 (\<lambda>_. None, 1) = (True, mem_second, 2, (\<lambda>_. None)(''k'' := Some (lk_token mem_second)), 2)"
  by (simp_all add: mem_first_def mem_second_def mem_locks_def numeral_2_eq_2 mk_ulock_def TryAcquire_def
      ensure_conn_def mem_env_def mem_exec_def set_nx_args_def Let_def)

lemma mem_reachable:
  "locks_reachable mem_env fst ''k'' mem_locks 0 (\<lambda>_. None, 0)"
  "locks_reachable mem_env fst ''k'' (mem_locks[0 := mem_first]) 1 ((\<lambda>_. None)(''k'' := Some (lk_token mem_first)), 1)"
  "locks_reachable mem_env fst ''k'' (mem_locks[0 := mem_first]) 1 (\<lambda>_. None, 1)"
  "locks_reachable mem_env fst ''k'' [mem_first, mem_second] 2
     ((\<lambda>_. None)(''k'' := Some (lk_token mem_second)), 2)"
proof -
  show r0: "locks_reachable mem_env fst ''k'' mem_locks 0 (\<lambda>_. None, 0)"
    unfolding mem_locks_def by (rule locks_reachable.start) simp
  show r1: "locks_reachable mem_env fst ''k'' (mem_locks[0 := mem_first]) 1
      ((\<lambda>_. None)(''k'' := Some (lk_token mem_first)), 1)"
    using locks_reachable.operation [OF r0, of 0 "Alone LTryAcquire"] mem_try(1) by (simp add: mem_locks_def)
  show r2: "locks_reachable mem_env fst ''k'' (mem_locks[0 := mem_first]) 1 (\<lambda>_. None, 1)"
    by (rule locks_reachable.expires [OF r1]) simp
  show "locks_reachable mem_env fst ''k'' [mem_first, mem_second] 2
     ((\<lambda>_. None)(''k'' := Some (lk_token mem_second)), 2)"
    using locks_reachable.operation [OF r2, of 1 "Alone LTryAcquire"] mem_try(2)
    by (simp add: mem_locks_def numeral_2_eq_2)
qed

theorem ulock_exclusive_witness:
  "\<exists>l' w'. lock_handle mem_env (Alone LRelease) mem_first 2 ((\<lambda>_. None)(''k'' := Some (lk_token mem_second)), 2) =
       (False, l', 2, w') \<and> fst w' ''k'' = Some (lk_token mem_second)"
proof -
  let ?w = "((\<lambda>_. None)(''k'' := Some (lk_token mem_second)), 2) :: lock_world"
  obtain ok l' seq' w' where d: "lock_handle mem_env (Alone LRelease) mem_first 2 ?w = (ok, l', seq', w')"
    by (metis prod.collapse)
  then have seq: "seq' = 2" by (auto split: prod.splits)
  have "fst w' ''k'' = Some (lk_token mem_second)"
    using ulock_exclusive [OF mem_server mem_reachable(4), of 0 "Alone LRelease" ok l' seq' w'] d seq
    by (auto simp: mem_tokens less_Suc_eq)
  moreover have "\<not> ok"
    using d mem_tokens tokens_differ [of 1 0 1 1 2 3 0 1 2 3]
    by (auto simp: lock_Release_def mem_env_def mem_exec_def release_args_def release_script Let_def
        split: option.splits prod.splits if_splits)
  ultimately show ?thesis using d seq by auto
qed

theorem ulock_acquire_returns_witness:
  "\<exists>l' seq' w' waits. lock_Acquire mem_env (1, 0) [(400000000, id), (900000000, \<lambda>(l, seq, w). (l, seq, (\<lambda>_. None, snd w))), (1000000000, id)]
       (mem_locks ! 1) 1 ((\<lambda>_. None)(''k'' := Some ''x''), 1) = (Some True, waits, l', seq', w') \<and>
     fst w' ''k'' = Some (lk_token l') \<and> Owns l'"
proof -
  let ?tries = "[(400000000, id), (900000000, \<lambda>(l, seq, w). (l, seq, (\<lambda>_. None, snd w))), (1000000000, id)]
    :: (int \<times> (ulock \<times> nat \<times> lock_world \<Rightarrow> ulock \<times> nat \<times> lock_world)) list"
  obtain res waits l' seq' w' where a: "lock_Acquire mem_env (1, 0) ?tries (mem_locks ! 1) 1
     ((\<lambda>_. None)(''k'' := Some ''x''), 1) = (res, waits, l', seq', w')" by (metis prod.collapse)
  have l: "lk_token (mem_locks ! 1) = []" "0 < lc_ttl_ms (lk_cfg (mem_locks ! 1))" "lc_key (lk_cfg (mem_locks ! 1)) = ''k''"
    by (simp_all add: mem_locks_def mk_ulock_def numeral_2_eq_2)
  have "res = Some True"
    using a by (simp add: mem_locks_def numeral_2_eq_2 mk_ulock_def lock_Acquire_def TryAcquire_def
      ensure_conn_def mem_env_def mem_exec_def set_nx_args_def Let_def deadline_remain_def total_ns_def)
  moreover have "others_ok ?tries" by (auto simp: others_ok_def)
  ultimately show ?thesis
    using a ulock_acquire_returns [OF a _ _ _ mem_server l(2)] l by auto
qed

theorem TryAcquire_stale_witness:
  "TryAcquire mem_env mem_first 2 ((\<lambda>_. None)(''k'' := Some (lk_token mem_second)), 2) =
     (True, mem_first, 2, ((\<lambda>_. None)(''k'' := Some (lk_token mem_second)), 2))"
proof -
  have "\<not> lk_stopped mem_first"
    by (simp add: mem_first_def mem_locks_def numeral_2_eq_2 mk_ulock_def TryAcquire_def
      ensure_conn_def mem_env_def mem_exec_def set_nx_args_def Let_def)
  moreover have "lk_token mem_second \<noteq> lk_token mem_first"
    using tokens_differ [of 1 0] by (simp add: mem_tokens)
  ultimately show ?thesis
    using TryAcquire_stale [OF mem_server mem_reachable(4), of 0] by (simp add: Owns_def mem_tokens)
qed

end
