(* ===== verification/Http_Ratelimit.thy ===== *)
theory Http_Ratelimit
  imports Http_Context
begin

text \<open>
  The fixed-window rate limiter (\<open>http/ratelimit.cpp\<close>): the counter of one mount point and the
  middleware around it. The clock (milliseconds of \<open>steady_clock\<close>) is an argument of each call.
  \<open>m_entries\<close> is an association list without order; its iteration order never matters.
\<close>

section \<open>The counter\<close>

definition kMaxKeys :: nat where "kMaxKeys = 65536"

text \<open>A key's window and the requests counted in it.\<close>

type_synonym entry = "nat \<times> nat"

record counter =
  m_limit :: nat
  m_windowMs :: nat
  m_entries :: "(string \<times> entry) list"

definition mk_counter :: "int \<Rightarrow> int \<Rightarrow> string + counter" where
  "mk_counter limit window_sec =
     (if limit \<le> 0 then Inl ''ratelimit: limit must be positive''
      else if window_sec \<le> 0 then Inl ''ratelimit: window_sec must be positive''
      else Inr \<lparr>m_limit = nat limit, m_windowMs = nat window_sec * 1000, m_entries = []\<rparr>)"

definition RetryAfter :: "nat \<Rightarrow> counter \<Rightarrow> nat" where
  "RetryAfter now_ms k =
     (let current = now_ms div m_windowMs k;
          remain = (current + 1) * m_windowMs k - now_ms;
          retry = (remain + 999) div 1000
      in if retry < 1 then 1 else retry)"

definition purge_old :: "nat \<Rightarrow> (string \<times> entry) list \<Rightarrow> (string \<times> entry) list" where
  "purge_old current es = filter (\<lambda>(key, w, n). \<not> w < current) es"

definition count_request :: "nat \<Rightarrow> nat \<Rightarrow> string \<Rightarrow> (string \<times> entry) list \<Rightarrow> bool \<times> (string \<times> entry) list" where
  "count_request limit current key es =
     (let (w, n) = (case map_of es key of None \<Rightarrow> (0, 0) | Some e \<Rightarrow> e);
          n' = (if w \<noteq> current then 0 else n)
      in if n' \<ge> limit then (False, AList.update key (current, n') es)
         else (True, AList.update key (current, Suc n') es))"

definition Allow :: "nat \<Rightarrow> string \<Rightarrow> counter \<Rightarrow> bool \<times> counter" where
  "Allow now_ms key k =
     (let current = now_ms div m_windowMs k;
          full = (map_of (m_entries k) key = None \<and> length (m_entries k) \<ge> kMaxKeys);
          es = (if full then purge_old current (m_entries k) else m_entries k)
      in if full \<and> length es \<ge> kMaxKeys then (False, k\<lparr>m_entries := es\<rparr>)
         else (case count_request (m_limit k) current key es of
                 (ok, es') \<Rightarrow> (ok, k\<lparr>m_entries := es'\<rparr>)))"

section \<open>The middleware\<close>

text \<open>The result of a handler that may abort: \<open>None\<close> is a buffer overflow.\<close>

type_synonym ('b, 'w) guarded = "('b option \<times> exn option \<times> http_context \<times> counter \<times> 'w) option"

definition DefaultRejectHandler ::
  "nat \<Rightarrow> http_context \<Rightarrow> counter \<Rightarrow> string \<Rightarrow> 'w \<Rightarrow> (bool, 'w) guarded" where
  "DefaultRejectHandler now_ms c k key w =
     (if key = [] then Some (Some False, None, c, k, w)
      else (case Allow now_ms key k of
              (True, k') \<Rightarrow> Some (Some False, None, c, k', w)
            | (False, k') \<Rightarrow>
                (case Data 429 ''application/json''
                        (''{'' @ [CHR 0x22] @ ''code'' @ [CHR 0x22] @ '':429,'' @ [CHR 0x22] @ ''msg'' @ [CHR 0x22] @
                         '':'' @ [CHR 0x22] @ ''too many requests'' @ [CHR 0x22] @ ''}'') c of
                   Ret c' \<Rightarrow> Some (Some True, None, c', k', w)
                 | Throw msg c' \<Rightarrow> Some (None, Some (HttpException msg), c', k', w)
                 | Overflow \<Rightarrow> None)))"

definition SetRetryAfter :: "nat \<Rightarrow> counter \<Rightarrow> http_context \<Rightarrow> http_context" where
  "SetRetryAfter now_ms k c = Ctx_SetHeader ''Retry-After'' (nat_to_string (RetryAfter now_ms k)) c"

text \<open>
  \<open>reject\<close> is the reject handler, \<open>next\<close> is \<open>ctx->Next()\<close>, \<open>later\<close> the clock when the header is set.
\<close>

definition limit_Handle ::
  "(http_context \<Rightarrow> counter \<Rightarrow> string \<Rightarrow> 'w \<Rightarrow> (bool, 'w) guarded) \<Rightarrow> (http_context \<Rightarrow> string) \<Rightarrow> nat \<Rightarrow>
   (http_context \<Rightarrow> counter \<Rightarrow> 'w \<Rightarrow> exn option \<times> http_context \<times> counter \<times> 'w) \<Rightarrow>
   http_context \<Rightarrow> counter \<Rightarrow> 'w \<Rightarrow> (unit, 'w) guarded" where
  "limit_Handle reject key_getter later next c k w =
     (case reject c k (key_getter c) w of
        None \<Rightarrow> None
      | Some (Some True, _, c1, k1, w1) \<Rightarrow>
          Some (None, Some (HttpException ''too many requests''), SetRetryAfter later k1 c1, k1, w1)
      | Some (Some False, _, c1, k1, w1) \<Rightarrow>
          (case next c1 k1 w1 of
             (Some (HttpException msg), c2, k2, w2) \<Rightarrow>
               Some (None, Some (HttpException msg), SetRetryAfter later k2 c2, k2, w2)
           | (Some e, c2, k2, w2) \<Rightarrow> Some (None, Some e, c2, k2, w2)
           | (None, c2, k2, w2) \<Rightarrow> Some (Some (), None, c2, k2, w2))
      | Some (None, Some (HttpException msg), c1, k1, w1) \<Rightarrow>
          Some (None, Some (HttpException msg), SetRetryAfter later k1 c1, k1, w1)
      | Some (None, e, c1, k1, w1) \<Rightarrow> Some (None, e, c1, k1, w1))"

text \<open>\<open>Make\<close>: an empty key getter is refused, an empty reject handler replaced.\<close>

definition limit_Make ::
  "(http_context \<Rightarrow> string) option \<Rightarrow> int \<Rightarrow> int \<Rightarrow> string + (http_context \<Rightarrow> string) \<times> counter" where
  "limit_Make key_getter limit window_sec =
     (case key_getter of
        None \<Rightarrow> Inl ''ratelimit: key_getter is empty''
      | Some g \<Rightarrow> (case mk_counter limit window_sec of Inl e \<Rightarrow> Inl e | Inr k \<Rightarrow> Inr (g, k)))"

definition ByIP :: "int \<Rightarrow> int \<Rightarrow> string + (http_context \<Rightarrow> string) \<times> counter" where
  "ByIP limit window_sec = limit_Make (Some ClientIP) limit window_sec"

section \<open>Runs of the counter\<close>

fun allow_run :: "(nat \<times> string) list \<Rightarrow> counter \<Rightarrow> bool list" where
  "allow_run [] k = []"
| "allow_run ((now, key) # calls) k = (case Allow now key k of (ok, k') \<Rightarrow> ok # allow_run calls k')"

text \<open>The requests of a key in a window, all of them and those let through.\<close>

definition in_window :: "nat \<Rightarrow> nat \<Rightarrow> string \<Rightarrow> nat \<times> string \<Rightarrow> bool" where
  "in_window width win key call \<longleftrightarrow> fst call div width = win \<and> snd call = key"

definition requests :: "nat \<Rightarrow> nat \<Rightarrow> string \<Rightarrow> (nat \<times> string) list \<Rightarrow> nat" where
  "requests width win key calls = length (filter (in_window width win key) calls)"

definition admitted :: "nat \<Rightarrow> nat \<Rightarrow> string \<Rightarrow> (nat \<times> string) list \<Rightarrow> counter \<Rightarrow> nat" where
  "admitted width win key calls k =
     length (filter (\<lambda>(call, ok). ok \<and> in_window width win key call) (zip calls (allow_run calls k)))"

definition used :: "nat \<Rightarrow> string \<Rightarrow> counter \<Rightarrow> nat" where
  "used win key k = (case map_of (m_entries k) key of None \<Rightarrow> 0 | Some (w, n) \<Rightarrow> if w = win then n else 0)"

section \<open>What one call does\<close>

definition windows_le :: "nat \<Rightarrow> counter \<Rightarrow> bool" where
  "windows_le win k \<longleftrightarrow> (\<forall>x w n. map_of (m_entries k) x = Some (w, n) \<longrightarrow> w \<le> win)"

lemma map_of_purge:
  "distinct (map fst es) \<Longrightarrow>
   map_of (purge_old cur es) x =
     (case map_of es x of None \<Rightarrow> None | Some (w, n) \<Rightarrow> if w < cur then None else Some (w, n))"
proof (induction es)
  case (Cons e es)
  obtain y w n where e: "e = (y, w, n)" by (cases e) auto
  from Cons.prems have "map_of es y = None" by (simp add: e map_of_eq_None_iff)
  with Cons show ?case by (auto simp: e purge_old_def split: option.splits)
qed (simp add: purge_old_def)

lemma distinct_purge: "distinct (map fst es) \<Longrightarrow> distinct (map fst (purge_old cur es))"
  by (simp add: purge_old_def distinct_map_filter)

lemma fst_purge: "fst ` set (purge_old cur es) \<subseteq> fst ` set es"
  by (auto simp: purge_old_def)

lemma Allow_step:
  assumes "Allow now key k = (ok, k')" "distinct (map fst (m_entries k))" "cur = now div m_windowMs k"
    and "windows_le cur k"
  shows "m_limit k' = m_limit k" "m_windowMs k' = m_windowMs k" "distinct (map fst (m_entries k'))"
    "windows_le cur k'" "fst ` set (m_entries k') \<subseteq> insert key (fst ` set (m_entries k))"
    "used cur x k' = used cur x k + of_bool (ok \<and> x = key)"
    "ok \<Longrightarrow> used cur key k < m_limit k"
    "map_of (m_entries k) key \<noteq> None \<or> length (m_entries k) < kMaxKeys \<Longrightarrow> ok \<longleftrightarrow> used cur key k < m_limit k"
proof -
  define full where "full = (map_of (m_entries k) key = None \<and> length (m_entries k) \<ge> kMaxKeys)"
  define es where "es = (if full then purge_old cur (m_entries k) else m_entries k)"
  have es: "distinct (map fst es)" "fst ` set es \<subseteq> fst ` set (m_entries k)"
    using assms(2) fst_purge [of cur "m_entries k"] by (auto simp: es_def distinct_purge)
  have look: "(case map_of es y of None \<Rightarrow> 0 | Some (w, n) \<Rightarrow> if w = cur then n else 0) = used cur y k" for y
  proof (cases "map_of (m_entries k) y")
    case None
    then show ?thesis using assms(2) by (simp add: es_def map_of_purge used_def)
  next
    case (Some e)
    obtain w n where e: "e = (w, n)" by force
    then have "w \<le> cur" using Some assms(4) by (simp only: windows_le_def)
    then show ?thesis using Some e assms(2) by (simp add: es_def map_of_purge used_def)
  qed
  have le: "w \<le> cur" if "map_of es y = Some (w, n)" for y w n
  proof -
    from that have "map_of (m_entries k) y = Some (w, n)"
      using assms(2) by (auto simp: es_def map_of_purge split: option.splits if_splits)
    then show ?thesis using assms(4) by (simp only: windows_le_def)
  qed
  have "m_limit k' = m_limit k \<and> m_windowMs k' = m_windowMs k \<and> distinct (map fst (m_entries k')) \<and>
    windows_le cur k' \<and> fst ` set (m_entries k') \<subseteq> insert key (fst ` set (m_entries k)) \<and>
    used cur x k' = used cur x k + of_bool (ok \<and> x = key) \<and> (ok \<longrightarrow> used cur key k < m_limit k) \<and>
    (map_of (m_entries k) key \<noteq> None \<or> length (m_entries k) < kMaxKeys \<longrightarrow> ok = (used cur key k < m_limit k))"
  proof (cases "full \<and> length es \<ge> kMaxKeys")
    case True
    then have k': "\<not> ok" "k' = k\<lparr>m_entries := es\<rparr>"
      using assms(1,3) by (auto simp: Allow_def Let_def es_def full_def split: if_splits)
    have "windows_le cur k'" using le k'(2) by (simp add: windows_le_def)
    moreover have "used cur x k' = used cur x k" using look [of x] k'(2) by (simp add: used_def)
    moreover have "map_of (m_entries k) key = None" "\<not> length (m_entries k) < kMaxKeys"
      using True by (simp_all add: full_def)
    ultimately show ?thesis using es k' by auto
  next
    case False
    define n where "n = used cur key k"
    have look_key: "(case map_of es key of None \<Rightarrow> (0, 0) | Some e \<Rightarrow> e) = (w, m) \<Longrightarrow> (if w \<noteq> cur then 0 else m) = n" for w m
      using look [of key] by (auto simp: n_def split: option.splits)
    have "Allow now key k = (case count_request (m_limit k) cur key es of (ok, es') \<Rightarrow> (ok, k\<lparr>m_entries := es'\<rparr>))"
      unfolding Allow_def Let_def assms(3) [symmetric] full_def [symmetric] es_def [symmetric]
      using False by (simp only: if_False)
    moreover have "count_request (m_limit k) cur key es =
        (n < m_limit k, AList.update key (cur, if n < m_limit k then Suc n else n) es)"
      using look_key by (auto simp: count_request_def Let_def split: prod.splits)
    ultimately have k': "ok = (n < m_limit k)" "k' = k\<lparr>m_entries := AList.update key (cur, if ok then Suc n else n) es\<rparr>"
      using assms(1) by auto
    have "windows_le cur k'" using le by (auto simp: k' windows_le_def update_conv' split: if_splits)
    moreover have "fst ` set (m_entries k') \<subseteq> insert key (fst ` set (m_entries k))"
      using es(2) dom_update [of key "(cur, if ok then Suc n else n)" es] by (auto simp: k' dom_map_of_conv_image_fst)
    moreover have "used cur x k' = used cur x k + of_bool (ok \<and> x = key)"
      using look [of x] by (auto simp: k' used_def update_conv' n_def)
    ultimately show ?thesis using es(1) by (simp add: k' distinct_update n_def)
  qed
  then show "m_limit k' = m_limit k" "m_windowMs k' = m_windowMs k" "distinct (map fst (m_entries k'))"
    "windows_le cur k'" "fst ` set (m_entries k') \<subseteq> insert key (fst ` set (m_entries k))"
    "used cur x k' = used cur x k + of_bool (ok \<and> x = key)"
    "ok \<Longrightarrow> used cur key k < m_limit k"
    "map_of (m_entries k) key \<noteq> None \<or> length (m_entries k) < kMaxKeys \<Longrightarrow> ok \<longleftrightarrow> used cur key k < m_limit k"
    by simp_all
qed

lemma windows_le_mono: "windows_le v k \<Longrightarrow> v \<le> w \<Longrightarrow> windows_le w k"
  unfolding windows_le_def by (meson order_trans)

lemma used_future: "windows_le v k \<Longrightarrow> v < w \<Longrightarrow> used w x k = 0"
  by (fastforce simp: used_def windows_le_def split: option.splits)

lemma no_requests:
  "(\<And>call. call \<in> set calls \<Longrightarrow> win < fst call div width) \<Longrightarrow>
   requests width win x calls = 0 \<and> admitted width win x calls k = 0"
  by (fastforce simp: requests_def admitted_def in_window_def filter_empty_conv dest: set_zip_leftD)

lemma admitted_Cons:
  "Allow now key k = (ok, k') \<Longrightarrow>
   admitted width win x ((now, key) # calls) k =
     of_bool (ok \<and> now div width = win \<and> key = x) + admitted width win x calls k'"
  by (auto simp: admitted_def in_window_def)

lemma requests_Cons:
  "requests width win x ((now, key) # calls) = of_bool (now div width = win \<and> key = x) + requests width win x calls"
  by (simp add: requests_def in_window_def)

lemma admitted_bound:
  assumes "sorted (map fst calls)" "0 < m_windowMs k" "distinct (map fst (m_entries k))"
    and "\<And>call. call \<in> set calls \<Longrightarrow> windows_le (fst call div m_windowMs k) k" "used win x k \<le> m_limit k"
  shows "admitted (m_windowMs k) win x calls k \<le> m_limit k - used win x k \<and>
    (card (snd ` set calls \<union> fst ` set (m_entries k)) \<le> kMaxKeys \<longrightarrow>
       admitted (m_windowMs k) win x calls k = min (m_limit k - used win x k) (requests (m_windowMs k) win x calls))"
  using assms
proof (induction calls arbitrary: k)
  case Nil
  then show ?case by (simp add: admitted_def requests_def)
next
  case (Cons call calls)
  obtain now key where call: "call = (now, key)" by force
  obtain ok k' where a: "Allow now key k = (ok, k')" by force
  define width cur where "width = m_windowMs k" and "cur = now div m_windowMs k"
  have wle: "windows_le cur k" using Cons.prems(4) [of call] by (simp add: call cur_def)
  note step = Allow_step [OF a Cons.prems(3) cur_def wle]
  have later: "cur \<le> fst c div width" if "c \<in> set calls" for c
    using Cons.prems(1) that by (auto simp: call cur_def width_def intro: div_le_mono)
  have keys: "snd ` set calls \<union> fst ` set (m_entries k') \<subseteq> snd ` set (call # calls) \<union> fst ` set (m_entries k)"
    using step(5) by (auto simp: call)
  have exact: "ok \<longleftrightarrow> used cur key k < m_limit k"
    if "card (snd ` set (call # calls) \<union> fst ` set (m_entries k)) \<le> kMaxKeys"
  proof (rule step(8))
    show "map_of (m_entries k) key \<noteq> None \<or> length (m_entries k) < kMaxKeys"
    proof (cases "map_of (m_entries k) key")
      case None
      then have "key \<notin> fst ` set (m_entries k)" by (simp add: map_of_eq_None_iff)
      then have "Suc (card (fst ` set (m_entries k))) = card (insert key (fst ` set (m_entries k)))" by simp
      also have "\<dots> \<le> card (snd ` set (call # calls) \<union> fst ` set (m_entries k))"
        by (intro card_mono) (auto simp: call)
      finally show ?thesis using that Cons.prems(3) distinct_card [of "map fst (m_entries k)"] by simp
    qed simp
  qed
  show ?case
  proof (cases "win < cur")
    case True
    then have "admitted width win x (call # calls) k = 0" "requests width win x (call # calls) = 0"
      using no_requests [of "call # calls" win width x k] later by (force simp: call cur_def width_def)+
    then show ?thesis by (simp add: width_def)
  next
    case False
    have u: "used win x k' = used win x k + of_bool (ok \<and> x = key \<and> cur = win)"
    proof (cases "win = cur")
      case True
      then show ?thesis using step(6) [of x] by simp
    next
      case False
      with \<open>\<not> win < cur\<close> show ?thesis using used_future [OF wle] used_future [OF step(4)] by simp
    qed
    have ul: "used win x k' \<le> m_limit k'" using u Cons.prems(5) step(1,7) by (auto split: if_splits)
    have IH: "admitted width win x calls k' \<le> m_limit k - used win x k' \<and>
        (card (snd ` set calls \<union> fst ` set (m_entries k')) \<le> kMaxKeys \<longrightarrow>
           admitted width win x calls k' = min (m_limit k - used win x k') (requests width win x calls))"
      using Cons.IH [of k'] Cons.prems(1,2) step(1-3) windows_le_mono [OF step(4) later] ul
      by (simp add: width_def)
    have c: "card (snd ` set calls \<union> fst ` set (m_entries k')) \<le> card (snd ` set (call # calls) \<union> fst ` set (m_entries k))"
      by (intro card_mono keys) auto
    have adm: "admitted width win x (call # calls) k = of_bool (ok \<and> cur = win \<and> key = x) + admitted width win x calls k'"
      unfolding call cur_def width_def by (rule admitted_Cons [OF a])
    have req: "requests width win x (call # calls) = of_bool (cur = win \<and> key = x) + requests width win x calls"
      unfolding call cur_def width_def by (rule requests_Cons)
    have bound: "admitted width win x (call # calls) k \<le> m_limit k - used win x k"
    proof (cases "ok \<and> cur = win \<and> key = x")
      case True
      then have "used win x k < m_limit k" using step(7) by simp
      then show ?thesis using IH u True by (simp add: adm) linarith
    next
      case False
      then show ?thesis using IH u
        by (simp add: adm) (auto split: if_splits)
    qed
    have "admitted width win x (call # calls) k = min (m_limit k - used win x k) (requests width win x (call # calls))"
      if few: "card (snd ` set (call # calls) \<union> fst ` set (m_entries k)) \<le> kMaxKeys"
    proof -
      have IH': "admitted width win x calls k' = min (m_limit k - used win x k') (requests width win x calls)"
        using IH few c by simp
      show ?thesis
      proof (cases "cur = win \<and> key = x")
        case True
        then show ?thesis using IH' u exact [OF few]
          by (cases ok) (simp_all add: adm req)
      next
        case False
        then show ?thesis using IH' u
          by (simp add: adm req) auto
      qed
    qed
    with bound show ?thesis by (simp add: width_def)
  qed
qed

section \<open>Properties\<close>

text \<open>
  C34: The limiter keeps its limit exactly. When the clock does not run backwards, then of the
  requests with one key in one window at most \<open>limit\<close> are let through, and as long as no more
  than \<open>kMaxKeys\<close> keys appear, the first \<open>limit\<close> of them are.
\<close>

theorem Allow_limit:
  assumes "mk_counter limit window_sec = Inr k" "sorted (map fst calls)"
  shows "admitted (m_windowMs k) win key calls k \<le> nat limit \<and>
    (card (snd ` set calls) \<le> kMaxKeys \<longrightarrow>
       admitted (m_windowMs k) win key calls k = min (nat limit) (requests (m_windowMs k) win key calls))"
proof -
  have k: "m_limit k = nat limit" "0 < m_windowMs k" "m_entries k = []"
    using assms(1) by (auto simp: mk_counter_def split: if_splits)
  then have "used win key k = 0" "\<And>w. windows_le w k" by (simp_all add: used_def windows_le_def)
  with admitted_bound [OF assms(2) k(2), of win key] k show ?thesis by simp
qed

text \<open>One key alone: requests in its own window are counted on, a new window starts at zero.\<close>

lemma allow_run_same:
  assumes "m_entries k = [(key, now div m_windowMs k, m)]" "m + n \<le> m_limit k"
  shows "allow_run (replicate n (now, key) @ rest) k =
    replicate n True @ allow_run rest (k\<lparr>m_entries := [(key, now div m_windowMs k, m + n)]\<rparr>)"
  using assms
proof (induction n arbitrary: k m)
  case (Suc n)
  let ?k = "k\<lparr>m_entries := [(key, now div m_windowMs k, Suc m)]\<rparr>"
  have "Allow now key k = (True, ?k)"
    using Suc.prems by (simp add: Allow_def count_request_def Let_def)
  moreover have "allow_run (replicate n (now, key) @ rest) ?k =
      replicate n True @ allow_run rest (?k\<lparr>m_entries := [(key, now div m_windowMs ?k, Suc m + n)]\<rparr>)"
    using Suc.prems by (intro Suc.IH) simp_all
  ultimately show ?case by simp
next
  case 0
  then have "k\<lparr>m_entries := [(key, now div m_windowMs k, m)]\<rparr> = k" by (cases k) simp
  then show ?case by simp
qed

lemma allow_run_new:
  assumes "m_entries k = [] \<or> (\<exists>w m. m_entries k = [(key, w, m)] \<and> w \<noteq> now div m_windowMs k)" "n < m_limit k"
  shows "allow_run (replicate (Suc n) (now, key) @ rest) k =
    replicate (Suc n) True @ allow_run rest (k\<lparr>m_entries := [(key, now div m_windowMs k, Suc n)]\<rparr>)"
proof -
  let ?k = "k\<lparr>m_entries := [(key, now div m_windowMs k, 1)]\<rparr>"
  have "Allow now key k = (True, ?k)"
    using assms by (auto simp: Allow_def count_request_def Let_def kMaxKeys_def)
  moreover have "allow_run (replicate n (now, key) @ rest) ?k =
      replicate n True @ allow_run rest (?k\<lparr>m_entries := [(key, now div m_windowMs ?k, 1 + n)]\<rparr>)"
    using assms(2) by (intro allow_run_same) simp_all
  ultimately show ?thesis by simp
qed

text \<open>
  A request that reads the clock before a window ends and takes the lock after it resets the
  count of the new window: \<open>Allow\<close> reads the clock outside the lock and compares windows for
  inequality. So one late request lets twice the limit through in one window.
\<close>

theorem Allow_late_clock:
  assumes "mk_counter limit window_sec = Inr k" "early div m_windowMs k < now div m_windowMs k"
  shows "admitted (m_windowMs k) (now div m_windowMs k) key
    (replicate (nat limit) (now, key) @ (early, key) # replicate (nat limit) (now, key)) k = 2 * nat limit"
proof -
  have k: "m_limit k = nat limit" "0 < nat limit" "m_entries k = []"
    using assms(1) by (auto simp: mk_counter_def split: if_splits)
  obtain n where n: "nat limit = Suc n" using k(2) gr0_conv_Suc by auto
  let ?w = "now div m_windowMs k" and ?v = "early div m_windowMs k"
  have neq: "?v \<noteq> ?w" using assms(2) by simp
  have "allow_run (replicate (Suc n) (now, key) @ (early, key) # replicate (Suc n) (now, key) @ []) k =
      replicate (Suc n) True @ allow_run ((early, key) # replicate (Suc n) (now, key) @ [])
        (k\<lparr>m_entries := [(key, ?w, Suc n)]\<rparr>)"
    using k n by (intro allow_run_new) auto
  also have "allow_run ((early, key) # replicate (Suc n) (now, key) @ []) (k\<lparr>m_entries := [(key, ?w, Suc n)]\<rparr>) =
      True # allow_run (replicate (Suc n) (now, key) @ []) (k\<lparr>m_entries := [(key, ?v, 1)]\<rparr>)"
    using allow_run_new [of "k\<lparr>m_entries := [(key, ?w, Suc n)]\<rparr>" key early 0 "replicate (Suc n) (now, key) @ []"] k n neq
    by simp
  also have "allow_run (replicate (Suc n) (now, key) @ []) (k\<lparr>m_entries := [(key, ?v, 1)]\<rparr>) =
      replicate (Suc n) True @ allow_run [] (k\<lparr>m_entries := [(key, ?w, Suc n)]\<rparr>)"
    using allow_run_new [of "k\<lparr>m_entries := [(key, ?v, 1)]\<rparr>" key now n "[]"] k n neq by simp
  finally have run: "allow_run (replicate (nat limit) (now, key) @ (early, key) # replicate (nat limit) (now, key)) k =
      replicate (nat limit) True @ True # replicate (nat limit) True"
    by (simp add: n)
  show ?thesis using neq by (simp add: admitted_def run in_window_def zip_append1 filter_replicate zip_replicate)
qed

lemma round_up: "r \<le> 1000 * ((r + 999) div (1000 :: nat))"
  using dividend_less_times_div [of 1000 "r + 999"] by linarith

text \<open>
  The header tells the truth: the seconds announced are at least one and at most the length of
  the window, and when they have passed the window is over.
\<close>

theorem RetryAfter_ends_window:
  assumes "mk_counter limit window_sec = Inr k"
  shows "1 \<le> RetryAfter now k \<and> int (RetryAfter now k) \<le> window_sec \<and>
    (now + 1000 * RetryAfter now k) div m_windowMs k > now div m_windowMs k"
proof -
  have k: "m_windowMs k = nat window_sec * 1000" "0 < nat window_sec"
    using assms by (auto simp: mk_counter_def split: if_splits)
  define width where "width = m_windowMs k"
  define r where "r = (now div width + 1) * width - now"
  have pos: "0 < width" using k by (simp add: width_def)
  have now: "now = now div width * width + now mod width" by simp
  have r: "r = width - now mod width"
  proof -
    define q m where "q = now div width" and "m = now mod width"
    have e: "now = width * q + m" by (simp add: q_def m_def)
    have "r = (q + 1) * width - now" by (simp only: r_def q_def)
    also have "\<dots> = width - m" unfolding e by (simp add: algebra_simps)
    finally show ?thesis by (simp only: m_def)
  qed
  have lt: "now mod width < width" using pos by simp
  then have "1 \<le> r" "r \<le> width" using r by auto
  moreover have ra: "RetryAfter now k = (r + 999) div 1000"
    using \<open>1 \<le> r\<close> by (simp add: RetryAfter_def Let_def r_def width_def)
  moreover have "r \<le> 1000 * ((r + 999) div 1000)" by (rule round_up)
  moreover have "1 \<le> (r + 999) div 1000" using \<open>1 \<le> r\<close> div_le_mono [of 1000 "r + 999" 1000] by simp
  moreover have "(r + 999) div 1000 \<le> nat window_sec"
    using \<open>r \<le> width\<close> div_le_mono [of "r + 999" "nat window_sec * 1000 + 999" 1000] by (simp add: width_def k(1))
  moreover have "(now div width + 1) * width \<le> now + 1000 * ((r + 999) div 1000)"
    using r_def calculation(4) by linarith
  then have "now div width + 1 \<le> (now + 1000 * ((r + 999) div 1000)) div width"
    using pos by (metis div_le_mono div_mult_self_is_m)
  ultimately show ?thesis using k(2) by (simp add: width_def)
qed

text \<open>
  The middleware guards the chain. With the default reject handler a request over its limit
  reaches no further handler: it gets a 429 with \<open>Retry-After\<close> and the chain is aborted; a request
  within the limit, or without a key, goes on. But when a later handler aborts for a reason of its
  own, the limiter adds \<open>Retry-After\<close> to that response too.
\<close>

theorem limit_Handle_guards:
  assumes "limit_Handle (DefaultRejectHandler now) key_getter later next c k w = Some (r, e, c', k', w')"
    and "m_ptrRsp c = Some p"
  shows "(key_getter c \<noteq> [] \<and> \<not> fst (Allow now (key_getter c) k) \<longrightarrow>
            r = None \<and> e = Some (HttpException ''too many requests'') \<and> w' = w \<and>
            (\<exists>c1 p1. m_ptrRsp c1 = Some p1 \<and> m_iHttpRetCode p1 = 429 \<and> c' = SetRetryAfter later k' c1)) \<and>
    (key_getter c = [] \<or> fst (Allow now (key_getter c) k) \<longrightarrow>
       (\<exists>k1 c2. next c k1 w = (e, c2, k', w') \<and>
          c' = (case e of Some (HttpException msg) \<Rightarrow> SetRetryAfter later k' c2 | _ \<Rightarrow> c2)))"
proof (cases "key_getter c = []")
  case True
  then have "DefaultRejectHandler now c k (key_getter c) w = Some (Some False, None, c, k, w)"
    by (simp add: DefaultRejectHandler_def)
  then show ?thesis using assms(1) True
    by (auto simp: limit_Handle_def split: prod.splits option.splits exn.splits)
next
  case False
  obtain ok k1 where a: "Allow now (key_getter c) k = (ok, k1)" by force
  show ?thesis
  proof (cases ok)
    case True
    then have "DefaultRejectHandler now c k (key_getter c) w = Some (Some False, None, c, k1, w)"
      using False a by (simp add: DefaultRejectHandler_def)
    then show ?thesis using assms(1) False a True
      by (auto simp: limit_Handle_def split: prod.splits option.splits exn.splits)
  next
    case no: False
    have "\<exists>c1 p1. DefaultRejectHandler now c k (key_getter c) w = Some (Some True, None, c1, k1, w) \<and>
        m_ptrRsp c1 = Some p1 \<and> m_iHttpRetCode p1 = 429"
      using assms False a no
      by (auto simp: limit_Handle_def DefaultRejectHandler_def Data_def overwrite_rsp_def write_content_def
          split: option.splits outcome.splits if_splits)
    then obtain c1 p1 where h: "DefaultRejectHandler now c k (key_getter c) w = Some (Some True, None, c1, k1, w)"
      and p1: "m_ptrRsp c1 = Some p1" "m_iHttpRetCode p1 = 429" by blast
    from assms(1) h have "r = None" "e = Some (HttpException ''too many requests'')" "c' = SetRetryAfter later k1 c1"
      "k' = k1" "w' = w" by (auto simp: limit_Handle_def)
    then show ?thesis using False a no p1 by auto
  qed
qed

section \<open>Witnesses\<close>

definition small_counter :: counter where
  "small_counter = \<lparr>m_limit = 2, m_windowMs = 1000, m_entries = []\<rparr>"

lemma small_counter: "mk_counter 2 1 = Inr small_counter"
  by (simp add: mk_counter_def small_counter_def)

theorem Allow_limit_witness:
  "admitted 1000 0 ''a'' [(1, ''a''), (2, ''b''), (3, ''a''), (4, ''a''), (1005, ''a'')] small_counter = 2"
proof -
  have "requests 1000 0 ''a'' [(1, ''a''), (2, ''b''), (3, ''a''), (4, ''a''), (1005, ''a'')] = 3"
    by (simp add: requests_def in_window_def)
  then show ?thesis
    using Allow_limit [OF small_counter, of "[(1, ''a''), (2, ''b''), (3, ''a''), (4, ''a''), (1005, ''a'')]" 0 "''a''"]
    by (simp add: small_counter_def kMaxKeys_def card_insert_if)
qed

theorem Allow_late_clock_witness:
  "admitted 1000 1 ''a'' (replicate 2 (1000, ''a'') @ (999, ''a'') # replicate 2 (1000, ''a'')) small_counter = 4"
  using Allow_late_clock [OF small_counter, of 999 1000 "''a''"] by (simp add: small_counter_def)

theorem RetryAfter_ends_window_witness: "RetryAfter 1700 small_counter = 1"
  using RetryAfter_ends_window [OF small_counter, of 1700] by simp

text \<open>A request within the limit whose handler aborts with 403.\<close>

definition guarded_context :: http_context where
  "guarded_context = mk_context (mk_request 4096) (mk_response 1 2 3) [] [] ''10.0.0.1'' ''/login''"

theorem limit_Handle_guards_witness:
  "\<exists>e c' k'. limit_Handle (DefaultRejectHandler 1) ClientIP 700
       (\<lambda>c k w. (Some (HttpException ''csrf''), Status 403 c, k, w)) guarded_context small_counter () =
     Some (None, e, c', k', ()) \<and> c' = SetRetryAfter 700 k' (Status 403 guarded_context)"
proof -
  have ip: "ClientIP guarded_context = ''10.0.0.1''" by (simp add: ClientIP_def guarded_context_def mk_context_def)
  have "fst (Allow 1 ''10.0.0.1'' small_counter)"
    by (simp add: Allow_def small_counter_def Let_def kMaxKeys_def count_request_def)
  then obtain k1 where a: "Allow 1 ''10.0.0.1'' small_counter = (True, k1)" by (metis (full_types) prod.collapse)
  then have h: "limit_Handle (DefaultRejectHandler 1) ClientIP 700
       (\<lambda>c k w. (Some (HttpException ''csrf''), Status 403 c, k, w)) guarded_context small_counter () =
     Some (None, Some (HttpException ''csrf''), SetRetryAfter 700 k1 (Status 403 guarded_context), k1, ())"
    by (simp add: limit_Handle_def DefaultRejectHandler_def ip)
  have "m_ptrRsp guarded_context = Some (mk_response 1 2 3)" by (simp add: guarded_context_def mk_context_def)
  from limit_Handle_guards [OF h this] a ip
  have "SetRetryAfter 700 k1 (Status 403 guarded_context) = SetRetryAfter 700 k1 (Status 403 guarded_context) \<and>
    (\<exists>k c2. (Some (HttpException ''csrf''), Status 403 guarded_context, k, ()) =
       (Some (HttpException ''csrf''), c2, k1, ()))" by auto
  then show ?thesis using h by blast
qed

end
