(* ===== verification/Http_Csrf.thy ===== *)
theory Http_Csrf
  imports Session_Store
begin

text \<open>
  The protection against cross-site requests (\<open>http/csrf.cpp\<close>): a random token in the session,
  which a client must repeat in a header. The session is the one \<open>Sessions\<close> stored in the context,
  and \<open>next\<close> is \<open>ctx->Next()\<close> on session, context and world. \<open>CRYPTO_memcmp\<close> compares for
  equality. The result \<open>None\<close> is a buffer overflow (see \<open>overwrite_rsp\<close>).
\<close>

definition kCsrfKey :: string where "kCsrfKey = ''csrf''"

text \<open>Without random bytes the code logs and returns the empty string.\<close>

definition Csrf_NewToken :: "'w session_env \<Rightarrow> 'w \<Rightarrow> string \<times> 'w" where
  "Csrf_NewToken env w =
     (case rand_bytes env 32 w of
        (None, w') \<Rightarrow> ([], w')
      | (Some rnd, w') \<Rightarrow> (concat (map (hex_pair kHexLower) rnd), w'))"

definition csrf_body :: "string \<Rightarrow> string" where
  "csrf_body token =
     (let q = [CHR 0x22] in
      ''{'' @ q @ ''code'' @ q @ '':0,'' @ q @ ''msg'' @ q @ '':'' @ q @ ''ok'' @ q @ '','' @ q @ ''body'' @ q @
      '':{'' @ q @ ''csrf_token'' @ q @ '':'' @ q @ token @ q @ ''}}'')"

definition csrf_refusal :: string where
  "csrf_refusal =
     (let q = [CHR 0x22] in
      ''{'' @ q @ ''code'' @ q @ '':403,'' @ q @ ''msg'' @ q @ '':'' @ q @ ''csrf check failed'' @ q @ ''}'')"

definition SessionIssue ::
  "'w session_env \<Rightarrow> session_store \<Rightarrow> session \<Rightarrow> http_context \<Rightarrow> 'w \<Rightarrow>
   (exn option \<times> session \<times> http_context \<times> 'w) option" where
  "SessionIssue env st s c w =
     (case FromContext c of
        Throw msg (_, c') \<Rightarrow> Some (Some (HttpException msg), s, c', w)
      | Overflow \<Rightarrow> None
      | Ret _ \<Rightarrow>
          (let token0 = Session_Get kCsrfKey [] s;
               (token, s', w') =
                 (if token0 = [] then
                    (case Csrf_NewToken env w of
                       (t, w1) \<Rightarrow>
                         (let s1 = Session_Set kCsrfKey t s
                          in (t, if m_bNew s1 then SetMaxAge (MaxAnonymousAge st) s1 else s1, w1)))
                  else (token0, s, w))
           in case Data 200 ''application/json'' (csrf_body token) c of
                Ret c' \<Rightarrow> Some (None, s', c', w')
              | Throw msg c' \<Rightarrow> Some (Some (HttpException msg), s', c', w')
              | Overflow \<Rightarrow> None))"

definition SessionCheck ::
  "(session \<times> http_context \<times> 'w \<Rightarrow> exn option \<times> session \<times> http_context \<times> 'w) \<Rightarrow>
   session \<Rightarrow> http_context \<Rightarrow> 'w \<Rightarrow> (exn option \<times> session \<times> http_context \<times> 'w) option" where
  "SessionCheck next s c w =
     (case FromContext c of
        Throw msg (_, c') \<Rightarrow> Some (Some (HttpException msg), s, c', w)
      | Overflow \<Rightarrow> None
      | Ret _ \<Rightarrow>
          (let expected = Session_Get kCsrfKey [] s;
               submitted = GetHeader ''X-CSRF-Token'' c;
               match = (length expected = length submitted \<and> expected = submitted)
           in if expected = [] \<or> \<not> match then
                (case Data 403 ''application/json'' csrf_refusal c of
                   Ret c' \<Rightarrow> Some (Some (HttpException []), s, c', w)
                 | Throw msg c' \<Rightarrow> Some (Some (HttpException msg), s, c', w)
                 | Overflow \<Rightarrow> None)
              else Some (next (s, c, w))))"

text \<open>A body written over another one has room.\<close>

lemma Data_fits:
  assumes "m_ptrRsp c = Some p" "m_bHasSetRspContent c" "length body \<le> buf_max"
  obtains c' where "Data code ty body c = Ret c'"
proof -
  have "m_iWritePosition (Reset (m_httpRspContentBuffer p)) + length body \<le> buf_max"
    using assms(3) by (simp add: Reset_def)
  from bq.put_view [OF bq.clear_ok this] obtain b where "Append body (Reset (m_httpRspContentBuffer p)) = Some b"
    by auto
  then show thesis
    using that assms(1,2) by (simp add: Data_def overwrite_rsp_def write_content_def ResetContent_def)
qed

section \<open>Properties\<close>

text \<open>
  C35: Without the token nothing runs. Behind the session middleware, \<open>SessionCheck\<close> lets a request
  through exactly when the session has a token and the header repeats it; any other request gets
  403, leaves session and world alone and aborts the chain before the next handler.
\<close>

theorem SessionCheck_guards:
  assumes "SessionCheck next s c w = Some (e, s', c', w')" "Load kSessionKey c = Some ptr" "m_ptrRsp c = Some p"
  shows "if Session_Get kCsrfKey [] s \<noteq> [] \<and> GetHeader ''X-CSRF-Token'' c = Session_Get kCsrfKey [] s
    then (e, s', c', w') = next (s, c, w)
    else e = Some (HttpException []) \<and> s' = s \<and> w' = w \<and>
      (\<exists>p'. m_ptrRsp c' = Some p' \<and> m_iHttpRetCode p' = 403)"
  using assms
  by (auto simp: SessionCheck_def FromContext_def Let_def Data_def overwrite_rsp_def write_content_def
      split: option.splits if_splits)

lemma Session_Get_Set: "Session_Get key d (Session_Set key v s) = v"
  by (simp add: Session_Get_def Session_Set_def)

lemma Session_Get_SetMaxAge: "Session_Get key d (SetMaxAge n s) = Session_Get key d s"
  by (simp add: Session_Get_def SetMaxAge_def)

lemma Session_Set_written: "m_bWritten (Session_Set key v s)" "m_bWritten (SetMaxAge n (Session_Set key v s))"
  by (simp_all add: Session_Set_def SetMaxAge_def)

text \<open>
  An issued token opens the check: when the random source works, the session that
  \<open>SessionIssue\<close> leaves has a token of 64 hexadecimal digits or the one it had, and a later request
  of that session that repeats it passes \<open>SessionCheck\<close>; a session that has a token keeps it.
\<close>

theorem csrf_roundtrip:
  assumes "SessionIssue env st s c w = Some (None, s', c', w')" "fst (rand_bytes env 32 w) = Some rnd" "length rnd = 32"
    and "Load kSessionKey c2 = Some ptr" "GetHeader ''X-CSRF-Token'' c2 = Session_Get kCsrfKey [] s'"
  shows "SessionCheck next s' c2 w2 = Some (next (s', c2, w2)) \<and>
    (if Session_Get kCsrfKey [] s = [] then Session_Get kCsrfKey [] s' = HexEncode rnd \<and> m_bWritten s'
     else s' = s \<and> w' = w)"
proof -
  have "length (HexEncode xs) = 2 * length xs" for xs
    by (induction xs) (auto simp: HexEncode_def hex_pair_def)
  then have len: "length (HexEncode rnd) = 64" using assms(3) by simp
  obtain w1 where rnd: "rand_bytes env 32 w = (Some rnd, w1)" using assms(2) by (metis prod.collapse)
  have tok: "Csrf_NewToken env w = (HexEncode rnd, w1)" by (simp add: Csrf_NewToken_def rnd HexEncode_def)
  have res: "if Session_Get kCsrfKey [] s = [] then Session_Get kCsrfKey [] s' = HexEncode rnd \<and> m_bWritten s'
     else s' = s \<and> w' = w"
    using assms(1)
    by (auto simp: SessionIssue_def Let_def tok Session_Get_Set Session_Get_SetMaxAge Session_Set_written
        split: outcome.splits if_splits prod.splits)
  then have "Session_Get kCsrfKey [] s' \<noteq> []" using len by (auto split: if_splits)
  then show ?thesis using assms(4,5) res by (simp add: SessionCheck_def FromContext_def Let_def)
qed

section \<open>Witnesses\<close>

definition csrf_session :: session where
  "csrf_session = Session_Set kCsrfKey ''abc'' (mk_session ''u'')"

text \<open>A context whose request has the given token, after another body writer.\<close>

definition csrf_context :: "string \<Rightarrow> http_context" where
  "csrf_context token =
     (Store kSessionKey 1 (mk_context ((sample_request [])\<lparr>m_mapHeader := [(''X-CSRF-Token'', token)]\<rparr>)
        (mk_response 5 10 60) [] [] [] []))\<lparr>m_bHasSetRspContent := True\<rparr>"

lemma csrf_context:
  "Load kSessionKey (csrf_context t) = Some 1" "m_ptrRsp (csrf_context t) = Some (mk_response 5 10 60)"
  "m_bHasSetRspContent (csrf_context t)" "GetHeader ''X-CSRF-Token'' (csrf_context t) = t"
proof -
  have "EqualsIgnoreCase ''X-CSRF-Token'' ''X-CSRF-Token''" by code_simp
  then show "GetHeader ''X-CSRF-Token'' (csrf_context t) = t"
    by (simp add: csrf_context_def Store_def mk_context_def GetHeader_def)
qed (simp_all add: csrf_context_def Load_def Store_def mk_context_def)

lemma csrf_session_token: "Session_Get kCsrfKey [] csrf_session = ''abc''"
  by (simp add: csrf_session_def Session_Get_Set)

theorem SessionCheck_guards_witness:
  "\<exists>c'. SessionCheck (\<lambda>(s, c, w). (None, s, c, Suc w)) csrf_session (csrf_context ''abd'') (0 :: nat) =
     Some (Some (HttpException []), csrf_session, c', 0)"
proof -
  have "length csrf_refusal \<le> buf_max" by (simp add: csrf_refusal_def buf_max_def Let_def)
  then obtain c' where "Data 403 ''application/json'' csrf_refusal (csrf_context ''abd'') = Ret c'"
    using Data_fits [OF csrf_context(2,3)] by blast
  then obtain e s' c' w' where h: "SessionCheck (\<lambda>(s, c, w). (None, s, c, Suc w)) csrf_session (csrf_context ''abd'') 0 =
      Some (e, s', c', w')"
    by (simp add: SessionCheck_def FromContext_def csrf_context csrf_session_token Let_def)
  from SessionCheck_guards [OF h csrf_context(1,2)] csrf_context(4) csrf_session_token h show ?thesis by auto
qed

theorem csrf_roundtrip_witness:
  "\<exists>c'. SessionIssue sim_env sim_store csrf_session (csrf_context []) ([], []) = Some (None, csrf_session, c', [], []) \<and>
     SessionCheck (\<lambda>(s, c, w). (None, s, c, Suc w)) csrf_session (csrf_context ''abc'') (0 :: nat) =
       Some (None, csrf_session, csrf_context ''abc'', 1)"
proof -
  have "length (csrf_body ''abc'') \<le> buf_max" by (simp add: csrf_body_def buf_max_def Let_def)
  then obtain c' where "Data 200 ''application/json'' (csrf_body ''abc'') (csrf_context []) = Ret c'"
    using Data_fits [OF csrf_context(2,3)] by blast
  then have h: "SessionIssue sim_env sim_store csrf_session (csrf_context []) ([], []) = Some (None, csrf_session, c', [], [])"
    by (simp add: SessionIssue_def FromContext_def csrf_context csrf_session_token Let_def)
  have "fst (rand_bytes sim_env 32 ([], [])) = Some (replicate 32 (CHR ''Z''))" by (simp add: sim_env_def)
  from csrf_roundtrip [OF h this _ csrf_context(1), of "''abc''" "\<lambda>(s, c, w). (None, s, c, Suc w)" 0] h
  show ?thesis by (simp add: csrf_context(4) csrf_session_token)
qed

end
