(* ===== verification/Uco_Task.thy ===== *)
theory Uco_Task
  imports Uco_Prelude
begin

text \<open>
  Coroutines (\<open>core/uco.h\<close>): \<open>task\<close>, its promise, \<open>co_await\<close> on a task, \<open>go\<close>, and \<open>resume\<close> of
  \<open>core/uco.cpp\<close>, which continues a coroutine and then, for as long as coroutines finish, the ones
  that wait for them. Frames live in a memory \<open>cm_frames\<close>; a promise remembers its caller as
  null, as the value 1 while it runs inside \<open>await_ready\<close> of the caller, or as the address of the
  caller's frame. The body of a coroutine is a tree of what it does until it ends. The
  specification is that \<open>co_await\<close> of a task is sequential composition (\<open>bind\<close>).
\<close>

section \<open>Coroutines\<close>

text \<open>How a coroutine ends: with a value (\<open>return_value\<close>) or an exception (\<open>unhandled_exception\<close>).\<close>

datatype co_outcome = Val int | Exn nat

text \<open>
  A body returns, suspends at a leaf awaitable of some kind and goes on with the value the
  scheduler stores, awaits a child task and goes on with its outcome, or starts a coroutine with
  \<open>go\<close>. That an exception of the child is rethrown is up to the continuation of \<open>Await\<close>: outside
  a \<open>try\<close> block it is \<open>rethrow\<close>.
\<close>

datatype prog =
    Return co_outcome
  | Suspend nat "int \<Rightarrow> prog"
  | Await prog "co_outcome \<Rightarrow> prog"
  | Go prog prog

definition rethrow :: "(int \<Rightarrow> prog) \<Rightarrow> co_outcome \<Rightarrow> prog" where
  "rethrow k r = (case r of Val v \<Rightarrow> k v | Exn e \<Rightarrow> Return (Exn e))"

datatype caller = Null | Inline | At nat

datatype code = Waiting nat "int \<Rightarrow> prog" | Awaiting nat "co_outcome \<Rightarrow> prog" | Final | Running

datatype frame = Frame (fr_code: code) (fr_caller: caller) (fr_result: "co_outcome option")

text \<open>\<open>Terminated\<close> is \<open>std::terminate\<close>, \<open>Broken\<close> is \<open>SYSFTL\<close> or the use of a frame that is gone.\<close>

datatype status = Alive | Terminated | Broken

record co_mem =
  cm_frames :: "nat \<Rightarrow> frame option"
  cm_next :: nat
  cm_susp :: "(nat \<times> nat) list"
  cm_status :: status

definition mk_co_mem :: co_mem where
  "mk_co_mem = \<lparr>cm_frames = \<lambda>_. None, cm_next = 1, cm_susp = [], cm_status = Alive\<rparr>"

definition put_frame :: "nat \<Rightarrow> frame \<Rightarrow> co_mem \<Rightarrow> co_mem" where
  "put_frame a f m = m\<lparr>cm_frames := (cm_frames m)(a \<mapsto> f)\<rparr>"

definition destroy :: "nat \<Rightarrow> co_mem \<Rightarrow> co_mem" where
  "destroy a m = m\<lparr>cm_frames := (cm_frames m)(a := None)\<rparr>"

definition broken :: "co_mem \<Rightarrow> co_mem" where
  "broken m = m\<lparr>cm_status := Broken\<rparr>"

text \<open>A new frame, with the caller the promise is given before it first runs.\<close>

definition new_frame :: "caller \<Rightarrow> co_mem \<Rightarrow> co_mem" where
  "new_frame c m = (put_frame (cm_next m) (Frame Running c None) m)\<lparr>cm_next := Suc (cm_next m)\<rparr>"

definition caller_of :: "nat \<Rightarrow> co_mem \<Rightarrow> caller" where
  "caller_of a m = (case cm_frames m a of None \<Rightarrow> Null | Some f \<Rightarrow> fr_caller f)"

text \<open>
  \<open>final_suspend\<close>, after the outcome has been stored: an exception nobody waits for ends the
  process; a frame that somebody waits for stays, with its caller cleared; any other is freed.
\<close>

definition final_suspend :: "nat \<Rightarrow> co_outcome \<Rightarrow> co_mem \<Rightarrow> co_mem" where
  "final_suspend a r m =
     (if caller_of a m = Null then
        (case r of Exn e \<Rightarrow> m\<lparr>cm_status := Terminated\<rparr> | Val v \<Rightarrow> destroy a m)
      else put_frame a (Frame Final Null (Some r)) m)"

text \<open>\<open>await_resume\<close> of a child: its outcome is taken out of the frame and the frame destroyed.\<close>

definition take_outcome :: "nat \<Rightarrow> co_mem \<Rightarrow> (co_outcome \<times> co_mem) option" where
  "take_outcome b m =
     (case cm_frames m b of
        Some (Frame Final c (Some r)) \<Rightarrow> Some (r, destroy b m)
      | _ \<Rightarrow> None)"

text \<open>
  Running a body in frame \<open>a\<close> until it suspends or ends. \<open>Await\<close> is \<open>await_ready\<close> (the child
  runs at once with caller 1), and when the child is not done \<open>await_suspend\<close>; \<open>Go\<close> is
  \<open>__go_dispatch\<close> while the scheduler runs.
\<close>

primrec run_prog :: "prog \<Rightarrow> nat \<Rightarrow> co_mem \<Rightarrow> co_mem" where
  "run_prog (Return r) = (\<lambda>a m. final_suspend a r m)"
| "run_prog (Suspend k c) =
     (\<lambda>a m. (put_frame a (Frame (Waiting k c) (caller_of a m) None) m)\<lparr>cm_susp := cm_susp m @ [(k, a)]\<rparr>)"
| "run_prog (Await q c) =
     (\<lambda>a m. let b = cm_next m; m1 = run_prog q b (new_frame Inline m)
            in if cm_status m1 \<noteq> Alive then m1
               else case take_outcome b m1 of
                      Some (r, m2) \<Rightarrow> run_prog (c r) a m2
                    | None \<Rightarrow>
                        (case cm_frames m1 b of
                           None \<Rightarrow> broken m1
                         | Some f \<Rightarrow>
                             put_frame a (Frame (Awaiting b c) (caller_of a m1) None)
                               (put_frame b (Frame (fr_code f) (At a) (fr_result f)) m1)))"
| "run_prog (Go q p) =
     (\<lambda>a m. let m1 = run_prog q (cm_next m) (new_frame Null m)
            in if cm_status m1 \<noteq> Alive then m1 else run_prog p a m1)"

text \<open>\<open>handle.resume()\<close> for the frame at \<open>a\<close>; \<open>v\<close> is the value stored by the scheduler.\<close>

definition resume_frame :: "nat \<Rightarrow> int \<Rightarrow> co_mem \<Rightarrow> co_mem" where
  "resume_frame a v m =
     (case cm_frames m a of
        Some (Frame (Waiting k c) _ _) \<Rightarrow> run_prog (c v) a m
      | Some (Frame (Awaiting b c) _ _) \<Rightarrow>
          (case take_outcome b m of Some (r, m1) \<Rightarrow> run_prog (c r) a m1 | None \<Rightarrow> broken m)
      | _ \<Rightarrow> broken m)"

text \<open>
  The loop of \<open>resume\<close>. It reads the caller before and after running the frame: when it has
  changed the coroutine has finished and its caller is next. The first argument bounds the number
  of rounds.
\<close>

fun resume_loop :: "nat \<Rightarrow> nat \<Rightarrow> int \<Rightarrow> co_mem \<Rightarrow> co_mem option" where
  "resume_loop 0 a v m = None"
| "resume_loop (Suc n) a v m =
     (let caller = caller_of a m; m1 = resume_frame a v m
      in if cm_status m1 \<noteq> Alive then Some m1
         else if caller = Null then Some m1
         else case cm_frames m1 a of
                None \<Rightarrow> Some (broken m1)
              | Some f \<Rightarrow>
                  if fr_caller f = caller then Some m1
                  else (case caller of At p \<Rightarrow> resume_loop n p v m1 | _ \<Rightarrow> Some (broken m1)))"

text \<open>The scheduler takes the suspended coroutine at position \<open>i\<close> and resumes it.\<close>

definition take_susp :: "nat \<Rightarrow> co_mem \<Rightarrow> co_mem" where
  "take_susp i m = m\<lparr>cm_susp := take i (cm_susp m) @ drop (Suc i) (cm_susp m)\<rparr>"

definition resume_at :: "nat \<Rightarrow> nat \<Rightarrow> int \<Rightarrow> co_mem \<Rightarrow> co_mem option" where
  "resume_at n i v m = resume_loop n (snd (cm_susp m ! i)) v (take_susp i m)"

definition go_prog :: "prog \<Rightarrow> co_mem \<Rightarrow> co_mem" where
  "go_prog p m = run_prog p (cm_next m) (new_frame Null m)"

section \<open>The specification\<close>

datatype tree = TRet co_outcome | TSusp nat "int \<Rightarrow> tree" | TGo tree tree

primrec bind :: "tree \<Rightarrow> (co_outcome \<Rightarrow> tree) \<Rightarrow> tree" where
  "bind (TRet r) f = f r"
| "bind (TSusp k c) f = TSusp k (\<lambda>v. bind (c v) f)"
| "bind (TGo u t) f = TGo u (bind t f)"

text \<open>A program in which \<open>Await\<close> is sequential composition.\<close>

primrec flat :: "prog \<Rightarrow> tree" where
  "flat (Return r) = TRet r"
| "flat (Suspend k c) = TSusp k (\<lambda>v. flat (c v))"
| "flat (Await q c) = bind (flat q) (\<lambda>r. flat (c r))"
| "flat (Go q p) = TGo (flat q) (flat p)"

text \<open>
  Running such a program to its first suspension: the coroutines it started that are suspended
  now, and how it stopped itself. \<open>None\<close>: an exception reached the top of a coroutine.
\<close>

datatype stop = Fin co_outcome | Sus nat "int \<Rightarrow> tree"

definition top_stop :: "stop \<Rightarrow> (nat \<times> (int \<Rightarrow> tree)) list option" where
  "top_stop x = (case x of Fin (Val v) \<Rightarrow> Some [] | Fin (Exn e) \<Rightarrow> None | Sus k c \<Rightarrow> Some [(k, c)])"

primrec walk :: "tree \<Rightarrow> ((nat \<times> (int \<Rightarrow> tree)) list \<times> stop) option" where
  "walk (TRet r) = Some ([], Fin r)"
| "walk (TSusp k c) = Some ([], Sus k c)"
| "walk (TGo u t) =
     (case walk u of
        None \<Rightarrow> None
      | Some (ps, x) \<Rightarrow>
          (case top_stop x of
             None \<Rightarrow> None
           | Some qs \<Rightarrow>
               (case walk t of None \<Rightarrow> None | Some (rs, y) \<Rightarrow> Some (ps @ qs @ rs, y))))"

definition walk_top :: "tree \<Rightarrow> (nat \<times> (int \<Rightarrow> tree)) list option" where
  "walk_top t =
     (case walk t of
        None \<Rightarrow> None
      | Some (ps, x) \<Rightarrow> (case top_stop x of None \<Rightarrow> None | Some qs \<Rightarrow> Some (ps @ qs)))"

lemma walk_bind:
  "walk (bind t f) =
     (case walk t of
        None \<Rightarrow> None
      | Some (ps, Sus k c) \<Rightarrow> Some (ps, Sus k (\<lambda>v. bind (c v) f))
      | Some (ps, Fin r) \<Rightarrow> (case walk (f r) of None \<Rightarrow> None | Some (qs, x) \<Rightarrow> Some (ps @ qs, x)))"
  by (induction t) (auto split: option.splits stop.splits)

section \<open>What a run leaves behind\<close>

text \<open>
  A stack of frames, root first: the last one waits for the scheduler, each other one for the next.
  \<open>K\<close> is what the specification says is left to do.
\<close>

fun seg :: "co_mem \<Rightarrow> caller \<Rightarrow> nat list \<Rightarrow> nat \<Rightarrow> (int \<Rightarrow> tree) \<Rightarrow> bool" where
  "seg m C [] k K \<longleftrightarrow> False"
| "seg m C [a] k K \<longleftrightarrow>
     (\<exists>c. cm_frames m a = Some (Frame (Waiting k c) C None) \<and> K = (\<lambda>v. flat (c v)))"
| "seg m C (a # b # st) k K \<longleftrightarrow>
     (\<exists>c K'. cm_frames m a = Some (Frame (Awaiting b c) C None) \<and> seg m (At a) (b # st) k K' \<and>
        K = (\<lambda>v. bind (K' v) (\<lambda>r. flat (c r))))"

lemma seg_cong: "seg m C st k K \<Longrightarrow> (\<And>y. y \<in> set st \<Longrightarrow> cm_frames m' y = cm_frames m y) \<Longrightarrow> seg m' C st k K"
  by (induction m C st k K rule: seg.induct) auto

lemma seg_dom: "seg m C st k K \<Longrightarrow> set st \<subseteq> dom (cm_frames m)"
  by (induction m C st k K rule: seg.induct) auto

definition leaves :: "nat list list \<Rightarrow> (nat \<times> (int \<Rightarrow> tree)) list \<Rightarrow> (nat \<times> nat) list" where
  "leaves ss ps = map2 (\<lambda>st p. (fst p, last st)) ss ps"

definition stacks :: "co_mem \<Rightarrow> nat list list \<Rightarrow> (nat \<times> (int \<Rightarrow> tree)) list \<Rightarrow> bool" where
  "stacks m ss ps \<longleftrightarrow> list_all2 (\<lambda>st p. seg m Null st (fst p) (snd p)) ss ps"

lemma stacks_cong:
  assumes "stacks m ss ps" "\<And>y. y \<in> set (concat ss) \<Longrightarrow> cm_frames m' y = cm_frames m y"
  shows "stacks m' ss ps"
  using assms unfolding stacks_def
  by (induction rule: list_all2_induct) (auto intro: seg_cong)

lemma stacks_append: "stacks m ss ps \<Longrightarrow> stacks m ts qs \<Longrightarrow> stacks m (ss @ ts) (ps @ qs)"
  by (simp add: stacks_def list_all2_appendI)

lemma leaves_append: "length ss = length ps \<Longrightarrow> leaves (ss @ ts) (ps @ qs) = leaves ss ps @ leaves ts qs"
  by (simp add: leaves_def)

lemma stacks_length: "stacks m ss ps \<Longrightarrow> length ss = length ps"
  by (auto simp: stacks_def dest: list_all2_lengthD)

definition mem_ok :: "co_mem \<Rightarrow> bool" where
  "mem_ok m \<longleftrightarrow> dom (cm_frames m) \<subseteq> {..<cm_next m} \<and> cm_status m = Alive"

text \<open>
  Frame \<open>a\<close> with caller \<open>C\<close> has run from \<open>m\<close> to \<open>m'\<close>: stacks \<open>ss\<close> were started and suspended, and
  \<open>a\<close> ended, or is suspended with \<open>ext\<close> on top of it. No other new frame is left.
\<close>

definition ran :: "co_mem \<Rightarrow> nat \<Rightarrow> caller \<Rightarrow> co_mem \<Rightarrow> (nat \<times> (int \<Rightarrow> tree)) list \<Rightarrow> stop \<Rightarrow>
    nat list list \<Rightarrow> nat list \<Rightarrow> bool" where
  "ran m a C m' ps x ss ext \<longleftrightarrow>
     mem_ok m' \<and> cm_next m \<le> cm_next m' \<and> stacks m' ss ps \<and> distinct (concat ss @ ext) \<and>
     set (concat ss @ ext) = dom (cm_frames m') \<inter> {cm_next m..} \<and>
     (\<forall>y < cm_next m. y \<noteq> a \<longrightarrow> cm_frames m' y = cm_frames m y) \<and>
     (case x of
        Fin r \<Rightarrow> ext = [] \<and> cm_susp m' = cm_susp m @ leaves ss ps \<and>
          cm_frames m' a = (if C = Null then None else Some (Frame Final Null (Some r)))
      | Sus k K \<Rightarrow> cm_susp m' = cm_susp m @ leaves ss ps @ [(k, last (a # ext))] \<and> seg m' C (a # ext) k K)"

text \<open>The same, with the end of the process as a third way to stop.\<close>

definition runs :: "co_mem \<Rightarrow> nat \<Rightarrow> caller \<Rightarrow> tree \<Rightarrow> co_mem \<Rightarrow> bool" where
  "runs m a C t m' \<longleftrightarrow>
     (case walk t of
        None \<Rightarrow> cm_status m' = Terminated
      | Some (ps, x) \<Rightarrow>
          if C = Null \<and> top_stop x = None then cm_status m' = Terminated
          else \<exists>ss ext. ran m a C m' ps x ss ext)"

lemma mem_simps [simp]:
  "cm_frames (put_frame a f m) = (cm_frames m)(a \<mapsto> f)" "cm_next (put_frame a f m) = cm_next m"
  "cm_susp (put_frame a f m) = cm_susp m" "cm_status (put_frame a f m) = cm_status m"
  "cm_frames (destroy a m) = (cm_frames m)(a := None)" "cm_next (destroy a m) = cm_next m"
  "cm_susp (destroy a m) = cm_susp m" "cm_status (destroy a m) = cm_status m"
  "cm_frames (new_frame c m) = (cm_frames m)(cm_next m \<mapsto> Frame Running c None)"
  "cm_next (new_frame c m) = Suc (cm_next m)" "cm_susp (new_frame c m) = cm_susp m"
  "cm_status (new_frame c m) = cm_status m"
  by (simp_all add: put_frame_def destroy_def new_frame_def)

lemma new_frame_ok: "mem_ok m \<Longrightarrow> mem_ok (new_frame c m)"
  by (auto simp: mem_ok_def)

lemma final_ran:
  assumes "mem_ok m" "a < cm_next m" "cm_frames m a \<noteq> None" "caller_of a m = C"
    "\<not> (C = Null \<and> top_stop (Fin r) = None)"
  shows "ran m a C (final_suspend a r m) [] (Fin r) [] []"
  using assms by (auto simp: ran_def final_suspend_def mem_ok_def stacks_def leaves_def top_stop_def
      split: co_outcome.splits)

lemma suspend_ran:
  assumes "mem_ok m" "a < cm_next m" "caller_of a m = C"
  shows "ran m a C ((put_frame a (Frame (Waiting k c) C None) m)\<lparr>cm_susp := cm_susp m @ [(k, a)]\<rparr>)
    [] (Sus k (\<lambda>v. flat (c v))) [] []"
  using assms by (auto simp: ran_def mem_ok_def stacks_def leaves_def)

lemma runs_ran: "walk t = Some (ps, x) \<Longrightarrow> \<not> (C = Null \<and> top_stop x = None) \<Longrightarrow> runs m a C t m' \<Longrightarrow>
  \<exists>ss ext. ran m a C m' ps x ss ext"
  by (simp add: runs_def del: split_paired_Ex split: if_splits)

lemma ran_runs: "ran m a C m' ps x ss ext \<Longrightarrow> walk t = Some (ps, x) \<Longrightarrow> \<not> (C = Null \<and> top_stop x = None) \<Longrightarrow>
  runs m a C t m'"
  by (auto simp: runs_def)

text \<open>A first part that only left stacks behind, then the rest of the body of \<open>a\<close>.\<close>

lemma ran_seq:
  assumes pre: "mem_ok m1" "cm_next m \<le> cm_next m1" "stacks m1 ss ps" "distinct (concat ss)"
      "set (concat ss) = dom (cm_frames m1) \<inter> {cm_next m..}"
      "\<forall>y < cm_next m. y \<noteq> a \<longrightarrow> cm_frames m1 y = cm_frames m y" "cm_susp m1 = cm_susp m @ leaves ss ps"
    and a: "a < cm_next m" and r: "ran m1 a C m' qs x ts ext"
  shows "ran m a C m' (ps @ qs) x (ss @ ts) ext"
proof -
  have lt: "y < cm_next m1 \<and> y \<noteq> a" if "y \<in> set (concat ss)" for y
  proof -
    have "y \<in> dom (cm_frames m1) \<inter> {cm_next m..}" using that pre(5) by blast
    then show ?thesis using pre(1) a by (auto simp: mem_ok_def)
  qed
  then have same: "cm_frames m' y = cm_frames m1 y" if "y \<in> set (concat ss)" for y
    using that r by (simp add: ran_def)
  have st: "stacks m' ss ps" using pre(3) same by (rule stacks_cong)
  have new: "set (concat ts @ ext) = dom (cm_frames m') \<inter> {cm_next m1..}" using r by (simp add: ran_def)
  have "distinct (concat (ss @ ts) @ ext)"
    using pre(4) r lt new by (auto simp: ran_def) (meson atLeast_iff le_less_trans linorder_not_less IntD2)+
  moreover have "set (concat (ss @ ts) @ ext) = dom (cm_frames m') \<inter> {cm_next m..}"
  proof -
    have "dom (cm_frames m') \<inter> {cm_next m..} =
        (dom (cm_frames m') \<inter> {cm_next m1..}) \<union> (dom (cm_frames m') \<inter> {cm_next m..<cm_next m1})"
      using pre(2) by auto
    moreover have "dom (cm_frames m') \<inter> {cm_next m..<cm_next m1} = dom (cm_frames m1) \<inter> {cm_next m..<cm_next m1}"
      using r a by (auto simp: ran_def)
    moreover have "dom (cm_frames m1) \<inter> {cm_next m..<cm_next m1} = dom (cm_frames m1) \<inter> {cm_next m..}"
      using pre(1) by (auto simp: mem_ok_def)
    ultimately show ?thesis using new pre(5) by auto
  qed
  moreover have "\<forall>y < cm_next m. y \<noteq> a \<longrightarrow> cm_frames m' y = cm_frames m y"
    using pre(2,6) r by (simp add: ran_def)
  moreover have "cm_susp m @ leaves (ss @ ts) (ps @ qs) = cm_susp m1 @ leaves ts qs"
    using pre(7) leaves_append [OF stacks_length [OF pre(3)]] by simp
  ultimately show ?thesis using r st pre(2) unfolding ran_def
    by (auto simp: stacks_append split: stop.splits)
qed


text \<open>What holds of a memory in which only finished or suspended coroutines were added.\<close>

definition left :: "co_mem \<Rightarrow> nat \<Rightarrow> co_mem \<Rightarrow> (nat \<times> (int \<Rightarrow> tree)) list \<Rightarrow> nat list list \<Rightarrow> bool" where
  "left m a m1 ps ss \<longleftrightarrow>
     mem_ok m1 \<and> cm_next m \<le> cm_next m1 \<and> stacks m1 ss ps \<and> distinct (concat ss) \<and>
     set (concat ss) = dom (cm_frames m1) \<inter> {cm_next m..} \<and>
     (\<forall>y < cm_next m. y \<noteq> a \<longrightarrow> cm_frames m1 y = cm_frames m y) \<and> cm_susp m1 = cm_susp m @ leaves ss ps"

lemma runs_seq:
  assumes l: "left m a m1 ps ss" and "a < cm_next m" and r: "runs m1 a C t m'"
    and w: "walk u = (case walk t of None \<Rightarrow> None | Some (qs, x) \<Rightarrow> Some (ps @ qs, x))"
  shows "runs m a C u m'"
proof (cases "walk t")
  case None
  then show ?thesis using r w by (simp add: runs_def)
next
  case (Some v)
  obtain qs x where v: "walk t = Some (qs, x)" using Some by (cases v) simp
  show ?thesis
  proof (cases "C = Null \<and> top_stop x = None")
    case True
    then show ?thesis using r w v by (simp add: runs_def)
  next
    case False
    then obtain ts ext where "ran m1 a C m' qs x ts ext" using runs_ran [OF v _ r] by blast
    then have "ran m a C m' (ps @ qs) x (ss @ ts) ext"
      using l assms(2) unfolding left_def by (intro ran_seq) simp_all
    then show ?thesis using w v False by (auto simp: runs_def)
  qed
qed

lemma seg_caller:
  assumes "seg m C (b # st) k K" "cm_frames m b = Some f"
    "cm_frames m' b = Some (Frame (fr_code f) D (fr_result f))"
    "\<And>y. y \<in> set st \<Longrightarrow> cm_frames m' y = cm_frames m y"
  shows "seg m' D (b # st) k K"
proof (cases st)
  case Nil
  then show ?thesis using assms by auto
next
  case (Cons d st')
  then obtain c K' where "cm_frames m b = Some (Frame (Awaiting d c) C None)" "seg m (At b) st k K'"
    "K = (\<lambda>v. bind (K' v) (\<lambda>r. flat (c r)))" using assms(1) by auto
  moreover have "seg m' (At b) st k K'" using calculation(2) assms(4) by (rule seg_cong)
  ultimately show ?thesis using assms(2,3) Cons by auto
qed

text \<open>A child that ended leaves only the stacks it started, once its frame is taken.\<close>

lemma left_taken:
  assumes r: "ran (new_frame Inline m) (cm_next m) Inline m1 ps (Fin r) ss ext" and a: "a < cm_next m"
  shows "left m a (destroy (cm_next m) m1) ps ss"
proof -
  let ?b = "cm_next m"
  have set: "set (concat ss) = dom (cm_frames m1) \<inter> {Suc ?b..}" using r by (auto simp: ran_def)
  then have nb: "?b \<notin> set (concat ss)" by auto
  have st: "stacks (destroy ?b m1) ss ps" using r nb by (auto simp: ran_def intro: stacks_cong)
  have "dom (cm_frames (destroy ?b m1)) \<inter> {?b..} = dom (cm_frames m1) \<inter> {Suc ?b..}"
    by auto
  then show ?thesis using r st set by (auto simp: left_def ran_def mem_ok_def)
qed

text \<open>A coroutine started with \<open>go\<close> that did not end the process.\<close>

lemma left_go:
  assumes r: "ran (new_frame Null m) (cm_next m) Null m1 ps x ss ext" and a: "a < cm_next m"
    and x: "top_stop x = Some qs"
  shows "\<exists>ts. left m a m1 (ps @ qs) ts"
proof -
  let ?b = "cm_next m"
  have set: "set (concat ss @ ext) = dom (cm_frames m1) \<inter> {Suc ?b..}" using r by (simp add: ran_def)
  have ge: "dom (cm_frames m1) \<inter> {?b..} = (if cm_frames m1 ?b = None then {} else {?b}) \<union> (dom (cm_frames m1) \<inter> {Suc ?b..})"
    by auto (metis Suc_leI le_neq_implies_less option.distinct(1))+
  show ?thesis
  proof (cases x)
    case (Fin o1)
    then have "qs = []" using x by (auto simp: top_stop_def split: co_outcome.splits)
    then have "left m a m1 (ps @ qs) ss" using r set ge Fin by (auto simp: left_def ran_def)
    then show ?thesis by blast
  next
    case (Sus k K)
    then have qs: "qs = [(k, K)]" using x by (simp add: top_stop_def)
    have st: "seg m1 Null (?b # ext) k K" "stacks m1 ss ps" using r Sus by (simp_all add: ran_def)
    have f: "cm_frames m1 ?b \<noteq> None" using seg_dom [OF st(1)] by auto
    have "stacks m1 [?b # ext] qs" using st(1) qs by (simp add: stacks_def)
    then have "stacks m1 (ss @ [?b # ext]) (ps @ qs)" using st(2) by (simp add: stacks_append)
    moreover have "leaves (ss @ [?b # ext]) (ps @ qs) = leaves ss ps @ [(k, last (?b # ext))]"
      using qs leaves_append [OF stacks_length [OF st(2)]] by (simp add: leaves_def)
    moreover have "distinct (concat (ss @ [?b # ext]))"
    proof -
      have "?b \<notin> set (concat ss @ ext)" unfolding set by simp
      then show ?thesis using r by (auto simp: ran_def)
    qed
    moreover have "set (concat (ss @ [?b # ext])) = dom (cm_frames m1) \<inter> {?b..}" using set ge f by auto
    ultimately have "left m a m1 (ps @ qs) (ss @ [?b # ext])" using r Sus by (simp add: left_def ran_def)
    then show ?thesis by blast
  qed
qed


text \<open>A child that is suspended: the parent waits above it.\<close>

lemma await_suspended:
  assumes r: "ran (new_frame Inline m) (cm_next m) Inline m1 ps (Sus k K) ss ext"
    and a: "a < cm_next m" "cm_frames m a \<noteq> None" "caller_of a m = C" and f: "cm_frames m1 (cm_next m) = Some f"
  shows "ran m a C (put_frame a (Frame (Awaiting (cm_next m) c) C None)
      (put_frame (cm_next m) (Frame (fr_code f) (At a) (fr_result f)) m1))
    ps (Sus k (\<lambda>v. bind (K v) (\<lambda>r. flat (c r)))) ss (cm_next m # ext)"
proof -
  let ?b = "cm_next m"
  let ?m = "put_frame a (Frame (Awaiting ?b c) C None) (put_frame ?b (Frame (fr_code f) (At a) (fr_result f)) m1)"
  have set: "set (concat ss @ ext) = dom (cm_frames m1) \<inter> {Suc ?b..}" using r by (simp add: ran_def)
  have nin: "y \<noteq> a \<and> y \<noteq> ?b" if "y \<in> set (concat ss @ ext)" for y
    using that a(1) unfolding set by auto
  have fa: "cm_frames m1 a = cm_frames m a" using r a(1) by (auto simp: ran_def)
  have st: "stacks ?m ss ps"
  proof (rule stacks_cong)
    show "stacks m1 ss ps" using r by (simp add: ran_def)
    show "cm_frames ?m y = cm_frames m1 y" if "y \<in> set (concat ss)" for y using that nin [of y] by simp
  qed
  have "seg ?m (At a) (?b # ext) k K"
  proof (rule seg_caller)
    show "seg m1 Inline (?b # ext) k K" using r by (simp add: ran_def)
    show "cm_frames m1 ?b = Some f" by (rule f)
    show "cm_frames ?m ?b = Some (Frame (fr_code f) (At a) (fr_result f))" using a(1) by simp
    show "cm_frames ?m y = cm_frames m1 y" if "y \<in> set ext" for y using that nin [of y] by simp
  qed
  then have sg: "seg ?m C (a # ?b # ext) k (\<lambda>v. bind (K v) (\<lambda>r. flat (c r)))" by auto
  have "dom (cm_frames ?m) = dom (cm_frames m1)" using f fa a(2) by auto
  moreover have "dom (cm_frames m1) \<inter> {?b..} = insert ?b (dom (cm_frames m1) \<inter> {Suc ?b..})"
    using f by auto
  ultimately have "set (concat ss @ ?b # ext) = dom (cm_frames ?m) \<inter> {?b..}" using set by simp
  moreover have "?b \<notin> set (concat ss @ ext)" unfolding set by simp
  then have "distinct (concat ss @ ?b # ext)" using r by (auto simp: ran_def)
  ultimately show ?thesis using r st sg a f fa \<open>dom (cm_frames ?m) = dom (cm_frames m1)\<close>
    by (auto simp: ran_def mem_ok_def)
qed

lemma seg_head: "seg m C (b # st) k K \<Longrightarrow> \<exists>co. cm_frames m b = Some (Frame co C None) \<and> co \<noteq> Final"
  by (cases st) auto

lemma run_prog_works:
  "mem_ok m \<Longrightarrow> a < cm_next m \<Longrightarrow> cm_frames m a \<noteq> None \<Longrightarrow> caller_of a m = C \<Longrightarrow>
   runs m a C (flat p) (run_prog p a m)"
proof (induction p arbitrary: a m C)
  case (Return r)
  show ?case
  proof (cases "C = Null \<and> top_stop (Fin r) = None")
    case True
    then show ?thesis using Return.prems
      by (auto simp: runs_def final_suspend_def top_stop_def split: co_outcome.splits)
  next
    case False
    then have "ran m a C (run_prog (Return r) a m) [] (Fin r) [] []" using final_ran [OF Return.prems] by simp
    then show ?thesis using False by (simp add: ran_runs)
  qed
next
  case (Suspend k c)
  have "ran m a C (run_prog (Suspend k c) a m) [] (Sus k (\<lambda>v. flat (c v))) [] []"
    using suspend_ran [OF Suspend.prems(1,2,4)] Suspend.prems(4) by simp
  then show ?case by (rule ran_runs) (simp_all add: top_stop_def)
next
  case (Await q c)
  let ?b = "cm_next m" and ?n = "new_frame Inline m"
  let ?m1 = "run_prog q ?b ?n"
  have "mem_ok ?n" "?b < cm_next ?n" "cm_frames ?n ?b \<noteq> None" "caller_of ?b ?n = Inline"
    using new_frame_ok [OF Await.prems(1)] by (simp_all add: caller_of_def)
  from Await.IH(1) [OF this] have q: "runs ?n ?b Inline (flat q) ?m1" .
  show ?case
  proof (cases "walk (flat q)")
    case None
    then have "cm_status ?m1 = Terminated" using q by (simp add: runs_def)
    then show ?thesis using None by (simp add: runs_def walk_bind Let_def)
  next
    case (Some w)
    obtain ps x where w: "walk (flat q) = Some (ps, x)" using Some by (cases w) simp
    obtain ss ext where r: "ran ?n ?b Inline ?m1 ps x ss ext" using runs_ran [OF w _ q] by auto
    have alive: "cm_status ?m1 = Alive" using r by (simp add: ran_def mem_ok_def)
    have fa: "cm_frames ?m1 a = cm_frames m a" using r Await.prems by (auto simp: ran_def)
    have ca: "caller_of a ?m1 = C" using fa Await.prems(4) by (simp add: caller_of_def)
    show ?thesis
    proof (cases x)
      case (Fin o1)
      let ?m2 = "destroy ?b ?m1"
      have l: "left m a ?m2 ps ss" using r Await.prems(2) unfolding Fin by (rule left_taken)
      have take: "take_outcome ?b ?m1 = Some (o1, ?m2)" using r Fin by (simp add: ran_def take_outcome_def)
      have run: "run_prog (Await q c) a m = run_prog (c o1) a ?m2" using alive take by (simp add: Let_def)
      have "runs ?m2 a C (flat (c o1)) (run_prog (c o1) a ?m2)"
      proof (rule Await.IH(2) [OF rangeI])
        show "mem_ok ?m2" "a < cm_next ?m2" using l Await.prems(2) by (simp_all add: left_def)
        show "cm_frames ?m2 a \<noteq> None" "caller_of a ?m2 = C" using fa Await.prems ca by (simp_all add: caller_of_def)
      qed
      then show ?thesis unfolding run
        by (rule runs_seq [OF l Await.prems(2)]) (simp add: walk_bind w Fin)
    next
      case (Sus k K)
      have sg: "seg ?m1 Inline (?b # ext) k K" using r Sus by (simp add: ran_def)
      obtain co where f: "cm_frames ?m1 ?b = Some (Frame co Inline None)" "co \<noteq> Final" using seg_head [OF sg] by blast
      have "take_outcome ?b ?m1 = None" using f by (simp add: take_outcome_def split: code.split)
      then have "run_prog (Await q c) a m = put_frame a (Frame (Awaiting ?b c) C None) (put_frame ?b (Frame co (At a) None) ?m1)"
        using alive f ca by (simp add: Let_def)
      moreover note await_suspended [OF r [unfolded Sus] Await.prems(2-4) f(1), of c]
      ultimately show ?thesis using w Sus by (auto simp: runs_def walk_bind top_stop_def)
    qed
  qed
next
  case (Go q p)
  let ?b = "cm_next m" and ?n = "new_frame Null m"
  let ?m1 = "run_prog q ?b ?n"
  have "mem_ok ?n" "?b < cm_next ?n" "cm_frames ?n ?b \<noteq> None" "caller_of ?b ?n = Null"
    using new_frame_ok [OF Go.prems(1)] by (simp_all add: caller_of_def)
  from Go.IH(1) [OF this] have q: "runs ?n ?b Null (flat q) ?m1" .
  show ?case
  proof (cases "\<exists>ps x qs. walk (flat q) = Some (ps, x) \<and> top_stop x = Some qs")
    case True
    then obtain ps x qs where w: "walk (flat q) = Some (ps, x)" "top_stop x = Some qs" by blast
    obtain ss ext where r: "ran ?n ?b Null ?m1 ps x ss ext" using runs_ran [OF w(1) _ q] w(2) by auto
    obtain ts where l: "left m a ?m1 (ps @ qs) ts" using left_go [OF r Go.prems(2) w(2)] by blast
    have m1: "mem_ok ?m1" "a < cm_next ?m1" "cm_frames ?m1 a = cm_frames m a"
      using l Go.prems(2) r by (auto simp: left_def ran_def)
    then have "runs ?m1 a C (flat p) (run_prog p a ?m1)"
      using Go.prems by (intro Go.IH(2)) (simp_all add: caller_of_def)
    moreover have "run_prog (Go q p) a m = run_prog p a ?m1" using m1(1) by (simp add: Let_def mem_ok_def)
    moreover have "walk (flat (Go q p)) = (case walk (flat p) of None \<Rightarrow> None | Some (rs, y) \<Rightarrow> Some ((ps @ qs) @ rs, y))"
      using w by (simp split: option.split)
    ultimately show ?thesis using runs_seq [OF l Go.prems(2)] by simp
  next
    case False
    have t: "walk (flat (Go q p)) = None" using False by (auto split: option.splits)
    have "cm_status ?m1 = Terminated"
      using False q by (cases "walk (flat q)") (auto simp: runs_def split: if_splits)
    then show ?thesis using t by (simp add: runs_def Let_def)
  qed
qed

section \<open>Resuming\<close>

text \<open>
  The stack \<open>st\<close> (root first) with caller \<open>C\<close> has run from \<open>m\<close> to \<open>m'\<close>; \<open>own\<close> is what is left of
  it, with the frames it has now.
\<close>

definition went :: "co_mem \<Rightarrow> nat list \<Rightarrow> caller \<Rightarrow> co_mem \<Rightarrow> (nat \<times> (int \<Rightarrow> tree)) list \<Rightarrow> stop \<Rightarrow>
    nat list list \<Rightarrow> nat list \<Rightarrow> bool" where
  "went m st C m' ps x ss own \<longleftrightarrow>
     mem_ok m' \<and> cm_next m \<le> cm_next m' \<and> stacks m' ss ps \<and> distinct (concat ss @ own) \<and>
     set (concat ss @ own) = dom (cm_frames m') \<inter> ({cm_next m..} \<union> set st) \<and>
     (\<forall>y < cm_next m. y \<notin> set st \<longrightarrow> cm_frames m' y = cm_frames m y) \<and>
     (case x of
        Fin r \<Rightarrow> own = (if C = Null then [] else [hd st]) \<and> cm_susp m' = cm_susp m @ leaves ss ps \<and>
          cm_frames m' (hd st) = (if C = Null then None else Some (Frame Final Null (Some r)))
      | Sus k K \<Rightarrow> cm_susp m' = cm_susp m @ leaves ss ps @ [(k, last own)] \<and> seg m' C own k K \<and> hd own = hd st)"

lemma ran_went:
  assumes r: "ran m a C m' ps x ss ext" and a: "a < cm_next m"
  shows "\<exists>own. went m [a] C m' ps x ss own"
proof -
  have set: "set (concat ss @ ext) = dom (cm_frames m') \<inter> {cm_next m..}" using r by (simp add: ran_def)
  then have na: "a \<notin> set (concat ss @ ext)" using a by auto
  show ?thesis
  proof (cases x)
    case (Fin o1)
    have "went m [a] C m' ps x ss (if C = Null then [] else [a])"
      using r set na Fin by (auto simp: went_def ran_def)
    then show ?thesis by blast
  next
    case (Sus k K)
    then have sg: "seg m' C (a # ext) k K" using r by (simp add: ran_def)
    have "cm_frames m' a \<noteq> None" using seg_dom [OF sg] by auto
    then have "set (concat ss @ a # ext) = dom (cm_frames m') \<inter> ({cm_next m..} \<union> {a})" using set by auto
    moreover have "distinct (concat ss @ a # ext)" using r na by (auto simp: ran_def)
    ultimately have "went m [a] C m' ps x ss (a # ext)" using r sg Sus by (simp add: went_def ran_def)
    then show ?thesis by blast
  qed
qed

text \<open>One round of the loop of \<open>resume\<close>.\<close>

lemma loop_round:
  assumes "caller_of a m = C" "C \<noteq> Inline" "cm_frames m a \<noteq> None" "runs m2 a C t (resume_frame a v m)"
  shows "resume_loop (Suc n) a v m =
    (case (walk t, C) of
       (Some (ps, Fin r), At p) \<Rightarrow> resume_loop n p v (resume_frame a v m)
     | _ \<Rightarrow> Some (resume_frame a v m))"
proof (cases "walk t")
  case None
  then have "cm_status (resume_frame a v m) = Terminated" using assms(4) by (simp add: runs_def)
  then show ?thesis using None by (simp add: Let_def)
next
  case (Some w)
  obtain ps x where w: "walk t = Some (ps, x)" using Some by (cases w) simp
  show ?thesis
  proof (cases C)
    case Null
    then show ?thesis using assms(1) w by (simp add: Let_def split: stop.split)
  next
    case (At p)
    then obtain ss ext where r: "ran m2 a C (resume_frame a v m) ps x ss ext"
      using runs_ran [OF w _ assms(4)] by auto
    have alive: "cm_status (resume_frame a v m) = Alive" using r by (simp add: ran_def mem_ok_def)
    show ?thesis
    proof (cases x)
      case (Fin o1)
      then have "cm_frames (resume_frame a v m) a = Some (Frame Final Null (Some o1))" using r At by (simp add: ran_def)
      then show ?thesis using alive assms(1) At w Fin by (simp add: Let_def)
    next
      case (Sus k K)
      then have "seg (resume_frame a v m) C (a # ext) k K" using r by (simp add: ran_def)
      then obtain co where "cm_frames (resume_frame a v m) a = Some (Frame co C None)" using seg_head by blast
      then show ?thesis using alive assms(1) At w Sus by (simp add: Let_def)
    qed
  qed (use assms(2) in simp)
qed

text \<open>A stack that finished up to its root's child, then the root.\<close>

lemma went_seq:
  assumes w: "went m (b # st) (At a) m1 ps (Fin o1) ss own" and a: "a < cm_next m" "a \<notin> set (b # st)"
    and b: "set (b # st) \<subseteq> {..<cm_next m}"
    and fa: "cm_frames m a \<noteq> None" and r: "ran (destroy b m1) a C m' qs x ts ext"
  shows "\<exists>own. went m (a # b # st) C m' (ps @ qs) x (ss @ ts) own"
proof -
  let ?m2 = "destroy b m1"
  have own: "own = [b]" using w by (simp add: went_def)
  have set: "set (concat ss) \<union> {b} = dom (cm_frames m1) \<inter> ({cm_next m..} \<union> set (b # st))" "b \<notin> set (concat ss)"
    using w own by (auto simp: went_def)
  have m2: "mem_ok ?m2" "cm_next m \<le> cm_next ?m2" using w by (auto simp: went_def mem_ok_def)
  have s2: "set (concat ss) = dom (cm_frames ?m2) \<inter> ({cm_next m..} \<union> set (b # st))"
  proof -
    have "dom (cm_frames ?m2) = dom (cm_frames m1) - {b}" by auto
    then show ?thesis using set by auto
  qed
  have st2: "stacks ?m2 ss ps" by (rule stacks_cong [of m1]) (use w set(2) in \<open>auto simp: went_def\<close>)
  have keep: "cm_frames ?m2 y = cm_frames m y" if "y < cm_next m" "y \<notin> set (b # st)" for y
    using w that by (simp add: went_def)
  have lt: "y < cm_next ?m2 \<and> y \<noteq> a" if "y \<in> set (concat ss)" for y
  proof -
    have y: "y \<in> dom (cm_frames ?m2) \<inter> ({cm_next m..} \<union> set (b # st))" using that s2 by blast
    then show ?thesis using m2 a by (auto simp: mem_ok_def)
  qed
  have same: "cm_frames m' y = cm_frames ?m2 y" if "y < cm_next ?m2" "y \<noteq> a" for y
    using that r by (simp add: ran_def)
  have st: "stacks m' (ss @ ts) (ps @ qs)"
    by (rule stacks_append [OF stacks_cong [OF st2]]) (use lt same r in \<open>auto simp: ran_def\<close>)
  have new: "set (concat ts @ ext) = dom (cm_frames m') \<inter> {cm_next ?m2..}" using r by (simp add: ran_def)
  have lv: "leaves (ss @ ts) (ps @ qs) = leaves ss ps @ leaves ts qs"
    using leaves_append [OF stacks_length [OF st2]] .
  have dist: "distinct (concat (ss @ ts) @ ext)" "a \<notin> set (concat (ss @ ts) @ ext)"
  proof -
    have "set (concat ss) \<inter> set (concat ts @ ext) = {}" using lt new by fastforce
    then show "distinct (concat (ss @ ts) @ ext)" using w r by (auto simp: went_def ran_def)
    have "a \<notin> set (concat ts @ ext)" using new a(1) m2(2) by auto
    then show "a \<notin> set (concat (ss @ ts) @ ext)" using lt by auto
  qed
  have dm: "set (concat (ss @ ts) @ ext) = dom (cm_frames m') \<inter> ({cm_next m..} \<union> set (b # st))"
  proof -
    let ?A = "{cm_next m..} \<union> set (b # st)"
    have "dom (cm_frames m') \<inter> ?A = dom (cm_frames m') \<inter> {cm_next ?m2..} \<union> (dom (cm_frames m') \<inter> (?A \<inter> {..<cm_next ?m2}))"
      using m2(2) by auto
    moreover have "dom (cm_frames m') \<inter> (?A \<inter> {..<cm_next ?m2}) = dom (cm_frames ?m2) \<inter> (?A \<inter> {..<cm_next ?m2})"
    proof -
      have "cm_frames m' y = cm_frames ?m2 y" if "y \<in> ?A \<inter> {..<cm_next ?m2}" for y
        using that a same [of y] by (cases "y = a") auto
      then show ?thesis by (auto simp: dom_def)
    qed
    moreover have "dom (cm_frames ?m2) \<inter> (?A \<inter> {..<cm_next ?m2}) = set (concat ss)"
      using m2(1) unfolding s2 by (auto simp: mem_ok_def)
    ultimately show ?thesis using new by auto
  qed
  have unch: "\<forall>y < cm_next m. y \<notin> set (a # b # st) \<longrightarrow> cm_frames m' y = cm_frames m y"
    using same keep m2(2) by simp
  have sp: "cm_susp ?m2 = cm_susp m @ leaves ss ps" using w by (simp add: went_def)
  show ?thesis
  proof (cases x)
    case (Fin o2)
    have e: "ext = []" "cm_frames m' a = (if C = Null then None else Some (Frame Final Null (Some o2)))"
      using r Fin by (simp_all add: ran_def)
    have "set (concat (ss @ ts) @ (if C = Null then [] else [a])) = dom (cm_frames m') \<inter> ({cm_next m..} \<union> set (a # b # st))"
      using dm e a by auto
    moreover have "distinct (concat (ss @ ts) @ (if C = Null then [] else [a]))" using dist e by auto
    ultimately have "went m (a # b # st) C m' (ps @ qs) x (ss @ ts) (if C = Null then [] else [a])"
      using st e unch r sp lv Fin m2(2) unfolding went_def by (simp add: ran_def)
    then show ?thesis by blast
  next
    case (Sus k K)
    have sg: "seg m' C (a # ext) k K" using r Sus by (simp add: ran_def)
    have "cm_frames m' a \<noteq> None" using seg_dom [OF sg] by auto
    then have "set (concat (ss @ ts) @ a # ext) = dom (cm_frames m') \<inter> ({cm_next m..} \<union> set (a # b # st))"
      using dm by auto
    moreover have "distinct (concat (ss @ ts) @ a # ext)" using dist by auto
    ultimately have "went m (a # b # st) C m' (ps @ qs) x (ss @ ts) (a # ext)"
      using st unch r sp lv Sus sg m2(2) by (simp add: went_def ran_def)
    then show ?thesis by blast
  qed
qed


definition stack_done :: "co_mem \<Rightarrow> nat list \<Rightarrow> caller \<Rightarrow> tree \<Rightarrow> co_mem \<Rightarrow> bool" where
  "stack_done m st C t m' \<longleftrightarrow>
     (case walk t of
        None \<Rightarrow> cm_status m' = Terminated
      | Some (ps, x) \<Rightarrow>
          if C = Null \<and> top_stop x = None then cm_status m' = Terminated
          else \<exists>ss own. went m st C m' ps x ss own)"

lemma stack_doneI:
  assumes "walk t = None \<Longrightarrow> cm_status m' = Terminated"
    and "\<And>ps x. walk t = Some (ps, x) \<Longrightarrow> C = Null \<Longrightarrow> top_stop x = None \<Longrightarrow> cm_status m' = Terminated"
    and "\<And>ps x. walk t = Some (ps, x) \<Longrightarrow> \<not> (C = Null \<and> top_stop x = None) \<Longrightarrow> \<exists>ss own. went m st C m' ps x ss own"
  shows "stack_done m st C t m'"
proof (cases "walk t")
  case (Some w)
  then show ?thesis using assms(2,3) by (cases w; cases "C = Null \<and> top_stop (snd w) = None") (auto simp: stack_done_def)
qed (use assms(1) in \<open>simp add: stack_done_def\<close>)

lemma resume_stack:
  assumes "seg m C st k K" "mem_ok m" "distinct st" "C \<noteq> Inline" "set st \<subseteq> {..<cm_next m}"
  shows "\<exists>m'. stack_done m st C (K v) m' \<and>
     (\<forall>n. resume_loop (length st + n) (last st) v m =
       (case (walk (K v), C) of (Some (ps, Fin r), At p) \<Rightarrow> resume_loop n p v m' | _ \<Rightarrow> Some m'))"
  using assms
proof (induction m C st k K rule: seg.induct)
  case (2 m C a k K)
  then obtain c where c: "cm_frames m a = Some (Frame (Waiting k c) C None)" "K = (\<lambda>v. flat (c v))" by auto
  let ?m1 = "resume_frame a v m"
  have m1: "?m1 = run_prog (c v) a m" using c by (simp add: resume_frame_def)
  have a: "a < cm_next m" "caller_of a m = C" using 2 c by (auto simp: caller_of_def)
  have r: "runs m a C (K v) ?m1" unfolding m1 c(2) using 2 c a by (intro run_prog_works) simp_all
  have "\<exists>ss own. went m [a] C ?m1 ps x ss own" if w: "walk (K v) = Some (ps, x)" "\<not> (C = Null \<and> top_stop x = None)" for ps x
    using runs_ran [OF w r] ran_went [OF _ a(1)] by blast
  then have "stack_done m [a] C (K v) ?m1" using r by (intro stack_doneI) (simp_all add: runs_def)
  then show ?case using loop_round [OF a(2) 2(4) _ r] c by (intro exI [of _ ?m1]) (simp del: resume_loop.simps)
next
  case (3 m C a b st k K)
  then obtain c K' where c: "cm_frames m a = Some (Frame (Awaiting b c) C None)" "seg m (At a) (b # st) k K'"
    "K = (\<lambda>v. bind (K' v) (\<lambda>r. flat (c r)))" by auto
  have a: "a < cm_next m" "a \<notin> set (b # st)" "caller_of a m = C" using 3 c by (auto simp: caller_of_def)
  have b: "set (b # st) \<subseteq> {..<cm_next m}" "distinct (b # st)" using 3 by auto
  from "3.IH" [OF c(2) 3(3) b(2) caller.distinct(5) [symmetric] b(1)] obtain m1 where
    i1: "stack_done m (b # st) (At a) (K' v) m1" and
    i2: "\<And>n. resume_loop (length (b # st) + n) (last (b # st)) v m =
      (case (walk (K' v), At a) of (Some (ps, Fin r), At p) \<Rightarrow> resume_loop n p v m1 | _ \<Rightarrow> Some m1)"
    by blast
  have len: "resume_loop (length (a # b # st) + n) (last (a # b # st)) v m =
      (case (walk (K' v), At a) of (Some (ps, Fin r), At p) \<Rightarrow> resume_loop (Suc n) p v m1 | _ \<Rightarrow> Some m1)" for n
    using i2 [of "Suc n"] by (simp del: resume_loop.simps)
  show ?case
  proof (cases "walk (K' v)")
    case None
    then have "walk (K v) = None" by (simp add: c(3) walk_bind)
    then show ?thesis using i1 len None by (intro exI [of _ m1]) (simp add: stack_done_def del: resume_loop.simps)
  next
    case (Some w)
    obtain ps x where w: "walk (K' v) = Some (ps, x)" using Some by (cases w) simp
    obtain ss own where wt: "went m (b # st) (At a) m1 ps x ss own" using i1 w by (auto simp: stack_done_def)
    have fa: "cm_frames m1 a = cm_frames m a" using wt a by (simp add: went_def)
    show ?thesis
    proof (cases x)
      case (Sus k' K2)
      then have wk: "walk (K v) = Some (ps, Sus k' (\<lambda>v. bind (K2 v) (\<lambda>r. flat (c r))))"
        using w by (simp add: c(3) walk_bind)
      have sg: "seg m1 (At a) own k' K2" using wt Sus by (simp add: went_def)
      have "own \<noteq> []" "hd own = b" using sg wt Sus by (auto simp: went_def)
      then obtain own' where own: "own = b # own'" by (cases own) auto
      have na: "a \<notin> set (concat ss @ own)"
      proof
        assume "a \<in> set (concat ss @ own)"
        then have "a \<in> {cm_next m..} \<union> set (b # st)" using wt unfolding went_def by blast
        then show False using a(1,2) by auto
      qed
      have "cm_frames m1 a \<noteq> None" using fa c(1) by simp
      then have "set (concat ss @ a # own) = dom (cm_frames m1) \<inter> ({cm_next m..} \<union> set (a # b # st))"
        using wt by (auto simp: went_def)
      moreover have "distinct (concat ss @ a # own)" using wt na by (auto simp: went_def)
      moreover have "seg m1 C (a # own) k' (\<lambda>v. bind (K2 v) (\<lambda>r. flat (c r)))" using sg fa c(1) own by auto
      ultimately have "went m (a # b # st) C m1 ps (Sus k' (\<lambda>v. bind (K2 v) (\<lambda>r. flat (c r)))) ss (a # own)"
        using wt Sus own unfolding went_def by simp
      then have "stack_done m (a # b # st) C (K v) m1" using wk by (auto simp: stack_done_def top_stop_def)
      then show ?thesis using wk len w Sus by (intro exI [of _ m1]) (simp del: resume_loop.simps)
    next
      case (Fin o1)
      let ?m2 = "destroy b m1" and ?m3 = "resume_frame a v m1"
      have fb: "cm_frames m1 b = Some (Frame Final Null (Some o1))" using wt Fin by (simp add: went_def)
      have m3: "?m3 = run_prog (c o1) a ?m2" using fa c(1) fb by (simp add: resume_frame_def take_outcome_def)
      have m2: "mem_ok ?m2" "a < cm_next ?m2" "caller_of a m1 = C" "caller_of a ?m2 = C" "cm_frames ?m2 a \<noteq> None"
        using wt a fa c(1) by (auto simp: went_def mem_ok_def caller_of_def)
      have r: "runs ?m2 a C (flat (c o1)) ?m3" unfolding m3 using m2 by (intro run_prog_works) simp_all
      have wk: "walk (K v) = (case walk (flat (c o1)) of None \<Rightarrow> None | Some (qs, x) \<Rightarrow> Some (ps @ qs, x))"
        using w Fin by (simp add: c(3) walk_bind)
      have "\<exists>ss own. went m (a # b # st) C ?m3 (ps @ qs) y ss own"
        if y: "walk (flat (c o1)) = Some (qs, y)" "\<not> (C = Null \<and> top_stop y = None)" for qs y
        using runs_ran [OF y r] went_seq [OF wt [unfolded Fin] a(1,2) b(1)] c(1) by blast
      then have "stack_done m (a # b # st) C (K v) ?m3"
        using wk r by (intro stack_doneI) (auto simp: runs_def split: option.splits)
      moreover have "resume_loop (Suc n) a v m1 =
        (case (walk (flat (c o1)), C) of (Some (ps, Fin r), At p) \<Rightarrow> resume_loop n p v ?m3 | _ \<Rightarrow> Some ?m3)" for n
        using loop_round [OF m2(3) 3(5) _ r] fa c(1) by (simp del: resume_loop.simps)
      ultimately show ?thesis using len w Fin wk
        by (intro exI [of _ ?m3]) (simp del: resume_loop.simps split: option.split)
    qed
  qed
qed simp

section \<open>The whole thread\<close>

datatype co_event = CoGo prog | CoResume nat int

text \<open>
  The thread starts coroutines and resumes suspended ones, in any order and with any values. The
  bound on the rounds of \<open>resume\<close> is the number of addresses in use, which no stack exceeds.
\<close>

definition co_step :: "co_event \<Rightarrow> co_mem \<Rightarrow> co_mem option" where
  "co_step ev m =
     (if cm_status m \<noteq> Alive then Some m
      else case ev of
        CoGo p \<Rightarrow> Some (go_prog p m)
      | CoResume i v \<Rightarrow> if i < length (cm_susp m) then resume_at (cm_next m) i v m else Some m)"

fun co_run :: "co_event list \<Rightarrow> co_mem \<Rightarrow> co_mem option" where
  "co_run [] m = Some m"
| "co_run (ev # evs) m = (case co_step ev m of None \<Rightarrow> None | Some m1 \<Rightarrow> co_run evs m1)"

text \<open>The specification: the suspended coroutines and what is left of each, \<open>None\<close> after an uncaught exception.\<close>

fun spec_step :: "co_event \<Rightarrow> (nat \<times> (int \<Rightarrow> tree)) list \<Rightarrow> (nat \<times> (int \<Rightarrow> tree)) list option" where
  "spec_step (CoGo p) A = map_option (\<lambda>ps. A @ ps) (walk_top (flat p))"
| "spec_step (CoResume i v) A =
     (if i < length A
      then map_option (\<lambda>ps. take i A @ drop (Suc i) A @ ps) (walk_top (snd (A ! i) v))
      else Some A)"

fun spec_run :: "co_event list \<Rightarrow> (nat \<times> (int \<Rightarrow> tree)) list \<Rightarrow> (nat \<times> (int \<Rightarrow> tree)) list option" where
  "spec_run [] A = Some A"
| "spec_run (ev # evs) A = (case spec_step ev A of None \<Rightarrow> None | Some B \<Rightarrow> spec_run evs B)"

text \<open>Every frame belongs to the stack of one suspended coroutine.\<close>

definition co_sim :: "co_mem \<Rightarrow> (nat \<times> (int \<Rightarrow> tree)) list \<Rightarrow> bool" where
  "co_sim m A \<longleftrightarrow>
     mem_ok m \<and>
     (\<exists>ss. stacks m ss A \<and> distinct (concat ss) \<and> set (concat ss) = dom (cm_frames m) \<and> cm_susp m = leaves ss A)"

text \<open>How a run from the top ends.\<close>

lemma went_top:
  assumes w: "went m st Null m' ps x ts own" and x: "top_stop x = Some qs" and st: "st \<noteq> []"
  shows "\<exists>us. stacks m' us (ps @ qs) \<and> distinct (concat us) \<and>
    set (concat us) = dom (cm_frames m') \<inter> ({cm_next m..} \<union> set st) \<and> cm_susp m' = cm_susp m @ leaves us (ps @ qs)"
proof (cases x)
  case (Fin r)
  then have "qs = []" using x by (auto simp: top_stop_def split: co_outcome.splits)
  then show ?thesis using w Fin by (intro exI [of _ ts]) (auto simp: went_def)
next
  case (Sus k K)
  then have qs: "qs = [(k, K)]" using x by (simp add: top_stop_def)
  have s: "stacks m' ts ps" "seg m' Null own k K" using w Sus by (simp_all add: went_def)
  then have "stacks m' (ts @ [own]) (ps @ qs)" by (intro stacks_append) (simp_all add: stacks_def qs)
  moreover have "leaves (ts @ [own]) (ps @ qs) = leaves ts ps @ [(k, last own)]"
    using leaves_append [OF stacks_length [OF s(1)]] by (simp add: leaves_def qs)
  ultimately show ?thesis using w Sus by (intro exI [of _ "ts @ [own]"]) (auto simp: went_def)
qed

lemma co_go:
  assumes "co_sim m A"
  shows "case walk_top (flat p) of None \<Rightarrow> cm_status (go_prog p m) = Terminated
    | Some ps \<Rightarrow> co_sim (go_prog p m) (A @ ps)"
proof -
  let ?b = "cm_next m" and ?n = "new_frame Null m"
  let ?m = "go_prog p m"
  have ok: "mem_ok m" using assms by (simp add: co_sim_def)
  have r: "runs ?n ?b Null (flat p) ?m" unfolding go_prog_def
    using new_frame_ok [OF ok] by (intro run_prog_works) (simp_all add: caller_of_def)
  show ?thesis
  proof (cases "walk_top (flat p)")
    case None
    then have "cm_status ?m = Terminated"
      using r by (cases "walk (flat p)") (auto simp: runs_def walk_top_def split: if_splits option.splits)
    then show ?thesis using None by simp
  next
    case (Some ps)
    then obtain qs x rs where w: "walk (flat p) = Some (qs, x)" "top_stop x = Some rs" "ps = qs @ rs"
      by (auto simp: walk_top_def split: option.splits)
    obtain ts ext where rn: "ran ?n ?b Null ?m qs x ts ext" using runs_ran [OF w(1) _ r] w(2) by auto
    obtain own where wt: "went ?n [?b] Null ?m qs x ts own" using ran_went [OF rn] by auto
    obtain us where us: "stacks ?m us ps" "distinct (concat us)"
      "set (concat us) = dom (cm_frames ?m) \<inter> ({cm_next ?n..} \<union> set [?b])" "cm_susp ?m = cm_susp ?n @ leaves us ps"
      using went_top [OF wt w(2)] w(3) by auto
    obtain ss where ss: "stacks m ss A" "distinct (concat ss)" "set (concat ss) = dom (cm_frames m)" "cm_susp m = leaves ss A"
      using assms by (auto simp: co_sim_def)
    have lt: "y < ?b" if "y \<in> set (concat ss)" for y using that ss(3) ok by (auto simp: mem_ok_def)
    have same: "cm_frames ?m y = cm_frames m y" if "y < ?b" for y using wt that by (simp add: went_def)
    have "stacks ?m ss A" using ss(1) same lt by (blast intro: stacks_cong)
    moreover have "set (concat ss) \<inter> set (concat us) = {}" using lt us(3) by fastforce
    moreover have "dom (cm_frames ?m) = set (concat ss) \<union> set (concat us)"
    proof -
      have "dom (cm_frames ?m) = dom (cm_frames ?m) \<inter> {..<?b} \<union> dom (cm_frames ?m) \<inter> {?b..}" by auto
      moreover have "dom (cm_frames ?m) \<inter> {..<?b} = dom (cm_frames m)"
        using same ok by (auto simp: mem_ok_def dom_def)
      moreover have "{cm_next ?n..} \<union> set [?b] = {?b..}" by auto
      ultimately show ?thesis using us(3) ss(3) by simp
    qed
    moreover have "leaves (ss @ us) (A @ ps) = leaves ss A @ leaves us ps"
      by (rule leaves_append [OF stacks_length [OF ss(1)]])
    ultimately have "co_sim ?m (A @ ps)" unfolding co_sim_def using us ss wt
      by (intro conjI exI [of _ "ss @ us"]) (auto simp: stacks_append went_def)
    then show ?thesis using Some by simp
  qed
qed

lemma stacks_nth: "stacks m ss A \<Longrightarrow> i < length A \<Longrightarrow> seg m Null (ss ! i) (fst (A ! i)) (snd (A ! i))"
  by (simp add: stacks_def list_all2_conv_all_nth)

lemma stacks_drop:
  "stacks m ss A \<Longrightarrow> stacks m (take i ss @ drop (Suc i) ss) (take i A @ drop (Suc i) A)"
  by (simp add: stacks_def list_all2_appendI)

lemma leaves_drop:
  assumes "length ss = length A"
  shows "leaves (take i ss @ drop (Suc i) ss) (take i A @ drop (Suc i) A) = take i (leaves ss A) @ drop (Suc i) (leaves ss A)"
  using assms by (simp add: leaves_def take_map drop_map take_zip drop_zip)

lemma concat_split: "i < length ss \<Longrightarrow> set (concat ss) = set (ss ! i) \<union> set (concat (take i ss @ drop (Suc i) ss))"
  by (subst id_take_nth_drop [of i ss]) auto

lemma distinct_concat_split:
  "i < length ss \<Longrightarrow> distinct (concat ss) \<longleftrightarrow>
     distinct (ss ! i) \<and> distinct (concat (take i ss @ drop (Suc i) ss)) \<and>
     set (ss ! i) \<inter> set (concat (take i ss @ drop (Suc i) ss)) = {}"
  by (subst id_take_nth_drop [of i ss]) auto

lemma co_resume:
  assumes "co_sim m A" "i < length A"
  shows "\<exists>m'. resume_at (cm_next m) i v m = Some m' \<and>
    (case walk_top (snd (A ! i) v) of None \<Rightarrow> cm_status m' = Terminated
     | Some ps \<Rightarrow> co_sim m' (take i A @ drop (Suc i) A @ ps))"
proof -
  obtain ss where ss: "stacks m ss A" "distinct (concat ss)" "set (concat ss) = dom (cm_frames m)" "cm_susp m = leaves ss A"
    using assms by (auto simp: co_sim_def)
  have ok: "mem_ok m" using assms(1) by (simp add: co_sim_def)
  have len: "length ss = length A" by (rule stacks_length [OF ss(1)])
  define st where "st = ss ! i"
  define rest where "rest = take i ss @ drop (Suc i) ss"
  have i: "i < length ss" using assms(2) len by simp
  note cs = concat_split [OF i, folded st_def rest_def] and ds = distinct_concat_split [OF i, folded st_def rest_def]
  let ?n = "take_susp i m"
  have n: "cm_frames ?n = cm_frames m" "cm_next ?n = cm_next m" "mem_ok ?n" "cm_susp ?n = leaves rest (take i A @ drop (Suc i) A)"
    using ok leaves_drop [OF len] by (simp_all add: take_susp_def mem_ok_def ss(4) rest_def)
  have sg: "seg ?n Null st (fst (A ! i)) (snd (A ! i))"
    using stacks_nth [OF ss(1) assms(2)] n(1) by (auto simp: st_def intro: seg_cong)
  have st: "distinct st" "set st \<subseteq> {..<cm_next ?n}" "st \<noteq> []"
    using ds ss(2,3) cs ok sg n(2) by (auto simp: mem_ok_def)
  obtain m' where m': "stack_done ?n st Null (snd (A ! i) v) m'"
    and l: "\<forall>k. resume_loop (length st + k) (last st) v ?n =
      (case (walk (snd (A ! i) v), Null) of (Some (ps, Fin r), At p) \<Rightarrow> resume_loop k p v m' | _ \<Rightarrow> Some m')"
    using resume_stack [OF sg n(3) st(1) _ st(2), of v] by blast
  have loop: "resume_loop (length st + k) (last st) v ?n = Some m'" for k
    unfolding l [rule_format] by (auto split: option.split stop.split)
  have "length st \<le> card {..<cm_next m}" using st n(2) by (metis card_mono distinct_card finite_lessThan)
  then have "resume_loop (cm_next m) (last st) v ?n = Some m'" using loop [of "cm_next m - length st"] by simp
  moreover have "snd (cm_susp m ! i) = last st" using assms(2) len by (simp add: ss(4) leaves_def st_def)
  ultimately have run: "resume_at (cm_next m) i v m = Some m'" by (simp add: resume_at_def)
  show ?thesis
  proof (cases "walk_top (snd (A ! i) v)")
    case None
    then have "cm_status m' = Terminated"
      using m' by (auto simp: stack_done_def walk_top_def split: if_splits option.splits)
    then show ?thesis using None run by simp
  next
    case (Some ps)
    then obtain qs x rs where w: "walk (snd (A ! i) v) = Some (qs, x)" "top_stop x = Some rs" "ps = qs @ rs"
      by (auto simp: walk_top_def split: option.splits)
    then obtain ts own where wt: "went ?n st Null m' qs x ts own" using m' by (auto simp: stack_done_def)
    obtain us where us: "stacks m' us ps" "distinct (concat us)"
      "set (concat us) = dom (cm_frames m') \<inter> ({cm_next m..} \<union> set st)" "cm_susp m' = cm_susp ?n @ leaves us ps"
      using went_top [OF wt w(2) st(3)] w(3) n(2) by auto
    have lt: "y < cm_next m \<and> y \<notin> set st" if "y \<in> set (concat rest)" for y
    proof -
      have "y \<in> dom (cm_frames m)" using that cs ss(3) by auto
      then show ?thesis using ok ds ss(2) that by (auto simp: mem_ok_def)
    qed
    have same: "cm_frames m' y = cm_frames m y" if "y < cm_next m" "y \<notin> set st" for y
      using wt that n by (simp add: went_def)
    have rs: "stacks m' rest (take i A @ drop (Suc i) A)"
      using stacks_drop [OF ss(1), of i] same lt unfolding rest_def [symmetric] by (blast intro: stacks_cong)
    have disj: "set (concat rest) \<inter> set (concat us) = {}" using lt us(3) by fastforce
    have dm: "dom (cm_frames m') = set (concat rest) \<union> set (concat us)"
    proof -
      let ?A = "{cm_next m..} \<union> set st"
      have "dom (cm_frames m') = dom (cm_frames m') \<inter> ?A \<union> dom (cm_frames m') \<inter> - ?A" by auto
      moreover have "dom (cm_frames m') \<inter> - ?A = dom (cm_frames m) \<inter> - ?A" using same by (auto simp: dom_def)
      moreover have "dom (cm_frames m) \<inter> - ?A = set (concat rest)"
      proof -
        have "set (concat rest) \<subseteq> {..<cm_next m} - set st" using lt by (auto simp del: set_concat)
        moreover have "dom (cm_frames m) = set st \<union> set (concat rest)" using cs ss(3) by simp
        moreover have "dom (cm_frames m) \<subseteq> {..<cm_next m}" using ok by (simp add: mem_ok_def)
        ultimately show ?thesis by (auto simp del: set_concat)
      qed
      ultimately show ?thesis using us(3) by auto
    qed
    have lv: "leaves (rest @ us) ((take i A @ drop (Suc i) A) @ ps) = leaves rest (take i A @ drop (Suc i) A) @ leaves us ps"
      by (rule leaves_append [OF stacks_length [OF rs]])
    have "stacks m' (rest @ us) ((take i A @ drop (Suc i) A) @ ps)" using rs us(1) by (rule stacks_append)
    moreover have "distinct (concat (rest @ us))" using ds ss(2) us(2) disj by simp
    moreover have "set (concat (rest @ us)) = dom (cm_frames m')" using dm by simp
    moreover have "cm_susp m' = leaves (rest @ us) ((take i A @ drop (Suc i) A) @ ps)" using us(4) n(4) lv by simp
    moreover have "mem_ok m'" using wt by (simp add: went_def)
    ultimately have "co_sim m' (take i A @ drop (Suc i) A @ ps)" unfolding co_sim_def
      by (intro conjI exI [of _ "rest @ us"]) simp_all
    then show ?thesis using Some run by simp
  qed
qed

lemma co_step_sim:
  assumes "co_sim m A"
  shows "\<exists>m'. co_step ev m = Some m' \<and>
    (case spec_step ev A of None \<Rightarrow> cm_status m' = Terminated | Some B \<Rightarrow> co_sim m' B)"
proof -
  have alive: "cm_status m = Alive" "length (cm_susp m) = length A"
    using assms stacks_length by (auto simp: co_sim_def mem_ok_def leaves_def)
  show ?thesis
  proof (cases ev)
    case (CoGo p)
    then show ?thesis using co_go [OF assms, of p] alive by (auto simp: co_step_def split: option.splits)
  next
    case (CoResume i v)
    show ?thesis
    proof (cases "i < length A")
      case True
      then show ?thesis using co_resume [OF assms True, of v] alive CoResume by (auto simp: co_step_def split: option.splits)
    qed (use assms alive CoResume in \<open>simp add: co_step_def\<close>)
  qed
qed

lemma co_run_dead: "cm_status m \<noteq> Alive \<Longrightarrow> co_run evs m = Some m"
  by (induction evs) (auto simp: co_step_def)

lemma co_run_sim:
  "co_sim m A \<Longrightarrow> \<exists>m'. co_run evs m = Some m' \<and>
     (case spec_run evs A of None \<Rightarrow> cm_status m' = Terminated | Some B \<Rightarrow> co_sim m' B)"
proof (induction evs arbitrary: m A)
  case (Cons ev evs)
  obtain m1 where m1: "co_step ev m = Some m1"
    "case spec_step ev A of None \<Rightarrow> cm_status m1 = Terminated | Some B \<Rightarrow> co_sim m1 B"
    using co_step_sim [OF Cons.prems] by blast
  show ?case
  proof (cases "spec_step ev A")
    case None
    then show ?thesis using m1 co_run_dead [of m1 evs] by simp
  next
    case (Some B)
    then show ?thesis using m1 Cons.IH [of m1 B] by simp
  qed
qed simp

text \<open>C7: Coroutine frames with their caller pointers implement sequential composition: whatever coroutines are started and in whatever order suspended ones are resumed, the thread has the suspended coroutines the specification has, it ends exactly when an exception leaves a coroutine nobody waits for, resuming always returns, no frame is used after it is gone, and when nothing is suspended no frame is left.\<close>

theorem co_await_composes:
  "\<exists>m. co_run evs mk_co_mem = Some m \<and>
     (case spec_run evs [] of
        None \<Rightarrow> cm_status m = Terminated
      | Some A \<Rightarrow>
          cm_status m = Alive \<and> map fst (cm_susp m) = map fst A \<and>
          (if A = [] then dom (cm_frames m) = {} else distinct (map snd (cm_susp m))))"
proof -
  have "co_sim mk_co_mem []" by (simp add: co_sim_def mem_ok_def mk_co_mem_def stacks_def leaves_def)
  then obtain m where m: "co_run evs mk_co_mem = Some m"
    "case spec_run evs [] of None \<Rightarrow> cm_status m = Terminated | Some B \<Rightarrow> co_sim m B"
    using co_run_sim by blast
  have top: "cm_status m = Alive \<and> map fst (cm_susp m) = map fst A \<and>
    (if A = [] then dom (cm_frames m) = {} else distinct (map snd (cm_susp m)))" if A: "co_sim m A" for A
  proof -
    obtain ss where ss: "stacks m ss A" "distinct (concat ss)" "set (concat ss) = dom (cm_frames m)" "cm_susp m = leaves ss A"
      using A by (auto simp: co_sim_def)
    have len: "length ss = length A" by (rule stacks_length [OF ss(1)])
    have ne: "st \<noteq> []" if "st \<in> set ss" for st
      using that ss(1) len by (auto simp: in_set_conv_nth dest: stacks_nth)
    have "map snd (cm_susp m) = map last ss" using len by (simp add: ss(4) leaves_def map_snd_zip_take comp_def) (rule nth_equalityI; simp)
    moreover have "distinct (map last ss)" using ss(2) ne
    proof (induction ss)
      case (Cons s ss)
      have "last s \<in> set s" "set s \<inter> set (concat ss) = {}" using Cons.prems by simp_all
      moreover have "last s' \<in> set (concat ss)" if "s' \<in> set ss" for s' using that Cons.prems(2) by (auto intro: last_in_set)
      ultimately have "last s \<notin> last ` set ss" by (auto simp del: set_concat)
      then show ?case using Cons by auto
    qed simp
    moreover have "map fst (cm_susp m) = map fst A" using len by (simp add: ss(4) leaves_def) (rule nth_equalityI; simp)
    moreover have "dom (cm_frames m) = {}" if "A = []" using that len ss(3) by simp
    moreover have "cm_status m = Alive" using A by (simp add: co_sim_def mem_ok_def)
    ultimately show ?thesis by simp
  qed
  show ?thesis
  proof (cases "spec_run evs []")
    case None
    then show ?thesis using m by simp
  next
    case (Some A)
    then have "co_sim m A" using m(2) by simp
    from top [OF this] show ?thesis using m(1) Some by simp
  qed
qed

text \<open>
  A coroutine awaits a child that suspends and then throws; the parent catches the exception,
  suspends itself, and ends. The child of another one throws with nobody above to catch it.
\<close>

definition catching_prog :: prog where
  "catching_prog = Await (Suspend 0 (\<lambda>v. Return (Exn 7)))
     (\<lambda>r. case r of Val v \<Rightarrow> Return (Val v) | Exn e \<Rightarrow> Suspend (Suc e) (\<lambda>v. Return (Val v)))"

definition throwing_prog :: prog where
  "throwing_prog = Await (Suspend 0 (\<lambda>v. Return (Exn 7))) (rethrow (\<lambda>v. Return (Val v)))"

lemma co_await_composes_witness:
  "(\<exists>m. co_run [CoGo catching_prog, CoResume 0 5, CoResume 0 6] mk_co_mem = Some m \<and> cm_status m = Alive \<and>
      dom (cm_frames m) = {}) \<and>
   (\<exists>m. co_run [CoGo throwing_prog, CoResume 0 5] mk_co_mem = Some m \<and> cm_status m = Terminated)"
proof -
  have "spec_run [CoGo catching_prog, CoResume 0 5, CoResume 0 6] [] = Some []"
    by (simp add: catching_prog_def walk_top_def top_stop_def)
  moreover have "spec_run [CoGo throwing_prog, CoResume 0 5] [] = None"
    by (simp add: throwing_prog_def rethrow_def walk_top_def top_stop_def)
  ultimately show ?thesis
    using co_await_composes [of "[CoGo catching_prog, CoResume 0 5, CoResume 0 6]"]
      co_await_composes [of "[CoGo throwing_prog, CoResume 0 5]"] by auto
qed

end
