(* ===== verification/Uco_Sched.thy ===== *)
theory Uco_Sched
  imports Uco_Prelude "HOL-Library.Multiset"
begin

text \<open>
  The loop of a scheduler thread (\<open>schedule\<close> in \<open>core/uco.cpp\<close>), the lists of coroutines it
  serves (\<open>uco_linked_list\<close>, \<open>sync_linked_list\<close>), \<open>go\<close> before and while it runs
  (\<open>__go_dispatch\<close>), \<open>get_sqe\<close>, the sleepers of the thread, and the counters and lists that decide
  when the thread ends. A coroutine is the tree of what it does (\<open>Uco_Task\<close> shows that nested tasks
  compose to one); a request may be one that the coroutine repeats for as long as it gets \<open>-EAGAIN\<close>
  or \<open>-EINTR\<close>. The kernel is a parameter: which requests complete with which results, and which
  sleepers are due, is an argument of a round. The heap and its timeout requests are in
  \<open>Uco_Timeout\<close>; here \<open>sc_timers\<close> says whether one is open or to be retried.
\<close>

section \<open>The lists\<close>

text \<open>
  \<open>uco_linked_list\<close>: nodes linked by \<open>next\<close> with a head and a tail pointer. \<open>ll_next\<close> is the
  \<open>next\<close> field of every promise.
\<close>

record linked_list =
  ll_head :: "nat option"
  ll_tail :: "nat option"
  ll_next :: "nat \<Rightarrow> nat option"

definition ll_push :: "nat \<Rightarrow> bool \<Rightarrow> linked_list \<Rightarrow> linked_list" where
  "ll_push n lifo l =
     (if lifo then
        let l1 = l\<lparr>ll_next := (ll_next l)(n := ll_head l), ll_head := Some n\<rparr>
        in if ll_tail l1 = None then l1\<lparr>ll_tail := Some n\<rparr> else l1
      else
        let l1 = l\<lparr>ll_next := (ll_next l)(n := None)\<rparr>;
            l2 = (case ll_tail l1 of
                    Some t \<Rightarrow> l1\<lparr>ll_next := (ll_next l1)(t := Some n)\<rparr>
                  | None \<Rightarrow> l1\<lparr>ll_head := Some n\<rparr>)
        in l2\<lparr>ll_tail := Some n\<rparr>)"

definition ll_pop :: "linked_list \<Rightarrow> nat option \<times> linked_list" where
  "ll_pop l =
     (case ll_head l of
        None \<Rightarrow> (None, l)
      | Some r \<Rightarrow>
          let l1 = l\<lparr>ll_head := ll_next l r\<rparr>
          in (Some r, if ll_head l1 = None then l1\<lparr>ll_tail := None\<rparr> else l1))"

text \<open>\<open>take_all\<close>: the loop walks from the head; the bound is on its rounds.\<close>

fun ll_collect :: "nat \<Rightarrow> linked_list \<Rightarrow> nat list" where
  "ll_collect 0 l = []"
| "ll_collect (Suc k) l =
     (case ll_head l of None \<Rightarrow> [] | Some r \<Rightarrow> r # ll_collect k (l\<lparr>ll_head := ll_next l r\<rparr>))"

definition ll_take_all :: "nat \<Rightarrow> linked_list \<Rightarrow> nat list \<times> linked_list" where
  "ll_take_all k l = (ll_collect k l, l\<lparr>ll_head := None, ll_tail := None\<rparr>)"

text \<open>The list a linked list stands for.\<close>

fun chain :: "(nat \<Rightarrow> nat option) \<Rightarrow> nat option \<Rightarrow> nat list \<Rightarrow> bool" where
  "chain nx p [] \<longleftrightarrow> p = None"
| "chain nx p (x # xs) \<longleftrightarrow> p = Some x \<and> chain nx (nx x) xs"

definition ll_rep :: "linked_list \<Rightarrow> nat list \<Rightarrow> bool" where
  "ll_rep l xs \<longleftrightarrow> distinct xs \<and> chain (ll_next l) (ll_head l) xs \<and> ll_tail l = (if xs = [] then None else Some (last xs))"

lemma chain_upd: "x \<notin> set xs \<Longrightarrow> chain (nx(x := y)) p xs = chain nx p xs"
  by (induction xs arbitrary: p) auto

lemma chain_snoc:
  "distinct (xs @ [n]) \<Longrightarrow> xs \<noteq> [] \<Longrightarrow> chain nx p xs \<Longrightarrow> chain (nx(n := None, last xs := Some n)) p (xs @ [n])"
proof (induction xs arbitrary: p)
  case (Cons x xs)
  show ?case
  proof (cases "xs = []")
    case True
    then show ?thesis using Cons.prems by auto
  next
    case False
    then have "x \<noteq> last xs" using Cons.prems(1) by (metis append_Cons distinct.simps(2) in_set_conv_decomp_first last_in_set set_append UnCI)
    then show ?thesis using Cons False by auto
  qed
qed simp

lemma ll_push_rep:
  assumes "ll_rep l xs" "n \<notin> set xs"
  shows "ll_rep (ll_push n lifo l) (if lifo then n # xs else xs @ [n])"
proof (cases lifo)
  case True
  then show ?thesis using assms by (auto simp: ll_rep_def ll_push_def Let_def chain_upd)
next
  case False
  show ?thesis
  proof (cases "xs = []")
    case True
    then show ?thesis using assms False by (auto simp: ll_rep_def ll_push_def Let_def)
  next
    case ne: False
    then have "chain ((ll_next l)(n := None, last xs := Some n)) (ll_head l) (xs @ [n])"
      using assms by (intro chain_snoc) (auto simp: ll_rep_def)
    then show ?thesis using assms False ne by (simp add: ll_rep_def ll_push_def Let_def)
  qed
qed

lemma ll_pop_rep:
  assumes "ll_rep l xs"
  shows "case xs of [] \<Rightarrow> ll_pop l = (None, l)
    | x # ys \<Rightarrow> fst (ll_pop l) = Some x \<and> ll_rep (snd (ll_pop l)) ys"
  using assms by (cases xs; cases "tl xs") (auto simp: ll_rep_def ll_pop_def Let_def)

lemma ll_collect_chain:
  "chain (ll_next l) (ll_head l) xs \<Longrightarrow> length xs < k \<Longrightarrow> ll_collect k l = xs"
  by (induction k l arbitrary: xs rule: ll_collect.induct) (case_tac xs; auto)+

lemma ll_take_all_rep:
  assumes "ll_rep l xs" "length xs < k"
  shows "fst (ll_take_all k l) = xs" "ll_rep (snd (ll_take_all k l)) []"
  using assms ll_collect_chain [of l xs k] by (auto simp: ll_rep_def ll_take_all_def)

section \<open>State\<close>

text \<open>
  A coroutine ends, yields, parks on a synchronisation primitive, wakes the \<open>n\<close>-th parked
  coroutine of its thread, issues a request and goes on with its result, starts another one, sleeps,
  or wakes the \<open>n\<close>-th sleeper of its thread. \<open>RIo True f\<close> is \<open>do { res = co_await awaitable } while (res ==
  -EAGAIN || res == -EINTR)\<close>. (With a deadline such a loop ends after some rounds: that is \<open>RIo False\<close>
  for each of them; the second entry of its linked timeout is left out.) \<open>RSleep n m r\<close> asks for \<open>n\<close> queue entries when it registers its timer, and for \<open>m\<close>
  when it leaves the heap after a wake.
\<close>

datatype routine =
    REnd
  | RYield routine
  | RPark routine
  | RPost nat routine
  | RIo bool "int \<Rightarrow> routine"
  | RGo routine routine
  | RSleep nat nat routine
  | RWake nat routine

type_synonym request = "bool \<times> (int \<Rightarrow> routine)"
type_synonym sleeping = "nat \<times> routine"

text \<open>
  What is posted: a parked coroutine, or a sleeper with whether its node is still in the heap.
\<close>

datatype posted = PSync routine | PSleep bool sleeping

text \<open>
  \<open>sc_free\<close> is the room left in the submission queue of \<open>sc_cap\<close> entries; \<open>sc_armed\<close> says that
  the read of the eventfd is registered, \<open>sc_signalled\<close> that the eventfd has been written. \<open>sc_heap\<close> are
  the sleepers with a parked node, all in the heap; \<open>sc_won\<close> those that a \<open>wake\<close> on another thread has
  won and not posted yet, with whether they are still in the heap.
\<close>

record sched =
  sc_yield :: "routine list"
  sc_wait_sqe :: "request list"
  sc_sync :: "posted list"
  sc_parked :: "routine list"
  sc_io :: "request list"
  sc_heap :: "sleeping list"
  sc_won :: "(bool \<times> sleeping) list"
  sc_io_count :: int
  sc_sync_count :: int
  sc_free :: nat
  sc_cap :: nat
  sc_no_sqe :: bool
  sc_armed :: bool
  sc_retry :: bool
  sc_signalled :: bool
  sc_timers :: bool
  sc_state :: nat

definition EAGAIN_errno :: int where "EAGAIN_errno = 11"
definition EINTR_errno :: int where "EINTR_errno = 4"

definition mk_sched :: "nat \<Rightarrow> sched" where
  "mk_sched cap =
     \<lparr>sc_yield = [], sc_wait_sqe = [], sc_sync = [], sc_parked = [], sc_io = [], sc_heap = [], sc_won = [],
      sc_io_count = 0, sc_sync_count = 0, sc_free = cap, sc_cap = cap, sc_no_sqe = False, sc_armed = True,
      sc_retry = False, sc_signalled = False, sc_timers = False, sc_state = 0\<rparr>"

fun in_heap_posted :: "posted \<Rightarrow> bool" where
  "in_heap_posted (PSync r) = False"
| "in_heap_posted (PSleep b x) = b"

text \<open>\<open>timer_active\<close>: the heap is not empty, or a timeout request is open or pending.\<close>

definition sched_timer_active :: "sched \<Rightarrow> bool" where
  "sched_timer_active s \<longleftrightarrow>
     sc_heap s \<noteq> [] \<or> list_ex fst (sc_won s) \<or> list_ex in_heap_posted (sc_sync s) \<or> sc_timers s"

section \<open>Running coroutines\<close>

text \<open>\<open>timer_refresh\<close> asks for some entries; without one the request is left pending.\<close>

definition timer_entry :: "sched \<Rightarrow> sched" where
  "timer_entry s =
     (if sc_free s = 0 then s\<lparr>sc_no_sqe := True, sc_timers := True\<rparr>
      else s\<lparr>sc_no_sqe := False, sc_free := sc_free s - 1, sc_timers := True\<rparr>)"

definition timer_entries :: "nat \<Rightarrow> sched \<Rightarrow> sched" where
  "timer_entries n s = (timer_entry ^^ n) s"

text \<open>A request: \<open>get_sqe\<close>, or the list of those that wait for an entry.\<close>

definition issue :: "request \<Rightarrow> sched \<Rightarrow> sched" where
  "issue q s =
     (if sc_free s = 0 then s\<lparr>sc_no_sqe := True, sc_wait_sqe := sc_wait_sqe s @ [q]\<rparr>
      else s\<lparr>sc_no_sqe := False, sc_free := sc_free s - 1, sc_io_count := sc_io_count s + 1,
             sc_io := sc_io s @ [q]\<rparr>)"

primrec run_co :: "routine \<Rightarrow> sched \<Rightarrow> sched" where
  "run_co REnd = (\<lambda>s. s)"
| "run_co (RYield r) = (\<lambda>s. s\<lparr>sc_yield := sc_yield s @ [r]\<rparr>)"
| "run_co (RPark r) = (\<lambda>s. s\<lparr>sc_sync_count := sc_sync_count s + 1, sc_parked := sc_parked s @ [r]\<rparr>)"
| "run_co (RPost n r) =
     (\<lambda>s. run_co r
        (if n < length (sc_parked s)
         then s\<lparr>sc_sync := PSync (sc_parked s ! n) # sc_sync s,
                sc_parked := take n (sc_parked s) @ drop (Suc n) (sc_parked s)\<rparr>
         else s))"
| "run_co (RIo again f) = issue (again, f)"
| "run_co (RGo q r) = (\<lambda>s. run_co r (run_co q s))"
| "run_co (RSleep n m r) = (\<lambda>s. timer_entries n (s\<lparr>sc_heap := sc_heap s @ [(m, r)]\<rparr>))"
| "run_co (RWake n r) =
     (\<lambda>s. run_co r
        (if n < length (sc_heap s)
         then s\<lparr>sc_sync := PSleep True (sc_heap s ! n) # sc_sync s,
                sc_heap := take n (sc_heap s) @ drop (Suc n) (sc_heap s)\<rparr>
         else s))"

text \<open>A coroutine goes on with the value of its request, or repeats it.\<close>

definition with_result :: "request \<Rightarrow> int \<Rightarrow> routine" where
  "with_result q v =
     (if fst q \<and> (v = - EAGAIN_errno \<or> v = - EINTR_errno) then RIo True (snd q) else snd q v)"

text \<open>A posted coroutine runs; \<open>await_resume\<close> of a sleeper takes its node from the heap if it is still there.\<close>

definition run_posted :: "posted \<Rightarrow> sched \<Rightarrow> sched" where
  "run_posted x s =
     (case x of
        PSync r \<Rightarrow> run_co r (s\<lparr>sc_sync_count := sc_sync_count s - 1\<rparr>)
      | PSleep b (m, r) \<Rightarrow> run_co r (if b then timer_entries m s else s))"

text \<open>\<open>go\<close>: at once while the scheduler runs, in the yield list before it does.\<close>

definition go_dispatch :: "routine \<Rightarrow> sched \<Rightarrow> sched option" where
  "go_dispatch r s =
     (if sc_state s = 1 then Some (run_co r s)
      else if sc_state s = 0 then Some (s\<lparr>sc_yield := sc_yield s @ [r]\<rparr>)
      else None)"

text \<open>
  The three loops of a pass. The first says whether it stopped because the submission queue is
  full. All have a bound on their rounds; \<open>None\<close> means that it was reached.
\<close>

fun sqe_phase :: "nat \<Rightarrow> sched \<Rightarrow> (sched \<times> bool) option" where
  "sqe_phase 0 s = None"
| "sqe_phase (Suc k) s =
     (case sc_wait_sqe s of
        [] \<Rightarrow> Some (s, False)
      | q # qs \<Rightarrow>
          let s1 = run_co (with_result q (- EAGAIN_errno)) (s\<lparr>sc_wait_sqe := qs\<rparr>)
          in if sc_no_sqe s1 then Some (s1, True) else sqe_phase k s1)"

fun sync_phase :: "nat \<Rightarrow> sched \<Rightarrow> sched option" where
  "sync_phase 0 s = None"
| "sync_phase (Suc k) s =
     (case sc_sync s of
        [] \<Rightarrow> Some s
      | x # xs \<Rightarrow> sync_phase k (run_posted x (s\<lparr>sc_sync := xs\<rparr>)))"

fun yield_phase :: "nat \<Rightarrow> sched \<Rightarrow> sched option" where
  "yield_phase 0 s = None"
| "yield_phase (Suc k) s =
     (case sc_yield s of
        [] \<Rightarrow> Some s
      | r # rs \<Rightarrow> yield_phase k (run_co r (s\<lparr>sc_yield := rs\<rparr>)))"

text \<open>
  The inner loop: a pass over the three lists until the exit condition holds. \<open>sync_list_empty\<close> is
  what the second loop found, not what the list is now.
\<close>

fun ready_loop :: "nat \<Rightarrow> sched \<Rightarrow> sched option" where
  "ready_loop 0 s = None"
| "ready_loop (Suc k) s =
     (case sqe_phase k s of
        None \<Rightarrow> None
      | Some (s1, no_sqe) \<Rightarrow>
          (case sync_phase k s1 of
             None \<Rightarrow> None
           | Some s2 \<Rightarrow>
               let sync_list_empty = True
               in case yield_phase k s2 of
                    None \<Rightarrow> None
                  | Some s3 \<Rightarrow>
                      if (sc_wait_sqe s3 = [] \<or> no_sqe) \<and> sync_list_empty \<and> sc_yield s3 = [] then Some s3
                      else ready_loop k s3))"

text \<open>Registering the read of the eventfd (\<open>REGISTER_READ_SYNCFD\<close>).\<close>

definition register_read :: "sched \<Rightarrow> sched" where
  "register_read s =
     (if sc_free s = 0 then s\<lparr>sc_no_sqe := True, sc_retry := True\<rparr>
      else s\<lparr>sc_no_sqe := False, sc_free := sc_free s - 1, sc_retry := False, sc_armed := True\<rparr>)"

text \<open>
  The nodes that \<open>timer_on_fire\<close> takes from the heap: a parked one, whose coroutine runs at once, or
  one that a \<open>wake\<close> has won already, which is not run here.
\<close>

datatype fired = FParked nat | FWon nat | FPosted nat

fun leave_heap :: "posted \<Rightarrow> posted" where
  "leave_heap (PSync r) = PSync r"
| "leave_heap (PSleep b x) = PSleep False x"

fun fire :: "fired \<Rightarrow> sched \<Rightarrow> sched" where
  "fire (FParked n) s =
     (if n < length (sc_heap s)
      then run_co (snd (sc_heap s ! n)) (s\<lparr>sc_heap := take n (sc_heap s) @ drop (Suc n) (sc_heap s)\<rparr>)
      else s)"
| "fire (FWon n) s =
     (if n < length (sc_won s) then s\<lparr>sc_won := (sc_won s)[n := (False, snd (sc_won s ! n))]\<rparr> else s)"
| "fire (FPosted n) s =
     (if n < length (sc_sync s) then s\<lparr>sc_sync := (sc_sync s)[n := leave_heap (sc_sync s ! n)]\<rparr> else s)"

text \<open>
  Completions: of the eventfd read, of an io request (its position and result), or of a timeout
  request, with the nodes that are due and the entries that \<open>timer_refresh\<close> then asks for.
\<close>

datatype completion = CSync | CIo nat int | CTimer "fired list" nat

fun complete :: "completion \<Rightarrow> sched \<Rightarrow> sched" where
  "complete CSync s = (if sc_armed s then register_read (s\<lparr>sc_armed := False, sc_signalled := False\<rparr>) else s)"
| "complete (CIo i res) s =
     (if i < length (sc_io s)
      then run_co (with_result (sc_io s ! i) res)
             (s\<lparr>sc_io := take i (sc_io s) @ drop (Suc i) (sc_io s), sc_io_count := sc_io_count s - 1\<rparr>)
      else s)"
| "complete (CTimer fs n) s = timer_entries n (fold fire fs s)"

text \<open>The check at the top of the outer loop.\<close>

definition may_exit :: "sched \<Rightarrow> bool" where
  "may_exit s \<longleftrightarrow>
     sc_io_count s = 0 \<and> sc_sync_count s = 0 \<and> sc_yield s = [] \<and> sc_wait_sqe s = [] \<and> sc_sync s = [] \<and>
     \<not> sched_timer_active s"

text \<open>
  A round of the outer loop: it ends the thread, or serves the lists and then, when requests are
  open, submits and waits for completions. \<open>cs\<close> are the completions the kernel gives it; with none
  it stays in the wait. The timeout requests are counted by \<open>sc_timers\<close>.
\<close>

definition sched_round :: "nat \<Rightarrow> completion list \<Rightarrow> sched \<Rightarrow> sched option" where
  "sched_round k cs s =
     (if may_exit s then Some (s\<lparr>sc_state := 2\<rparr>)
      else case ready_loop k s of
        None \<Rightarrow> None
      | Some s1 \<Rightarrow>
          let s2 = (if sc_retry s1 then register_read s1 else s1)
          in if sc_io_count s2 > 0 \<or> sc_timers s2 then Some (fold complete cs (s2\<lparr>sc_free := sc_cap s2\<rparr>)) else Some s2)"

text \<open>The state in which a round waits for the kernel without a time limit.\<close>

definition waits_in :: "nat \<Rightarrow> sched \<Rightarrow> sched option" where
  "waits_in k s =
     (if may_exit s then None
      else case ready_loop k s of
        None \<Rightarrow> None
      | Some s1 \<Rightarrow>
          let s2 = (if sc_retry s1 then register_read s1 else s1)
          in if (sc_io_count s2 > 0 \<or> sc_timers s2) \<and> \<not> sc_retry s2 then Some (s2\<lparr>sc_free := sc_cap s2\<rparr>) else None)"

text \<open>\<open>push_sync_node_to_thread\<close> from another thread, and the write to the eventfd that follows it.\<close>

definition post_from_outside :: "nat \<Rightarrow> sched \<Rightarrow> sched" where
  "post_from_outside n s =
     (if n < length (sc_parked s)
      then s\<lparr>sc_sync := PSync (sc_parked s ! n) # sc_sync s,
             sc_parked := take n (sc_parked s) @ drop (Suc n) (sc_parked s), sc_signalled := True\<rparr>
      else s)"

text \<open>\<open>wake\<close> from another thread in its two steps: it wins the node, and posts the coroutine.\<close>

definition wake_wins :: "nat \<Rightarrow> sched \<Rightarrow> sched" where
  "wake_wins n s =
     (if n < length (sc_heap s)
      then s\<lparr>sc_won := (True, sc_heap s ! n) # sc_won s, sc_heap := take n (sc_heap s) @ drop (Suc n) (sc_heap s)\<rparr>
      else s)"

definition wake_posts :: "nat \<Rightarrow> sched \<Rightarrow> sched" where
  "wake_posts n s =
     (if n < length (sc_won s)
      then s\<lparr>sc_sync := PSleep (fst (sc_won s ! n)) (snd (sc_won s ! n)) # sc_sync s,
             sc_won := take n (sc_won s) @ drop (Suc n) (sc_won s), sc_signalled := True\<rparr>
      else s)"

text \<open>\<open>STimers\<close>: timeout requests are retried and complete.\<close>

datatype sched_event =
    SRound nat "completion list" | SPost nat | SWakeWins nat | SWakePosts nat | SGo routine | STimers bool

definition sched_step :: "sched_event \<Rightarrow> sched \<Rightarrow> sched option" where
  "sched_step ev s =
     (case ev of
        SRound k cs \<Rightarrow> if sc_state s = 1 then sched_round k cs s else None
      | SPost n \<Rightarrow> Some (post_from_outside n s)
      | SWakeWins n \<Rightarrow> Some (wake_wins n s)
      | SWakePosts n \<Rightarrow> Some (wake_posts n s)
      | SGo r \<Rightarrow> if sc_state s = 0 then go_dispatch r s else None
      | STimers b \<Rightarrow> Some (s\<lparr>sc_timers := b\<rparr>))"

text \<open>\<open>schedule\<close> sets the state to running; before that only \<open>go\<close> happens.\<close>

inductive sched_reachable :: "sched \<Rightarrow> bool" where
  start: "sched_reachable (mk_sched cap)"
| run: "sched_reachable s \<Longrightarrow> sc_state s = 0 \<Longrightarrow> sched_reachable (s\<lparr>sc_state := 1\<rparr>)"
| step: "sched_reachable s \<Longrightarrow> sched_step ev s = Some t \<Longrightarrow> sched_reachable t"

section \<open>The counters\<close>

text \<open>Every suspended coroutine is in one of the lists, and the counters count two of them.\<close>

fun is_sync :: "posted \<Rightarrow> bool" where
  "is_sync (PSync r) = True"
| "is_sync (PSleep b x) = False"

definition counted :: "sched \<Rightarrow> bool" where
  "counted s \<longleftrightarrow>
     sc_io_count s = int (length (sc_io s)) \<and>
     sc_sync_count s = int (length (sc_parked s)) + int (length (List.filter is_sync (sc_sync s))) \<and>
     (sc_armed s \<or> sc_retry s)"

lemma timer_entry_frame [simp]:
  "sc_yield (timer_entry s) = sc_yield s" "sc_wait_sqe (timer_entry s) = sc_wait_sqe s" "sc_sync (timer_entry s) = sc_sync s"
  "sc_parked (timer_entry s) = sc_parked s" "sc_io (timer_entry s) = sc_io s" "sc_heap (timer_entry s) = sc_heap s"
  "sc_won (timer_entry s) = sc_won s" "sc_io_count (timer_entry s) = sc_io_count s"
  "sc_sync_count (timer_entry s) = sc_sync_count s" "sc_armed (timer_entry s) = sc_armed s"
  "sc_retry (timer_entry s) = sc_retry s" "sc_state (timer_entry s) = sc_state s"
  by (simp_all add: timer_entry_def)

lemma timer_entries_frame [simp]:
  "sc_yield (timer_entries n s) = sc_yield s" "sc_wait_sqe (timer_entries n s) = sc_wait_sqe s"
  "sc_sync (timer_entries n s) = sc_sync s" "sc_parked (timer_entries n s) = sc_parked s"
  "sc_io (timer_entries n s) = sc_io s" "sc_heap (timer_entries n s) = sc_heap s"
  "sc_won (timer_entries n s) = sc_won s" "sc_io_count (timer_entries n s) = sc_io_count s"
  "sc_sync_count (timer_entries n s) = sc_sync_count s" "sc_armed (timer_entries n s) = sc_armed s"
  "sc_retry (timer_entries n s) = sc_retry s" "sc_state (timer_entries n s) = sc_state s"
  by (induction n) (simp_all add: timer_entries_def)

lemma counted_entries [simp]: "counted (timer_entries n s) = counted s"
  by (simp add: counted_def)

lemma run_co_counted: "counted s \<Longrightarrow> counted (run_co r s)"
proof (induction r arbitrary: s)
  case (RPost n r)
  then show ?case by (simp add: counted_def)
next
  case (RWake n r)
  then show ?case by (simp add: counted_def)
qed (auto simp: counted_def issue_def)

lemma run_co_state [simp]: "sc_state (run_co r s) = sc_state s"
  by (induction r arbitrary: s) (auto simp: issue_def)

text \<open>What one resumption from each list does to the state.\<close>

definition resume_sqe :: "sched \<Rightarrow> sched" where
  "resume_sqe s = run_co (with_result (hd (sc_wait_sqe s)) (- EAGAIN_errno)) (s\<lparr>sc_wait_sqe := tl (sc_wait_sqe s)\<rparr>)"

definition resume_sync :: "sched \<Rightarrow> sched" where
  "resume_sync s = run_posted (hd (sc_sync s)) (s\<lparr>sc_sync := tl (sc_sync s)\<rparr>)"

definition resume_yield :: "sched \<Rightarrow> sched" where
  "resume_yield s = run_co (hd (sc_yield s)) (s\<lparr>sc_yield := tl (sc_yield s)\<rparr>)"

text \<open>A property that every resumption keeps is kept by the loops.\<close>

locale kept_by_resumption =
  fixes P :: "sched \<Rightarrow> bool"
  assumes sqe: "P s \<Longrightarrow> sc_wait_sqe s \<noteq> [] \<Longrightarrow> P (resume_sqe s)"
    and sync: "P s \<Longrightarrow> sc_sync s \<noteq> [] \<Longrightarrow> P (resume_sync s)"
    and yield: "P s \<Longrightarrow> sc_yield s \<noteq> [] \<Longrightarrow> P (resume_yield s)"
begin

lemma sqe_phase: "sqe_phase k s = Some (t, b) \<Longrightarrow> P s \<Longrightarrow> P t"
proof (induction k s rule: sqe_phase.induct)
  case (2 k s)
  show ?case
  proof (cases "sc_wait_sqe s")
    case (Cons q qs)
    have "run_co (with_result q (- EAGAIN_errno)) (s\<lparr>sc_wait_sqe := qs\<rparr>) = resume_sqe s" by (simp add: resume_sqe_def Cons)
    then show ?thesis using 2 Cons sqe [of s] by (auto simp: Let_def split: if_splits)
  qed (use 2 in simp)
qed simp

lemma sync_phase: "sync_phase k s = Some t \<Longrightarrow> P s \<Longrightarrow> P t"
proof (induction k s rule: sync_phase.induct)
  case (2 k s)
  show ?case
  proof (cases "sc_sync s")
    case (Cons r rs)
    have "run_posted r (s\<lparr>sc_sync := rs\<rparr>) = resume_sync s" by (simp add: resume_sync_def Cons)
    then show ?thesis using 2 Cons sync [of s] by auto
  qed (use 2 in simp)
qed simp

lemma yield_phase: "yield_phase k s = Some t \<Longrightarrow> P s \<Longrightarrow> P t"
proof (induction k s rule: yield_phase.induct)
  case (2 k s)
  show ?case
  proof (cases "sc_yield s")
    case (Cons r rs)
    have "run_co r (s\<lparr>sc_yield := rs\<rparr>) = resume_yield s" by (simp add: resume_yield_def Cons)
    then show ?thesis using 2 Cons yield [of s] by auto
  qed (use 2 in simp)
qed simp

lemma ready_loop: "ready_loop k s = Some t \<Longrightarrow> P s \<Longrightarrow> P t"
proof (induction k s rule: ready_loop.induct)
  case (2 k s)
  obtain s1 b s2 s3 where ph: "sqe_phase k s = Some (s1, b)" "sync_phase k s1 = Some s2" "yield_phase k s2 = Some s3"
    using 2(2) by (auto split: option.splits)
  have "P s3" using yield_phase [OF ph(3) sync_phase [OF ph(2) sqe_phase [OF ph(1) 2(3)]]] .
  then show ?case using 2 ph by (auto split: if_splits)
qed simp

end

interpretation cnt: kept_by_resumption counted
proof
  fix s assume s: "counted s"
  show "sc_wait_sqe s \<noteq> [] \<Longrightarrow> counted (resume_sqe s)"
    using s unfolding resume_sqe_def by (intro run_co_counted) (simp add: counted_def)
  show "counted (resume_sync s)" if "sc_sync s \<noteq> []"
  proof (cases "hd (sc_sync s)")
    case (PSync r)
    with that s have "counted (s\<lparr>sc_sync := tl (sc_sync s), sc_sync_count := sc_sync_count s - 1\<rparr>)"
      by (cases "sc_sync s") (auto simp: counted_def)
    from run_co_counted [OF this] show ?thesis by (simp add: resume_sync_def run_posted_def PSync)
  next
    case (PSleep b y)
    obtain m r where y: "y = (m, r)" by force
    from that s PSleep have c: "counted (s\<lparr>sc_sync := tl (sc_sync s)\<rparr>)"
      by (cases "sc_sync s") (auto simp: counted_def)
    then have "counted (if b then timer_entries m (s\<lparr>sc_sync := tl (sc_sync s)\<rparr>) else s\<lparr>sc_sync := tl (sc_sync s)\<rparr>)" by simp
    from run_co_counted [OF this] show ?thesis by (simp add: resume_sync_def run_posted_def PSleep y)
  qed
  show "sc_yield s \<noteq> [] \<Longrightarrow> counted (resume_yield s)"
    using s unfolding resume_yield_def by (intro run_co_counted) (simp add: counted_def)
qed

text \<open>The state of the scheduler does not change in the loops.\<close>

interpretation stt: kept_by_resumption "\<lambda>s. sc_state s = n" for n
  by unfold_locales (auto simp: resume_sqe_def resume_sync_def resume_yield_def run_posted_def split: posted.splits prod.splits)

lemma register_read_counted: "counted (s\<lparr>sc_retry := True\<rparr>) \<Longrightarrow> counted (register_read s)"
  by (auto simp: counted_def register_read_def)

lemma is_sync_leave [simp]: "is_sync (leave_heap x) = is_sync x"
  by (cases x) simp_all

lemma filter_is_sync_leave: "length (List.filter is_sync (xs[n := leave_heap (xs ! n)])) = length (List.filter is_sync xs)"
proof -
  have "map is_sync (xs[n := leave_heap (xs ! n)]) = map is_sync xs"
    by (cases "n < length xs") (simp_all add: map_update list_update_same_conv list_update_beyond)
  moreover have n: "length (List.filter is_sync ys) = length (List.filter id (map is_sync ys))" for ys
    by (simp add: filter_map comp_def)
  ultimately show ?thesis by (simp only: n)
qed

lemma fire_counted: "counted s \<Longrightarrow> counted (fire f s)"
proof (cases f)
  case (FParked n)
  assume "counted s"
  then show ?thesis using FParked by (auto simp: counted_def intro!: run_co_counted [unfolded counted_def])
next
  case (FPosted n)
  assume "counted s"
  then show ?thesis using FPosted by (auto simp: counted_def filter_is_sync_leave)
qed (auto simp: counted_def)

lemma fold_fire_counted: "counted s \<Longrightarrow> counted (fold fire fs s)"
  by (induction fs arbitrary: s) (simp_all add: fire_counted)

lemma complete_counted: "counted s \<Longrightarrow> counted (complete c s)"
proof (cases c)
  case CSync
  assume "counted s"
  then show ?thesis using register_read_counted [of "s\<lparr>sc_armed := False, sc_signalled := False\<rparr>"] CSync
    by (auto simp: counted_def)
next
  case (CIo i res)
  assume "counted s"
  then have "counted (s\<lparr>sc_io := take i (sc_io s) @ drop (Suc i) (sc_io s), sc_io_count := sc_io_count s - 1\<rparr>)"
    if "i < length (sc_io s)" using that by (simp add: counted_def)
  then show ?thesis using \<open>counted s\<close> CIo run_co_counted by simp
next
  case (CTimer fs n)
  assume "counted s"
  then show ?thesis using CTimer fold_fire_counted by simp
qed

lemma fold_complete_counted: "counted s \<Longrightarrow> counted (fold complete cs s)"
  by (induction cs arbitrary: s) (simp_all add: complete_counted)

lemma sched_round_counted:
  assumes "counted s" "sched_round k cs s = Some t"
  shows "counted t"
proof (cases "may_exit s")
  case True
  then show ?thesis using assms by (auto simp: sched_round_def counted_def)
next
  case False
  then obtain s1 where s1: "ready_loop k s = Some s1" using assms(2) by (auto simp: sched_round_def split: option.splits)
  define s2 where "s2 = (if sc_retry s1 then register_read s1 else s1)"
  have "counted s1" using cnt.ready_loop [OF s1 assms(1)] .
  then have "counted s2" using register_read_counted [of s1] by (auto simp: s2_def counted_def)
  moreover have "counted (s2\<lparr>sc_free := sc_cap s2\<rparr>)" using calculation by (simp add: counted_def)
  ultimately show ?thesis using assms(2) False s1 fold_complete_counted [of "s2\<lparr>sc_free := sc_cap s2\<rparr>" cs]
    by (auto simp: sched_round_def Let_def s2_def [symmetric] split: if_splits)
qed

lemma sched_reachable_counted: "sched_reachable s \<Longrightarrow> counted s"
proof (induction rule: sched_reachable.induct)
  case (start cap)
  show ?case by (simp add: counted_def mk_sched_def)
next
  case (run s)
  then show ?case by (simp add: counted_def)
next
  case (step s ev t)
  show ?case
  proof (cases ev)
    case (SRound k cs)
    then show ?thesis using step sched_round_counted by (auto simp: sched_step_def split: if_splits)
  next
    case (SPost n)
    then show ?thesis using step by (cases "n < length (sc_parked s)") (auto simp: sched_step_def post_from_outside_def counted_def)
  next
    case (SWakeWins n)
    then show ?thesis using step by (auto simp: sched_step_def wake_wins_def counted_def split: if_splits)
  next
    case (SWakePosts n)
    then show ?thesis using step by (auto simp: sched_step_def wake_posts_def counted_def split: if_splits)
  next
    case (SGo r)
    then show ?thesis using step by (auto simp: sched_step_def go_dispatch_def counted_def split: if_splits)
  next
    case (STimers b)
    then show ?thesis using step by (auto simp: sched_step_def counted_def)
  qed
qed

text \<open>
  C15: When the loop decides to end the thread, no coroutine of the thread is suspended in anything the
  thread knows of: nothing yields, waits for a queue entry, is posted, is parked, sleeps in the heap,
  or has a request open. The only coroutines that can be left are sleepers that a \<open>wake\<close> on another
  thread has won but not posted yet and whose node has left the heap at its deadline; that this
  happens is shown by the witness and by \<open>sleeper_exit_race\<close>.
\<close>

theorem schedule_exit_clean:
  assumes "sched_reachable s" "may_exit s"
  shows "sc_yield s = [] \<and> sc_wait_sqe s = [] \<and> sc_sync s = [] \<and> sc_parked s = [] \<and> sc_io s = [] \<and> sc_heap s = [] \<and>
    (\<forall>x \<in> set (sc_won s). \<not> fst x)"
  using sched_reachable_counted [OF assms(1)] assms(2)
  by (auto simp: counted_def may_exit_def sched_timer_active_def list_ex_iff)

lemma schedule_exit_clean_witness:
  "\<exists>s. sched_reachable s \<and> may_exit s \<and> sc_parked s = [] \<and> sc_io s = [] \<and> sc_heap s = [] \<and> sc_won s = [(False, 0, REnd)]"
proof -
  let ?c = "RGo (RPark REnd) (RGo (RSleep 1 0 REnd) (RIo True (\<lambda>_. RPost 0 REnd)))"
  let ?s = "(mk_sched 8)\<lparr>sc_yield := [?c]\<rparr>"
  have "sched_step (SGo ?c) (mk_sched 8) = Some ?s" by (simp add: sched_step_def go_dispatch_def mk_sched_def)
  then have "sched_reachable ?s" by (rule sched_reachable.step [OF sched_reachable.start])
  then have r: "sched_reachable (?s\<lparr>sc_state := 1\<rparr>)" by (rule sched_reachable.run) (simp add: mk_sched_def)
  obtain t u v x where t: "sched_step (SRound 9 [CIo 0 (- 11), CIo 0 5]) (?s\<lparr>sc_state := 1\<rparr>) = Some t"
    "sched_step (SWakeWins 0) t = Some u" "sched_step (SRound 9 [CTimer [FWon 0] 0]) u = Some v"
    "sched_step (STimers False) v = Some x" "may_exit x" "sc_won x = [(False, 0, REnd)]"
    by (simp add: sched_step_def sched_round_def mk_sched_def may_exit_def Let_def eval_nat_numeral issue_def with_result_def
        EAGAIN_errno_def EINTR_errno_def timer_entries_def timer_entry_def sched_timer_active_def wake_wins_def run_posted_def)
  have "sched_reachable x" using r t(1-4) by (blast intro: sched_reachable.step)
  then show ?thesis using schedule_exit_clean [OF _ t(5)] t(5,6) by blast
qed

text \<open>A thread whose only suspended coroutines are parked ones, with no request open, does not wait for the kernel: a round leaves the state as it is and returns, so the loop spins until another thread posts something.\<close>

theorem parked_thread_spins:
  assumes "sched_reachable s" "sc_state s = 1" "sc_parked s \<noteq> []" "sc_io s = []" "\<not> sc_retry s"
    "sc_yield s = []" "sc_wait_sqe s = []" "sc_sync s = []" "\<not> sched_timer_active s"
  shows "sched_step (SRound (Suc (Suc k)) cs) s = Some s"
proof -
  have "sc_io_count s = 0" "sc_sync_count s \<noteq> 0" using sched_reachable_counted [OF assms(1)] assms by (simp_all add: counted_def)
  moreover have "ready_loop (Suc (Suc k)) s = Some s" using assms by simp
  ultimately show ?thesis using assms by (simp add: sched_step_def sched_round_def may_exit_def sched_timer_active_def)
qed

lemma parked_thread_spins_witness:
  "\<exists>s. sched_reachable s \<and> sc_parked s = [REnd] \<and> sched_step (SRound 2 []) s = Some s"
proof -
  let ?s = "(mk_sched 8)\<lparr>sc_yield := [RPark REnd]\<rparr>"
  have "sched_step (SGo (RPark REnd)) (mk_sched 8) = Some ?s" by (simp add: sched_step_def go_dispatch_def mk_sched_def)
  then have "sched_reachable ?s" by (rule sched_reachable.step [OF sched_reachable.start])
  then have r: "sched_reachable (?s\<lparr>sc_state := 1\<rparr>)" by (rule sched_reachable.run) (simp add: mk_sched_def)
  obtain t where t: "sched_step (SRound 9 []) (?s\<lparr>sc_state := 1\<rparr>) = Some t" "sc_state t = 1" "sc_parked t = [REnd]"
    "sc_io t = []" "\<not> sc_retry t" "sc_yield t = []" "sc_wait_sqe t = []" "sc_sync t = []" "\<not> sched_timer_active t"
    by (simp add: sched_step_def sched_round_def mk_sched_def may_exit_def sched_timer_active_def Let_def eval_nat_numeral)
  have "sched_reachable t" using r t(1) by (rule sched_reachable.step)
  then have "sched_step (SRound (Suc (Suc 0)) []) t = Some t" using t by (intro parked_thread_spins) simp_all
  then show ?thesis using \<open>sched_reachable t\<close> t(3) by (metis numeral_2_eq_2)
qed

text \<open>A coroutine woken by one that runs from the yield list, for example by one started before the scheduler, is not seen by the pass that is under way: the thread then waits for the kernel, without a time limit and with no signal on its eventfd, while that coroutine is ready to run.\<close>

theorem yield_post_stalls:
  "\<exists>s w. sched_step (SGo (RPark REnd)) (mk_sched 8) = Some s \<and>
     (\<exists>t u. sched_step (SGo (RPost 0 (RIo False (\<lambda>_. REnd)))) s = Some t \<and> u = t\<lparr>sc_state := 1\<rparr> \<and> sched_reachable u \<and>
        waits_in 9 u = Some w \<and> sc_sync w = [PSync REnd] \<and> sc_armed w \<and> \<not> sc_signalled w \<and> sc_yield w = [])"
proof -
  let ?s = "(mk_sched 8)\<lparr>sc_yield := [RPark REnd]\<rparr>"
  let ?t = "?s\<lparr>sc_yield := [RPark REnd, RPost 0 (RIo False (\<lambda>_. REnd))]\<rparr>"
  have 1: "sched_step (SGo (RPark REnd)) (mk_sched 8) = Some ?s"
    by (simp add: sched_step_def go_dispatch_def mk_sched_def)
  have 2: "sched_step (SGo (RPost 0 (RIo False (\<lambda>_. REnd)))) ?s = Some ?t"
    by (simp add: sched_step_def go_dispatch_def mk_sched_def)
  have "sched_reachable ?t" using sched_reachable.start [of 8] 1 2 by (meson sched_reachable.step)
  then have r: "sched_reachable (?t\<lparr>sc_state := 1\<rparr>)" by (rule sched_reachable.run) (simp add: mk_sched_def)
  obtain w where w: "waits_in 9 (?t\<lparr>sc_state := 1\<rparr>) = Some w" "sc_sync w = [PSync REnd]" "sc_armed w" "\<not> sc_signalled w" "sc_yield w = []"
    by (simp add: waits_in_def mk_sched_def may_exit_def sched_timer_active_def Let_def eval_nat_numeral issue_def)
  show ?thesis using 1 2 r w by blast
qed

section \<open>The inner loop ends\<close>

text \<open>
  What is suspended is weighed by the action it is suspended in, and a request that waits for a queue
  entry weighs more than one that is open. Every resumption replaces one of these by smaller
  ones, except that of a repeated request which still gets no entry: but then the pass stops.
\<close>

inductive sub_routine :: "routine \<Rightarrow> routine \<Rightarrow> bool" where
  "sub_routine r (RYield r)" | "sub_routine r (RPark r)" | "sub_routine r (RPost n r)"
| "sub_routine (f v) (RIo b f)" | "sub_routine q (RGo q r)" | "sub_routine r (RGo q r)"
| "sub_routine r (RSleep n m r)" | "sub_routine r (RWake n r)"

inductive_simps sub_routine_simps [simp]:
  "sub_routine x REnd" "sub_routine x (RYield r)" "sub_routine x (RPark r)" "sub_routine x (RPost n r)"
  "sub_routine x (RIo b f)" "sub_routine x (RGo q r)" "sub_routine x (RSleep n m r)" "sub_routine x (RWake n r)"








text \<open>A suspended coroutine that goes on with \<open>r\<close>, and a request.\<close>

definition rest_item :: "routine \<Rightarrow> routine \<times> nat" where
  "rest_item r = (r, 2)"

definition io_item :: "nat \<Rightarrow> request \<Rightarrow> routine \<times> nat" where
  "io_item k q = (RIo (fst q) (snd q), k)"

fun posted_rest :: "posted \<Rightarrow> routine" where
  "posted_rest (PSync r) = r"
| "posted_rest (PSleep b x) = snd x"

definition weight :: "sched \<Rightarrow> (routine \<times> nat) multiset" where
  "weight s =
     image_mset rest_item (mset (sc_yield s)) + image_mset (\<lambda>x. rest_item (posted_rest x)) (mset (sc_sync s)) +
     image_mset rest_item (mset (sc_parked s)) + image_mset (\<lambda>x. rest_item (snd x)) (mset (sc_heap s)) +
     image_mset (\<lambda>x. rest_item (snd (snd x))) (mset (sc_won s)) + image_mset (io_item 1) (mset (sc_wait_sqe s)) +
     image_mset (io_item 0) (mset (sc_io s))"

lemma weight_entries [simp]: "weight (timer_entries n s) = weight s"
  by (simp add: weight_def)




















end
