(* ===== verification/Uco_Timer.thy ===== *)
theory Uco_Timer
  imports Usync_Sema "HOL-Library.Multiset"
begin

text \<open>
  The timer heap of a scheduler thread (\<open>core/uco.h\<close> \<open>timer_node\<close>, \<open>core/uco.cpp\<close>
  \<open>timer_push\<close>, \<open>timer_remove\<close>, \<open>timer_on_fire\<close>): a binary min-heap of pointers to the nodes
  of sleeping coroutines, where every node remembers its position so that a woken sleeper can
  leave the heap from the middle. Nodes are addresses; \<open>tm_nodes\<close> is the memory they point
  into. The requests to the kernel are in \<open>Uco_Timeout\<close>.
\<close>

section \<open>Nodes and heap\<close>

datatype node_state = IDLE | REGISTERING | PARKED | WOKEN | EXPIRED

record tnode =
  st :: node_state
  prom :: "nat option"
  deadline_ns :: int
  idx :: nat
  in_heap :: bool

definition mk_tnode :: tnode where
  "mk_tnode = \<lparr>st = IDLE, prom = None, deadline_ns = 0, idx = 0, in_heap = False\<rparr>"

record timers =
  tm_heap :: "nat list"
  tm_nodes :: "nat \<Rightarrow> tnode"

definition mk_timers :: timers where
  "mk_timers = \<lparr>tm_heap = [], tm_nodes = \<lambda>_. mk_tnode\<rparr>"

text \<open>The deadline of the node at position \<open>i\<close>.\<close>

definition key :: "timers \<Rightarrow> nat \<Rightarrow> int" where
  "key t i = deadline_ns (tm_nodes t (tm_heap t ! i))"

definition upd_node :: "nat \<Rightarrow> (tnode \<Rightarrow> tnode) \<Rightarrow> timers \<Rightarrow> timers" where
  "upd_node n f t = t\<lparr>tm_nodes := (tm_nodes t)(n := f (tm_nodes t n))\<rparr>"

definition set_idx :: "nat \<Rightarrow> nat \<Rightarrow> timers \<Rightarrow> timers" where
  "set_idx n i = upd_node n (idx_update (\<lambda>_. i))"

text \<open>\<open>std::swap(heap[p], heap[i])\<close> and the two assignments of \<open>idx\<close> after it.\<close>

definition swap_slots :: "nat \<Rightarrow> nat \<Rightarrow> timers \<Rightarrow> timers" where
  "swap_slots p i t =
     (let h = (tm_heap t)[p := tm_heap t ! i, i := tm_heap t ! p]
      in set_idx (h ! i) i (set_idx (h ! p) p (t\<lparr>tm_heap := h\<rparr>)))"

definition par :: "nat \<Rightarrow> nat" where
  "par i = (i - 1) div 2"

lemma par_less: "0 < i \<Longrightarrow> par i < i"
  by (simp add: par_def less_mult_imp_div_less)

text \<open>The two loops. Each returns the position at which it stops.\<close>

function sift_up :: "nat \<Rightarrow> timers \<Rightarrow> timers \<times> nat" where
  "sift_up i t =
     (if i > 0 then
        let parent = par i
        in if key t parent \<le> key t i then (t, i) else sift_up parent (swap_slots parent i t)
      else (t, i))"
  by pat_completeness auto
termination by (relation "measure fst") (auto simp: par_less)

definition best_child :: "nat \<Rightarrow> timers \<Rightarrow> nat" where
  "best_child i t =
     (let left = 2 * i + 1; right = left + 1;
          b = (if left < length (tm_heap t) \<and> key t left < key t i then left else i)
      in if right < length (tm_heap t) \<and> key t right < key t b then right else b)"

lemma length_swap_slots [simp]: "length (tm_heap (swap_slots p i t)) = length (tm_heap t)"
  by (simp add: swap_slots_def set_idx_def upd_node_def Let_def)

lemma best_child_cases:
  "best_child i t = i \<or> best_child i t < length (tm_heap t) \<and> i < best_child i t"
  by (auto simp: best_child_def Let_def)

function sift_down :: "nat \<Rightarrow> timers \<Rightarrow> timers \<times> nat" where
  "sift_down i t =
     (let best = best_child i t
      in if best = i then (t, i) else sift_down best (swap_slots best i t))"
  by pat_completeness auto
termination
  by (relation "measure (\<lambda>(i, t). length (tm_heap t) - i)") (use best_child_cases in fastforce)+

declare sift_up.simps [simp del] sift_down.simps [simp del]

lemma sift_up_stop: "\<not> (0 < i \<and> key t i < key t (par i)) \<Longrightarrow> sift_up i t = (t, i)"
  by (subst sift_up.simps) (auto simp: Let_def)

lemma sift_up_swap:
  "0 < i \<Longrightarrow> key t i < key t (par i) \<Longrightarrow> sift_up i t = sift_up (par i) (swap_slots (par i) i t)"
  by (subst sift_up.simps) (simp add: Let_def)

lemma sift_down_stop: "best_child i t = i \<Longrightarrow> sift_down i t = (t, i)"
  by (subst sift_down.simps) (simp add: Let_def)

lemma sift_down_swap:
  "best_child i t \<noteq> i \<Longrightarrow> sift_down i t = sift_down (best_child i t) (swap_slots (best_child i t) i t)"
  by (subst sift_down.simps) (simp add: Let_def)

text \<open>
  \<open>timer_push\<close> up to its call of \<open>timer_refresh\<close>; \<open>None\<close> is the fatal check that the node is not
  in the heap already.
\<close>

definition heap_push :: "nat \<Rightarrow> timers \<Rightarrow> timers option" where
  "heap_push n t =
     (if in_heap (tm_nodes t n) then None
      else let t1 = upd_node n (in_heap_update (\<lambda>_. True)) t;
               t2 = t1\<lparr>tm_heap := tm_heap t1 @ [n]\<rparr>;
               (t3, i) = sift_up (length (tm_heap t2) - 1) t2
           in Some (set_idx n i t3))"

text \<open>\<open>timer_remove\<close> up to \<open>timer_refresh\<close>, for a node that is in the heap.\<close>

definition heap_remove :: "nat \<Rightarrow> timers \<Rightarrow> timers" where
  "heap_remove n t =
     (let t1 = upd_node n (in_heap_update (\<lambda>_. False)) t;
          i = idx (tm_nodes t1 n);
          t2 = t1\<lparr>tm_heap := (tm_heap t1)[i := last (tm_heap t1)]\<rparr>;
          t3 = set_idx (tm_heap t2 ! i) i t2;
          t4 = t3\<lparr>tm_heap := butlast (tm_heap t3)\<rparr>
      in if i < length (tm_heap t4)
         then let (t5, j) = sift_down i t4 in fst (sift_up j t5)
         else t4)"

text \<open>What one round of the loop of \<open>timer_on_fire\<close> does to the heap: pop the front node.\<close>

definition heap_pop :: "timers \<Rightarrow> timers" where
  "heap_pop t =
     (let n = hd (tm_heap t);
          t1 = t\<lparr>tm_heap := (tm_heap t)[0 := last (tm_heap t)]\<rparr>;
          t2 = set_idx (tm_heap t1 ! 0) 0 t1;
          t3 = t2\<lparr>tm_heap := butlast (tm_heap t2)\<rparr>;
          t4 = upd_node n (in_heap_update (\<lambda>_. False)) t3
      in fst (sift_down 0 t4))"

section \<open>Invariants\<close>

text \<open>Every position and every node agree.\<close>

definition coherent :: "timers \<Rightarrow> bool" where
  "coherent t \<longleftrightarrow>
     distinct (tm_heap t) \<and>
     (\<forall>i < length (tm_heap t). idx (tm_nodes t (tm_heap t ! i)) = i) \<and>
     (\<forall>n. in_heap (tm_nodes t n) \<longleftrightarrow> n \<in> set (tm_heap t))"

text \<open>Heap order, and heap order except around one position.\<close>

definition ordered :: "timers \<Rightarrow> bool" where
  "ordered t \<longleftrightarrow> (\<forall>j < length (tm_heap t). 0 < j \<longrightarrow> key t (par j) \<le> key t j)"

definition ordered_up :: "nat \<Rightarrow> timers \<Rightarrow> bool" where
  "ordered_up i t \<longleftrightarrow>
     (\<forall>j < length (tm_heap t). 0 < j \<longrightarrow> j \<noteq> i \<longrightarrow> key t (par j) \<le> key t j) \<and>
     (\<forall>c < length (tm_heap t). 0 < c \<longrightarrow> par c = i \<longrightarrow> 0 < i \<longrightarrow> key t (par i) \<le> key t c)"

definition ordered_ex :: "nat \<Rightarrow> timers \<Rightarrow> bool" where
  "ordered_ex i t \<longleftrightarrow>
     (\<forall>j < length (tm_heap t). 0 < j \<longrightarrow> j \<noteq> i \<longrightarrow> par j \<noteq> i \<longrightarrow> key t (par j) \<le> key t j) \<and>
     (\<forall>c < length (tm_heap t). 0 < c \<longrightarrow> par c = i \<longrightarrow> 0 < i \<longrightarrow> key t (par i) \<le> key t c)"

definition timers_ok :: "timers \<Rightarrow> bool" where
  "timers_ok t \<longleftrightarrow> coherent t \<and> ordered t"

section \<open>What the loops keep\<close>

text \<open>A node without its position, which is all that the loops change.\<close>

definition plain :: "timers \<Rightarrow> nat \<Rightarrow> tnode" where
  "plain t n = (tm_nodes t n)\<lparr>idx := 0\<rparr>"

lemma plain_fields:
  assumes "plain t = plain u"
  shows "st (tm_nodes t n) = st (tm_nodes u n)" "prom (tm_nodes t n) = prom (tm_nodes u n)"
    "deadline_ns (tm_nodes t n) = deadline_ns (tm_nodes u n)" "in_heap (tm_nodes t n) = in_heap (tm_nodes u n)"
  using fun_cong [OF assms, of n]
  by (cases "tm_nodes t n"; cases "tm_nodes u n"; simp add: plain_def)+

lemma plain_set_idx [simp]: "plain (set_idx n i t) = plain t"
  by (rule ext) (simp add: plain_def set_idx_def upd_node_def)

lemma plain_heap [simp]: "plain (t\<lparr>tm_heap := h\<rparr>) = plain t"
  by (rule ext) (simp add: plain_def)

lemma plain_swap [simp]: "plain (swap_slots p i t) = plain t"
  by (simp add: swap_slots_def Let_def)

lemma set_idx_simps [simp]:
  "tm_heap (set_idx n i t) = tm_heap t" "tm_heap (upd_node n f t) = tm_heap t"
  "tm_nodes (upd_node n f t) m = (if m = n then f (tm_nodes t n) else tm_nodes t m)"
  "tm_nodes (set_idx n i t) m = (if m = n then (tm_nodes t n)\<lparr>idx := i\<rparr> else tm_nodes t m)"
  by (simp_all add: set_idx_def upd_node_def)

lemma swap_nth:
  assumes pi: "p < length (tm_heap t)" "i < length (tm_heap t)" "p \<noteq> i"
  shows "j < length (tm_heap t) \<Longrightarrow> tm_heap (swap_slots p i t) ! j =
     (if j = p then tm_heap t ! i else if j = i then tm_heap t ! p else tm_heap t ! j)"
  using pi by (simp add: swap_slots_def Let_def nth_list_update)

lemma swap_mset:
  assumes pi: "p < length (tm_heap t)" "i < length (tm_heap t)" "p \<noteq> i"
  shows "mset (tm_heap (swap_slots p i t)) = mset (tm_heap t)"
  using pi by (simp add: swap_slots_def Let_def mset_swap)

lemma swap_idx:
  assumes pi: "p < length (tm_heap t)" "i < length (tm_heap t)" "p \<noteq> i"
  shows "idx (tm_nodes (swap_slots p i t) n) =
     (if n = tm_heap t ! p then i else if n = tm_heap t ! i then p else idx (tm_nodes t n))"
  using pi by (simp add: swap_slots_def Let_def)

lemma swap_key:
  assumes pi: "p < length (tm_heap t)" "i < length (tm_heap t)" "p \<noteq> i"
  and "j < length (tm_heap t)"
  shows "key (swap_slots p i t) j = (if j = p then key t i else if j = i then key t p else key t j)"
proof -
  have "deadline_ns (tm_nodes (swap_slots p i t) n) = deadline_ns (tm_nodes t n)" for n
    by (rule plain_fields(3)) simp
  then show ?thesis using swap_nth [OF assms] by (simp add: key_def)
qed

text \<open>Positions are right everywhere but at \<open>i\<close>.\<close>

definition coherent_at :: "nat \<Rightarrow> timers \<Rightarrow> bool" where
  "coherent_at i t \<longleftrightarrow>
     distinct (tm_heap t) \<and>
     (\<forall>j < length (tm_heap t). j \<noteq> i \<longrightarrow> idx (tm_nodes t (tm_heap t ! j)) = j) \<and>
     (\<forall>n. in_heap (tm_nodes t n) \<longleftrightarrow> n \<in> set (tm_heap t))"

lemma coherent_at_weaken: "coherent t \<Longrightarrow> coherent_at i t"
  by (auto simp: coherent_def coherent_at_def)

lemma swap_coherent:
  assumes "coherent_at i t" "p < length (tm_heap t)" "i < length (tm_heap t)" "p \<noteq> i"
  shows "coherent (swap_slots p i t)"
proof -
  have "distinct (tm_heap (swap_slots p i t))"
    using assms swap_mset [OF assms(2-4)] by (metis coherent_at_def distinct_count_atmost_1 set_mset_mset)
  moreover have "set (tm_heap (swap_slots p i t)) = set (tm_heap t)"
    using swap_mset [OF assms(2-4)] by (metis set_mset_mset)
  moreover have "in_heap (tm_nodes (swap_slots p i t) n) = in_heap (tm_nodes t n)" for n
    by (rule plain_fields(4)) simp
  moreover have "idx (tm_nodes (swap_slots p i t) (tm_heap (swap_slots p i t) ! j)) = j"
    if j: "j < length (tm_heap t)" for j
    using assms j unfolding swap_idx [OF assms(2-4)] swap_nth [OF assms(2-4) j]
    by (auto simp: coherent_at_def nth_eq_iff_index_eq)
  ultimately show ?thesis using assms(1) by (simp add: coherent_def coherent_at_def)
qed

text \<open>The facts about a loop that do not depend on the order.\<close>

definition loop_keeps :: "timers \<Rightarrow> nat \<Rightarrow> timers \<Rightarrow> nat \<Rightarrow> bool" where
  "loop_keeps t i u j \<longleftrightarrow>
     j < length (tm_heap u) \<and> mset (tm_heap u) = mset (tm_heap t) \<and> plain u = plain t \<and>
     tm_heap u ! j = tm_heap t ! i \<and> coherent_at j u \<and> (coherent t \<longrightarrow> coherent u)"

lemma loop_keeps_refl: "coherent_at i t \<Longrightarrow> i < length (tm_heap t) \<Longrightarrow> loop_keeps t i t i"
  by (simp add: loop_keeps_def)

lemma loop_keeps_swap:
  assumes "loop_keeps (swap_slots p i t) p u j"
    and "coherent_at i t" "p < length (tm_heap t)" "i < length (tm_heap t)" "p \<noteq> i"
  shows "loop_keeps t i u j"
  using assms(1) swap_coherent [OF assms(2-5)] swap_mset [OF assms(3-5)] swap_nth [OF assms(3-5)] assms(3)
  by (auto simp: loop_keeps_def)

lemma sift_up_keeps:
  "coherent_at i t \<Longrightarrow> i < length (tm_heap t) \<Longrightarrow> sift_up i t = (u, j) \<Longrightarrow> loop_keeps t i u j"
proof (induction i t arbitrary: u j rule: sift_up.induct)
  case (1 i t)
  show ?case
  proof (cases "0 < i \<and> key t i < key t (par i)")
    case True
    then have p: "par i < length (tm_heap t)" "par i \<noteq> i" using 1(3) par_less [of i] by auto
    have "sift_up (par i) (swap_slots (par i) i t) = (u, j)"
      using 1(4) True by (simp add: sift_up_swap)
    moreover have "coherent_at (par i) (swap_slots (par i) i t)"
      using swap_coherent [OF 1(2) p(1) 1(3) p(2)] by (rule coherent_at_weaken)
    ultimately have "loop_keeps (swap_slots (par i) i t) (par i) u j"
      using 1(1) True p by simp
    then show ?thesis using 1(2,3) p by (blast intro: loop_keeps_swap)
  next
    case False
    then show ?thesis using 1(2,3,4) by (simp add: sift_up_stop loop_keeps_refl)
  qed
qed

lemma sift_down_keeps:
  "coherent_at i t \<Longrightarrow> i < length (tm_heap t) \<Longrightarrow> sift_down i t = (u, j) \<Longrightarrow> loop_keeps t i u j"
proof (induction i t arbitrary: u j rule: sift_down.induct)
  case (1 i t)
  show ?case
  proof (cases "best_child i t = i")
    case True
    then show ?thesis using 1(2,3,4) by (simp add: sift_down_stop loop_keeps_refl)
  next
    case False
    let ?b = "best_child i t"
    have p: "?b < length (tm_heap t)" using best_child_cases [of i t] False by auto
    have "sift_down ?b (swap_slots ?b i t) = (u, j)"
      using 1(4) False by (simp add: sift_down_swap)
    moreover have "coherent_at ?b (swap_slots ?b i t)"
      using swap_coherent [OF 1(2) p 1(3) False] by (rule coherent_at_weaken)
    ultimately have "loop_keeps (swap_slots ?b i t) ?b u j"
      using 1(1) [OF refl False] p by simp
    then show ?thesis using 1(2,3) p False by (blast intro: loop_keeps_swap)
  qed
qed

section \<open>The loops restore the order\<close>

lemma sift_up_ordered:
  "ordered_up i t \<Longrightarrow> i < length (tm_heap t) \<Longrightarrow> sift_up i t = (u, j) \<Longrightarrow> ordered u"
proof (induction i t arbitrary: u j rule: sift_up.induct)
  case (1 i t)
  show ?case
  proof (cases "0 < i \<and> key t i < key t (par i)")
    case True
    let ?s = "swap_slots (par i) i t"
    have p: "par i < length (tm_heap t)" "par i \<noteq> i" using 1(3) True par_less [of i] by auto
    note k = swap_key [OF p(1) 1(3) p(2)]
    have o1: "key t (par j) \<le> key t j" if "j < length (tm_heap t)" "0 < j" "j \<noteq> i" for j
      using 1(2) that by (simp add: ordered_up_def)
    have o2: "key t (par i) \<le> key t c" if "c < length (tm_heap t)" "0 < c" "par c = i" for c
      using 1(2) that True by (simp add: ordered_up_def)
    have A: "key ?s (par j) \<le> key ?s j" if j: "j < length (tm_heap t)" "0 < j" "j \<noteq> par i" for j
    proof -
      have pj: "par j < length (tm_heap t)" using j(1) par_less [OF j(2)] by linarith
      show ?thesis
        using True o1 [OF j(1,2)] o2 [OF j(1,2)] j unfolding k [OF pj] k [OF j(1)]
        by (auto dest: less_imp_le intro: order.trans [of _ "key t (par i)"])
    qed
    have B: "key ?s (par (par i)) \<le> key ?s c"
      if c: "c < length (tm_heap t)" "0 < c" "par c = par i" "0 < par i" for c
    proof -
      have pp: "par (par i) < length (tm_heap t)" "par (par i) \<noteq> par i" "par (par i) \<noteq> i"
        using p(1) par_less [OF c(4)] par_less [of i] True by linarith+
      have cp: "c \<noteq> par i" using par_less [OF c(2)] c(3) by linarith
      have "key t (par (par i)) \<le> key t (par i)" using o1 [of "par i"] p c by simp
      moreover have "key t (par i) \<le> key t c" if "c \<noteq> i" using o1 [OF c(1,2) that] c by simp
      ultimately show ?thesis unfolding k [OF pp(1)] k [OF c(1)] using pp cp by auto
    qed
    have "ordered_up (par i) ?s" using A B by (simp add: ordered_up_def)
    then show ?thesis using 1(1) 1(4) True p by (simp add: sift_up_swap)
  next
    case False
    then show ?thesis using 1(2,4) by (auto simp: ordered_up_def ordered_def sift_up_stop)
  qed
qed

lemma par_child: "par c = i \<Longrightarrow> 0 < c \<Longrightarrow> c = 2 * i + 1 \<or> c = 2 * i + 2"
  by (simp add: par_def) arith

lemma par_left [simp]: "par (Suc (2 * i)) = i" "par (Suc (Suc (2 * i))) = i"
  by (simp_all add: par_def)

lemma best_child_min:
  shows "key t (best_child i t) \<le> key t i"
    and "c < length (tm_heap t) \<Longrightarrow> 0 < c \<Longrightarrow> par c = i \<Longrightarrow> key t (best_child i t) \<le> key t c"
    and "best_child i t \<noteq> i \<Longrightarrow> 0 < best_child i t \<and> par (best_child i t) = i"
proof -
  show "key t (best_child i t) \<le> key t i"
    by (auto simp: best_child_def Let_def)
  show "key t (best_child i t) \<le> key t c" if "c < length (tm_heap t)" "0 < c" "par c = i"
    using par_child [OF that(3,2)] that(1) by (auto simp: best_child_def Let_def)
  show "0 < best_child i t \<and> par (best_child i t) = i" if "best_child i t \<noteq> i"
    using that by (auto simp: best_child_def Let_def split: if_splits)
qed

lemma sift_down_ordered:
  "ordered_ex i t \<Longrightarrow> i < length (tm_heap t) \<Longrightarrow> sift_down i t = (u, j) \<Longrightarrow>
     ordered_up j u \<and> (j = i \<and> u = t \<or> 0 < j \<and> key u (par j) \<le> key u j)"
proof (induction i t arbitrary: u j rule: sift_down.induct)
  case (1 i t)
  let ?b = "best_child i t"
  show ?case
  proof (cases "?b = i")
    case True
    have "key t i \<le> key t c" if "c < length (tm_heap t)" "0 < c" "par c = i" for c
      using best_child_min(2) [OF that] True by simp
    then show ?thesis using 1(2,4) True by (auto simp: ordered_up_def ordered_ex_def sift_down_stop)
  next
    case False
    let ?s = "swap_slots ?b i t"
    have b: "?b < length (tm_heap t)" "0 < ?b" "par ?b = i"
      using best_child_cases [of i t] best_child_min(3) [OF False] False by auto
    note k = swap_key [OF b(1) 1(3) False]
    have u: "sift_down ?b ?s = (u, j)"
      using 1(4) False by (simp add: sift_down_swap)
    have o1: "key t (par j) \<le> key t j" if "j < length (tm_heap t)" "0 < j" "j \<noteq> i" "par j \<noteq> i" for j
      using 1(2) that by (simp add: ordered_ex_def)
    have o2: "key t (par i) \<le> key t c" if "c < length (tm_heap t)" "0 < c" "par c = i" "0 < i" for c
      using 1(2) that by (simp add: ordered_ex_def)
    have A: "key ?s (par j) \<le> key ?s j"
      if j: "j < length (tm_heap t)" "0 < j" "j \<noteq> ?b" "par j \<noteq> ?b" for j
    proof -
      have pj: "par j < length (tm_heap t)" using j(1) par_less [OF j(2)] by linarith
      have "j = i \<Longrightarrow> par j \<noteq> i" using par_less [OF j(2)] by auto
      then show ?thesis
        using o1 [OF j(1,2)] o2 [OF b(1-3)] best_child_min(2) [OF j(1,2)] j
        unfolding k [OF pj] k [OF j(1)] by auto
    qed
    have B: "key ?s (par ?b) \<le> key ?s c" if c: "c < length (tm_heap t)" "0 < c" "par c = ?b" for c
    proof -
      have "c \<noteq> i \<and> c \<noteq> ?b" using par_less [OF c(2)] par_less [OF b(2)] b(3) c(3) by auto
      moreover have "key t ?b \<le> key t c" if "c \<noteq> i"
        using o1 [OF c(1,2) that] c(3) False by simp
      ultimately show ?thesis using k [OF 1(3)] k [OF c(1)] b(3) False by simp
    qed
    have "ordered_ex ?b ?s" using A B by (simp add: ordered_ex_def)
    then have "ordered_up j u \<and> (j = ?b \<and> u = ?s \<or> 0 < j \<and> key u (par j) \<le> key u j)"
      using 1(1) [OF refl False] b(1) u by simp
    moreover have "key ?s (par ?b) \<le> key ?s ?b"
      using best_child_min(1) [of t i] k [OF 1(3)] k [OF b(1)] b(3) False by simp
    ultimately show ?thesis using b(2) by auto
  qed
qed

section \<open>The operations\<close>

lemma key_eq:
  "deadline_ns (tm_nodes u (tm_heap u ! i)) = deadline_ns (tm_nodes t (tm_heap t ! j)) \<Longrightarrow> key u i = key t j"
  by (simp add: key_def)

lemma ordered_hd_least:
  assumes "ordered t"
  shows "j < length (tm_heap t) \<Longrightarrow> key t 0 \<le> key t j"
proof (induction j rule: less_induct)
  case (less j)
  show ?case
  proof (cases "j = 0")
    case False
    then have "key t 0 \<le> key t (par j)" using less par_less [of j] by simp
    moreover have "key t (par j) \<le> key t j" using assms less(2) False by (simp add: ordered_def)
    ultimately show ?thesis by simp
  qed simp
qed

lemma coherent_set: "coherent t \<Longrightarrow> in_heap (tm_nodes t n) \<longleftrightarrow> n \<in> set (tm_heap t)"
  by (simp add: coherent_def)

lemma coherent_at_done:
  assumes "coherent_at j u" "j < length (tm_heap u)" "tm_heap u ! j = n"
  shows "coherent (set_idx n j u)"
  using assms by (auto simp: coherent_at_def coherent_def nth_eq_iff_index_eq)

lemma key_set_idx [simp]: "key (set_idx n i t) j = key t j"
  by (simp add: key_def)

lemma ordered_set_idx [simp]: "ordered (set_idx n i t) = ordered t"
  by (simp add: ordered_def)

lemma heap_push_works:
  assumes "timers_ok t" "n \<notin> set (tm_heap t)"
  obtains u where "heap_push n t = Some u" "timers_ok u" "mset (tm_heap u) = add_mset n (mset (tm_heap t))"
    "plain u = (plain t)(n := (plain t n)\<lparr>in_heap := True\<rparr>)"
proof -
  define t2 where "t2 = (upd_node n (in_heap_update (\<lambda>_. True)) t)\<lparr>tm_heap := tm_heap t @ [n]\<rparr>"
  let ?i = "length (tm_heap t)"
  obtain t3 j where s: "sift_up ?i t2 = (t3, j)" by fastforce
  have coh: "coherent t" and ord: "ordered t" using assms(1) by (simp_all add: timers_ok_def)
  have heap: "tm_heap t2 = tm_heap t @ [n]" by (simp add: t2_def)
  have nodes: "tm_nodes t2 m = (if m = n then (tm_nodes t n)\<lparr>in_heap := True\<rparr> else tm_nodes t m)" for m
    by (simp add: t2_def)
  have c: "coherent_at ?i t2" unfolding coherent_at_def
    using coh assms(2) by (auto simp: coherent_def heap nodes nth_append)
  have k: "key t2 j = key t j" if "j < ?i" for j
    using that assms(2) by (simp add: key_def heap nodes nth_append)
  have "ordered_up ?i t2" unfolding ordered_up_def
  proof (intro conjI allI impI)
    show "key t2 (par j) \<le> key t2 j" if "j < length (tm_heap t2)" "0 < j" "j \<noteq> ?i" for j
      using ord that par_less [OF that(2)] by (simp add: k heap ordered_def)
    show "key t2 (par ?i) \<le> key t2 c" if "c < length (tm_heap t2)" "0 < c" "par c = ?i" for c
      using that par_less [OF that(2)] by (simp add: heap)
  qed
  then have o: "ordered t3" by (rule sift_up_ordered [OF _ _ s]) (simp add: heap)
  have l: "loop_keeps t2 ?i t3 j" using c by (rule sift_up_keeps [OF _ _ s]) (simp add: heap)
  then have "coherent (set_idx n j t3)"
    by (intro coherent_at_done) (auto simp: loop_keeps_def heap nth_append)
  then have "timers_ok (set_idx n j t3)" using o by (simp add: timers_ok_def)
  moreover have "heap_push n t = Some (set_idx n j t3)"
    using assms(2) coherent_set [OF coh] s by (simp add: heap_push_def t2_def Let_def)
  moreover have "plain (set_idx n j t3) = (plain t)(n := (plain t n)\<lparr>in_heap := True\<rparr>)"
    using l by (simp add: loop_keeps_def) (rule ext, simp add: plain_def nodes)
  ultimately show ?thesis using that l by (simp add: loop_keeps_def heap)
qed

text \<open>Replacing position \<open>i\<close> by the last element and dropping the last position.\<close>

definition drop_slot :: "nat \<Rightarrow> timers \<Rightarrow> timers" where
  "drop_slot i t =
     (let n = tm_heap t ! i;
          t2 = (upd_node n (in_heap_update (\<lambda>_. False)) t)\<lparr>tm_heap := (tm_heap t)[i := last (tm_heap t)]\<rparr>;
          t3 = set_idx (tm_heap t2 ! i) i t2
      in t3\<lparr>tm_heap := butlast (tm_heap t3)\<rparr>)"

lemma drop_heap:
  fixes t i n
  defines "u \<equiv> drop_slot i t"
  assumes ok: "timers_ok t" and i: "i < length (tm_heap t)" and n: "n = tm_heap t ! i"
  shows "length (tm_heap u) = length (tm_heap t) - 1"
  "j < length (tm_heap t) - 1 \<Longrightarrow> tm_heap u ! j = (if j = i then last (tm_heap t) else tm_heap t ! j)"
  using i by (auto simp: u_def drop_slot_def Let_def nth_butlast nth_list_update)

lemma drop_mset:
  fixes t i n
  defines "u \<equiv> drop_slot i t"
  assumes ok: "timers_ok t" and i: "i < length (tm_heap t)" and n: "n = tm_heap t ! i"
  shows "add_mset n (mset (tm_heap u)) = mset (tm_heap t)"
proof -
  have "tm_heap t \<noteq> []" using i by auto
  then obtain xs x where h: "tm_heap t = xs @ [x]" by (metis rev_exhaust)
  show ?thesis
  proof (cases "i = length xs")
    case True
    then show ?thesis by (simp add: u_def drop_slot_def Let_def h n)
  next
    case False
    then have l: "i < length xs" using i h by simp
    then have "mset xs = add_mset (xs ! i) (mset xs - {#xs ! i#})" by simp
    with l show ?thesis by (simp add: u_def drop_slot_def Let_def h n nth_append list_update_append mset_update butlast_append)
  qed
qed

lemma drop_nodes:
  fixes t i n
  defines "u \<equiv> drop_slot i t"
  assumes ok: "timers_ok t" and i: "i < length (tm_heap t)" and n: "n = tm_heap t ! i"
  shows "plain u = (plain t)(n := (plain t n)\<lparr>in_heap := False\<rparr>)"
  by (rule ext) (simp add: u_def drop_slot_def Let_def plain_def n)

lemma drop_coherent:
  fixes t i n
  defines "u \<equiv> drop_slot i t"
  assumes ok: "timers_ok t" and i: "i < length (tm_heap t)" and n: "n = tm_heap t ! i"
  shows "coherent u"
proof -
  note dh = drop_heap [OF ok i n, folded u_def]
  note dm = drop_mset [OF ok i n, folded u_def]
  have coh: "coherent t" using ok by (simp add: timers_ok_def)
  have d: "distinct (tm_heap t)" using coh by (simp add: coherent_def)
  have "distinct (tm_heap u)" using d dm
    by (metis distinct.simps(2) mset.simps(2) mset_eq_imp_distinct_iff)
  moreover have s: "set (tm_heap u) = set (tm_heap t) - {n}"
    using d dm by (metis Diff_insert_absorb distinct.simps(2) list.simps(15) mset.simps(2) mset_eq_imp_distinct_iff mset_eq_setD)
  moreover have "in_heap (tm_nodes u m) \<longleftrightarrow> m \<noteq> n \<and> in_heap (tm_nodes t m)" for m
    by (simp add: u_def drop_slot_def Let_def n)
  moreover have "idx (tm_nodes u (tm_heap u ! j)) = j" if j: "j < length (tm_heap t) - 1" for j
  proof (cases "j = i")
    case True
    then show ?thesis unfolding dh(2) [OF j]
      using i by (simp add: u_def drop_slot_def Let_def)
  next
    case False
    have "tm_heap t ! j \<noteq> last (tm_heap t)"
      using d j i by (subst last_conv_nth) (auto simp: nth_eq_iff_index_eq)
    moreover have "tm_heap t ! j \<noteq> n" using d j i False by (simp add: n nth_eq_iff_index_eq)
    ultimately show ?thesis unfolding dh(2) [OF j] using False coh i j
      by (simp add: u_def drop_slot_def Let_def coherent_def n)
  qed
  ultimately show ?thesis using coh by (auto simp: coherent_def dh(1))
qed

lemma drop_ordered:
  fixes t i n
  defines "u \<equiv> drop_slot i t"
  assumes ok: "timers_ok t" and i: "i < length (tm_heap t)" and n: "n = tm_heap t ! i"
  shows "ordered_ex i u"
proof -
  note dh = drop_heap [OF ok i n, folded u_def]
  have ord: "key t (par j) \<le> key t j" if "j < length (tm_heap t)" "0 < j" for j
    using ok that by (simp add: timers_ok_def ordered_def)
  have dl: "deadline_ns (tm_nodes u m) = deadline_ns (tm_nodes t m)" for m
    by (simp add: u_def drop_slot_def Let_def)
  have k: "key u j = key t j" if "j < length (tm_heap t) - 1" "j \<noteq> i" for j
    using dh(2) [OF that(1)] that(2) by (simp add: key_def dl)
  have "key u (par j) \<le> key u j" if "j < length (tm_heap t) - 1" "0 < j" "j \<noteq> i" "par j \<noteq> i" for j
    using ord [of j] k [of j] k [of "par j"] that par_less [OF that(2)] by simp
  moreover have "key u (par i) \<le> key u c"
    if "c < length (tm_heap t) - 1" "0 < c" "par c = i" "0 < i" for c
  proof -
    have "key t (par i) \<le> key t i" "key t i \<le> key t c" using ord [of i] ord [of c] that i by simp_all
    moreover have "key u c = key t c" "key u (par i) = key t (par i)"
      using k [of c] k [of "par i"] that par_less [OF that(2)] par_less [OF that(4)] by simp_all
    ultimately show ?thesis by linarith
  qed
  ultimately show ?thesis by (simp add: ordered_ex_def dh(1))
qed

lemma sift_both:
  assumes "coherent u" "ordered_ex i u" "i < length (tm_heap u)" "sift_down i u = (v, j)"
  shows "timers_ok (fst (sift_up j v))" "mset (tm_heap (fst (sift_up j v))) = mset (tm_heap u)"
    "plain (fst (sift_up j v)) = plain u"
proof -
  obtain w l where w: "sift_up j v = (w, l)" by fastforce
  have d: "loop_keeps u i v j" using coherent_at_weaken [OF assms(1)] assms(3,4) by (rule sift_down_keeps)
  have o: "ordered_up j v" using sift_down_ordered [OF assms(2-4)] by simp
  have j: "j < length (tm_heap v)" "coherent_at j v" "coherent v" using d assms(1) by (auto simp: loop_keeps_def)
  have k: "loop_keeps v j w l" using j(2,1) w by (rule sift_up_keeps)
  have "ordered w" using o j(1) w by (rule sift_up_ordered)
  moreover have "coherent w" using k j(3) by (simp add: loop_keeps_def)
  ultimately show "timers_ok (fst (sift_up j v))" by (simp add: w timers_ok_def)
  show "mset (tm_heap (fst (sift_up j v))) = mset (tm_heap u)" "plain (fst (sift_up j v)) = plain u"
    using d k by (simp_all add: w loop_keeps_def)
qed

lemma heap_remove_works:
  assumes "timers_ok t" "n \<in> set (tm_heap t)"
  shows "timers_ok (heap_remove n t)" "add_mset n (mset (tm_heap (heap_remove n t))) = mset (tm_heap t)"
    "plain (heap_remove n t) = (plain t)(n := (plain t n)\<lparr>in_heap := False\<rparr>)"
proof -
  obtain i where i: "i < length (tm_heap t)" "n = tm_heap t ! i" using assms(2) by (metis in_set_conv_nth)
  have idx: "idx (tm_nodes t n) = i" using assms(1) i by (simp add: timers_ok_def coherent_def)
  define u where "u = drop_slot i t"
  note f = drop_mset [OF assms(1) i] drop_nodes [OF assms(1) i] drop_coherent [OF assms(1) i]
    drop_ordered [OF assms(1) i] drop_heap [OF assms(1) i]
  obtain v j where v: "sift_down i u = (v, j)" by fastforce
  have r: "heap_remove n t = (if i < length (tm_heap u) then fst (sift_up j v) else u)"
    using idx v i by (simp add: heap_remove_def u_def drop_slot_def Let_def)
  have "timers_ok (heap_remove n t) \<and> add_mset n (mset (tm_heap (heap_remove n t))) = mset (tm_heap t) \<and>
    plain (heap_remove n t) = (plain t)(n := (plain t n)\<lparr>in_heap := False\<rparr>)"
  proof (cases "i < length (tm_heap u)")
    case True
    show ?thesis using sift_both [OF _ _ True v] f True r by (simp add: u_def [symmetric])
  next
    case False
    have "par j \<noteq> i" if "j < length (tm_heap u)" "0 < j" for j
      using par_less [OF that(2)] that(1) False by linarith
    then have "ordered u" using f(4) False unfolding u_def [symmetric] ordered_ex_def ordered_def
      by (metis linorder_neqE_nat)
    then show ?thesis using f False r by (simp add: u_def [symmetric] timers_ok_def)
  qed
  then show "timers_ok (heap_remove n t)" "add_mset n (mset (tm_heap (heap_remove n t))) = mset (tm_heap t)"
    "plain (heap_remove n t) = (plain t)(n := (plain t n)\<lparr>in_heap := False\<rparr>)" by simp_all
qed


lemma heap_pop_eq:
  assumes "tm_heap t \<noteq> []"
  shows "heap_pop t = fst (sift_down 0 (drop_slot 0 t))"
proof -
  have "tm_heap t ! 0 = hd (tm_heap t)" using assms by (simp add: hd_conv_nth)
  then show ?thesis unfolding heap_pop_def drop_slot_def Let_def using assms
    by (cases t) (auto simp: set_idx_def upd_node_def fun_eq_iff intro!: arg_cong [where f = "\<lambda>t. fst (sift_down 0 t)"])
qed

lemma heap_pop_works:
  assumes "timers_ok t" "tm_heap t \<noteq> []"
  shows "timers_ok (heap_pop t)" "add_mset (hd (tm_heap t)) (mset (tm_heap (heap_pop t))) = mset (tm_heap t)"
    "plain (heap_pop t) = (plain t)(hd (tm_heap t) := (plain t (hd (tm_heap t)))\<lparr>in_heap := False\<rparr>)"
proof -
  have i: "0 < length (tm_heap t)" "hd (tm_heap t) = tm_heap t ! 0" using assms(2) by (auto simp: hd_conv_nth)
  define u where "u = drop_slot 0 t"
  note f = drop_mset [OF assms(1) i] drop_nodes [OF assms(1) i] drop_coherent [OF assms(1) i]
    drop_ordered [OF assms(1) i] drop_heap [OF assms(1) i]
  obtain v j where v: "sift_down 0 u = (v, j)" by fastforce
  have r: "heap_pop t = v" using heap_pop_eq [OF assms(2)] v by (simp add: u_def)
  have "timers_ok v \<and> mset (tm_heap v) = mset (tm_heap u) \<and> plain v = plain u"
  proof (cases "tm_heap u = []")
    case True
    then have "v = u" using v by (simp add: sift_down_stop best_child_def)
    then show ?thesis using True f(3) by (simp add: timers_ok_def ordered_def u_def)
  next
    case False
    then have l: "0 < length (tm_heap u)" by simp
    have k: "loop_keeps u 0 v j"
      using coherent_at_weaken [OF f(3), folded u_def] l v by (rule sift_down_keeps)
    have o: "ordered_up j v \<and> (j = 0 \<and> v = u \<or> 0 < j \<and> key v (par j) \<le> key v j)"
      using f(4) l v unfolding u_def [symmetric] by (rule sift_down_ordered)
    then have "ordered v" unfolding ordered_def ordered_up_def by blast
    then show ?thesis using k f(3) by (simp add: loop_keeps_def timers_ok_def u_def)
  qed
  then show "timers_ok (heap_pop t)" "add_mset (hd (tm_heap t)) (mset (tm_heap (heap_pop t))) = mset (tm_heap t)"
    "plain (heap_pop t) = (plain t)(hd (tm_heap t) := (plain t (hd (tm_heap t)))\<lparr>in_heap := False\<rparr>)"
    using f(1,2) by (simp_all add: r u_def)
qed

section \<open>The heap as a timer queue\<close>

text \<open>
  What the scheduler asks of a timer queue: which nodes wait for which deadline, adding one,
  removing any one, and an earliest one to pop.
\<close>

locale timer_queue =
  fixes ok :: "'q \<Rightarrow> bool"
    and contents :: "'q \<Rightarrow> nat \<Rightarrow> int option"
    and deadline :: "'q \<Rightarrow> nat \<Rightarrow> int"
    and push :: "nat \<Rightarrow> 'q \<Rightarrow> 'q option"
    and remove :: "nat \<Rightarrow> 'q \<Rightarrow> 'q"
    and front :: "'q \<Rightarrow> nat option"
    and pop :: "'q \<Rightarrow> 'q"
  assumes push_new: "ok q \<Longrightarrow> contents q n = None \<Longrightarrow>
      \<exists>r. push n q = Some r \<and> ok r \<and> contents r = (contents q)(n \<mapsto> deadline q n)"
    and push_old: "ok q \<Longrightarrow> contents q n \<noteq> None \<Longrightarrow> push n q = None"
    and remove: "ok q \<Longrightarrow> contents q n \<noteq> None \<Longrightarrow>
      ok (remove n q) \<and> contents (remove n q) = (contents q)(n := None)"
    and front_none: "ok q \<Longrightarrow> front q = None \<longleftrightarrow> contents q = Map.empty"
    and front_least: "ok q \<Longrightarrow> front q = Some n \<Longrightarrow>
      \<exists>d. contents q n = Some d \<and> (\<forall>m e. contents q m = Some e \<longrightarrow> d \<le> e)"
    and pop: "ok q \<Longrightarrow> front q = Some n \<Longrightarrow> ok (pop q) \<and> contents (pop q) = (contents q)(n := None)"
    and finite_contents: "ok q \<Longrightarrow> finite (dom (contents q))"
begin

text \<open>When the front is not due, nothing is; popping a due front leaves one due node less.\<close>

lemma front_not_due:
  "ok q \<Longrightarrow> front q = Some n \<Longrightarrow> contents q n = Some d \<Longrightarrow> now < d \<Longrightarrow> contents q m = Some e \<Longrightarrow> now < e"
  using front_least by fastforce

lemma finite_due: "ok q \<Longrightarrow> finite {m. \<exists>e \<le> now. contents q m = Some e}"
  by (erule rev_finite_subset [OF finite_contents]) auto

lemma pop_due:
  assumes "ok q" "front q = Some n" "contents q n = Some d" "d \<le> now"
  shows "Suc (card {m. \<exists>e \<le> now. contents (pop q) m = Some e}) = card {m. \<exists>e \<le> now. contents q m = Some e}"
proof -
  have "{m. \<exists>e \<le> now. contents (pop q) m = Some e} = {m. \<exists>e \<le> now. contents q m = Some e} - {n}"
    using pop [OF assms(1,2)] by auto
  moreover have "n \<in> {m. \<exists>e \<le> now. contents q m = Some e}" using assms by blast
  ultimately show ?thesis using card.remove [OF finite_due [OF assms(1)], of n now] by argo
qed

end

definition contents :: "timers \<Rightarrow> nat \<Rightarrow> int option" where
  "contents t n = (if in_heap (tm_nodes t n) then Some (deadline_ns (tm_nodes t n)) else None)"

definition front :: "timers \<Rightarrow> nat option" where
  "front t = (if tm_heap t = [] then None else Some (hd (tm_heap t)))"

lemma contents_plain: "contents t n = (if in_heap (plain t n) then Some (deadline_ns (plain t n)) else None)"
  by (simp add: contents_def plain_def)

lemma contents_in_heap: "timers_ok t \<Longrightarrow> contents t n \<noteq> None \<longleftrightarrow> n \<in> set (tm_heap t)"
  by (simp add: contents_def timers_ok_def coherent_def)

lemma contents_none: "timers_ok t \<Longrightarrow> contents t n = None \<longleftrightarrow> n \<notin> set (tm_heap t)"
  using contents_in_heap by blast

lemma contents_nth: "timers_ok t \<Longrightarrow> i < length (tm_heap t) \<Longrightarrow> contents t (tm_heap t ! i) = Some (key t i)"
  by (simp add: contents_def key_def timers_ok_def coherent_def)

lemma front_some: "front t = Some n \<longleftrightarrow> tm_heap t \<noteq> [] \<and> n = tm_heap t ! 0"
  by (auto simp: front_def hd_conv_nth)

interpretation tq: timer_queue timers_ok contents "\<lambda>t n. deadline_ns (tm_nodes t n)" heap_push heap_remove front heap_pop
proof
  fix t :: timers and n assume t: "timers_ok t"
  show "\<exists>u. heap_push n t = Some u \<and> timers_ok u \<and> contents u = (contents t)(n \<mapsto> deadline_ns (tm_nodes t n))"
    if "contents t n = None"
  proof -
    have "n \<notin> set (tm_heap t)" using that contents_none [OF t] by blast
    then obtain u where u: "heap_push n t = Some u" "timers_ok u"
      "plain u = (plain t)(n := (plain t n)\<lparr>in_heap := True\<rparr>)"
      by (rule heap_push_works [OF t])
    then have "contents u = (contents t)(n \<mapsto> deadline_ns (tm_nodes t n))"
      by (intro ext) (simp add: contents_plain plain_def)
    with u show ?thesis by blast
  qed
  show "heap_push n t = None" if "contents t n \<noteq> None"
    using that by (simp add: contents_def heap_push_def split: if_splits)
  show "timers_ok (heap_remove n t) \<and> contents (heap_remove n t) = (contents t)(n := None)" if "contents t n \<noteq> None"
    using heap_remove_works [OF t, of n] that contents_in_heap [OF t, of n]
    by (simp add: contents_plain fun_eq_iff)
  show "front t = None \<longleftrightarrow> contents t = Map.empty"
    using contents_none [OF t] by (auto simp: front_def fun_eq_iff)
  show "\<exists>d. contents t n = Some d \<and> (\<forall>m e. contents t m = Some e \<longrightarrow> d \<le> e)" if f: "front t = Some n"
  proof (intro exI [of _ "key t 0"] conjI allI impI)
    show "contents t n = Some (key t 0)" using contents_nth [OF t, of 0] f by (auto simp: front_some)
    fix m e assume m: "contents t m = Some e"
    then obtain i where i: "i < length (tm_heap t)" "m = tm_heap t ! i"
      using contents_in_heap [OF t, of m] by (auto simp: in_set_conv_nth)
    then show "key t 0 \<le> e" using m contents_nth [OF t i(1)] ordered_hd_least [of t i] t by (simp add: timers_ok_def)
  qed
  show "timers_ok (heap_pop t) \<and> contents (heap_pop t) = (contents t)(n := None)" if f: "front t = Some n"
    using heap_pop_works [OF t] f by (simp add: front_some contents_plain hd_conv_nth fun_eq_iff)
  have "dom (contents t) = set (tm_heap t)" using contents_in_heap [OF t] by auto
  then show "finite (dom (contents t))" by simp
qed

section \<open>Refinement of the queue\<close>

datatype heap_op = HSleep nat int | HLeave nat | HFire

text \<open>
  The uses of the heap: a sleeper with a free slot enters with its deadline, a sleeper leaves
  (\<open>timer_remove\<close> does nothing when it is not in the heap), the front is popped.
\<close>

fun do_heap :: "heap_op \<Rightarrow> timers \<Rightarrow> timers option" where
  "do_heap (HSleep n d) t =
     (if in_heap (tm_nodes t n) then None else heap_push n (upd_node n (deadline_ns_update (\<lambda>_. d)) t))"
| "do_heap (HLeave n) t = Some (if in_heap (tm_nodes t n) then heap_remove n t else t)"
| "do_heap HFire t = Some (if tm_heap t = [] then t else heap_pop t)"

fun do_heap_ops :: "heap_op list \<Rightarrow> timers \<Rightarrow> timers option" where
  "do_heap_ops [] t = Some t"
| "do_heap_ops (x # xs) t = (case do_heap x t of None \<Rightarrow> None | Some u \<Rightarrow> do_heap_ops xs u)"

text \<open>The abstract queue: which node waits for which deadline.\<close>

fun queue_step :: "heap_op \<Rightarrow> (nat \<Rightarrow> int option) \<Rightarrow> (nat \<Rightarrow> int option) \<Rightarrow> bool" where
  "queue_step (HSleep n d) m m' \<longleftrightarrow> m n = None \<and> m' = m(n \<mapsto> d)"
| "queue_step (HLeave n) m m' \<longleftrightarrow> m' = m(n := None)"
| "queue_step HFire m m' \<longleftrightarrow>
     m = Map.empty \<and> m' = m \<or>
     (\<exists>n d. m n = Some d \<and> (\<forall>k e. m k = Some e \<longrightarrow> d \<le> e) \<and> m' = m(n := None))"

lemma mk_timers_ok: "timers_ok mk_timers"
  by (simp add: mk_timers_def timers_ok_def coherent_def ordered_def mk_tnode_def)

lemma set_deadline_ok:
  assumes "timers_ok t" "\<not> in_heap (tm_nodes t n)"
  shows "timers_ok (upd_node n (deadline_ns_update (\<lambda>_. d)) t)"
    "contents (upd_node n (deadline_ns_update (\<lambda>_. d)) t) = contents t"
proof -
  let ?u = "upd_node n (deadline_ns_update (\<lambda>_. d)) t"
  have "key ?u i = key t i" if "i < length (tm_heap t)" for i
    using assms that by (auto simp: key_def timers_ok_def coherent_def)
  then have "ordered ?u" using assms(1) par_less
    by (simp add: timers_ok_def ordered_def) (metis order.strict_trans)
  moreover have "coherent ?u" using assms(1) by (auto simp: timers_ok_def coherent_def)
  ultimately show "timers_ok ?u" by (simp add: timers_ok_def)
  show "contents ?u = contents t" using assms(2) by (auto simp: contents_def)
qed

lemma do_heap_refines:
  assumes "timers_ok t" "do_heap x t = Some u"
  shows "timers_ok u \<and> queue_step x (contents t) (contents u)"
proof (cases x)
  case (HSleep n d)
  let ?t = "upd_node n (deadline_ns_update (\<lambda>_. d)) t"
  have h: "\<not> in_heap (tm_nodes t n)" and p: "heap_push n ?t = Some u"
    using assms(2) HSleep by (simp_all split: if_splits)
  have "contents ?t n = None" using h by (simp add: contents_def)
  from tq.push_new [OF set_deadline_ok(1) [OF assms(1) h] this] p
  show ?thesis using set_deadline_ok(2) [OF assms(1) h] h by (simp add: HSleep contents_def)
next
  case (HLeave n)
  then show ?thesis using assms tq.remove [OF assms(1), of n] by (cases "in_heap (tm_nodes t n)") (auto simp: contents_def)
next
  case HFire
  show ?thesis
  proof (cases "tm_heap t = []")
    case True
    then have "contents t = Map.empty" using tq.front_none [OF assms(1)] by (simp add: front_def)
    then show ?thesis using assms True by (simp add: HFire)
  next
    case False
    then have f: "front t = Some (hd (tm_heap t))" by (simp add: front_def)
    show ?thesis using tq.front_least [OF assms(1) f] tq.pop [OF assms(1) f] assms(2) False
      by (simp add: HFire) blast
  qed
qed

lemma do_heap_ops_ok: "timers_ok t \<Longrightarrow> do_heap_ops xs t = Some u \<Longrightarrow> timers_ok u"
  by (induction xs arbitrary: t) (auto split: option.splits dest: do_heap_refines)

text \<open>C6: The timer heap with its position bookkeeping behaves as a map from sleepers to deadlines from which an arbitrary sleeper can leave and of which an earliest one is popped, after every sequence of operations.\<close>

theorem timer_heap_refines:
  assumes "do_heap_ops xs mk_timers = Some t" and "do_heap x t = Some u"
  shows "queue_step x (contents t) (contents u)"
  using do_heap_refines [OF do_heap_ops_ok [OF mk_timers_ok assms(1)] assms(2)] by simp

lemma timer_heap_refines_witness:
  "\<exists>t u. do_heap_ops [HSleep 1 30, HSleep 2 10, HSleep 3 20, HSleep 4 5, HLeave 2] mk_timers = Some t \<and>
     tm_heap t = [4, 1, 3] \<and> do_heap HFire t = Some u \<and> queue_step HFire (contents t) (contents u)"
proof -
  obtain t u where t: "do_heap_ops [HSleep 1 30, HSleep 2 10, HSleep 3 20, HSleep 4 5, HLeave 2] mk_timers = Some t"
    "tm_heap t = [4, 1, 3]" "do_heap HFire t = Some u"
    by (simp add: mk_timers_def mk_tnode_def heap_push_def heap_remove_def heap_pop_def sift_up.simps sift_down.simps
        best_child_def swap_slots_def set_idx_def upd_node_def key_def par_def Let_def)
  then show ?thesis using timer_heap_refines [OF t(1,3)] by blast
qed

end
