(* ===== verification/Uco_Timeout.thy ===== *)
theory Uco_Timeout
  imports Uco_Timer
begin

text \<open>
  The timers of one scheduler thread (\<open>core/uco.cpp\<close>): \<open>timer_refresh\<close> keeps one request for the
  earliest deadline with the kernel, \<open>timer_on_fire\<close> wakes everybody who is due, and
  \<open>usleeper\<close> (\<open>core/usync.cpp\<close>, \<open>core/usync.h\<close>) puts coroutines to sleep on top of them. The
  kernel is a parameter: it completes each timeout request exactly once, when it has been
  cancelled or when its time has passed. \<open>te_reqs\<close> and \<open>te_cancels\<close> are those open requests,
  \<open>te_now\<close> is the monotonic clock, and \<open>te_log\<close> records of each sleep that ended the sleeper,
  the result, the deadline and the time.
\<close>

section \<open>State\<close>

datatype sqe = SqCancel "64 word" | SqTimeout "64 word"

text \<open>
  A timeout request: its \<open>user_data\<close>, the deadline it is for, the time it was prepared, when and
  with which duration the kernel saw it, and whether a cancellation has been prepared after it.
\<close>

record timeout_req =
  rq_ud :: "64 word"
  rq_deadline :: int
  rq_at :: int
  rq_sub :: "(int \<times> int) option"
  rq_cancelled :: bool

datatype sleep_result = SleepExpired | SleepWoken | SleepBusy

record timer_env =
  te_timers :: timers
  te_sq :: "sqe list"
  te_cap :: nat
  te_no_sqe :: bool
  te_io :: int
  te_ts :: int
  te_gen :: "64 word"
  te_inflight :: int
  te_armed_deadline :: int
  te_armed_ud :: "64 word"
  te_arm_pending :: bool
  te_pending_wakes :: "nat \<Rightarrow> nat"
  te_posted :: "nat list"
  te_reqs :: "timeout_req list"
  te_cancels :: nat
  te_now :: int
  te_log :: "(nat \<times> sleep_result \<times> int \<times> int) list"

definition mk_timer_env :: "nat \<Rightarrow> int \<Rightarrow> timer_env" where
  "mk_timer_env cap now =
     \<lparr>te_timers = mk_timers, te_sq = [], te_cap = cap, te_no_sqe = False, te_io = 0, te_ts = 0,
      te_gen = 0, te_inflight = 0, te_armed_deadline = 0, te_armed_ud = 0, te_arm_pending = False,
      te_pending_wakes = \<lambda>_. 0, te_posted = [], te_reqs = [], te_cancels = 0, te_now = now,
      te_log = []\<rparr>"

abbreviation heap_of :: "timer_env \<Rightarrow> nat list" where
  "heap_of e \<equiv> tm_heap (te_timers e)"

abbreviation node :: "timer_env \<Rightarrow> nat \<Rightarrow> tnode" where
  "node e n \<equiv> tm_nodes (te_timers e) n"

section \<open>The timeout request\<close>

text \<open>\<open>get_sqe\<close>: \<open>io_uring_get_sqe\<close> gives no entry while the submission queue is full.\<close>

definition get_sqe :: "timer_env \<Rightarrow> timer_env \<times> bool" where
  "get_sqe e =
     (if te_cap e \<le> length (te_sq e) then (e\<lparr>te_no_sqe := True\<rparr>, False)
      else (e\<lparr>te_no_sqe := False, te_io := te_io e + 1\<rparr>, True))"

definition prep_cancel :: "64 word \<Rightarrow> timer_env \<Rightarrow> timer_env" where
  "prep_cancel ud e =
     e\<lparr>te_sq := te_sq e @ [SqCancel ud], te_cancels := Suc (te_cancels e),
       te_reqs := map (\<lambda>r. if rq_ud r = ud then r\<lparr>rq_cancelled := True\<rparr> else r) (te_reqs e)\<rparr>"

definition prep_timeout :: "64 word \<Rightarrow> int \<Rightarrow> timer_env \<Rightarrow> timer_env" where
  "prep_timeout ud dl e =
     e\<lparr>te_sq := te_sq e @ [SqTimeout ud],
       te_reqs := te_reqs e @ [\<lparr>rq_ud = ud, rq_deadline = dl, rq_at = te_now e, rq_sub = None, rq_cancelled = False\<rparr>]\<rparr>"

definition timer_user_data :: "64 word \<Rightarrow> 64 word" where
  "timer_user_data gen = push_bit 8 gen OR 2"

definition timer_refresh :: "timer_env \<Rightarrow> timer_env" where
  "timer_refresh e =
     (if heap_of e = [] then
        if te_inflight e > 0 then
          (let (e1, ok) = get_sqe e
           in if \<not> ok then e1\<lparr>te_arm_pending := True\<rparr>
              else (prep_cancel (te_armed_ud e1) e1)\<lparr>te_arm_pending := False\<rparr>)
        else e\<lparr>te_arm_pending := False\<rparr>
      else
        let front_ns = key (te_timers e) 0
        in if te_inflight e > 0 \<and> front_ns \<ge> te_armed_deadline e \<and> \<not> te_arm_pending e then e
           else
             let e1 = (if te_inflight e > 0
                       then (let (e0, ok) = get_sqe e in if ok then prep_cancel (te_armed_ud e0) e0 else e0)
                       else e);
                 (e2, ok) = get_sqe e1
             in if \<not> ok then e2\<lparr>te_arm_pending := True\<rparr>
                else let remain = (if front_ns - te_now e2 < 0 then 0 else front_ns - te_now e2);
                         gen = te_gen e2 + 1; ud = timer_user_data gen
                     in (prep_timeout ud front_ns (e2\<lparr>te_ts := remain, te_gen := gen\<rparr>))
                          \<lparr>te_armed_ud := ud, te_armed_deadline := front_ns, te_inflight := te_inflight e2 + 1,
                           te_arm_pending := False\<rparr>)"

definition timer_active :: "timer_env \<Rightarrow> bool" where
  "timer_active e \<longleftrightarrow> heap_of e \<noteq> [] \<or> te_inflight e > 0 \<or> te_arm_pending e"

text \<open>\<open>timer_push\<close> and \<open>timer_remove\<close> with their call of \<open>timer_refresh\<close>.\<close>

definition timer_push :: "nat \<Rightarrow> timer_env \<Rightarrow> timer_env option" where
  "timer_push n e =
     map_option (\<lambda>t. timer_refresh (e\<lparr>te_timers := t\<rparr>)) (heap_push n (te_timers e))"

definition timer_remove :: "nat \<Rightarrow> timer_env \<Rightarrow> timer_env" where
  "timer_remove n e =
     (if \<not> in_heap (node e n) then e
      else timer_refresh (e\<lparr>te_timers := heap_remove n (te_timers e)\<rparr>))"

definition set_node :: "nat \<Rightarrow> (tnode \<Rightarrow> tnode) \<Rightarrow> timer_env \<Rightarrow> timer_env" where
  "set_node n f e = e\<lparr>te_timers := upd_node n f (te_timers e)\<rparr>"

section \<open>Sleeping\<close>

definition log_result :: "nat \<Rightarrow> sleep_result \<Rightarrow> int \<Rightarrow> timer_env \<Rightarrow> timer_env" where
  "log_result n r d e = e\<lparr>te_log := te_log e @ [(n, r, d, te_now e)]\<rparr>"

text \<open>
  \<open>usleeper_raw_sleep\<close> up to the point where coroutine \<open>c\<close> is suspended: refused while the slot
  of sleeper \<open>n\<close> is taken, otherwise registered. \<open>None\<close> is the fatal check of \<open>timer_push\<close>. The
  deadline is assumed to fit the 64 bits that the code gives it: 292 years after the clock's start.
\<close>

definition usleeper_raw_sleep :: "nat \<Rightarrow> nat \<Rightarrow> int \<Rightarrow> timer_env \<Rightarrow> timer_env option" where
  "usleeper_raw_sleep n c ns e =
     (if st (node e n) \<noteq> IDLE then Some (log_result n SleepBusy (te_now e + ns) e)
      else timer_push n
             (set_node n (\<lambda>x. x\<lparr>st := PARKED, prom := Some c, deadline_ns := te_now e + ns\<rparr>) e))"

definition sleep_for :: "nat \<Rightarrow> nat \<Rightarrow> int \<Rightarrow> timer_env \<Rightarrow> timer_env option" where
  "sleep_for n c ns e =
     (let pending = te_pending_wakes e n; e1 = e\<lparr>te_pending_wakes := (te_pending_wakes e)(n := 0)\<rparr>
      in if pending > 0 then Some (log_result n SleepWoken (te_now e + ns) e1)
         else if ns \<le> 0 then Some (log_result n SleepExpired (te_now e + ns) e1)
         else usleeper_raw_sleep n c ns e1)"

definition sleep_until :: "nat \<Rightarrow> nat \<Rightarrow> int \<Rightarrow> timer_env \<Rightarrow> timer_env option" where
  "sleep_until n c tp e =
     (if te_now e \<ge> tp then Some (log_result n SleepExpired tp e) else sleep_for n c (tp - te_now e) e)"

text \<open>\<open>await_resume\<close>: what a sleeper does first when it runs again.\<close>

definition sleep_resume :: "nat \<Rightarrow> timer_env \<Rightarrow> timer_env" where
  "sleep_resume n e =
     (let s = st (node e n)
      in log_result n (if s = EXPIRED then SleepExpired else SleepWoken) (deadline_ns (node e n))
           (set_node n (\<lambda>x. x\<lparr>prom := None, st := IDLE\<rparr>) (timer_remove n e)))"

text \<open>\<open>wake\<close>: the winner posts the coroutine to its thread, otherwise the call is remembered.\<close>

definition wake :: "nat \<Rightarrow> timer_env \<Rightarrow> timer_env" where
  "wake n e =
     (if st (node e n) = PARKED
      then (set_node n (\<lambda>x. x\<lparr>st := WOKEN\<rparr>) e)\<lparr>te_posted := n # te_posted e\<rparr>
      else e\<lparr>te_pending_wakes := (te_pending_wakes e)(n := Suc (te_pending_wakes e n))\<rparr>)"

section \<open>Firing\<close>

text \<open>
  What a coroutine of the thread does with timers while it runs: it may sleep (and is then
  suspended) or wake another sleeper; the clock advances in between.
\<close>

datatype tact = ASleep nat nat int | AUntil nat nat int | AWake nat

fun do_act :: "tact \<Rightarrow> timer_env \<Rightarrow> timer_env option" where
  "do_act (ASleep n c ns) e = sleep_for n c ns e"
| "do_act (AUntil n c tp) e = sleep_until n c tp e"
| "do_act (AWake n) e = Some (wake n e)"

fun do_acts :: "(nat \<times> tact) list \<Rightarrow> timer_env \<Rightarrow> timer_env option" where
  "do_acts [] e = Some e"
| "do_acts ((dt, a) # as) e =
     (case do_act a (e\<lparr>te_now := te_now e + int dt\<rparr>) of None \<Rightarrow> None | Some e1 \<Rightarrow> do_acts as e1)"

text \<open>
  The loop of \<open>timer_on_fire\<close>: \<open>beh c\<close> is what coroutine \<open>c\<close> does between its resumption and its
  next suspension. \<open>None\<close>: out of fuel, or a fatal check.
\<close>

fun fire_loop :: "nat \<Rightarrow> (nat \<Rightarrow> (nat \<times> tact) list) \<Rightarrow> int \<Rightarrow> timer_env \<Rightarrow> timer_env option" where
  "fire_loop 0 beh now e = None"
| "fire_loop (Suc k) beh now e =
     (if heap_of e \<noteq> [] \<and> key (te_timers e) 0 \<le> now then
        let n = hd (heap_of e);
            e1 = e\<lparr>te_timers := heap_pop (te_timers e)\<rparr>
        in if st (node e1 n) = PARKED then
             (let c = prom (node e1 n);
                  e2 = sleep_resume n (set_node n (\<lambda>x. x\<lparr>st := EXPIRED\<rparr>) e1)
              in case do_acts (case c of None \<Rightarrow> [] | Some c \<Rightarrow> beh c) e2 of
                   None \<Rightarrow> None | Some e3 \<Rightarrow> fire_loop k beh now e3)
           else fire_loop k beh now e1
      else Some e)"

definition timer_on_fire :: "(nat \<Rightarrow> (nat \<times> tact) list) \<Rightarrow> timer_env \<Rightarrow> timer_env option" where
  "timer_on_fire beh e =
     map_option timer_refresh (fire_loop (Suc (length (heap_of e))) beh (te_now e) e)"

section \<open>Steps of the thread\<close>

definition ring_submit :: "timer_env \<Rightarrow> timer_env" where
  "ring_submit e =
     e\<lparr>te_sq := [],
       te_reqs := map (\<lambda>r. if rq_sub r = None then r\<lparr>rq_sub := Some (te_now e, te_ts e)\<rparr> else r) (te_reqs e)\<rparr>"

text \<open>The kernel may complete a request it has seen once it is cancelled or its time has passed.\<close>

definition completable :: "timer_env \<Rightarrow> timeout_req \<Rightarrow> bool" where
  "completable e r \<longleftrightarrow>
     (case rq_sub r of None \<Rightarrow> False | Some (s, d) \<Rightarrow> rq_cancelled r \<or> s + d \<le> te_now e)"

datatype tevent =
  EvAct tact | EvPosted | EvSubmit | EvTimeout nat | EvCancelDone | EvRetry

definition te_step :: "(nat \<Rightarrow> (nat \<times> tact) list) \<Rightarrow> tevent \<Rightarrow> timer_env \<Rightarrow> timer_env option" where
  "te_step beh ev e =
     (case ev of
        EvAct a \<Rightarrow> do_act a e
      | EvPosted \<Rightarrow>
          (case te_posted e of [] \<Rightarrow> Some e
           | n # ns \<Rightarrow>
               do_acts (case prom (node e n) of None \<Rightarrow> [] | Some c \<Rightarrow> beh c)
                 (sleep_resume n (e\<lparr>te_posted := ns\<rparr>)))
      | EvSubmit \<Rightarrow> Some (ring_submit e)
      | EvTimeout i \<Rightarrow>
          (if i < length (te_reqs e) \<and> completable e (te_reqs e ! i)
           then timer_on_fire beh
                  (e\<lparr>te_reqs := take i (te_reqs e) @ drop (Suc i) (te_reqs e), te_io := te_io e - 1,
                     te_inflight := te_inflight e - 1\<rparr>)
           else Some e)
      | EvCancelDone \<Rightarrow>
          Some (if te_cancels e > 0 then e\<lparr>te_cancels := te_cancels e - 1, te_io := te_io e - 1\<rparr> else e)
      | EvRetry \<Rightarrow> Some (if te_arm_pending e then timer_refresh e else e))"

text \<open>A run: each event happens some time after the one before.\<close>

fun te_run :: "(nat \<Rightarrow> (nat \<times> tact) list) \<Rightarrow> (nat \<times> tevent) list \<Rightarrow> timer_env \<Rightarrow> timer_env option" where
  "te_run beh [] e = Some e"
| "te_run beh ((dt, ev) # evs) e =
     (case te_step beh ev (e\<lparr>te_now := te_now e + int dt\<rparr>) of
        None \<Rightarrow> None | Some e1 \<Rightarrow> te_run beh evs e1)"

section \<open>Invariants\<close>

text \<open>The heap and the sleepers: who is parked is in the heap, who is woken is posted.\<close>

definition sleeper_fine :: "bool \<Rightarrow> tnode \<Rightarrow> bool" where
  "sleeper_fine posted x \<longleftrightarrow>
     (st x = PARKED \<longrightarrow> in_heap x) \<and> (in_heap x \<longrightarrow> st x \<noteq> IDLE) \<and> (st x = WOKEN \<longleftrightarrow> posted) \<and>
     (st x \<noteq> IDLE \<longleftrightarrow> prom x \<noteq> None) \<and> st x \<noteq> REGISTERING \<and> st x \<noteq> EXPIRED"

definition sleepers_ok :: "timer_env \<Rightarrow> bool" where
  "sleepers_ok e \<longleftrightarrow>
     timers_ok (te_timers e) \<and> distinct (te_posted e) \<and>
     (\<forall>n. sleeper_fine (n \<in> set (te_posted e)) (node e n))"

text \<open>
  The requests: the counters agree with what is open, and a request that was not cancelled is the
  armed one and has (or will get from \<open>te_ts\<close>) the duration it was prepared with.
\<close>

definition live_req :: "timer_env \<Rightarrow> timeout_req \<Rightarrow> bool" where
  "live_req e r \<longleftrightarrow>
     rq_ud r = te_armed_ud e \<and> rq_deadline r = te_armed_deadline e \<and> rq_at r \<le> te_now e \<and>
     (rq_sub r = None \<longrightarrow> te_ts e = max 0 (rq_deadline r - rq_at r)) \<and>
     (\<forall>s d. rq_sub r = Some (s, d) \<longrightarrow> d = max 0 (rq_deadline r - rq_at r) \<and> rq_at r \<le> s)"

definition reqs_ok :: "timer_env \<Rightarrow> bool" where
  "reqs_ok e \<longleftrightarrow>
     te_inflight e = int (length (te_reqs e)) \<and>
     te_io e = int (length (te_reqs e)) + int (te_cancels e) \<and>
     (\<forall>r \<in> set (te_reqs e). rq_cancelled r \<or> live_req e r)"

text \<open>
  What \<open>timer_refresh\<close> establishes: some request will complete no later than the front of the
  heap needs it, and when nobody sleeps no request is left running.
\<close>

definition armed :: "timer_env \<Rightarrow> bool" where
  "armed e \<longleftrightarrow>
     (heap_of e \<noteq> [] \<longrightarrow> te_arm_pending e \<or>
        (\<exists>r \<in> set (te_reqs e). rq_cancelled r \<or> rq_deadline r \<le> key (te_timers e) 0)) \<and>
     (heap_of e = [] \<longrightarrow> te_arm_pending e \<or> (\<forall>r \<in> set (te_reqs e). rq_cancelled r))"

text \<open>No sleep expired before its deadline.\<close>

definition log_ok :: "timer_env \<Rightarrow> bool" where
  "log_ok e \<longleftrightarrow> (\<forall>n d t. (n, SleepExpired, d, t) \<in> set (te_log e) \<longrightarrow> d \<le> t)"

definition env_ok :: "bool \<Rightarrow> timer_env \<Rightarrow> bool" where
  "env_ok b e \<longleftrightarrow> sleepers_ok e \<and> reqs_ok e \<and> log_ok e \<and> (b \<longrightarrow> armed e)"

section \<open>\<open>timer_refresh\<close>\<close>

lemma get_sqe_cases:
  obtains "get_sqe e = (e\<lparr>te_no_sqe := True\<rparr>, False)" "te_cap e \<le> length (te_sq e)"
  | "get_sqe e = (e\<lparr>te_no_sqe := False, te_io := te_io e + 1\<rparr>, True)" "length (te_sq e) < te_cap e"
  by (cases "te_cap e \<le> length (te_sq e)") (auto simp: get_sqe_def)

lemma refresh_frame [simp]:
  "te_timers (timer_refresh e) = te_timers e" "te_posted (timer_refresh e) = te_posted e"
  "te_pending_wakes (timer_refresh e) = te_pending_wakes e" "te_now (timer_refresh e) = te_now e"
  "te_log (timer_refresh e) = te_log e"
  by (auto simp: timer_refresh_def get_sqe_def prep_cancel_def prep_timeout_def Let_def split: prod.splits)

lemma sleepers_ok_cong:
  "te_timers e = te_timers f \<Longrightarrow> te_posted e = te_posted f \<Longrightarrow> sleepers_ok e = sleepers_ok f"
  by (simp add: sleepers_ok_def)

text \<open>Cancelling the armed request leaves no request that is not cancelled.\<close>

lemma prep_cancel_armed:
  assumes "reqs_ok e" "r \<in> set (te_reqs (prep_cancel (te_armed_ud e) f))" "te_reqs f = te_reqs e"
  shows "rq_cancelled r"
  using assms by (auto simp: prep_cancel_def reqs_ok_def live_req_def split: if_splits)

lemma prep_cancel_frame [simp]:
  "te_timers (prep_cancel ud e) = te_timers e" "te_now (prep_cancel ud e) = te_now e"
  "te_inflight (prep_cancel ud e) = te_inflight e" "te_io (prep_cancel ud e) = te_io e"
  "te_cancels (prep_cancel ud e) = Suc (te_cancels e)" "te_cap (prep_cancel ud e) = te_cap e"
  "te_sq (prep_cancel ud e) = te_sq e @ [SqCancel ud]" "te_armed_ud (prep_cancel ud e) = te_armed_ud e"
  "length (te_reqs (prep_cancel ud e)) = length (te_reqs e)" "te_gen (prep_cancel ud e) = te_gen e"
  by (simp_all add: prep_cancel_def)

lemma refresh_empty:
  assumes "reqs_ok e" "heap_of e = []"
  shows "reqs_ok (timer_refresh e) \<and> armed (timer_refresh e)"
proof (cases "te_inflight e > 0")
  case True
  show ?thesis
  proof (cases rule: get_sqe_cases [of e])
    case 1
    then show ?thesis using assms True
      by (simp add: timer_refresh_def reqs_ok_def armed_def live_req_def)
  next
    case 2
    let ?f = "e\<lparr>te_no_sqe := False, te_io := te_io e + 1\<rparr>"
    have c: "\<forall>r \<in> set (te_reqs (prep_cancel (te_armed_ud e) ?f)). rq_cancelled r"
      using prep_cancel_armed [OF assms(1)] by simp
    have "timer_refresh e = (prep_cancel (te_armed_ud e) ?f)\<lparr>te_arm_pending := False\<rparr>"
      using assms(2) True 2 by (simp add: timer_refresh_def)
    then show ?thesis using c assms by (simp add: reqs_ok_def armed_def)
  qed
next
  case False
  then show ?thesis using assms by (simp add: timer_refresh_def reqs_ok_def armed_def live_req_def)
qed

text \<open>Arming, once every open request is cancelled.\<close>

lemma arm_new:
  assumes "\<forall>r \<in> set (te_reqs e). rq_cancelled r" "te_inflight e = int (length (te_reqs e))"
    "te_io e = int (length (te_reqs e)) + int (te_cancels e) + 1"
  defines "tp \<equiv> key (te_timers e) 0"
  shows "reqs_ok ((prep_timeout ud tp (e\<lparr>te_ts := (if tp - te_now e < 0 then 0 else tp - te_now e), te_gen := g\<rparr>))
       \<lparr>te_armed_ud := ud, te_armed_deadline := tp, te_inflight := te_inflight e + 1, te_arm_pending := False\<rparr>)"
  using assms by (auto simp: reqs_ok_def prep_timeout_def live_req_def)

lemma refresh_arm:
  assumes "reqs_ok e" "heap_of e \<noteq> []"
    "\<not> (te_inflight e > 0 \<and> key (te_timers e) 0 \<ge> te_armed_deadline e \<and> \<not> te_arm_pending e)"
  shows "reqs_ok (timer_refresh e) \<and> armed (timer_refresh e)"
proof -
  define e1 where "e1 = (if te_inflight e > 0
    then (let (e0, ok) = get_sqe e in if ok then prep_cancel (te_armed_ud e0) e0 else e0) else e)"
  have t: "te_timers e1 = te_timers e" "te_now e1 = te_now e"
    by (auto simp: e1_def get_sqe_def)
  have cnt: "te_inflight e1 = int (length (te_reqs e1))" "te_io e1 = int (length (te_reqs e1)) + int (te_cancels e1)"
    using assms(1) by (auto simp: e1_def get_sqe_def reqs_ok_def)
  have r: "\<forall>r \<in> set (te_reqs e1). rq_cancelled r" if "length (te_sq e1) < te_cap e1"
  proof (cases "te_inflight e > 0")
    case True
    with that have "length (te_sq e) < te_cap e" by (auto simp: e1_def get_sqe_def split: if_splits)
    then show ?thesis using True prep_cancel_armed [OF assms(1)] by (auto simp: e1_def get_sqe_def)
  next
    case False
    then show ?thesis using assms(1) by (simp add: e1_def reqs_ok_def)
  qed
  show ?thesis
  proof (cases rule: get_sqe_cases [of e1])
    case 1
    then have ref: "timer_refresh e = e1\<lparr>te_no_sqe := True, te_arm_pending := True\<rparr>"
      using assms(2,3) by (simp add: timer_refresh_def Let_def flip: e1_def) argo
    have "\<forall>r \<in> set (te_reqs e1). rq_cancelled r \<or> live_req e1 r"
      using assms(1) by (auto simp: e1_def get_sqe_def reqs_ok_def prep_cancel_def live_req_def split: if_splits)
    then show ?thesis using cnt assms(2) t by (simp add: ref reqs_ok_def armed_def live_req_def)
  next
    case 2
    let ?f = "e1\<lparr>te_no_sqe := False, te_io := te_io e1 + 1\<rparr>"
    define g where "g = te_gen ?f + 1"
    define tp where "tp = key (te_timers ?f) 0"
    have ref: "timer_refresh e =
      (prep_timeout (timer_user_data g) tp (?f\<lparr>te_ts := (if tp - te_now ?f < 0 then 0 else tp - te_now ?f), te_gen := g\<rparr>))
       \<lparr>te_armed_ud := timer_user_data g, te_armed_deadline := tp, te_inflight := te_inflight ?f + 1, te_arm_pending := False\<rparr>"
      using assms(2,3) 2 t by (simp add: timer_refresh_def Let_def g_def tp_def flip: e1_def) argo
    have "reqs_ok (timer_refresh e)" unfolding ref tp_def
      by (rule arm_new) (use r 2 cnt in simp_all)
    moreover have "armed (timer_refresh e)"
      using assms(2) t by (simp add: ref armed_def prep_timeout_def tp_def)
    ultimately show ?thesis by simp
  qed
qed

lemma refresh_reqs:
  assumes "reqs_ok e"
  shows "reqs_ok (timer_refresh e) \<and> armed (timer_refresh e)"
proof (cases "heap_of e = [] \<or> \<not> (te_inflight e > 0 \<and> key (te_timers e) 0 \<ge> te_armed_deadline e \<and> \<not> te_arm_pending e)")
  case True
  then show ?thesis using refresh_empty [OF assms] refresh_arm [OF assms] by blast
next
  case False
  then have "timer_refresh e = e" by (simp add: timer_refresh_def)
  moreover have "te_reqs e \<noteq> []" using False assms by (auto simp: reqs_ok_def)
  then obtain r where "r \<in> set (te_reqs e)" by (meson list.set_sel(1))
  then have "armed e" using False assms by (auto simp: armed_def reqs_ok_def live_req_def intro!: bexI [of _ r])
  ultimately show ?thesis using assms by simp
qed

lemma refresh_ok:
  assumes "sleepers_ok e" "reqs_ok e" "log_ok e"
  shows "env_ok b (timer_refresh e)"
  using refresh_reqs [OF assms(2)] assms(1,3) sleepers_ok_cong [of "timer_refresh e" e]
  by (simp add: env_ok_def log_ok_def)

section \<open>Every operation keeps the invariants\<close>

lemma set_node_frame [simp]:
  "heap_of (set_node n f e) = heap_of e" "node (set_node n f e) m = (if m = n then f (node e n) else node e m)"
  "te_posted (set_node n f e) = te_posted e" "te_now (set_node n f e) = te_now e"
  "te_reqs (set_node n f e) = te_reqs e" "te_arm_pending (set_node n f e) = te_arm_pending e"
  "reqs_ok (set_node n f e) = reqs_ok e" "log_ok (set_node n f e) = log_ok e" "te_timers (set_node n f e) = upd_node n f (te_timers e)"
  by (simp_all add: set_node_def reqs_ok_def live_req_def log_ok_def)

lemma reqs_ok_frame [simp]:
  "reqs_ok (e\<lparr>te_timers := t\<rparr>) = reqs_ok e" "reqs_ok (e\<lparr>te_posted := p\<rparr>) = reqs_ok e"
  "reqs_ok (e\<lparr>te_pending_wakes := w\<rparr>) = reqs_ok e" "reqs_ok (e\<lparr>te_log := l\<rparr>) = reqs_ok e"
  by (simp_all add: reqs_ok_def live_req_def)

lemma plain_upd:
  assumes "plain u = (plain t)(n := x)"
  shows "st (tm_nodes u m) = (if m = n then st x else st (tm_nodes t m))"
    "prom (tm_nodes u m) = (if m = n then prom x else prom (tm_nodes t m))"
    "in_heap (tm_nodes u m) = (if m = n then in_heap x else in_heap (tm_nodes t m))"
    "deadline_ns (tm_nodes u m) = (if m = n then deadline_ns x else deadline_ns (tm_nodes t m))"
proof -
  have "(tm_nodes u m)\<lparr>idx := 0\<rparr> = (if m = n then x else (tm_nodes t m)\<lparr>idx := 0\<rparr>)"
    using fun_cong [OF assms, of m] by (simp add: plain_def)
  then show "st (tm_nodes u m) = (if m = n then st x else st (tm_nodes t m))"
    "prom (tm_nodes u m) = (if m = n then prom x else prom (tm_nodes t m))"
    "in_heap (tm_nodes u m) = (if m = n then in_heap x else in_heap (tm_nodes t m))"
    "deadline_ns (tm_nodes u m) = (if m = n then deadline_ns x else deadline_ns (tm_nodes t m))"
    by (metis tnode.select_convs tnode.surjective tnode.update_convs(4))+
qed

lemma plain_sel [simp]:
  "st (plain t n) = st (tm_nodes t n)" "prom (plain t n) = prom (tm_nodes t n)"
  "in_heap (plain t n) = in_heap (tm_nodes t n)" "deadline_ns (plain t n) = deadline_ns (tm_nodes t n)"
  by (simp_all add: plain_def)

lemma upd_node_ok:
  assumes "timers_ok t" "idx (f (tm_nodes t n)) = idx (tm_nodes t n)"
    "in_heap (f (tm_nodes t n)) = in_heap (tm_nodes t n)"
    "in_heap (tm_nodes t n) \<Longrightarrow> deadline_ns (f (tm_nodes t n)) = deadline_ns (tm_nodes t n)"
  shows "timers_ok (upd_node n f t)"
    and "i < length (tm_heap t) \<Longrightarrow> key (upd_node n f t) i = key t i"
proof -
  have k: "key (upd_node n f t) i = key t i" if "i < length (tm_heap t)" for i
    using assms(1,4) that by (auto simp: key_def timers_ok_def coherent_def)
  then show "i < length (tm_heap t) \<Longrightarrow> key (upd_node n f t) i = key t i" .
  have "coherent (upd_node n f t)" using assms(1-3) by (auto simp: timers_ok_def coherent_def)
  moreover have "ordered (upd_node n f t)" using assms(1) k par_less
    by (auto simp: timers_ok_def ordered_def) (metis order.strict_trans)
  ultimately show "timers_ok (upd_node n f t)" by (simp add: timers_ok_def)
qed

lemma armed_cong:
  assumes "armed e" "heap_of f = heap_of e" "heap_of e \<noteq> [] \<Longrightarrow> key (te_timers f) 0 = key (te_timers e) 0"
    "te_arm_pending f = te_arm_pending e" "te_reqs f = te_reqs e"
  shows "armed f"
  using assms by (auto simp: armed_def)

lemma log_ok_frame [simp]:
  "log_ok (e\<lparr>te_timers := t\<rparr>) = log_ok e" "log_ok (e\<lparr>te_posted := p\<rparr>) = log_ok e"
  "log_ok (e\<lparr>te_pending_wakes := w\<rparr>) = log_ok e" "log_ok (timer_refresh e) = log_ok e"
  by (simp_all add: log_ok_def)

lemma log_result_ok:
  "env_ok b e \<Longrightarrow> (r = SleepExpired \<Longrightarrow> d \<le> te_now e) \<Longrightarrow> env_ok b (log_result n r d e)"
  by (auto simp: env_ok_def log_result_def sleepers_ok_def armed_def log_ok_def reqs_ok_def live_req_def)

lemma pending_wakes_ok [simp]: "env_ok b (e\<lparr>te_pending_wakes := w\<rparr>) = env_ok b e"
  by (simp add: env_ok_def sleepers_ok_def armed_def)

lemma now_ok: "env_ok b e \<Longrightarrow> env_ok b (e\<lparr>te_now := te_now e + int d\<rparr>)"
  by (auto simp: env_ok_def sleepers_ok_def armed_def reqs_ok_def live_req_def log_ok_def)

lemma fineD: "sleepers_ok e \<Longrightarrow> sleeper_fine (n \<in> set (te_posted e)) (node e n)"
  by (simp add: sleepers_ok_def)

lemma fine_cong:
  "st x = st y \<Longrightarrow> prom x = prom y \<Longrightarrow> in_heap x = in_heap y \<Longrightarrow> sleeper_fine p x = sleeper_fine p y"
  by (simp add: sleeper_fine_def)

text \<open>One node changes, the others stay as they are.\<close>

lemma sleepers_ok_change:
  assumes "sleepers_ok e" "timers_ok (te_timers f)" "distinct (te_posted f)"
    "\<And>m. m \<noteq> n \<Longrightarrow> m \<in> set (te_posted f) \<longleftrightarrow> m \<in> set (te_posted e)"
    "\<And>m. m \<noteq> n \<Longrightarrow> st (node f m) = st (node e m) \<and> prom (node f m) = prom (node e m) \<and> in_heap (node f m) = in_heap (node e m)"
    "sleeper_fine (n \<in> set (te_posted f)) (node f n)"
  shows "sleepers_ok f"
proof -
  have "sleeper_fine (m \<in> set (te_posted f)) (node f m)" for m
    using assms(4,5) [of m] assms(6) fineD [OF assms(1), of m] fine_cong [of "node f m" "node e m"]
    by (cases "m = n") auto
  then show ?thesis using assms(2,3) by (simp add: sleepers_ok_def)
qed

text \<open>What an action may do: keep the invariants, keep the clock, add no node that is due.\<close>

definition fine_step :: "bool \<Rightarrow> timer_env \<Rightarrow> timer_env \<Rightarrow> bool" where
  "fine_step b e f \<longleftrightarrow> env_ok b f \<and> te_now e \<le> te_now f \<and>
     (\<forall>n d. contents (te_timers f) n = Some d \<longrightarrow> d \<le> te_now e \<longrightarrow> contents (te_timers e) n = Some d)"

lemma log_result_fine:
  "env_ok b e \<Longrightarrow> (r = SleepExpired \<Longrightarrow> d \<le> te_now e) \<Longrightarrow> fine_step b e (log_result n r d e)"
  using log_result_ok by (simp add: fine_step_def) (simp add: log_result_def)

text \<open>Falling asleep.\<close>

lemma raw_sleep_fine:
  assumes "env_ok b e" "0 < ns"
  shows "\<exists>f. usleeper_raw_sleep n c ns e = Some f \<and> fine_step b e f"
proof (cases "st (node e n) = IDLE")
  case False
  then show ?thesis using assms log_result_fine [of b e SleepBusy] by (simp add: usleeper_raw_sleep_def)
next
  case True
  let ?g = "\<lambda>x. x\<lparr>st := PARKED, prom := Some c, deadline_ns := te_now e + ns\<rparr>"
  let ?t = "upd_node n ?g (te_timers e)"
  have s: "sleepers_ok e" "reqs_ok e" "log_ok e" using assms by (simp_all add: env_ok_def)
  have h: "\<not> in_heap (node e n)" using True fineD [OF s(1), of n] by (auto simp: sleeper_fine_def)
  have t: "timers_ok ?t" by (rule upd_node_ok) (use s(1) h in \<open>simp_all add: sleepers_ok_def\<close>)
  have "n \<notin> set (tm_heap ?t)" using s(1) h by (simp add: sleepers_ok_def timers_ok_def coherent_def)
  then obtain u where u: "heap_push n ?t = Some u" "timers_ok u" "plain u = (plain ?t)(n := (plain ?t n)\<lparr>in_heap := True\<rparr>)"
    by (rule heap_push_works [OF t])
  let ?e = "(set_node n ?g e)\<lparr>te_timers := u\<rparr>"
  have "usleeper_raw_sleep n c ns e = Some (timer_refresh ?e)"
    using True u(1) by (simp add: usleeper_raw_sleep_def timer_push_def set_node_def)
  moreover have "sleepers_ok ?e"
    by (rule sleepers_ok_change [OF s(1), of _ n])
       (use s(1) u(2) plain_upd [OF u(3)] True fineD [OF s(1), of n] in \<open>simp_all add: sleepers_ok_def sleeper_fine_def\<close>)
  then have "env_ok b (timer_refresh ?e)" by (rule refresh_ok) (simp_all add: s)
  moreover have "contents u = (contents (te_timers e))(n \<mapsto> te_now e + ns)"
    using plain_upd [OF u(3)] by (auto simp: contents_def fun_eq_iff)
  ultimately show ?thesis using assms(2) by (simp add: fine_step_def)
qed

lemma sleep_for_fine:
  assumes "env_ok b e"
  shows "\<exists>f. sleep_for n c ns e = Some f \<and> fine_step b e f"
proof -
  let ?e = "e\<lparr>te_pending_wakes := (te_pending_wakes e)(n := 0)\<rparr>"
  have r: "\<exists>f. usleeper_raw_sleep n c ns ?e = Some f \<and> fine_step b ?e f" if "0 < ns"
    using that assms by (intro raw_sleep_fine) simp_all
  have l: "fine_step b e (log_result n x (te_now e + ns) ?e)" if "x = SleepExpired \<Longrightarrow> ns \<le> 0" for x
    using log_result_fine [of b ?e x "te_now e + ns" n] assms that by (simp add: fine_step_def)
  consider "te_pending_wakes e n > 0" | "te_pending_wakes e n = 0" "ns \<le> 0" | "te_pending_wakes e n = 0" "0 < ns" by linarith
  then show ?thesis
  proof cases
    case 3
    then show ?thesis using r by (simp add: sleep_for_def Let_def fine_step_def)
  qed (use l [of SleepWoken] l [of SleepExpired] in \<open>simp_all add: sleep_for_def Let_def\<close>)
qed

lemma wake_fine:
  assumes "env_ok b e"
  shows "fine_step b e (wake n e)"
proof -
  let ?f = "\<lambda>x. x\<lparr>st := WOKEN\<rparr>"
  have s: "sleepers_ok e" "reqs_ok e" "log_ok e" using assms by (simp_all add: env_ok_def)
  have "env_ok b (wake n e)"
  proof (cases "st (node e n) = PARKED")
    case True
    have t: "timers_ok (upd_node n ?f (te_timers e))"
      by (rule upd_node_ok) (use s(1) in \<open>simp_all add: sleepers_ok_def\<close>)
    have k: "key (upd_node n ?f (te_timers e)) 0 = key (te_timers e) 0" if "heap_of e \<noteq> []"
      by (rule upd_node_ok) (use s(1) that in \<open>simp_all add: sleepers_ok_def\<close>)
    have f: "sleeper_fine (n \<in> set (te_posted e)) (node e n)" "distinct (te_posted e)"
      using s(1) by (simp_all add: sleepers_ok_def)
    then have "n \<notin> set (te_posted e)" "in_heap (node e n)" "prom (node e n) \<noteq> None"
      using True by (simp_all add: sleeper_fine_def)
    moreover have w: "wake n e = (set_node n ?f e)\<lparr>te_posted := n # te_posted e\<rparr>"
      using True by (simp add: wake_def)
    ultimately have "sleepers_ok (wake n e)" unfolding w using t f(2)
      by (intro sleepers_ok_change [OF s(1), of _ n]) (simp_all add: sleeper_fine_def)
    moreover have "armed (wake n e)" if b
      by (rule armed_cong [of e]) (use assms that k True in \<open>simp_all add: env_ok_def w\<close>)
    ultimately show ?thesis using s(2,3) True by (simp add: env_ok_def wake_def)
  qed (use assms in \<open>simp add: wake_def\<close>)
  moreover have "contents (te_timers (wake n e)) = contents (te_timers e)" "te_now (wake n e) = te_now e"
    by (auto simp: wake_def contents_def fun_eq_iff)
  ultimately show ?thesis by (simp add: fine_step_def)
qed

lemma act_fine:
  assumes "env_ok b e"
  shows "\<exists>f. do_act a e = Some f \<and> fine_step b e f"
proof (cases a)
  case (AUntil n c tp)
  show ?thesis
  proof (cases "te_now e \<ge> tp")
    case True
    then show ?thesis using log_result_fine [OF assms] by (simp add: AUntil sleep_until_def)
  next
    case False
    then show ?thesis using sleep_for_fine [OF assms] by (simp add: AUntil sleep_until_def)
  qed
qed (use assms sleep_for_fine wake_fine in auto)

lemma fine_step_trans: "fine_step b e f \<Longrightarrow> fine_step b f g \<Longrightarrow> fine_step b e g"
  by (auto simp: fine_step_def)

lemma fine_step_now: "env_ok b e \<Longrightarrow> fine_step b e (e\<lparr>te_now := te_now e + int d\<rparr>)"
  using now_ok by (simp add: fine_step_def)

lemma acts_fine: "env_ok b e \<Longrightarrow> \<exists>f. do_acts as e = Some f \<and> fine_step b e f"
proof (induction as arbitrary: e)
  case (Cons x as)
  obtain dt a where x: "x = (dt, a)" by fastforce
  let ?e = "e\<lparr>te_now := te_now e + int dt\<rparr>"
  have 1: "fine_step b e ?e" using Cons.prems by (rule fine_step_now)
  then obtain f where f: "do_act a ?e = Some f" "fine_step b ?e f"
    using act_fine [of b ?e a] by (auto simp: fine_step_def)
  then obtain g where g: "do_acts as f = Some g" "fine_step b f g"
    using Cons.IH [of f] by (auto simp: fine_step_def)
  show ?case using f g fine_step_trans [OF 1 fine_step_trans [OF f(2) g(2)]] by (simp add: x)
qed (simp add: fine_step_def)

text \<open>Waking up: every sleeper but \<open>n\<close> is as it should be.\<close>

definition sleepers_but :: "nat \<Rightarrow> timer_env \<Rightarrow> bool" where
  "sleepers_but n e \<longleftrightarrow>
     timers_ok (te_timers e) \<and> distinct (te_posted e) \<and> n \<notin> set (te_posted e) \<and>
     (\<forall>m. m \<noteq> n \<longrightarrow> sleeper_fine (m \<in> set (te_posted e)) (node e m))"

lemma sleepers_but_set: "sleepers_but n e \<Longrightarrow> idx (f (node e n)) = idx (node e n) \<Longrightarrow>
  in_heap (f (node e n)) = in_heap (node e n) \<Longrightarrow> \<not> in_heap (node e n) \<Longrightarrow> sleepers_but n (set_node n f e)"
  using upd_node_ok(1) [of "te_timers e" f n] by (simp add: sleepers_but_def)

lemma sleepers_but_ok: "sleepers_but n e \<Longrightarrow> sleeper_fine False (node e n) \<Longrightarrow> sleepers_ok e"
  unfolding sleepers_but_def sleepers_ok_def by (metis (full_types))

lemma heap_remove_contents:
  assumes "timers_ok t" "in_heap (tm_nodes t n)"
  shows "timers_ok (heap_remove n t)" "contents (heap_remove n t) = (contents t)(n := None)"
    "m \<noteq> n \<Longrightarrow> plain (heap_remove n t) m = plain t m" "\<not> in_heap (tm_nodes (heap_remove n t) n)"
    "st (tm_nodes (heap_remove n t) n) = st (tm_nodes t n)"
proof -
  have n: "n \<in> set (tm_heap t)" using assms by (simp add: timers_ok_def coherent_def)
  note r = heap_remove_works [OF assms(1) n] and p = plain_upd [OF heap_remove_works(3) [OF assms(1) n]]
  show "timers_ok (heap_remove n t)" "m \<noteq> n \<Longrightarrow> plain (heap_remove n t) m = plain t m"
    "\<not> in_heap (tm_nodes (heap_remove n t) n)" "st (tm_nodes (heap_remove n t) n) = st (tm_nodes t n)"
    using r p by simp_all
  show "contents (heap_remove n t) = (contents t)(n := None)" using p by (auto simp: contents_def fun_eq_iff)
qed

lemma contents_absent: "\<not> in_heap (tm_nodes t n) \<Longrightarrow> (contents t)(n := None) = contents t"
  by (auto simp: contents_def)

lemma contents_upd_node:
  "in_heap (f (tm_nodes t n)) = in_heap (tm_nodes t n) \<Longrightarrow>
   deadline_ns (f (tm_nodes t n)) = deadline_ns (tm_nodes t n) \<Longrightarrow> contents (upd_node n f t) = contents t"
  by (auto simp: contents_def)

lemma fine_plain: "plain t m = plain u k \<Longrightarrow> sleeper_fine p (tm_nodes t m) = sleeper_fine p (tm_nodes u k)"
  by (metis fine_cong plain_sel(1) plain_sel(2) plain_sel(3))

lemma timer_remove_ok:
  assumes "sleepers_but n e" "reqs_ok e" "b \<Longrightarrow> armed e"
  shows "sleepers_but n (timer_remove n e)" "reqs_ok (timer_remove n e)" "b \<Longrightarrow> armed (timer_remove n e)"
    "contents (te_timers (timer_remove n e)) = (contents (te_timers e))(n := None)"
    "te_now (timer_remove n e) = te_now e" "\<not> in_heap (node (timer_remove n e) n)"
    "te_posted (timer_remove n e) = te_posted e" "te_pending_wakes (timer_remove n e) = te_pending_wakes e"
    "log_ok (timer_remove n e) = log_ok e"
proof -
  have t: "timers_ok (te_timers e)" using assms(1) by (simp add: sleepers_but_def)
  note r = heap_remove_contents [OF t, of n] and f = refresh_reqs [of "e\<lparr>te_timers := heap_remove n (te_timers e)\<rparr>"]
  have "sleeper_fine (m \<in> set (te_posted e)) (tm_nodes (heap_remove n (te_timers e)) m)"
    if "in_heap (node e n)" "m \<noteq> n" for m
    using fine_plain [OF r(3) [OF that]] assms(1) that by (simp add: sleepers_but_def)
  then show "sleepers_but n (timer_remove n e)" using assms(1) r
    by (auto simp: timer_remove_def sleepers_but_def)
  show "reqs_ok (timer_remove n e)" "b \<Longrightarrow> armed (timer_remove n e)"
    using assms(2,3) f by (auto simp: timer_remove_def)
  show "contents (te_timers (timer_remove n e)) = (contents (te_timers e))(n := None)"
    using r(2) by (simp add: timer_remove_def contents_absent)
  show "te_now (timer_remove n e) = te_now e" "\<not> in_heap (node (timer_remove n e) n)"
    "te_posted (timer_remove n e) = te_posted e" "te_pending_wakes (timer_remove n e) = te_pending_wakes e"
    "log_ok (timer_remove n e) = log_ok e"
    using r by (auto simp: timer_remove_def)
qed

lemma sleep_resume_fine:
  assumes "sleepers_but n e" "reqs_ok e" "b \<Longrightarrow> armed e" "log_ok e"
    "st (node e n) = EXPIRED \<Longrightarrow> deadline_ns (node e n) \<le> te_now e"
  shows "env_ok b (sleep_resume n e)" "te_now (sleep_resume n e) = te_now e"
    "contents (te_timers (sleep_resume n e)) = (contents (te_timers e))(n := None)"
proof -
  let ?f = "\<lambda>x. x\<lparr>prom := None, st := IDLE\<rparr>"
  let ?e = "timer_remove n e"
  note r = timer_remove_ok [OF assms(1-3)]
  have b: "sleepers_but n (set_node n ?f ?e)" using r(1,6) by (intro sleepers_but_set) simp_all
  then have "sleepers_ok (set_node n ?f ?e)" using r(6) by (rule_tac sleepers_but_ok) (auto simp: sleeper_fine_def)
  moreover have "armed (set_node n ?f ?e)" if b
  proof (rule armed_cong [OF r(3) [OF that]])
    assume h: "heap_of ?e \<noteq> []"
    show "key (te_timers (set_node n ?f ?e)) 0 = key (te_timers ?e) 0"
      using upd_node_ok(2) [of "te_timers ?e" ?f n 0] r(1,6) h by (simp add: sleepers_but_def)
  qed simp_all
  ultimately have "env_ok b (set_node n ?f ?e)" using r(2,9) assms(4) by (simp add: env_ok_def)
  then show "env_ok b (sleep_resume n e)" unfolding sleep_resume_def Let_def
    by (rule log_result_ok) (use assms(5) r(5) in \<open>auto split: if_splits\<close>)
  show "te_now (sleep_resume n e) = te_now e" using r by (simp add: sleep_resume_def Let_def log_result_def)
  show "contents (te_timers (sleep_resume n e)) = (contents (te_timers e))(n := None)"
    using r(4) by (simp add: sleep_resume_def Let_def log_result_def contents_upd_node)
qed

section \<open>Firing\<close>

text \<open>The front node leaves the heap and its sleeper, unless somebody else has woken it, runs.\<close>

lemma pop_front:
  assumes "env_ok False e" "heap_of e \<noteq> []"
  defines "n \<equiv> hd (heap_of e)" and "e1 \<equiv> e\<lparr>te_timers := heap_pop (te_timers e)\<rparr>"
  shows "reqs_ok e1" "contents (te_timers e1) = (contents (te_timers e))(n := None)"
    "st (node e1 n) = st (node e n)"
    "st (node e n) = PARKED \<Longrightarrow> sleepers_but n (set_node n (\<lambda>x. x\<lparr>st := EXPIRED\<rparr>) e1)"
    "st (node e n) \<noteq> PARKED \<Longrightarrow> env_ok False e1"
    "deadline_ns (node e1 n) = key (te_timers e) 0" "log_ok e1"
proof -
  have s: "sleepers_ok e" "reqs_ok e" "timers_ok (te_timers e)" "log_ok e" using assms(1) by (simp_all add: env_ok_def sleepers_ok_def)
  show "reqs_ok e1" using s by (simp add: e1_def)
  note p = heap_pop_works [OF s(3) assms(2)] and q = plain_upd [OF heap_pop_works(3) [OF s(3) assms(2)]]
  have n: "in_heap (node e n)" using s(3) assms(2) by (simp add: timers_ok_def coherent_def n_def)
  show "contents (te_timers e1) = (contents (te_timers e))(n := None)"
    using q by (auto simp: e1_def n_def contents_def fun_eq_iff)
  show "deadline_ns (node e1 n) = key (te_timers e) 0" "log_ok e1"
    using q s(4) assms(2) by (simp_all add: e1_def n_def key_def hd_conv_nth)
  show st: "st (node e1 n) = st (node e n)" using q by (simp add: e1_def n_def)
  have f: "sleeper_fine (m \<in> set (te_posted e)) (node e1 m)" if "m \<noteq> n" for m
    using fineD [OF s(1), of m] p(3) that fine_plain [of "te_timers e1" m "te_timers e" m] by (simp add: e1_def n_def)
  have ni: "\<not> in_heap (node e1 n)" using q by (simp add: e1_def n_def)
  show "sleepers_but n (set_node n (\<lambda>x. x\<lparr>st := EXPIRED\<rparr>) e1)" if "st (node e n) = PARKED"
  proof (rule sleepers_but_set)
    have "n \<notin> set (te_posted e)" using fineD [OF s(1), of n] that by (simp add: sleeper_fine_def)
    then show "sleepers_but n e1" using f p(1) s(1) by (simp add: sleepers_but_def e1_def sleepers_ok_def)
  qed (use ni in simp_all)
  show "env_ok False e1" if "st (node e n) \<noteq> PARKED"
  proof -
    have "sleeper_fine (n \<in> set (te_posted e)) (node e1 n)"
      using fineD [OF s(1), of n] that q ni by (simp add: sleeper_fine_def e1_def n_def)
    then have "sleeper_fine (m \<in> set (te_posted e)) (node e1 m)" for m using f by (cases "m = n") simp_all
    then have "sleepers_ok e1" using p(1) s(1) by (simp add: sleepers_ok_def e1_def)
    then show ?thesis using s(2,4) by (simp add: env_ok_def e1_def)
  qed
qed

definition due :: "int \<Rightarrow> timer_env \<Rightarrow> nat set" where
  "due now e = {n. \<exists>d \<le> now. contents (te_timers e) n = Some d}"

lemma due_fine: "fine_step b e f \<Longrightarrow> now \<le> te_now e \<Longrightarrow> due now f \<subseteq> due now e"
  by (auto simp: due_def fine_step_def)

lemma front_key:
  assumes "env_ok b e" "heap_of e \<noteq> []"
  shows "front (te_timers e) = Some (hd (heap_of e))" "contents (te_timers e) (hd (heap_of e)) = Some (key (te_timers e) 0)"
  using assms contents_nth [of "te_timers e" 0] by (auto simp: front_def env_ok_def sleepers_ok_def hd_conv_nth)

lemma fire_loop_works:
  assumes "env_ok False e" "now \<le> te_now e" "card (due now e) < k"
  shows "\<exists>f. fire_loop k beh now e = Some f \<and> env_ok False f \<and> te_now e \<le> te_now f \<and> due now f = {}"
  using assms
proof (induction k arbitrary: e)
  case (Suc k)
  have t: "timers_ok (te_timers e)" using Suc.prems(1) by (simp add: env_ok_def sleepers_ok_def)
  show ?case
  proof (cases "heap_of e \<noteq> [] \<and> key (te_timers e) 0 \<le> now")
    case False
    have "due now e = {}"
    proof (cases "heap_of e = []")
      case True
      then have "front (te_timers e) = None" by (simp add: front_def)
      then show ?thesis using tq.front_none [OF t] by (simp add: due_def)
    next
      case h: False
      then show ?thesis using tq.front_not_due [OF t front_key [OF Suc.prems(1) h], of now] False
        by (fastforce simp: due_def)
    qed
    then show ?thesis using False Suc.prems(1) by auto
  next
    case True
    define n where "n = hd (heap_of e)"
    define e1 where "e1 = e\<lparr>te_timers := heap_pop (te_timers e)\<rparr>"
    have h: "heap_of e \<noteq> []" using True by simp
    note p = pop_front [OF Suc.prems(1) h, folded n_def e1_def]
    have fin: "finite (due now e)" using tq.finite_due [OF t] by (simp add: due_def)
    have "n \<in> due now e" using front_key [OF Suc.prems(1) h] True by (auto simp: due_def n_def)
    moreover have d1: "due now e1 = due now e - {n}" using p(2) by (auto simp: due_def)
    ultimately have c: "due now f \<subseteq> due now e1 \<Longrightarrow> card (due now f) < k" for f
      using card_mono [of "due now e1" "due now f"] fin Suc.prems(3) by (simp add: card_Diff_singleton) (metis Suc_pred card_gt_0_iff empty_iff le_less_trans less_SucE less_Suc_eq_le not_less_eq)
    show ?thesis
    proof (cases "st (node e n) = PARKED")
      case st: True
      define e2 where "e2 = sleep_resume n (set_node n (\<lambda>x. x\<lparr>st := EXPIRED\<rparr>) e1)"
      have rq: "reqs_ok (set_node n (\<lambda>x. x\<lparr>st := EXPIRED\<rparr>) e1)" using p(1) by simp
      have "log_ok (set_node n (\<lambda>x. x\<lparr>st := EXPIRED\<rparr>) e1)" using p(7) by simp
      note r = sleep_resume_fine [OF p(4) [OF st] rq _ this, of False, folded e2_def]
      have now: "te_now e1 = te_now e" "key (te_timers e) 0 \<le> te_now e"
        using True Suc.prems(2) by (simp_all add: e1_def)
      have e2: "env_ok False e2" "te_now e2 = te_now e" "contents (te_timers e2) = (contents (te_timers e1))(n := None)"
        using r now p(6) by (simp_all add: contents_upd_node)
      have "due now e2 \<subseteq> due now e1" using e2(3) by (auto simp: due_def)
      moreover obtain e3 where e3: "do_acts (case prom (node e1 n) of None \<Rightarrow> [] | Some c \<Rightarrow> beh c) e2 = Some e3" "fine_step False e2 e3"
        using acts_fine [OF e2(1)] by blast
      moreover have "due now e3 \<subseteq> due now e2" using due_fine [OF e3(2)] e2(2) Suc.prems(2) by simp
      ultimately have "card (due now e3) < k" using c by blast
      moreover have "env_ok False e3" "te_now e \<le> te_now e3" using e3(2) e2(2) by (simp_all add: fine_step_def)
      ultimately obtain f where "fire_loop k beh now e3 = Some f" "env_ok False f" "te_now e3 \<le> te_now f" "due now f = {}"
        using Suc.IH [of e3] Suc.prems(2) by fastforce
      then show ?thesis using True st p(3) e3(1) \<open>te_now e \<le> te_now e3\<close>
        by (simp add: Let_def n_def [symmetric] e1_def [symmetric] e2_def [symmetric])
    next
      case st: False
      have "env_ok False e1" "te_now e1 = te_now e" using p(5) [OF st] by (auto simp: e1_def)
      then show ?thesis using Suc.IH [of e1] Suc.prems(2) c [of e1] True st p(3)
        by (simp add: Let_def n_def [symmetric] e1_def [symmetric])
    qed
  qed
qed simp

lemma due_bound:
  assumes "env_ok b e"
  shows "card (due now e) < Suc (length (heap_of e))"
proof -
  have t: "timers_ok (te_timers e)" using assms by (simp add: env_ok_def sleepers_ok_def)
  have "due now e \<subseteq> set (heap_of e)" using contents_in_heap [OF t] by (auto simp: due_def)
  then have "card (due now e) \<le> card (set (heap_of e))" by (simp add: card_mono)
  also have "\<dots> \<le> length (heap_of e)" by (rule card_length)
  finally show ?thesis by simp
qed

lemma on_fire_works:
  assumes "env_ok False e"
  shows "\<exists>f. timer_on_fire beh e = Some f \<and> env_ok True f \<and> te_now e \<le> te_now f \<and> due (te_now e) f = {}"
proof -
  obtain f where f: "fire_loop (Suc (length (heap_of e))) beh (te_now e) e = Some f" "env_ok False f"
    "te_now e \<le> te_now f" "due (te_now e) f = {}"
    using fire_loop_works [OF assms _ due_bound [OF assms]] by blast
  have "env_ok True (timer_refresh f)" using f(2) by (intro refresh_ok) (simp_all add: env_ok_def)
  then show ?thesis using f by (simp add: timer_on_fire_def due_def)
qed

section \<open>Runs\<close>

lemma reqs_ok_remove:
  assumes "reqs_ok e" "i < length (te_reqs e)"
  shows "reqs_ok (e\<lparr>te_reqs := take i (te_reqs e) @ drop (Suc i) (te_reqs e), te_io := te_io e - 1,
    te_inflight := te_inflight e - 1\<rparr>)"
  using assms by (auto simp: reqs_ok_def live_req_def dest: in_set_takeD in_set_dropD)

lemma submit_ok:
  assumes "env_ok b e"
  shows "env_ok b (ring_submit e)"
proof -
  define g where "g = (\<lambda>r :: timeout_req. if rq_sub r = None then r\<lparr>rq_sub := Some (te_now e, te_ts e)\<rparr> else r)"
  have g: "rq_cancelled (g r) = rq_cancelled r" "rq_deadline (g r) = rq_deadline r" for r
    by (simp_all add: g_def)
  have l: "live_req (ring_submit e) (g r)" if "live_req e r" for r
    using that by (auto simp: live_req_def ring_submit_def g_def)
  have f: "te_timers (ring_submit e) = te_timers e" "te_posted (ring_submit e) = te_posted e"
    "te_log (ring_submit e) = te_log e" "te_inflight (ring_submit e) = te_inflight e"
    "te_io (ring_submit e) = te_io e" "te_cancels (ring_submit e) = te_cancels e"
    "te_arm_pending (ring_submit e) = te_arm_pending e" "te_reqs (ring_submit e) = map g (te_reqs e)"
    by (simp_all add: ring_submit_def g_def)
  have "reqs_ok (ring_submit e)" using assms l by (auto simp: env_ok_def reqs_ok_def f g)
  moreover have "armed (ring_submit e)" if b using assms that by (simp add: env_ok_def armed_def f g)
  ultimately show ?thesis using assms by (simp add: env_ok_def log_ok_def sleepers_ok_def f)
qed

lemma posted_ok:
  assumes "env_ok b e" "te_posted e = n # ns"
  shows "env_ok b (sleep_resume n (e\<lparr>te_posted := ns\<rparr>))" "te_now (sleep_resume n (e\<lparr>te_posted := ns\<rparr>)) = te_now e"
proof -
  let ?e = "e\<lparr>te_posted := ns\<rparr>"
  have s: "sleepers_ok e" using assms(1) by (simp add: env_ok_def)
  have f: "sleeper_fine (m \<in> set ns) (node e m)" if "m \<noteq> n" for m
    using fineD [OF s, of m] assms(2) that by simp
  have "timers_ok (te_timers e)" "distinct (n # ns)" using s assms(2) by (simp_all add: sleepers_ok_def)
  then have "sleepers_but n ?e" using f by (simp add: sleepers_but_def)
  moreover have "st (node e n) = WOKEN" using fineD [OF s, of n] assms(2) by (simp add: sleeper_fine_def)
  moreover have "reqs_ok ?e" "log_ok ?e" "b \<Longrightarrow> armed ?e" using assms(1) by (simp_all add: env_ok_def armed_def)
  ultimately show "env_ok b (sleep_resume n ?e)" "te_now (sleep_resume n ?e) = te_now e"
    using sleep_resume_fine [of n ?e b] by simp_all
qed

lemma te_step_ok:
  assumes "env_ok True e"
  shows "\<exists>f. te_step beh ev e = Some f \<and> env_ok True f \<and> te_now e \<le> te_now f"
proof (cases ev)
  case (EvAct a)
  then show ?thesis using act_fine [OF assms, of a] by (auto simp: te_step_def fine_step_def)
next
  case EvPosted
  show ?thesis
  proof (cases "te_posted e")
    case (Cons n ns)
    define as where "as = (case prom (node e n) of None \<Rightarrow> [] | Some c \<Rightarrow> beh c)"
    obtain f where "do_acts as (sleep_resume n (e\<lparr>te_posted := ns\<rparr>)) = Some f"
      "fine_step True (sleep_resume n (e\<lparr>te_posted := ns\<rparr>)) f"
      using acts_fine [OF posted_ok(1) [OF assms Cons]] by blast
    then show ?thesis using posted_ok(2) [OF assms Cons]
      by (simp add: te_step_def fine_step_def EvPosted Cons as_def)
  qed (use assms in \<open>simp add: te_step_def EvPosted\<close>)
next
  case EvSubmit
  then show ?thesis using submit_ok [OF assms] by (simp add: te_step_def ring_submit_def)
next
  case (EvTimeout i)
  let ?e = "e\<lparr>te_reqs := take i (te_reqs e) @ drop (Suc i) (te_reqs e), te_io := te_io e - 1,
    te_inflight := te_inflight e - 1\<rparr>"
  show ?thesis
  proof (cases "i < length (te_reqs e) \<and> completable e (te_reqs e ! i)")
    case True
    then have "reqs_ok ?e" using assms by (intro reqs_ok_remove) (simp_all add: env_ok_def)
    then have "env_ok False ?e" using assms by (simp add: env_ok_def sleepers_ok_def log_ok_def)
    then show ?thesis using on_fire_works [of ?e beh] True by (auto simp: te_step_def EvTimeout)
  qed (use assms in \<open>auto simp: te_step_def EvTimeout\<close>)
next
  case EvCancelDone
  then show ?thesis using assms
    by (auto simp: te_step_def env_ok_def sleepers_ok_def reqs_ok_def live_req_def armed_def log_ok_def)
next
  case EvRetry
  then show ?thesis using assms refresh_ok [of e True] by (simp add: te_step_def env_ok_def)
qed

lemma mk_timer_env_ok: "env_ok True (mk_timer_env cap now)"
  by (simp add: mk_timer_env_def env_ok_def sleepers_ok_def reqs_ok_def log_ok_def armed_def timers_ok_def
      coherent_def ordered_def mk_timers_def mk_tnode_def sleeper_fine_def)

lemma te_run_ok: "env_ok True e \<Longrightarrow> \<exists>f. te_run beh evs e = Some f \<and> env_ok True f \<and> te_now e \<le> te_now f"
proof (induction evs arbitrary: e)
  case (Cons x evs)
  obtain dt ev where x: "x = (dt, ev)" by fastforce
  obtain f where f: "te_step beh ev (e\<lparr>te_now := te_now e + int dt\<rparr>) = Some f" "env_ok True f" "te_now e \<le> te_now f"
    using te_step_ok [OF now_ok [OF Cons.prems, of dt], of beh ev] by force
  obtain g where "te_run beh evs f = Some g" "env_ok True g" "te_now f \<le> te_now g" using Cons.IH [OF f(2)] by blast
  then show ?case using f by (auto simp: x)
qed simp

section \<open>Properties\<close>

text \<open>
  The tag of a timer request is none of the values the scheduler reserves, and no address of a
  coroutine frame, which are multiples of eight.
\<close>

lemma timer_user_data_tag:
  "timer_user_data g AND 0xff = 2"
  "timer_user_data g \<noteq> 0" "timer_user_data g \<noteq> 1" "p AND 7 = 0 \<Longrightarrow> timer_user_data g \<noteq> p"
proof -
  have "(0xff :: 64 word) = mask 8" by (simp add: mask_eq_exp_minus_1)
  then have "timer_user_data g AND 0xff = take_bit 8 (push_bit 8 g OR 2)"
    by (simp add: take_bit_eq_mask timer_user_data_def)
  also have "\<dots> = 2" by (simp add: take_bit_or take_bit_push_bit)
  finally show tag: "timer_user_data g AND 0xff = 2" .
  show "timer_user_data g \<noteq> 0" "timer_user_data g \<noteq> 1" using tag by auto
  show "timer_user_data g \<noteq> p" if "p AND 7 = 0"
  proof
    assume "timer_user_data g = p"
    moreover have "p AND 7 = (p AND 0xff) AND 7" by (simp add: and.assoc)
    ultimately show False using that tag by simp
  qed
qed

text \<open>A thread without an open request gets one for the front of its heap.\<close>

definition front_armed :: "timer_env \<Rightarrow> bool" where
  "front_armed e \<longleftrightarrow>
     heap_of e = [] \<or> te_arm_pending e \<or>
     (\<exists>r \<in> set (te_reqs e). \<not> rq_cancelled r \<and> rq_deadline r \<le> key (te_timers e) 0)"

lemma refresh_arms: "te_reqs e = [] \<Longrightarrow> te_inflight e = 0 \<Longrightarrow> front_armed (timer_refresh e)"
  by (auto simp: front_armed_def timer_refresh_def get_sqe_def prep_timeout_def Let_def)

lemma fire_loop_idle:
  assumes "env_ok False e" "now \<le> te_now e" "fire_loop k (\<lambda>_. []) now e = Some f"
  shows "te_reqs f = te_reqs e \<and> te_inflight f = te_inflight e"
  using assms
proof (induction k arbitrary: e)
  case (Suc k)
  show ?case
  proof (cases "heap_of e \<noteq> [] \<and> key (te_timers e) 0 \<le> now")
    case False
    then show ?thesis using Suc.prems(3) by auto
  next
    case True
    define n where "n = hd (heap_of e)"
    define e1 where "e1 = e\<lparr>te_timers := heap_pop (te_timers e)\<rparr>"
    have h: "heap_of e \<noteq> []" using True by simp
    note p = pop_front [OF Suc.prems(1) h, folded n_def e1_def]
    have now: "te_now e1 = te_now e" "key (te_timers e) 0 \<le> te_now e" "te_reqs e1 = te_reqs e" "te_inflight e1 = te_inflight e"
      using True Suc.prems(2) by (simp_all add: e1_def)
    show ?thesis
    proof (cases "st (node e n) = PARKED")
      case st: True
      define e0 where "e0 = set_node n (\<lambda>x. x\<lparr>st := EXPIRED\<rparr>) e1"
      have rq: "reqs_ok e0" "log_ok e0" using p(1,7) by (simp_all add: e0_def)
      note r = sleep_resume_fine [OF p(4) [OF st, folded e0_def] rq(1) _ rq(2), of False]
      have ok: "env_ok False (sleep_resume n e0)" "te_now (sleep_resume n e0) = te_now e"
        using r(1,2) now p(6) by (simp_all add: e0_def)
      have "\<not> in_heap (node e1 n)"
        using heap_pop_works [of "te_timers e"] plain_upd Suc.prems(1) h
          heap_pop_works(3) [of "te_timers e"]
        by (simp add: e1_def n_def env_ok_def sleepers_ok_def)
      then have same: "te_reqs (sleep_resume n e0) = te_reqs e" "te_inflight (sleep_resume n e0) = te_inflight e"
        using now by (simp_all add: sleep_resume_def e0_def timer_remove_def log_result_def Let_def set_node_def)
      have "fire_loop k (\<lambda>_. []) now (sleep_resume n e0) = Some f"
        using Suc.prems(3) True st p(3) by (simp add: Let_def n_def [symmetric] e1_def [symmetric] e0_def split: option.splits)
      from Suc.IH [OF ok(1) _ this] show ?thesis using Suc.prems(2) ok(2) same by simp
    next
      case st: False
      have "fire_loop k (\<lambda>_. []) now e1 = Some f"
        using Suc.prems(3) True st p(3) by (simp add: Let_def n_def [symmetric] e1_def [symmetric])
      from Suc.IH [OF p(5) [OF st] _ this] show ?thesis using Suc.prems(2) now by simp
    qed
  qed
qed simp

lemma last_request_rearms:
  assumes "env_ok True e" "te_reqs e = [r]" "completable e r"
  shows "\<exists>f. te_step (\<lambda>_. []) (EvTimeout 0) e = Some f \<and> front_armed f"
proof -
  let ?e = "e\<lparr>te_reqs := take 0 (te_reqs e) @ drop (Suc 0) (te_reqs e), te_io := te_io e - 1,
    te_inflight := te_inflight e - 1\<rparr>"
  have "reqs_ok ?e" using assms by (intro reqs_ok_remove) (simp_all add: env_ok_def)
  then have ok: "env_ok False ?e" using assms(1) by (simp add: env_ok_def sleepers_ok_def log_ok_def)
  have none: "te_reqs ?e = []" "te_inflight ?e = 0" using assms(1,2) by (simp_all add: env_ok_def reqs_ok_def)
  obtain f where f: "fire_loop (Suc (length (heap_of ?e))) (\<lambda>_. []) (te_now ?e) ?e = Some f"
    using fire_loop_works [OF ok order_refl due_bound [OF ok]] by blast
  have "te_reqs f = []" "te_inflight f = 0" using fire_loop_idle [OF ok order_refl f] none by simp_all
  from refresh_arms [OF this] f show ?thesis using assms(2,3) by (simp add: te_step_def timer_on_fire_def)
qed

text \<open>
  C10: However coroutines sleep and wake each other, the process hits no fatal check, and while
  somebody sleeps the thread is going to look at its timers again: a retry is pending, or a timeout
  request is open whose time, counted from its submission, is that of the earliest deadline or before,
  or a request is open that was cancelled, whose completion the kernel owes too. The last case occurs
  alone when a sleep begins behind the cancellation of the request before it; then, as always, the
  completion of the last open request arms the front of the heap anew, or leaves a retry pending, if
  the resumed coroutines do not touch the timers. When nobody sleeps every open request has been
  cancelled or a retry is pending. The event counters equal the number of open requests.
\<close>

theorem timers_never_stranded:
  "\<exists>e. te_run beh evs (mk_timer_env cap now) = Some e \<and>
     (heap_of e = [] \<or> te_arm_pending e \<or>
        (\<exists>r \<in> set (te_reqs e). rq_cancelled r \<or>
           rq_deadline r \<le> key (te_timers e) 0 \<and>
           (\<forall>s d. rq_sub r = Some (s, d) \<longrightarrow> rq_at r \<le> s \<and> s + d = max s (rq_deadline r + (s - rq_at r))))) \<and>
     (\<forall>r. te_reqs e = [r] \<and> completable e r \<longrightarrow>
        (\<exists>f. te_step (\<lambda>_. []) (EvTimeout 0) e = Some f \<and>
           (heap_of f = [] \<or> te_arm_pending f \<or>
            (\<exists>r \<in> set (te_reqs f). \<not> rq_cancelled r \<and> rq_deadline r \<le> key (te_timers f) 0)))) \<and>
     (heap_of e = [] \<longrightarrow> te_arm_pending e \<or> (\<forall>r \<in> set (te_reqs e). rq_cancelled r)) \<and>
     te_io e = int (length (te_reqs e)) + int (te_cancels e) \<and>
     te_inflight e = int (length (te_reqs e))"
proof -
  obtain e where e: "te_run beh evs (mk_timer_env cap now) = Some e" "env_ok True e"
    using te_run_ok [OF mk_timer_env_ok] by blast
  have a: "armed e" "reqs_ok e" using e(2) by (simp_all add: env_ok_def)
  have "rq_at r \<le> s \<and> s + d = max s (rq_deadline r + (s - rq_at r))"
    if "r \<in> set (te_reqs e)" "\<not> rq_cancelled r" "rq_sub r = Some (s, d)" for r s d
    using a(2) that by (auto simp: reqs_ok_def live_req_def)
  then have one: "heap_of e = [] \<or> te_arm_pending e \<or>
      (\<exists>r \<in> set (te_reqs e). rq_cancelled r \<or> rq_deadline r \<le> key (te_timers e) 0 \<and>
         (\<forall>s d. rq_sub r = Some (s, d) \<longrightarrow> rq_at r \<le> s \<and> s + d = max s (rq_deadline r + (s - rq_at r))))"
    using a(1) by (auto simp: armed_def)
  have "te_reqs e = [r] \<and> completable e r \<longrightarrow>
      (\<exists>f. te_step (\<lambda>_. []) (EvTimeout 0) e = Some f \<and> front_armed f)" for r
    using last_request_rearms [OF e(2)] by blast
  with one e(1) a show ?thesis unfolding front_armed_def armed_def reqs_ok_def by blast
qed

text \<open>C11: When a timeout request completes, every parked sleeper whose deadline has passed is resumed; and no sleep ever reports to have expired before its deadline.\<close>

theorem sleepers_fire_on_time:
  assumes "te_run beh evs (mk_timer_env cap now) = Some e"
    and "i < length (te_reqs e)" "completable e (te_reqs e ! i)"
  shows "\<exists>f. te_step beh (EvTimeout i) e = Some f \<and>
     (\<forall>n. st (node f n) = PARKED \<longrightarrow> te_now e < deadline_ns (node f n)) \<and>
     (\<forall>n d t. (n, SleepExpired, d, t) \<in> set (te_log f) \<longrightarrow> d \<le> t)"
proof -
  have ok: "env_ok True e" using te_run_ok [OF mk_timer_env_ok] assms(1) by (metis option.inject)
  let ?e = "e\<lparr>te_reqs := take i (te_reqs e) @ drop (Suc i) (te_reqs e), te_io := te_io e - 1,
    te_inflight := te_inflight e - 1\<rparr>"
  have "reqs_ok ?e" using ok assms(2) by (intro reqs_ok_remove) (simp_all add: env_ok_def)
  then have "env_ok False ?e" using ok by (simp add: env_ok_def sleepers_ok_def log_ok_def)
  then obtain f where f: "timer_on_fire beh ?e = Some f" "env_ok True f" "due (te_now e) f = {}"
    using on_fire_works [of ?e beh] by auto
  have "te_now e < deadline_ns (node f n)" if "st (node f n) = PARKED" for n
  proof -
    have "in_heap (node f n)" using f(2) that by (auto simp: env_ok_def sleepers_ok_def sleeper_fine_def)
    then have "contents (te_timers f) n = Some (deadline_ns (node f n))" by (simp add: contents_def)
    moreover have "n \<notin> due (te_now e) f" using f(3) by simp
    ultimately show ?thesis by (auto simp: due_def not_le)
  qed
  then show ?thesis using f assms(2,3) by (simp add: te_step_def env_ok_def log_ok_def)
qed


lemma timers_never_stranded_witness:
  "\<exists>e. te_run (\<lambda>_. []) [(0, EvAct (ASleep 1 7 100)), (0, EvSubmit), (3, EvAct (ASleep 2 8 50))] (mk_timer_env 8 0) = Some e \<and>
     heap_of e = [2, 1] \<and> \<not> te_arm_pending e \<and>
     (\<exists>r \<in> set (te_reqs e). rq_cancelled r \<or> rq_deadline r \<le> key (te_timers e) 0)"
proof -
  let ?evs = "[(0, EvAct (ASleep 1 7 100)), (0, EvSubmit), (3, EvAct (ASleep 2 8 50))]"
  obtain e where e: "te_run (\<lambda>_. []) ?evs (mk_timer_env 8 0) = Some e" "heap_of e = [2, 1]" "\<not> te_arm_pending e"
    by (simp add: te_step_def mk_timer_env_def sleep_for_def usleeper_raw_sleep_def timer_push_def timer_refresh_def
        get_sqe_def prep_cancel_def prep_timeout_def ring_submit_def set_node_def
        mk_timers_def mk_tnode_def heap_push_def sift_up.simps swap_slots_def set_idx_def upd_node_def key_def par_def Let_def)
  then show ?thesis using timers_never_stranded [of "\<lambda>_. []" ?evs 8 0] by auto
qed

lemma sleepers_fire_on_time_witness:
  "\<exists>e f. te_run (\<lambda>_. []) [(0, EvAct (ASleep 1 7 100)), (0, EvSubmit), (120, EvSubmit)] (mk_timer_env 8 0) = Some e \<and>
     st (node e 1) = PARKED \<and> te_step (\<lambda>_. []) (EvTimeout 0) e = Some f \<and>
     (\<forall>n. st (node f n) = PARKED \<longrightarrow> te_now e < deadline_ns (node f n))"
proof -
  let ?evs = "[(0, EvAct (ASleep 1 7 100)), (0, EvSubmit), (120, EvSubmit)]"
  obtain e where e: "te_run (\<lambda>_. []) ?evs (mk_timer_env 8 0) = Some e" "st (node e 1) = PARKED"
    "0 < length (te_reqs e)" "completable e (te_reqs e ! 0)"
    by (simp add: te_step_def mk_timer_env_def sleep_for_def usleeper_raw_sleep_def timer_push_def timer_refresh_def
        get_sqe_def prep_cancel_def prep_timeout_def ring_submit_def set_node_def completable_def
        mk_timers_def mk_tnode_def heap_push_def sift_up.simps swap_slots_def set_idx_def upd_node_def key_def par_def Let_def)
  then show ?thesis using sleepers_fire_on_time [OF e(1,3,4)] by blast
qed

end
