(* ===== verification/Usync_Sleeper.thy ===== *)
theory Usync_Sleeper
  imports Uco_Timeout
begin

text \<open>
  One \<open>usleeper\<close> (\<open>core/usync.h\<close>, \<open>core/usync.cpp\<close>) used from several threads: any number of
  agents call \<open>sleep_for\<close> and \<open>wake\<close> on it. As in \<open>Usync_Sema\<close> a step of an agent is one access
  to what the threads share: the state of the node, its \<open>prom\<close>, the counter of pending wakes, the
  queue of posted coroutines. Whether the node is in the timer heap of the sleeping thread is
  \<open>sl_heap\<close>; that heap is the subject of \<open>Uco_Timer\<close> and \<open>Uco_Timeout\<close>. A suspended agent runs
  again when the scheduler of its thread takes it from the posted ones, or when its deadline
  passes and the thread wins the race for the node. \<open>sl_owner\<close> only records who has the slot.
\<close>

section \<open>State and steps\<close>

text \<open>
  \<open>sleep_for\<close>: \<open>Z_Xchg\<close> takes the pending wakes, \<open>Z_Cas\<close> claims the slot, \<open>Z_Fill\<close> writes the
  fields, \<open>Z_Park\<close> publishes them, \<open>Z_Push\<close> enters the heap, \<open>Z_Susp\<close> is suspended; then
  \<open>await_resume\<close>: \<open>Z_Load\<close>, \<open>Z_Remove\<close>, \<open>Z_Clear\<close>, \<open>Z_Free\<close>. \<open>wake\<close>: \<open>K_Cas\<close>, \<open>K_Post\<close>, \<open>K_Add\<close>.
\<close>

datatype sleeper_pc =
    Z_Idle
  | Z_Xchg bool | Z_Cas | Z_Fill | Z_Park | Z_Push | Z_Susp
  | Z_Load | Z_Remove node_state | Z_Clear node_state | Z_Free node_state
  | K_Cas | K_Post | K_Add

record sleeper =
  sl_st :: node_state
  sl_prom :: "nat option"
  sl_heap :: "nat option"
  sl_pending :: nat
  sl_posted :: "nat list"
  sl_pcs :: "sleeper_pc list"
  sl_results :: "(nat \<times> sleep_result) list"
  sl_null :: bool
  sl_owner :: "nat option"

definition mk_sleeper :: "nat \<Rightarrow> sleeper" where
  "mk_sleeper agents =
     \<lparr>sl_st = IDLE, sl_prom = None, sl_heap = None, sl_pending = 0, sl_posted = [],
      sl_pcs = replicate agents Z_Idle, sl_results = [], sl_null = False, sl_owner = None\<rparr>"

definition sl_goto :: "nat \<Rightarrow> sleeper_pc \<Rightarrow> sleeper \<Rightarrow> sleeper" where
  "sl_goto i p s = s\<lparr>sl_pcs := (sl_pcs s)[i := p]\<rparr>"

definition sl_return :: "nat \<Rightarrow> sleep_result \<Rightarrow> sleeper \<Rightarrow> sleeper" where
  "sl_return i r s = sl_goto i Z_Idle (s\<lparr>sl_results := sl_results s @ [(i, r)]\<rparr>)"

datatype sleeper_op = OpSleep bool | OpWake

text \<open>\<open>OpSleep\<close> says whether the duration is positive.\<close>

fun sl_start :: "sleeper_op \<Rightarrow> sleeper_pc" where
  "sl_start (OpSleep positive) = Z_Xchg positive"
| "sl_start OpWake = K_Cas"

text \<open>\<open>wake\<close> after it won the node: \<open>push_sync_node_to_thread(node_.prom)\<close>.\<close>

definition sl_post :: "nat option \<Rightarrow> sleeper \<Rightarrow> sleeper" where
  "sl_post p s = (case p of None \<Rightarrow> s\<lparr>sl_null := True\<rparr> | Some w \<Rightarrow> s\<lparr>sl_posted := w # sl_posted s\<rparr>)"

definition sleeper_step :: "nat \<Rightarrow> sleeper \<Rightarrow> sleeper option" where
  "sleeper_step i s =
     (case sl_pcs s ! i of
        Z_Idle \<Rightarrow> None
      | Z_Xchg positive \<Rightarrow>
          Some (if sl_pending s > 0 then sl_return i SleepWoken (s\<lparr>sl_pending := 0\<rparr>)
                else if \<not> positive then sl_return i SleepExpired s
                else sl_goto i Z_Cas s)
      | Z_Cas \<Rightarrow>
          Some (if sl_st s = IDLE then sl_goto i Z_Fill (s\<lparr>sl_st := REGISTERING, sl_owner := Some i\<rparr>)
                else sl_return i SleepBusy s)
      | Z_Fill \<Rightarrow> Some (sl_goto i Z_Park (s\<lparr>sl_prom := Some i\<rparr>))
      | Z_Park \<Rightarrow> Some (sl_goto i Z_Push (s\<lparr>sl_st := PARKED\<rparr>))
      | Z_Push \<Rightarrow> Some (sl_goto i Z_Susp (s\<lparr>sl_heap := Some i\<rparr>))
      | Z_Susp \<Rightarrow>
          (if i \<in> set (sl_posted s) then Some (sl_goto i Z_Load (s\<lparr>sl_posted := remove1 i (sl_posted s)\<rparr>))
           else None)
      | Z_Load \<Rightarrow> Some (sl_goto i (Z_Remove (sl_st s)) s)
      | Z_Remove x \<Rightarrow> Some (sl_goto i (Z_Clear x) (s\<lparr>sl_heap := None\<rparr>))
      | Z_Clear x \<Rightarrow> Some (sl_goto i (Z_Free x) (s\<lparr>sl_prom := None\<rparr>))
      | Z_Free x \<Rightarrow>
          Some (sl_return i (if x = EXPIRED then SleepExpired else SleepWoken) (s\<lparr>sl_st := IDLE, sl_owner := None\<rparr>))
      | K_Cas \<Rightarrow>
          Some (if sl_st s = PARKED then sl_goto i K_Post (s\<lparr>sl_st := WOKEN\<rparr>) else sl_goto i K_Add s)
      | K_Post \<Rightarrow> Some (sl_goto i Z_Idle (sl_post (sl_prom s) s))
      | K_Add \<Rightarrow> Some (sl_goto i Z_Idle (s\<lparr>sl_pending := Suc (sl_pending s)\<rparr>)))"

text \<open>
  \<open>timer_on_fire\<close> on the thread of the suspended agent \<open>i\<close> whose node is due: the node leaves the
  heap, and if it is still parked the agent runs.
\<close>

definition sleeper_fire :: "nat \<Rightarrow> sleeper \<Rightarrow> sleeper option" where
  "sleeper_fire i s =
     (if sl_pcs s ! i = Z_Susp \<and> sl_heap s = Some i
      then Some (let t = s\<lparr>sl_heap := None\<rparr>
                 in if sl_st t = PARKED then sl_goto i Z_Load (t\<lparr>sl_st := EXPIRED\<rparr>) else t)
      else None)"

inductive sleeper_reachable :: "sleeper \<Rightarrow> bool" where
  start: "sleeper_reachable (mk_sleeper agents)"
| call: "sleeper_reachable s \<Longrightarrow> i < length (sl_pcs s) \<Longrightarrow> sl_pcs s ! i = Z_Idle \<Longrightarrow>
    sleeper_reachable (sl_goto i (sl_start f) s)"
| step: "sleeper_reachable s \<Longrightarrow> i < length (sl_pcs s) \<Longrightarrow> sleeper_step i s = Some t \<Longrightarrow> sleeper_reachable t"
| fire: "sleeper_reachable s \<Longrightarrow> i < length (sl_pcs s) \<Longrightarrow> sleeper_fire i s = Some t \<Longrightarrow> sleeper_reachable t"

section \<open>The invariant\<close>

text \<open>The agent that has the slot, agents about to post, and agents that run again.\<close>

fun owning :: "sleeper_pc \<Rightarrow> bool" where
  "owning Z_Fill = True" | "owning Z_Park = True" | "owning Z_Push = True" | "owning Z_Susp = True"
| "owning Z_Load = True" | "owning (Z_Remove _) = True" | "owning (Z_Clear _) = True"
| "owning (Z_Free _) = True" | "owning _ = False"

fun posting :: "sleeper_pc \<Rightarrow> nat" where
  "posting K_Post = 1" | "posting _ = 0"

fun resumed :: "node_state \<Rightarrow> sleeper_pc \<Rightarrow> bool" where
  "resumed x Z_Load = True" | "resumed x (Z_Remove y) = (y = x)" | "resumed x (Z_Clear y) = (y = x)"
| "resumed x (Z_Free y) = (y = x)" | "resumed x _ = False"

definition owner_inv :: "sleeper \<Rightarrow> bool" where
  "owner_inv s \<longleftrightarrow>
     (\<forall>i < length (sl_pcs s). owning (sl_pcs s ! i) \<longleftrightarrow> sl_owner s = Some i) \<and>
     (\<forall>i. sl_owner s = Some i \<longrightarrow> i < length (sl_pcs s))"

text \<open>What the state of the node says about its owner, the posted list, the posters and the heap.\<close>

fun left_heap :: "sleeper_pc \<Rightarrow> bool" where
  "left_heap (Z_Clear _) = True" | "left_heap (Z_Free _) = True" | "left_heap _ = False"

fun slot_inv :: "node_state \<Rightarrow> nat \<Rightarrow> sleeper_pc \<Rightarrow> int \<Rightarrow> nat option \<Rightarrow> nat option \<Rightarrow> nat list \<Rightarrow> bool" where
  "slot_inv IDLE i p k pr hp po \<longleftrightarrow> False"
| "slot_inv REGISTERING i p k pr hp po \<longleftrightarrow>
     k = 0 \<and> po = [] \<and> hp = None \<and> (p = Z_Fill \<or> p = Z_Park \<and> pr = Some i)"
| "slot_inv PARKED i p k pr hp po \<longleftrightarrow>
     k = 0 \<and> po = [] \<and> pr = Some i \<and> (p = Z_Push \<and> hp = None \<or> p = Z_Susp \<and> hp = Some i)"
| "slot_inv WOKEN i p k pr hp po \<longleftrightarrow>
     (hp = None \<or> hp = Some i) \<and> (left_heap p \<longrightarrow> hp = None) \<and>
     ((p = Z_Push \<or> p = Z_Susp) \<and> pr = Some i \<and> (k = 1 \<and> po = [] \<or> k = 0 \<and> po = [i]) \<or>
      resumed WOKEN p \<and> k = 0 \<and> po = [])"
| "slot_inv EXPIRED i p k pr hp po \<longleftrightarrow>
     k = 0 \<and> po = [] \<and> hp = None \<and> resumed EXPIRED p"

definition sleeper_inv :: "sleeper \<Rightarrow> bool" where
  "sleeper_inv s \<longleftrightarrow>
     owner_inv s \<and> \<not> sl_null s \<and>
     (case sl_owner s of
        None \<Rightarrow> sl_st s = IDLE \<and> total posting (sl_pcs s) = 0 \<and> sl_posted s = [] \<and> sl_heap s = None
      | Some i \<Rightarrow> slot_inv (sl_st s) i (sl_pcs s ! i) (total posting (sl_pcs s)) (sl_prom s) (sl_heap s) (sl_posted s))"

lemma sl_goto_fields [simp]:
  "sl_st (sl_goto i p s) = sl_st s" "sl_prom (sl_goto i p s) = sl_prom s" "sl_heap (sl_goto i p s) = sl_heap s"
  "sl_pending (sl_goto i p s) = sl_pending s" "sl_posted (sl_goto i p s) = sl_posted s"
  "sl_pcs (sl_goto i p s) = (sl_pcs s)[i := p]" "sl_results (sl_goto i p s) = sl_results s"
  "sl_null (sl_goto i p s) = sl_null s" "sl_owner (sl_goto i p s) = sl_owner s"
  by (simp_all add: sl_goto_def)

lemma sl_return_fields [simp]:
  "sl_st (sl_return i r s) = sl_st s" "sl_prom (sl_return i r s) = sl_prom s" "sl_heap (sl_return i r s) = sl_heap s"
  "sl_pending (sl_return i r s) = sl_pending s" "sl_posted (sl_return i r s) = sl_posted s"
  "sl_pcs (sl_return i r s) = (sl_pcs s)[i := Z_Idle]" "sl_results (sl_return i r s) = sl_results s @ [(i, r)]"
  "sl_null (sl_return i r s) = sl_null s" "sl_owner (sl_return i r s) = sl_owner s"
  by (simp_all add: sl_return_def)

lemma invD:
  assumes "sleeper_inv s"
  shows "owner_inv s" "\<not> sl_null s"
    "sl_owner s = None \<Longrightarrow> sl_st s = IDLE \<and> total posting (sl_pcs s) = 0 \<and> sl_posted s = [] \<and> sl_heap s = None"
    "sl_owner s = Some i \<Longrightarrow>
       slot_inv (sl_st s) i (sl_pcs s ! i) (total posting (sl_pcs s)) (sl_prom s) (sl_heap s) (sl_posted s)"
  using assms by (simp_all add: sleeper_inv_def)

lemma ownerD: "sleeper_inv s \<Longrightarrow> i < length (sl_pcs s) \<Longrightarrow> owning (sl_pcs s ! i) \<longleftrightarrow> sl_owner s = Some i"
  by (simp add: sleeper_inv_def owner_inv_def)

lemma idle_owner: "sleeper_inv s \<Longrightarrow> sl_st s = IDLE \<longleftrightarrow> sl_owner s = None"
  by (cases "sl_owner s") (auto simp: sleeper_inv_def)

text \<open>An agent without the slot moves on without it and without posting.\<close>

lemma bystander_inv:
  assumes "sleeper_inv s" "i < length (sl_pcs s)" "\<not> owning (sl_pcs s ! i)" "\<not> owning p"
    "posting (sl_pcs s ! i) = 0" "posting p = 0"
    "sl_pcs t = (sl_pcs s)[i := p]" "sl_st t = sl_st s" "sl_prom t = sl_prom s" "sl_heap t = sl_heap s"
    "sl_posted t = sl_posted s" "sl_null t = sl_null s" "sl_owner t = sl_owner s"
  shows "sleeper_inv t"
proof -
  have o: "sl_owner s \<noteq> Some i" using ownerD [OF assms(1,2)] assms(3) by simp
  have k: "total posting (sl_pcs t) = total posting (sl_pcs s)" using assms(2,5-7) by (simp add: total_update)
  have "owner_inv t" using assms(1,2,4,7,13) o by (auto simp: sleeper_inv_def owner_inv_def nth_list_update)
  then show ?thesis using assms o k by (auto simp: sleeper_inv_def nth_list_update split: option.splits)
qed

text \<open>The owner of the slot moves on.\<close>

lemma owner_inv_step:
  assumes "sleeper_inv s" "i < length (sl_pcs s)" "owning (sl_pcs s ! i)" "owning p"
    "sl_pcs t = (sl_pcs s)[i := p]" "\<not> sl_null t" "sl_owner t = Some i"
    "slot_inv (sl_st t) i p (total posting (sl_pcs s)) (sl_prom t) (sl_heap t) (sl_posted t)"
  shows "sleeper_inv t"
proof -
  have o: "sl_owner s = Some i" using ownerD [OF assms(1,2)] assms(3) by simp
  have "posting (sl_pcs s ! i) = 0" "posting p = 0" using assms(3,4) by (cases "sl_pcs s ! i"; cases p; simp)+
  then have "total posting (sl_pcs t) = total posting (sl_pcs s)" using assms(2,5) by (simp add: total_update)
  moreover have "owner_inv t" using assms(1,2,4,5,7) o by (auto simp: sleeper_inv_def owner_inv_def nth_list_update)
  ultimately show ?thesis using assms(2,5-8) by (simp add: sleeper_inv_def)
qed

lemma posting_le: "i < length xs \<Longrightarrow> posting (xs ! i) = 1 \<Longrightarrow> 1 \<le> total posting xs"
  using total_ge [of i xs posting] by simp

text \<open>A waker wins the node, and later posts its owner.\<close>

lemma poster_inv:
  assumes "sleeper_inv s" "i < length (sl_pcs s)" "\<not> owning (sl_pcs s ! i)" "\<not> owning p"
    "sl_pcs t = (sl_pcs s)[i := p]" "\<not> sl_null t" "sl_owner t = sl_owner s" "sl_owner s = Some j"
    "slot_inv (sl_st t) j (sl_pcs s ! j) (total posting (sl_pcs s) + int (posting p) - int (posting (sl_pcs s ! i)))
       (sl_prom t) (sl_heap t) (sl_posted t)"
  shows "sleeper_inv t"
proof -
  have o: "sl_owner s \<noteq> Some i" using ownerD [OF assms(1,2)] assms(3) by simp
  have "owner_inv t" using assms(1,2,4,5,7) o by (auto simp: sleeper_inv_def owner_inv_def nth_list_update)
  then show ?thesis using assms(2,5-9) o by (simp add: sleeper_inv_def total_update)
qed

lemma sleeper_step_inv:
  assumes "sleeper_inv s" "i < length (sl_pcs s)" "sleeper_step i s = Some t"
  shows "sleeper_inv t"
proof -
  note own = ownerD [OF assms(1,2)] and oD = invD(4) [OF assms(1), of i] and st = assms(3)
  show ?thesis
  proof (cases "sl_pcs s ! i")
    case Z_Idle
    then show ?thesis using st by (simp add: sleeper_step_def)
  next
    case (Z_Xchg p)
    then show ?thesis using st assms
      by (intro bystander_inv [OF assms(1,2), of "if sl_pending s > 0 \<or> \<not> p then Z_Idle else Z_Cas"])
         (auto simp: sleeper_step_def split: if_splits)
  next
    case Z_Cas
    show ?thesis
    proof (cases "sl_st s = IDLE")
      case True
      then have n: "sl_owner s = None" using idle_owner [OF assms(1)] by simp
      have t: "t = sl_goto i Z_Fill (s\<lparr>sl_st := REGISTERING, sl_owner := Some i\<rparr>)"
        using st Z_Cas True by (simp add: sleeper_step_def)
      have "owner_inv t" using invD(1) [OF assms(1)] assms(2) n by (auto simp: owner_inv_def t nth_list_update)
      then show ?thesis using invD(2,3) [OF assms(1)] n assms(2) Z_Cas by (simp add: sleeper_inv_def t total_update)
    next
      case False
      then show ?thesis using st Z_Cas assms
        by (intro bystander_inv [OF assms(1,2), of Z_Idle]) (auto simp: sleeper_step_def)
    qed
  next
    case Z_Fill
    then show ?thesis using st oD own invD(2) [OF assms(1)]
      by (intro owner_inv_step [OF assms(1,2), of Z_Park]) (cases "sl_st s"; auto simp: sleeper_step_def)+
  next
    case Z_Park
    then show ?thesis using st oD own invD(2) [OF assms(1)]
      by (intro owner_inv_step [OF assms(1,2), of Z_Push]) (cases "sl_st s"; auto simp: sleeper_step_def)+
  next
    case Z_Push
    then show ?thesis using st oD own invD(2) [OF assms(1)]
      by (intro owner_inv_step [OF assms(1,2), of Z_Susp]) (cases "sl_st s"; auto simp: sleeper_step_def)+
  next
    case Z_Susp
    then show ?thesis using st oD own invD(2) [OF assms(1)]
      by (intro owner_inv_step [OF assms(1,2), of Z_Load])
         (cases "sl_st s"; auto simp: sleeper_step_def split: if_splits)+
  next
    case Z_Load
    then show ?thesis using st oD own invD(2) [OF assms(1)]
      by (intro owner_inv_step [OF assms(1,2), of "Z_Remove (sl_st s)"]) (cases "sl_st s"; auto simp: sleeper_step_def)+
  next
    case (Z_Remove x)
    then show ?thesis using st oD own invD(2) [OF assms(1)]
      by (intro owner_inv_step [OF assms(1,2), of "Z_Clear x"]) (cases "sl_st s"; auto simp: sleeper_step_def)+
  next
    case (Z_Clear x)
    then show ?thesis using st oD own invD(2) [OF assms(1)]
      by (intro owner_inv_step [OF assms(1,2), of "Z_Free x"]) (cases "sl_st s"; auto simp: sleeper_step_def)+
  next
    case (Z_Free x)
    have t: "sl_pcs t = (sl_pcs s)[i := Z_Idle]" "sl_st t = IDLE" "sl_owner t = None" "sl_heap t = sl_heap s"
      "sl_posted t = sl_posted s" "sl_null t = sl_null s" using st Z_Free by (auto simp: sleeper_step_def)
    have "slot_inv (sl_st s) i (Z_Free x) (total posting (sl_pcs s)) (sl_prom s) (sl_heap s) (sl_posted s)"
      using oD own Z_Free by simp
    then have "total posting (sl_pcs s) = 0 \<and> sl_posted s = [] \<and> sl_heap s = None" by (cases "sl_st s") auto
    moreover have "owner_inv t" using invD(1) [OF assms(1)] own Z_Free assms(2) by (auto simp: owner_inv_def t nth_list_update)
    ultimately show ?thesis using invD(2) [OF assms(1)] assms(2) Z_Free by (simp add: sleeper_inv_def t total_update)
  next
    case K_Cas
    show ?thesis
    proof (cases "sl_st s = PARKED")
      case True
      then obtain j where "sl_owner s = Some j" using idle_owner [OF assms(1)] by fastforce
      then show ?thesis using st K_Cas True invD(2) [OF assms(1)] invD(4) [OF assms(1), of j]
        by (intro poster_inv [OF assms(1,2), of K_Post _ j]) (auto simp: sleeper_step_def)
    next
      case False
      then show ?thesis using st K_Cas assms
        by (intro bystander_inv [OF assms(1,2), of K_Add]) (auto simp: sleeper_step_def)
    qed
  next
    case K_Post
    have k: "1 \<le> total posting (sl_pcs s)" using posting_le [OF assms(2)] K_Post by simp
    then obtain j where j: "sl_owner s = Some j" using invD(3) [OF assms(1)] by (cases "sl_owner s") auto
    have w: "sl_st s = WOKEN \<and> sl_prom s = Some j \<and> total posting (sl_pcs s) = 1 \<and> sl_posted s = []"
      using invD(4) [OF assms(1) j] k by (cases "sl_st s") auto
    show ?thesis using st K_Post w j invD(2) [OF assms(1)] invD(4) [OF assms(1) j]
      by (intro poster_inv [OF assms(1,2), of Z_Idle _ j]) (auto simp: sleeper_step_def sl_post_def)
  next
    case K_Add
    then show ?thesis using st assms
      by (intro bystander_inv [OF assms(1,2), of Z_Idle]) (auto simp: sleeper_step_def)
  qed
qed

lemma sleeper_fire_inv:
  assumes "sleeper_inv s" "i < length (sl_pcs s)" "sleeper_fire i s = Some t"
  shows "sleeper_inv t"
proof -
  have p: "sl_pcs s ! i = Z_Susp" "sl_heap s = Some i" using assms(3) by (simp_all add: sleeper_fire_def split: if_splits)
  have o: "sl_owner s = Some i" using ownerD [OF assms(1,2)] p by simp
  note d = invD(4) [OF assms(1) o]
  show ?thesis
  proof (cases "sl_st s = PARKED")
    case True
    then show ?thesis using assms(3) p d o invD(2) [OF assms(1)]
      by (intro owner_inv_step [OF assms(1,2), of Z_Load]) (auto simp: sleeper_fire_def)
  next
    case False
    then have "t = s\<lparr>sl_heap := None\<rparr>" using assms(3) p by (simp add: sleeper_fire_def)
    then show ?thesis using assms(1) d o p False by (cases "sl_st s") (auto simp: sleeper_inv_def owner_inv_def)
  qed
qed

lemma sleeper_reachable_inv: "sleeper_reachable s \<Longrightarrow> sleeper_inv s"
proof (induction rule: sleeper_reachable.induct)
  case (start agents)
  then show ?case by (simp add: mk_sleeper_def sleeper_inv_def owner_inv_def total_replicate)
next
  case (call s i f)
  then show ?case by (rule_tac bystander_inv [of s i "sl_start f"]) (cases f; simp)+
qed (blast intro: sleeper_step_inv sleeper_fire_inv)+

section \<open>Properties\<close>

text \<open>Runs: the agent and what it does; \<open>None\<close> lets it make a step.\<close>

datatype sleeper_act = Call sleeper_op | Step | Fire

fun sleeper_run :: "(nat \<times> sleeper_act) list \<Rightarrow> sleeper \<Rightarrow> sleeper option" where
  "sleeper_run [] s = Some s"
| "sleeper_run ((i, a) # acts) s =
     (if i < length (sl_pcs s)
      then (case (case a of
                    Call f \<Rightarrow> if sl_pcs s ! i = Z_Idle then Some (sl_goto i (sl_start f) s) else None
                  | Step \<Rightarrow> sleeper_step i s
                  | Fire \<Rightarrow> sleeper_fire i s) of
              None \<Rightarrow> None | Some t \<Rightarrow> sleeper_run acts t)
      else None)"

lemma sleeper_run_reachable: "sleeper_run acts s = Some t \<Longrightarrow> sleeper_reachable s \<Longrightarrow> sleeper_reachable t"
  by (induction acts s rule: sleeper_run.induct)
     (auto split: if_splits option.splits sleeper_act.splits
       intro: sleeper_reachable.call sleeper_reachable.step sleeper_reachable.fire)

text \<open>
  The wake-ups on their way to agent \<open>i\<close>: the timer, while its node is parked in the heap; a posting of
  its coroutine; a waker that is about to post it.
\<close>

definition wakeups :: "nat \<Rightarrow> sleeper \<Rightarrow> int" where
  "wakeups i s =
     (if sl_st s = PARKED \<and> sl_heap s = Some i then 1 else 0) + int (count_list (sl_posted s) i) +
     (if sl_prom s = Some i then total posting (sl_pcs s) else 0)"

lemma posting_K_Post: "posting x \<noteq> 0 \<longleftrightarrow> x = K_Post"
  by (cases x) simp_all

lemma poster_exists: "total posting xs = 1 \<Longrightarrow> \<exists>w < length xs. xs ! w = K_Post"
  using total_pos [of posting xs] posting_K_Post by auto

lemma wakeups_owner:
  assumes "sleeper_inv s" "sl_owner s = Some i"
  shows "wakeups i s =
    (if sl_pcs s ! i = Z_Susp \<or> sl_pcs s ! i = Z_Push \<and> sl_st s = WOKEN then 1 else 0)"
  using invD(4) [OF assms] by (cases "sl_st s") (auto simp: wakeups_def)

lemma wakeups_other:
  assumes "sleeper_inv s" "sl_owner s \<noteq> Some i"
  shows "wakeups i s = 0"
proof (cases "sl_owner s")
  case None
  then show ?thesis using invD(3) [OF assms(1)] by (simp add: wakeups_def)
next
  case (Some j)
  then show ?thesis using invD(4) [OF assms(1) Some] assms(2) by (cases "sl_st s") (auto simp: wakeups_def)
qed

text \<open>
  C12: Whatever threads sleep on and wake one sleeper, in any interleaving, the pointer a waker reads
  is never null, at most one coroutine has the slot, and a suspended sleeper has exactly one wake-up
  on its way: its timer, or the posting of its coroutine, or one waker about to post it. Whichever it
  is, that step can be made, and resumes the sleeper or posts it. A sleeper that runs again has none
  left, and neither has anybody else: it is not resumed a second time. (Whether its thread still
  takes posted coroutines is the matter of the scheduler, see \<open>sleeper_exit_race\<close>.)
\<close>

theorem sleeper_woken_once:
  assumes "sleeper_reachable s"
  shows "\<not> sl_null s \<and>
    (\<forall>i < length (sl_pcs s).
       (\<forall>j < length (sl_pcs s). owning (sl_pcs s ! i) \<longrightarrow> owning (sl_pcs s ! j) \<longrightarrow> i = j) \<and>
       wakeups i s = (if sl_pcs s ! i = Z_Susp \<or> sl_pcs s ! i = Z_Push \<and> sl_st s = WOKEN then 1 else 0) \<and>
       (sl_pcs s ! i = Z_Susp \<longrightarrow>
          (\<exists>t. (sleeper_fire i s = Some t \<or> sleeper_step i s = Some t) \<and> sl_pcs t ! i = Z_Load \<and> wakeups i t = 0) \<or>
          (\<exists>w < length (sl_pcs s). \<exists>t. sl_pcs s ! w = K_Post \<and> sleeper_step w s = Some t \<and> sl_posted t = [i] \<and>
             sl_pcs t ! i = Z_Susp \<and> wakeups i t = 1)))"
proof -
  note inv = sleeper_reachable_inv [OF assms]
  have one: "i = j" if "i < length (sl_pcs s)" "j < length (sl_pcs s)" "owning (sl_pcs s ! i)" "owning (sl_pcs s ! j)" for i j
    using ownerD [OF inv that(1)] ownerD [OF inv that(2)] that by simp
  have count: "wakeups i s = (if sl_pcs s ! i = Z_Susp \<or> sl_pcs s ! i = Z_Push \<and> sl_st s = WOKEN then 1 else 0)"
    if "i < length (sl_pcs s)" for i
    using wakeups_owner [OF inv, of i] wakeups_other [OF inv, of i] ownerD [OF inv that] by auto
  have move: "(\<exists>t. (sleeper_fire i s = Some t \<or> sleeper_step i s = Some t) \<and> sl_pcs t ! i = Z_Load \<and> wakeups i t = 0) \<or>
      (\<exists>w < length (sl_pcs s). \<exists>t. sl_pcs s ! w = K_Post \<and> sleeper_step w s = Some t \<and> sl_posted t = [i] \<and>
         sl_pcs t ! i = Z_Susp \<and> wakeups i t = 1)"
    if i: "i < length (sl_pcs s)" "sl_pcs s ! i = Z_Susp" for i
  proof -
    have o: "sl_owner s = Some i" using ownerD [OF inv i(1)] i(2) by simp
    note d = invD(4) [OF inv o, unfolded i(2)]
    consider "sl_st s = PARKED" "sl_heap s = Some i"
      | "sl_st s = WOKEN" "sl_posted s = [i]"
      | "sl_st s = WOKEN" "sl_posted s = []" "total posting (sl_pcs s) = 1" "sl_prom s = Some i"
      using d by (cases "sl_st s") auto
    then show ?thesis
    proof cases
      case 1
      then obtain t where t: "sleeper_fire i s = Some t" "sl_pcs t ! i = Z_Load" "sl_owner t = Some i"
        using i o by (simp add: sleeper_fire_def)
      with wakeups_owner [OF sleeper_fire_inv [OF inv i(1) t(1)], of i] show ?thesis by auto
    next
      case 2
      then obtain t where t: "sleeper_step i s = Some t" "sl_pcs t ! i = Z_Load" "sl_owner t = Some i"
        using i o by (simp add: sleeper_step_def)
      with wakeups_owner [OF sleeper_step_inv [OF inv i(1) t(1)], of i] show ?thesis by auto
    next
      case 3
      then obtain w where w: "w < length (sl_pcs s)" "sl_pcs s ! w = K_Post" using poster_exists by blast
      then have "w \<noteq> i" using i(2) by auto
      then obtain t where t: "sleeper_step w s = Some t" "sl_posted t = [i]" "sl_pcs t ! i = Z_Susp" "sl_owner t = Some i"
        using 3 w i o by (simp add: sleeper_step_def sl_post_def)
      with wakeups_owner [OF sleeper_step_inv [OF inv w(1) t(1)], of i] w show ?thesis by auto
    qed
  qed
  show ?thesis using one count move invD(2) [OF inv] by blast
qed

definition sleep_then :: "(nat \<times> sleeper_act) list \<Rightarrow> (nat \<times> sleeper_act) list" where
  "sleep_then rest = [(0, Call (OpSleep True)), (0, Step), (0, Step), (0, Step), (0, Step), (0, Step)] @ rest"

lemma sleeper_woken_once_witness:
  "\<exists>s. sleeper_run (sleep_then [(1, Call OpWake), (1, Step)]) (mk_sleeper 2) = Some s \<and>
     sl_pcs s ! 0 = Z_Susp \<and> 0 \<notin> set (sl_posted s) \<and> sl_prom s = Some 0 \<and> wakeups 0 s = 1"
proof -
  obtain s where s: "sleeper_run (sleep_then [(1, Call OpWake), (1, Step)]) (mk_sleeper 2) = Some s"
    "sl_pcs s ! 0 = Z_Susp" "sl_posted s = []" "sl_prom s = Some 0" "length (sl_pcs s) = 2"
    by (simp add: sleep_then_def mk_sleeper_def sleeper_step_def sl_return_def sl_goto_def numeral_2_eq_2)
  have "sleeper_reachable s" using s(1) sleeper_reachable.start by (rule sleeper_run_reachable)
  from sleeper_woken_once [OF this] s have "wakeups 0 s = 1" by auto
  with s show ?thesis by auto
qed

text \<open>A wake-up that arrives after a sleeper has looked at the pending ones and before it is parked does not interrupt that sleep: the sleeper is suspended with a wake-up pending, nobody will post it, and it sleeps until its deadline.\<close>

theorem sleeper_wake_window:
  "\<exists>s t. sleeper_run ([(0, Call (OpSleep True)), (0, Step), (1, Call OpWake), (1, Step), (1, Step)] @
            replicate 4 (0, Step)) (mk_sleeper 2) = Some s \<and>
     sleeper_reachable s \<and> sl_pcs s = [Z_Susp, Z_Idle] \<and> sl_pending s = 1 \<and>
     sleeper_step 0 s = None \<and> sleeper_step 1 s = None \<and>
     sleeper_run ((0, Fire) # replicate 4 (0, Step)) s = Some t \<and>
     sl_results t = [(0, SleepExpired)] \<and> sl_pending t = 1"
proof -
  let ?run = "[(0, Call (OpSleep True)), (0, Step), (1, Call OpWake), (1, Step), (1, Step)] @ replicate 4 (0, Step)"
  obtain s where s: "sleeper_run ?run (mk_sleeper 2) = Some s"
    and v: "s = \<lparr>sl_st = PARKED, sl_prom = Some 0, sl_heap = Some 0, sl_pending = 1, sl_posted = [],
      sl_pcs = [Z_Susp, Z_Idle], sl_results = [], sl_null = False, sl_owner = Some 0\<rparr>"
    by (simp add: mk_sleeper_def sleeper_step_def sl_return_def sl_goto_def numeral_2_eq_2 numeral_eq_Suc)
  have r: "sleeper_reachable s" using s sleeper_reachable.start by (rule sleeper_run_reachable)
  have "sleeper_step 0 s = None \<and> sleeper_step 1 s = None" by (simp add: v sleeper_step_def)
  moreover obtain t where "sleeper_run ((0, Fire) # replicate 4 (0, Step)) s = Some t"
     "sl_results t = [(0, SleepExpired)] \<and> sl_pending t = 1"
    by (simp add: v sleeper_step_def sleeper_fire_def sl_return_def sl_goto_def numeral_eq_Suc)
  ultimately show ?thesis using s r v by (intro exI [of _ s] exI [of _ t]) simp
qed

text \<open>
  The check of \<open>schedule\<close> before its thread ends counts io requests, coroutines parked on
  semaphores, posted coroutines and armed timers. Of one sleeper it sees this much.
\<close>

definition thread_sees_sleeper :: "nat \<Rightarrow> sleeper \<Rightarrow> bool" where
  "thread_sees_sleeper i s \<longleftrightarrow> sl_heap s = Some i \<or> i \<in> set (sl_posted s)"

text \<open>When the deadline passes between the two steps of a waker, the sleeper has left the heap and is not posted yet: the scheduler of its thread sees no trace of the suspended coroutine and may end, and the coroutine is then posted to a thread that does not run it any more.\<close>

theorem sleeper_exit_race:
  "\<exists>s. sleeper_run (sleep_then [(1, Call OpWake), (1, Step), (0, Fire)]) (mk_sleeper 2) = Some s \<and>
     sleeper_reachable s \<and> sl_pcs s ! 0 = Z_Susp \<and> \<not> thread_sees_sleeper 0 s \<and>
     sl_pcs s ! 1 = K_Post \<and> (\<exists>t. sleeper_step 1 s = Some t \<and> sl_posted t = [0])"
proof -
  let ?run = "sleep_then [(1, Call OpWake), (1, Step), (0, Fire)]"
  obtain s where s: "sleeper_run ?run (mk_sleeper 2) = Some s"
    and v: "s = \<lparr>sl_st = WOKEN, sl_prom = Some 0, sl_heap = None, sl_pending = 0, sl_posted = [],
      sl_pcs = [Z_Susp, K_Post], sl_results = [], sl_null = False, sl_owner = Some 0\<rparr>"
    by (simp add: sleep_then_def mk_sleeper_def sleeper_step_def sleeper_fire_def sl_return_def sl_goto_def numeral_2_eq_2 Let_def)
  have r: "sleeper_reachable s" using s sleeper_reachable.start by (rule sleeper_run_reachable)
  show ?thesis using s r
    by (intro exI [of _ s]) (simp add: v thread_sees_sleeper_def sleeper_step_def sl_post_def sl_goto_def)
qed

end
