(* ===== verification/Http_Lru.thy ===== *)
theory Http_Lru
  imports Uco_Prelude
begin

text \<open>
  The cache of \<open>StaticResourcePool\<close> (\<open>LRUCache\<close> in \<open>http/httpresponce.h\<close>): a list of nodes in the
  order of their last use and a map from keys to iterators. It refines an association list;
  \<open>lru_keeps_recent\<close> is what the pool relies on.
\<close>

section \<open>The cache\<close>

text \<open>
  \<open>lru\<close> is a list of nodes and \<open>cache\<close> maps keys to iterators, which stay valid when nodes move.
  A node is a key and a file object, given by its number.
\<close>

record lru_cache =
  lru_cap :: nat
  lru_map :: "string \<Rightarrow> nat option"
  lru_list :: "nat list"
  lru_node :: "nat \<Rightarrow> string \<times> nat"
  lru_next :: nat

definition mk_lru :: "nat \<Rightarrow> lru_cache" where
  "mk_lru cap = \<lparr>lru_cap = cap, lru_map = \<lambda>_. None, lru_list = [], lru_node = \<lambda>_. ([], 0), lru_next = 0\<rparr>"

text \<open>\<open>None\<close> stands for the fresh object with descriptor -1 that \<open>get\<close> and \<open>put\<close> return.\<close>

definition lru_get :: "string \<Rightarrow> lru_cache \<Rightarrow> nat option \<times> lru_cache" where
  "lru_get key l =
     (case lru_map l key of
        None \<Rightarrow> (None, l)
      | Some it \<Rightarrow> (Some (snd (lru_node l it)), l\<lparr>lru_list := it # remove1 it (lru_list l)\<rparr>))"

definition lru_put :: "string \<Rightarrow> nat \<Rightarrow> lru_cache \<Rightarrow> nat option \<times> lru_cache" where
  "lru_put key v l =
     (case lru_map l key of
        None \<Rightarrow>
          let l1 = (if length (lru_list l) = lru_cap l then
                      let back = last (lru_list l)
                      in l\<lparr>lru_map := (lru_map l)(fst (lru_node l back) := None), lru_list := butlast (lru_list l)\<rparr>
                    else l);
              n = lru_next l1
          in (None, l1\<lparr>lru_list := n # lru_list l1, lru_node := (lru_node l1)(n := (key, v)),
                       lru_map := (lru_map l1)(key \<mapsto> n), lru_next := Suc n\<rparr>)
      | Some it \<Rightarrow> (Some (snd (lru_node l it)), l\<lparr>lru_list := it # remove1 it (lru_list l)\<rparr>))"

definition lru_entries :: "lru_cache \<Rightarrow> (string \<times> nat) list" where
  "lru_entries l = map (lru_node l) (lru_list l)"

definition lru_ok :: "lru_cache \<Rightarrow> bool" where
  "lru_ok l \<longleftrightarrow>
     distinct (lru_list l) \<and> (\<forall>it \<in> set (lru_list l). it < lru_next l) \<and>
     (\<forall>k it. lru_map l k = Some it \<longleftrightarrow> it \<in> set (lru_list l) \<and> fst (lru_node l it) = k) \<and>
     length (lru_list l) \<le> lru_cap l \<and> 0 < lru_cap l"

text \<open>What the cache is for: the entries in the order of their last use.\<close>

definition use_entry :: "string \<Rightarrow> nat \<Rightarrow> (string \<times> nat) list \<Rightarrow> (string \<times> nat) list" where
  "use_entry k v es = (k, v) # filter (\<lambda>e. fst e \<noteq> k) es"

definition spec_get :: "string \<Rightarrow> (string \<times> nat) list \<Rightarrow> nat option \<times> (string \<times> nat) list" where
  "spec_get k es = (case map_of es k of None \<Rightarrow> (None, es) | Some v \<Rightarrow> (Some v, use_entry k v es))"

definition spec_put :: "nat \<Rightarrow> string \<Rightarrow> nat \<Rightarrow> (string \<times> nat) list \<Rightarrow> nat option \<times> (string \<times> nat) list" where
  "spec_put cap k v es =
     (case map_of es k of
        None \<Rightarrow> (None, (k, v) # (if length es = cap then butlast es else es))
      | Some w \<Rightarrow> (Some w, use_entry k w es))"

lemma lru_distinct: "lru_ok l \<Longrightarrow> distinct (map fst (lru_entries l))"
proof -
  assume l: "lru_ok l"
  have "inj_on (fst \<circ> lru_node l) (set (lru_list l))"
  proof (rule inj_onI)
    fix x y assume *: "x \<in> set (lru_list l)" "y \<in> set (lru_list l)" "(fst \<circ> lru_node l) x = (fst \<circ> lru_node l) y"
    then have "lru_map l (fst (lru_node l x)) = Some x" "lru_map l (fst (lru_node l x)) = Some y"
      using l by (auto simp: lru_ok_def)
    then show "x = y" by simp
  qed
  then show ?thesis using l by (simp add: lru_entries_def lru_ok_def distinct_map)
qed

lemma lru_lookup:
  assumes "lru_ok l"
  shows "map_of (lru_entries l) k = map_option (\<lambda>it. snd (lru_node l it)) (lru_map l k)"
proof (cases "lru_map l k")
  case None
  have "k \<noteq> fst (lru_node l it)" if "it \<in> set (lru_list l)" for it
    using assms None that by (metis lru_ok_def option.distinct(1))
  then have "k \<notin> (\<lambda>it. fst (lru_node l it)) ` set (lru_list l)" by blast
  then have "k \<notin> fst ` set (lru_entries l)" by (simp add: lru_entries_def image_image)
  then show ?thesis using None by (simp add: map_of_eq_None_iff)
next
  case (Some it)
  have "it \<in> set (lru_list l)" "fst (lru_node l it) = k" using assms Some by (auto simp: lru_ok_def)
  then have "(k, snd (lru_node l it)) \<in> set (lru_entries l)" by (force simp: lru_entries_def)
  then show ?thesis using lru_distinct [OF assms] Some by simp
qed

lemma map_splice:
  assumes "distinct xs" "x \<in> set xs" "inj_on (fst \<circ> f) (set xs)"
  shows "map f (x # remove1 x xs) = f x # filter (\<lambda>e. fst e \<noteq> fst (f x)) (map f xs)"
proof -
  have "remove1 x xs = filter (\<lambda>y. y \<noteq> x) xs" using assms(1) by (simp add: distinct_remove1_removeAll removeAll_filter_not_eq eq_commute)
  also have "\<dots> = filter (\<lambda>y. fst (f y) \<noteq> fst (f x)) xs"
    using assms by (intro filter_cong) (auto simp: inj_on_def)
  finally show ?thesis by (simp add: filter_map comp_def)
qed

lemma lru_inj: "lru_ok l \<Longrightarrow> inj_on (fst \<circ> lru_node l) (set (lru_list l))"
  using lru_distinct [of l] by (simp add: lru_entries_def distinct_map)

lemma lru_hit:
  assumes "lru_ok l" "lru_map l k = Some it"
  defines "m \<equiv> l\<lparr>lru_list := it # remove1 it (lru_list l)\<rparr>"
  shows "lru_ok m" "lru_entries m = use_entry k (snd (lru_node l it)) (lru_entries l)"
proof -
  have it: "it \<in> set (lru_list l)" "fst (lru_node l it) = k" using assms(1,2) by (auto simp: lru_ok_def)
  have d: "distinct (lru_list l)" using assms(1) by (simp add: lru_ok_def)
  have s: "set (it # remove1 it (lru_list l)) = set (lru_list l)" using it d by auto
  have n: "length (it # remove1 it (lru_list l)) = length (lru_list l)" using it length_pos_if_in_set [OF it(1)] by (simp add: length_remove1)
  have "lru_list m = it # remove1 it (lru_list l)" by (simp add: m_def)
  moreover have "distinct (lru_list m)" using d by (simp add: m_def)
  ultimately show "lru_ok m" using assms(1) s n by (simp add: lru_ok_def m_def)
  have "lru_node l it = (k, snd (lru_node l it))" using it(2) by (metis prod.collapse)
  then show "lru_entries m = use_entry k (snd (lru_node l it)) (lru_entries l)"
    using map_splice [OF d it(1) lru_inj [OF assms(1)]] it(2) by (simp add: m_def lru_entries_def use_entry_def)
qed

lemma lru_new:
  assumes "lru_ok l" "lru_map l k = None"
  shows "lru_ok (snd (lru_put k v l))" "lru_entries (snd (lru_put k v l)) = snd (spec_put (lru_cap l) k v (lru_entries l))"
proof -
  define l1 where "l1 = (if length (lru_list l) = lru_cap l then
       l\<lparr>lru_map := (lru_map l)(fst (lru_node l (last (lru_list l))) := None), lru_list := butlast (lru_list l)\<rparr> else l)"
  have m: "lru_map l x = Some it \<longleftrightarrow> it \<in> set (lru_list l) \<and> fst (lru_node l it) = x" for x it
    using assms(1) by (auto simp: lru_ok_def)
  have l1: "distinct (lru_list l1)" "length (lru_list l1) < lru_cap l" "\<forall>it \<in> set (lru_list l1). it < lru_next l1"
    "lru_cap l1 = lru_cap l" "lru_node l1 = lru_node l" "lru_map l1 k = None"
    "lru_map l1 x = Some it \<longleftrightarrow> it \<in> set (lru_list l1) \<and> fst (lru_node l it) = x" for x it
  proof -
    show "distinct (lru_list l1)" "\<forall>it \<in> set (lru_list l1). it < lru_next l1" "lru_cap l1 = lru_cap l" "lru_node l1 = lru_node l"
      "length (lru_list l1) < lru_cap l" "lru_map l1 k = None"
      using assms by (auto simp: l1_def lru_ok_def distinct_butlast dest: in_set_butlastD)
    show "lru_map l1 x = Some it \<longleftrightarrow> it \<in> set (lru_list l1) \<and> fst (lru_node l it) = x"
    proof (cases "length (lru_list l) = lru_cap l")
      case True
      then have "lru_list l \<noteq> []" using assms(1) by (auto simp: lru_ok_def)
      then obtain xs y where h: "lru_list l = xs @ [y]" by (metis rev_exhaust)
      have d: "y \<notin> set xs" using assms(1) h by (auto simp: lru_ok_def)
      have i: "fst (lru_node l a) = fst (lru_node l b) \<Longrightarrow> a \<in> set (lru_list l) \<Longrightarrow> b \<in> set (lru_list l) \<Longrightarrow> a = b" for a b
        using lru_inj [OF assms(1)] by (auto simp: inj_on_def)
      show ?thesis using True m [of x it] i [of it y] d by (auto simp: l1_def h)
    qed (simp add: l1_def m)
  qed
  have p: "lru_put k v l = (None, l1\<lparr>lru_list := lru_next l1 # lru_list l1, lru_node := (lru_node l1)(lru_next l1 := (k, v)),
        lru_map := (lru_map l1)(k \<mapsto> lru_next l1), lru_next := Suc (lru_next l1)\<rparr>)"
    using assms(2) by (simp add: lru_put_def l1_def Let_def)
  have "0 < lru_cap l" using assms(1) by (simp add: lru_ok_def)
  then show "lru_ok (snd (lru_put k v l))"
    using l1 unfolding p lru_ok_def by (auto simp: less_Suc_eq) (metis option.distinct(1))+
  have "map (lru_node (snd (lru_put k v l))) (lru_list l1) = map (lru_node l) (lru_list l1)"
    using l1(3,5) by (intro map_cong) (auto simp: p)
  then have "lru_entries (snd (lru_put k v l)) = (k, v) # map (lru_node l) (lru_list l1)"
    by (simp add: lru_entries_def p)
  moreover have "map_of (lru_entries l) k = None" using lru_lookup [OF assms(1), of k] assms(2) by simp
  ultimately show "lru_entries (snd (lru_put k v l)) = snd (spec_put (lru_cap l) k v (lru_entries l))"
    by (simp add: spec_put_def l1_def lru_entries_def map_butlast)
qed

text \<open>The two operations refine the specification.\<close>

lemma lru_get_refines:
  assumes "lru_ok l"
  shows "lru_ok (snd (lru_get k l))" "fst (lru_get k l) = fst (spec_get k (lru_entries l))"
    "lru_entries (snd (lru_get k l)) = snd (spec_get k (lru_entries l))" "lru_cap (snd (lru_get k l)) = lru_cap l"
  using assms lru_hit [OF assms, of k] lru_lookup [OF assms, of k]
  by (auto simp: lru_get_def spec_get_def split: option.splits)

lemma lru_put_refines:
  assumes "lru_ok l"
  shows "lru_ok (snd (lru_put k v l))" "fst (lru_put k v l) = fst (spec_put (lru_cap l) k v (lru_entries l))"
    "lru_entries (snd (lru_put k v l)) = snd (spec_put (lru_cap l) k v (lru_entries l))" "lru_cap (snd (lru_put k v l)) = lru_cap l"
proof -
  have "lru_ok (snd (lru_put k v l)) \<and> fst (lru_put k v l) = fst (spec_put (lru_cap l) k v (lru_entries l)) \<and>
    lru_entries (snd (lru_put k v l)) = snd (spec_put (lru_cap l) k v (lru_entries l)) \<and> lru_cap (snd (lru_put k v l)) = lru_cap l"
  proof (cases "lru_map l k")
    case None
    then have "map_of (lru_entries l) k = None" using lru_lookup [OF assms, of k] by simp
    then show ?thesis using lru_new [OF assms None] None by (auto simp: lru_put_def spec_put_def Let_def)
  next
    case (Some it)
    then have "map_of (lru_entries l) k = Some (snd (lru_node l it))" using lru_lookup [OF assms, of k] by simp
    then show ?thesis using lru_hit [OF assms Some] Some by (simp add: lru_put_def spec_put_def)
  qed
  then show "lru_ok (snd (lru_put k v l))" "fst (lru_put k v l) = fst (spec_put (lru_cap l) k v (lru_entries l))"
    "lru_entries (snd (lru_put k v l)) = snd (spec_put (lru_cap l) k v (lru_entries l))" "lru_cap (snd (lru_put k v l)) = lru_cap l"
    by blast+
qed

text \<open>Sequences of uses.\<close>

datatype lru_op = LGet string | LPut string nat

fun op_key :: "lru_op \<Rightarrow> string" where
  "op_key (LGet k) = k"
| "op_key (LPut k v) = k"

fun lru_do :: "lru_op \<Rightarrow> lru_cache \<Rightarrow> lru_cache" where
  "lru_do (LGet k) l = snd (lru_get k l)"
| "lru_do (LPut k v) l = snd (lru_put k v l)"

lemma lru_do_ok: "lru_ok l \<Longrightarrow> lru_ok (lru_do op l) \<and> lru_cap (lru_do op l) = lru_cap l"
  by (cases op) (simp_all add: lru_get_refines lru_put_refines)

text \<open>An entry is within reach of the front when the entries before it have keys of \<open>K\<close>.\<close>

definition near_front :: "string set \<Rightarrow> string \<Rightarrow> nat \<Rightarrow> (string \<times> nat) list \<Rightarrow> bool" where
  "near_front K k v es \<longleftrightarrow> (\<exists>xs ys. es = xs @ (k, v) # ys \<and> fst ` set xs \<subseteq> K)"

lemma near_front_hd: "near_front K k v ((k, v) # es)"
  unfolding near_front_def by (rule exI [of _ "[]"]) simp

lemma near_front_use:
  assumes "near_front K k v es" "distinct (map fst es)" "map_of es x = Some w" "x = k \<or> x \<in> K"
  shows "near_front K k v (use_entry x w es)"
proof -
  obtain xs ys where es: "es = xs @ (k, v) # ys" "fst ` set xs \<subseteq> K" using assms(1) by (auto simp: near_front_def)
  have k: "k \<notin> fst ` set xs" "k \<notin> fst ` set ys" using assms(2) es(1) by auto
  show ?thesis
  proof (cases "x = k")
    case True
    then have "w = v" using assms(3) es(1) k by (auto simp: map_add_def split: option.splits) (metis fst_conv image_eqI map_of_SomeD)+
    then show ?thesis using True by (simp add: use_entry_def near_front_hd)
  next
    case False
    let ?f = "filter (\<lambda>e. fst e \<noteq> x)"
    have "use_entry x w es = ((x, w) # ?f xs) @ (k, v) # ?f ys" using False es(1) by (simp add: use_entry_def)
    moreover have "fst ` set ((x, w) # ?f xs) \<subseteq> K" using False assms(4) es(2) by auto
    ultimately show ?thesis unfolding near_front_def by blast
  qed
qed

lemma near_front_new:
  assumes "near_front K k v es" "distinct (map fst es)" "map_of es x = None" "x \<in> K" "finite K" "card K < cap" "length es \<le> cap"
  shows "near_front K k v ((x, w) # (if length es = cap then butlast es else es))"
proof -
  obtain xs ys where es: "es = xs @ (k, v) # ys" "fst ` set xs \<subseteq> K" using assms(1) by (auto simp: near_front_def)
  have "x \<notin> fst ` set xs" using assms(3) es(1) by (auto simp: map_of_eq_None_iff)
  then have "fst ` set xs \<subset> K" using es(2) assms(4) by blast
  then have "card (fst ` set xs) < card K" using assms(5) by (rule psubset_card_mono [rotated])
  moreover have "card (fst ` set xs) = length xs" using assms(2) es(1) by (metis distinct_append distinct_card length_map list.set_map map_append)
  ultimately have l: "length xs + 1 < cap" using assms(6) by simp
  have "((x, w) # (if length es = cap then butlast es else es)) =
     ((x, w) # xs) @ (k, v) # (if length es = cap then butlast ys else ys)"
    using l es(1) by (auto simp: butlast_append)
  moreover have "fst ` set ((x, w) # xs) \<subseteq> K" using assms(4) es(2) by auto
  ultimately show ?thesis unfolding near_front_def by blast
qed

lemma near_front_do:
  assumes "lru_ok l" "near_front K k v (lru_entries l)" "op_key op = k \<or> op_key op \<in> K" "finite K" "card K < lru_cap l"
  shows "near_front K k v (lru_entries (lru_do op l))"
proof -
  have len: "length (lru_entries l) \<le> lru_cap l" using assms(1) by (simp add: lru_ok_def lru_entries_def)
  note d = lru_distinct [OF assms(1)]
  have hit: "map_of (lru_entries l) k \<noteq> None" using assms(2) by (auto simp: near_front_def map_of_eq_None_iff)
  show ?thesis
  proof (cases op)
    case (LGet x)
    then show ?thesis using near_front_use [OF assms(2) d] assms
      by (auto simp: lru_get_refines(3) [OF assms(1)] spec_get_def split: option.splits)
  next
    case (LPut x w)
    show ?thesis
    proof (cases "map_of (lru_entries l) x")
      case None
      then have "x \<in> K" using hit assms(3) LPut by auto
      then show ?thesis using near_front_new [OF assms(2) d None _ assms(4,5) len, of w] LPut None
        by (simp add: lru_put_refines(3) [OF assms(1)] spec_put_def)
    next
      case (Some u)
      then show ?thesis using near_front_use [OF assms(2) d Some] assms(3) LPut
        by (simp add: lru_put_refines(3) [OF assms(1)] spec_put_def)
    qed
  qed
qed

lemma near_front_run:
  "lru_ok l \<Longrightarrow> near_front K k v (lru_entries l) \<Longrightarrow> (\<forall>op \<in> set ops. op_key op = k \<or> op_key op \<in> K) \<Longrightarrow> finite K \<Longrightarrow>
   card K < lru_cap l \<Longrightarrow> lru_ok (fold lru_do ops l) \<and> near_front K k v (lru_entries (fold lru_do ops l))"
proof (induction ops arbitrary: l)
  case (Cons op ops)
  then show ?case using near_front_do [of l K k v op] lru_do_ok [of l op] by simp
qed simp

text \<open>A file just taken from the cache is still found after any further uses, as long as they concern fewer other paths than the cache has places.\<close>

theorem lru_keeps_recent:
  assumes "lru_ok l" "fst (lru_get k l) = Some v" "card (op_key ` set ops - {k}) < lru_cap l"
  shows "fst (lru_get k (fold lru_do ops (snd (lru_get k l)))) = Some v"
proof -
  let ?m = "snd (lru_get k l)" let ?K = "op_key ` set ops - {k}"
  have m: "lru_ok ?m" "lru_cap ?m = lru_cap l" using lru_get_refines [OF assms(1)] by simp_all
  have "map_of (lru_entries l) k = Some v" using assms(2) lru_get_refines(2) [OF assms(1)]
    by (auto simp: spec_get_def split: option.splits)
  then have "near_front ?K k v (lru_entries ?m)"
    by (simp add: lru_get_refines(3) [OF assms(1)] spec_get_def use_entry_def near_front_hd)
  then have r: "lru_ok (fold lru_do ops ?m)" "near_front ?K k v (lru_entries (fold lru_do ops ?m))"
    using near_front_run [OF m(1), of ?K k v ops] assms(3) m(2) by auto
  have "map_of (lru_entries (fold lru_do ops ?m)) k = Some v"
    using r(2) lru_distinct [OF r(1)] by (auto simp: near_front_def)
  then show ?thesis using lru_get_refines(2) [OF r(1), of k] by (simp add: spec_get_def)
qed

lemma mk_lru_ok: "0 < cap \<Longrightarrow> lru_ok (mk_lru cap)"
  by (simp add: lru_ok_def mk_lru_def)

lemma lru_keeps_recent_witness:
  "let l = snd (lru_put ''a'' 7 (mk_lru 2))
   in fst (lru_get ''a'' (fold lru_do [LPut ''b'' 8, LGet ''a'', LGet ''b'', LPut ''b'' 9] (snd (lru_get ''a'' l)))) = Some 7"
proof -
  let ?l = "snd (lru_put ''a'' 7 (mk_lru 2))"
  have "lru_ok ?l" using lru_put_refines(1) [OF mk_lru_ok [of 2]] by simp
  moreover have "fst (lru_get ''a'' ?l) = Some 7" by (simp add: lru_put_def lru_get_def mk_lru_def)
  moreover have "op_key ` set [LPut ''b'' 8, LGet ''a'', LGet ''b'', LPut ''b'' 9] - {''a''} = {''b''}" by auto
  moreover have "lru_cap ?l = 2" by (simp add: lru_put_def mk_lru_def)
  ultimately show ?thesis using lru_keeps_recent [of ?l "''a''" 7 "[LPut ''b'' 8, LGet ''a'', LGet ''b'', LPut ''b'' 9]"] by (simp add: Let_def)
qed

end
