(* ===== verification/Http_Static.thy ===== *)
theory Http_Static
  imports Http_Lru
begin

text \<open>
  The pool of open static files (\<open>StaticResourcePool\<close> in \<open>http/httpresponce.h\<close> and
  \<open>http/httpresponce.cpp\<close>): \<open>GetResource\<close> lets one coroutine open a file while the others that want it
  wait for its result. Requests are agents that take turns; a critical section of \<open>m_mtx\<close> or of a
  call's mutex is one step (\<open>mutex_safe\<close>). The kernel's answers are arguments of a step. A shared
  pointer keeps its object until nobody refers to it; \<open>reap\<close> then runs the destructor.
\<close>

section \<open>The pool\<close>

text \<open>
  \<open>FileCacheI\<close> with its descriptor (\<open>first\<close>) and size or error code (\<open>second\<close>). \<open>fc_gone\<close> says that
  its destructor has run; \<open>fc_path\<close>, the path it was opened for, is not in the code.
\<close>

record FileCacheI =
  fc_first :: int
  fc_second :: int
  fc_gone :: bool
  fc_path :: string

record call =
  cl_done :: bool
  cl_result :: "nat option"
  cl_path :: string

text \<open>Where a request is in \<open>GetResource\<close> and \<open>do_open\<close>; \<open>S_Use\<close> is the use of the result.\<close>

datatype static_pc =
    S_Idle
  | S_Look string
  | S_Join string nat
  | S_Parked string nat
  | S_Open string nat
  | S_Stat string nat int
  | S_Bad string nat int int
  | S_Put string nat nat
  | S_Done string nat nat
  | S_Erase string nat nat
  | S_Use string nat

text \<open>\<open>sp_open\<close> are the open descriptors; \<open>sp_bad\<close> is set when one that is not open is closed.\<close>

record static_pool =
  sp_lru :: lru_cache
  sp_flight :: "(string \<times> nat) list"
  sp_calls :: "call list"
  sp_objs :: "FileCacheI list"
  sp_pcs :: "static_pc list"
  sp_open :: "int list"
  sp_dup :: bool
  sp_bad :: bool

definition mk_static :: "nat \<Rightarrow> static_pool" where
  "mk_static agents =
     \<lparr>sp_lru = mk_lru 512, sp_flight = [], sp_calls = [], sp_objs = [], sp_pcs = replicate agents S_Idle,
      sp_open = [], sp_dup = False, sp_bad = False\<rparr>"

definition sp_goto :: "nat \<Rightarrow> static_pc \<Rightarrow> static_pool \<Rightarrow> static_pool" where
  "sp_goto i pc s = s\<lparr>sp_pcs := (sp_pcs s)[i := pc]\<rparr>"

definition close_fd :: "int \<Rightarrow> static_pool \<Rightarrow> static_pool" where
  "close_fd fd s = (if fd \<in> set (sp_open s) then s\<lparr>sp_open := removeAll fd (sp_open s)\<rparr> else s\<lparr>sp_bad := True\<rparr>)"

definition new_file :: "string \<Rightarrow> int \<Rightarrow> int \<Rightarrow> static_pool \<Rightarrow> static_pool" where
  "new_file p fd sz s = s\<lparr>sp_objs := sp_objs s @ [\<lparr>fc_first = fd, fc_second = sz, fc_gone = False, fc_path = p\<rparr>]\<rparr>"

text \<open>\<open>cache->second = file_stat.stx_size\<close> narrows a 64-bit size to \<open>int\<close>.\<close>

definition file_size :: "int \<Rightarrow> int" where
  "file_size n = signed_take_bit 31 n"

text \<open>The check \<open>it->first != -1\<close> of an object that the cache returned.\<close>

definition valid_hit :: "static_pool \<Rightarrow> nat option \<Rightarrow> nat option" where
  "valid_hit s hit =
     (case hit of None \<Rightarrow> None | Some obj \<Rightarrow> if fc_first (sp_objs s ! obj) \<noteq> - 1 then Some obj else None)"

text \<open>The answers of the kernel: to \<open>uopen\<close>, and to \<open>ufstat\<close> with directory flag, \<open>S_IROTH\<close> and size.\<close>

datatype static_answer = NoAnswer | Opened int | Stat int bool bool int

definition static_step :: "static_answer \<Rightarrow> nat \<Rightarrow> static_pool \<Rightarrow> static_pool option" where
  "static_step ans i s =
     (case sp_pcs s ! i of
        S_Idle \<Rightarrow> None
      | S_Look p \<Rightarrow>
          (let (hit, lru) = lru_get p (sp_lru s); s1 = s\<lparr>sp_lru := lru\<rparr>
           in Some (case valid_hit s hit of
                Some obj \<Rightarrow> sp_goto i (S_Use p obj) s1
              | None \<Rightarrow>
                  (case map_of (sp_flight s1) p of
                     Some c \<Rightarrow> sp_goto i (S_Join p c) s1
                   | None \<Rightarrow>
                       let c = length (sp_calls s1)
                       in sp_goto i (S_Open p c)
                            (s1\<lparr>sp_calls := sp_calls s1 @ [\<lparr>cl_done = False, cl_result = None, cl_path = p\<rparr>],
                                sp_flight := (p, c) # sp_flight s1\<rparr>))))
      | S_Join p c \<Rightarrow>
          Some (if cl_done (sp_calls s ! c)
                then sp_goto i (case cl_result (sp_calls s ! c) of Some obj \<Rightarrow> S_Use p obj | None \<Rightarrow> S_Idle) s
                else sp_goto i (S_Parked p c) s)
      | S_Parked p c \<Rightarrow> None
      | S_Open p c \<Rightarrow>
          (case ans of
             Opened fd \<Rightarrow>
               (if fd < 0 then Some (sp_goto i (S_Done p c (length (sp_objs s))) (new_file p (- 1) 404 s))
                else if fd \<in> set (sp_open s) then None
                else Some (sp_goto i (S_Stat p c fd) (s\<lparr>sp_open := fd # sp_open s\<rparr>)))
           | _ \<Rightarrow> None)
      | S_Stat p c fd \<Rightarrow>
          (case ans of
             Stat ret dir roth sz \<Rightarrow>
               Some (if ret < 0 \<or> dir then sp_goto i (S_Bad p c fd 404) s
                     else if \<not> roth then sp_goto i (S_Bad p c fd 403) s
                     else sp_goto i (S_Put p c (length (sp_objs s))) (new_file p fd (file_size sz) s))
           | _ \<Rightarrow> None)
      | S_Bad p c fd code \<Rightarrow>
          Some (sp_goto i (S_Done p c (length (sp_objs s))) (new_file p (- 1) code (close_fd fd s)))
      | S_Put p c obj \<Rightarrow>
          (let (exist, lru) = lru_put p obj (sp_lru s); s1 = s\<lparr>sp_lru := lru\<rparr>
           in Some (case valid_hit s exist of
                None \<Rightarrow> sp_goto i (S_Done p c obj) s1
              | Some other \<Rightarrow> sp_goto i (S_Done p c other) (s1\<lparr>sp_dup := True\<rparr>)))
      | S_Done p c obj \<Rightarrow>
          (let s1 = s\<lparr>sp_calls := (sp_calls s)[c := (sp_calls s ! c)\<lparr>cl_result := Some obj, cl_done := True\<rparr>],
                      sp_pcs := map (\<lambda>pc. case pc of S_Parked p' c' \<Rightarrow> if c' = c then S_Join p' c' else pc | _ \<Rightarrow> pc) (sp_pcs s)\<rparr>
           in Some (sp_goto i (S_Erase p c obj) s1))
      | S_Erase p c obj \<Rightarrow> Some (sp_goto i (S_Use p obj) (s\<lparr>sp_flight := filter (\<lambda>e. fst e \<noteq> p) (sp_flight s)\<rparr>))
      | S_Use p obj \<Rightarrow> Some (sp_goto i S_Idle s))"

text \<open>Who refers to an object and to a call.\<close>

fun uses_obj :: "static_pc \<Rightarrow> nat \<Rightarrow> bool" where
  "uses_obj (S_Put p c obj) x \<longleftrightarrow> x = obj"
| "uses_obj (S_Done p c obj) x \<longleftrightarrow> x = obj"
| "uses_obj (S_Erase p c obj) x \<longleftrightarrow> x = obj"
| "uses_obj (S_Use p obj) x \<longleftrightarrow> x = obj"
| "uses_obj _ x \<longleftrightarrow> False"

fun opens :: "static_pc \<Rightarrow> (string \<times> nat) option" where
  "opens (S_Open p c) = Some (p, c)"
| "opens (S_Stat p c fd) = Some (p, c)"
| "opens (S_Bad p c fd e) = Some (p, c)"
| "opens (S_Put p c obj) = Some (p, c)"
| "opens (S_Done p c obj) = Some (p, c)"
| "opens (S_Erase p c obj) = Some (p, c)"
| "opens _ = None"

fun joins :: "static_pc \<Rightarrow> (string \<times> nat) option" where
  "joins (S_Join p c) = Some (p, c)"
| "joins (S_Parked p c) = Some (p, c)"
| "joins _ = None"

definition call_in_use :: "static_pool \<Rightarrow> nat \<Rightarrow> bool" where
  "call_in_use s c \<longleftrightarrow>
     c \<in> snd ` set (sp_flight s) \<or>
     (\<exists>pc \<in> set (sp_pcs s). map_option snd (opens pc) = Some c \<or> map_option snd (joins pc) = Some c)"

definition obj_in_use :: "static_pool \<Rightarrow> nat \<Rightarrow> bool" where
  "obj_in_use s x \<longleftrightarrow>
     x \<in> snd ` set (lru_entries (sp_lru s)) \<or> (\<exists>pc \<in> set (sp_pcs s). uses_obj pc x) \<or>
     (\<exists>c < length (sp_calls s). cl_result (sp_calls s ! c) = Some x \<and> call_in_use s c)"

text \<open>\<open>~FileCacheI\<close> of the objects nobody refers to any more.\<close>

definition garbage :: "static_pool \<Rightarrow> nat list" where
  "garbage s = filter (\<lambda>x. \<not> fc_gone (sp_objs s ! x) \<and> \<not> obj_in_use s x) [0..<length (sp_objs s)]"

definition reap_one :: "nat \<Rightarrow> static_pool \<Rightarrow> static_pool" where
  "reap_one x s =
     (let s1 = s\<lparr>sp_objs := (sp_objs s)[x := (sp_objs s ! x)\<lparr>fc_gone := True\<rparr>]\<rparr>
      in if fc_first (sp_objs s ! x) \<ge> 0 then close_fd (fc_first (sp_objs s ! x)) s1 else s1)"

definition reap :: "static_pool \<Rightarrow> static_pool" where
  "reap s = fold reap_one (garbage s) s"

inductive static_reachable :: "static_pool \<Rightarrow> bool" where
  start: "static_reachable (mk_static agents)"
| call: "static_reachable s \<Longrightarrow> i < length (sp_pcs s) \<Longrightarrow> sp_pcs s ! i = S_Idle \<Longrightarrow> static_reachable (sp_goto i (S_Look p) s)"
| step: "static_reachable s \<Longrightarrow> i < length (sp_pcs s) \<Longrightarrow> static_step ans i s = Some t \<Longrightarrow> static_reachable (reap t)"

section \<open>The invariant\<close>

fun pc_fd :: "static_pc \<Rightarrow> int option" where
  "pc_fd (S_Stat p c fd) = Some fd"
| "pc_fd (S_Bad p c fd e) = Some fd"
| "pc_fd _ = None"

text \<open>Every open descriptor has exactly one owner: an object that lives, or a request that opens a file.\<close>

definition owns_fd :: "static_pool \<Rightarrow> nat + nat \<Rightarrow> int \<Rightarrow> bool" where
  "owns_fd s x f \<longleftrightarrow>
     (case x of
        Inl obj \<Rightarrow> obj < length (sp_objs s) \<and> \<not> fc_gone (sp_objs s ! obj) \<and> fc_first (sp_objs s ! obj) = f \<and> 0 \<le> f
      | Inr i \<Rightarrow> i < length (sp_pcs s) \<and> pc_fd (sp_pcs s ! i) = Some f)"

definition fds_ok :: "static_pool \<Rightarrow> bool" where
  "fds_ok s \<longleftrightarrow>
     (\<forall>f. f \<in> set (sp_open s) \<longleftrightarrow> (\<exists>x. owns_fd s x f)) \<and>
     (\<forall>x y f. owns_fd s x f \<longrightarrow> owns_fd s y f \<longrightarrow> x = y) \<and> (\<forall>f \<in> set (sp_open s). 0 \<le> f) \<and> \<not> sp_bad s"

definition file_ok :: "static_pool \<Rightarrow> string \<Rightarrow> nat \<Rightarrow> bool" where
  "file_ok s p obj \<longleftrightarrow> obj < length (sp_objs s) \<and> \<not> fc_gone (sp_objs s ! obj) \<and> fc_path (sp_objs s ! obj) = p"

definition call_ok :: "static_pool \<Rightarrow> string \<Rightarrow> nat \<Rightarrow> bool" where
  "call_ok s p c \<longleftrightarrow> c < length (sp_calls s) \<and> cl_path (sp_calls s ! c) = p"

definition is_opening :: "static_pool \<Rightarrow> string \<Rightarrow> nat \<Rightarrow> bool" where
  "is_opening s p c \<longleftrightarrow> call_ok s p c \<and> \<not> cl_done (sp_calls s ! c) \<and> (p, c) \<in> set (sp_flight s)"

definition fresh_path :: "static_pool \<Rightarrow> string \<Rightarrow> bool" where
  "fresh_path s p \<longleftrightarrow> map_of (lru_entries (sp_lru s)) p = None"

fun pc_ok :: "static_pool \<Rightarrow> static_pc \<Rightarrow> bool" where
  "pc_ok s S_Idle = True"
| "pc_ok s (S_Look p) = True"
| "pc_ok s (S_Join p c) \<longleftrightarrow> call_ok s p c \<and> (cl_done (sp_calls s ! c) \<or> (p, c) \<in> set (sp_flight s))"
| "pc_ok s (S_Parked p c) \<longleftrightarrow> is_opening s p c"
| "pc_ok s (S_Open p c) \<longleftrightarrow> is_opening s p c \<and> fresh_path s p"
| "pc_ok s (S_Stat p c fd) \<longleftrightarrow> is_opening s p c \<and> fresh_path s p"
| "pc_ok s (S_Bad p c fd e) \<longleftrightarrow> is_opening s p c \<and> fresh_path s p"
| "pc_ok s (S_Put p c obj) \<longleftrightarrow> is_opening s p c \<and> fresh_path s p \<and> file_ok s p obj \<and> 0 \<le> fc_first (sp_objs s ! obj)"
| "pc_ok s (S_Done p c obj) \<longleftrightarrow> is_opening s p c \<and> file_ok s p obj"
| "pc_ok s (S_Erase p c obj) \<longleftrightarrow> call_ok s p c \<and> cl_done (sp_calls s ! c) \<and> (p, c) \<in> set (sp_flight s) \<and> file_ok s p obj"
| "pc_ok s (S_Use p obj) \<longleftrightarrow> file_ok s p obj"

definition flight_ok :: "static_pool \<Rightarrow> bool" where
  "flight_ok s \<longleftrightarrow>
     distinct (map fst (sp_flight s)) \<and> (\<forall>p c. (p, c) \<in> set (sp_flight s) \<longrightarrow> call_ok s p c) \<and>
     (\<forall>p c. (p, c) \<in> set (sp_flight s) \<longrightarrow> (\<exists>i < length (sp_pcs s). opens (sp_pcs s ! i) = Some (p, c))) \<and>
     (\<forall>i j p c d. i < length (sp_pcs s) \<longrightarrow> j < length (sp_pcs s) \<longrightarrow> opens (sp_pcs s ! i) = Some (p, c) \<longrightarrow>
        opens (sp_pcs s ! j) = Some (p, d) \<longrightarrow> i = j)"

definition cache_ok :: "static_pool \<Rightarrow> bool" where
  "cache_ok s \<longleftrightarrow> lru_ok (sp_lru s) \<and>
     (\<forall>p obj. (p, obj) \<in> set (lru_entries (sp_lru s)) \<longrightarrow> file_ok s p obj \<and> 0 \<le> fc_first (sp_objs s ! obj))"

definition calls_ok :: "static_pool \<Rightarrow> bool" where
  "calls_ok s \<longleftrightarrow> (\<forall>c < length (sp_calls s).
     (if cl_done (sp_calls s ! c)
      then \<exists>obj. cl_result (sp_calls s ! c) = Some obj \<and> (call_in_use s c \<longrightarrow> file_ok s (cl_path (sp_calls s ! c)) obj)
      else cl_result (sp_calls s ! c) = None))"

definition pcs_ok :: "static_pool \<Rightarrow> bool" where
  "pcs_ok s \<longleftrightarrow> (\<forall>i < length (sp_pcs s). pc_ok s (sp_pcs s ! i))"

definition static_inv :: "static_pool \<Rightarrow> bool" where
  "static_inv s \<longleftrightarrow> fds_ok s \<and> flight_ok s \<and> cache_ok s \<and> calls_ok s \<and> pcs_ok s \<and> \<not> sp_dup s"

lemma sp_goto_fields [simp]:
  "sp_lru (sp_goto i pc s) = sp_lru s" "sp_flight (sp_goto i pc s) = sp_flight s" "sp_calls (sp_goto i pc s) = sp_calls s"
  "sp_objs (sp_goto i pc s) = sp_objs s" "sp_open (sp_goto i pc s) = sp_open s" "sp_dup (sp_goto i pc s) = sp_dup s"
  "sp_bad (sp_goto i pc s) = sp_bad s" "length (sp_pcs (sp_goto i pc s)) = length (sp_pcs s)"
  "j < length (sp_pcs s) \<Longrightarrow> sp_pcs (sp_goto i pc s) ! j = (if j = i then pc else sp_pcs s ! j)"
  by (auto simp: sp_goto_def nth_list_update)

text \<open>Descriptors: steps that do not touch them, a new descriptor, one handed to an object, one closed.\<close>

lemma fds_same:
  assumes "fds_ok s" "sp_objs t = sp_objs s" "sp_open t = sp_open s" "sp_bad t = sp_bad s" "length (sp_pcs t) = length (sp_pcs s)"
    "\<forall>j < length (sp_pcs s). pc_fd (sp_pcs t ! j) = pc_fd (sp_pcs s ! j)"
  shows "fds_ok t"
proof -
  have "owns_fd t x f = owns_fd s x f" for x f using assms by (auto simp: owns_fd_def split: sum.splits)
  then show ?thesis using assms by (simp add: fds_ok_def)
qed

lemma fds_new_file:
  assumes "fds_ok s" "pc_fd (sp_pcs s ! i) = None" "pc_fd pc = None" "i < length (sp_pcs s)"
  shows "fds_ok (sp_goto i pc (new_file p (- 1) n s))"
proof -
  have "owns_fd (sp_goto i pc (new_file p (- 1) n s)) x f = owns_fd s x f" for x f
    using assms by (auto simp: owns_fd_def new_file_def nth_append less_Suc_eq split: sum.splits if_splits)
  then show ?thesis using assms by (simp add: fds_ok_def new_file_def)
qed

lemma fds_opened:
  assumes "fds_ok s" "i < length (sp_pcs s)" "pc_fd (sp_pcs s ! i) = None" "fd \<notin> set (sp_open s)" "0 \<le> fd"
  shows "fds_ok (sp_goto i (S_Stat p c fd) (s\<lparr>sp_open := fd # sp_open s\<rparr>))"
proof -
  let ?t = "sp_goto i (S_Stat p c fd) (s\<lparr>sp_open := fd # sp_open s\<rparr>)"
  have o: "owns_fd ?t x f \<longleftrightarrow> owns_fd s x f \<or> x = Inr i \<and> f = fd" for x f
    using assms(2,3) by (auto simp: owns_fd_def split: sum.splits if_splits)
  have "\<not> owns_fd s x fd" for x using assms(1,4) by (auto simp: fds_ok_def)
  moreover have "\<not> owns_fd s (Inr i) f" for f using assms(3) by (simp add: owns_fd_def)
  ultimately show ?thesis using assms(1,5) unfolding fds_ok_def o by auto
qed

lemma fds_handed:
  assumes "fds_ok s" "i < length (sp_pcs s)" "pc_fd (sp_pcs s ! i) = Some fd" "pc_fd pc = None"
  shows "fds_ok (sp_goto i pc (new_file p fd n s))"
proof -
  let ?t = "sp_goto i pc (new_file p fd n s)"
  have r: "owns_fd s (Inr i) f \<longleftrightarrow> f = fd" for f using assms(2,3) by (auto simp: owns_fd_def)
  then have m: "fd \<in> set (sp_open s)" using assms(1) unfolding fds_ok_def by blast
  then have "0 \<le> fd" using assms(1) by (simp add: fds_ok_def)
  then have o: "owns_fd ?t x f \<longleftrightarrow> owns_fd s x f \<and> x \<noteq> Inr i \<or> x = Inl (length (sp_objs s)) \<and> f = fd" for x f
    using assms by (auto simp: owns_fd_def new_file_def nth_append less_Suc_eq split: sum.splits if_splits)
  have n: "\<not> owns_fd s (Inl (length (sp_objs s))) f" for f by (simp add: owns_fd_def)
  have u: "owns_fd s x fd \<Longrightarrow> x = Inr i" for x using assms(1) r unfolding fds_ok_def by blast
  have "(\<exists>x. owns_fd ?t x f) \<longleftrightarrow> (\<exists>x. owns_fd s x f)" for f using o r by metis
  moreover have "owns_fd ?t x f \<Longrightarrow> owns_fd ?t y f \<Longrightarrow> x = y" for x y f
    using assms(1) u n unfolding o fds_ok_def by metis
  ultimately show ?thesis using assms(1) unfolding fds_ok_def by (simp add: new_file_def)
qed

text \<open>Closing a descriptor whose owner gives it up.\<close>

lemma fds_close:
  assumes "fds_ok s" "owns_fd s z fd" "\<And>x f. owns_fd t x f \<longleftrightarrow> owns_fd s x f \<and> x \<noteq> z"
    "sp_open t = sp_open (close_fd fd s)" "sp_bad t = sp_bad (close_fd fd s)"
  shows "fds_ok t"
proof -
  have m: "f \<in> set (sp_open s) \<longleftrightarrow> (\<exists>x. owns_fd s x f)" for f using assms(1) by (simp add: fds_ok_def)
  have u: "owns_fd s x f \<Longrightarrow> owns_fd s y f \<Longrightarrow> x = y" for x y f using assms(1) unfolding fds_ok_def by blast
  have z: "owns_fd s z f \<Longrightarrow> f = fd" for f using assms(2) by (auto simp: owns_fd_def split: sum.splits)
  have "fd \<in> set (sp_open s)" using assms(2) m by blast
  then have o: "sp_open t = removeAll fd (sp_open s)" "sp_bad t = sp_bad s" using assms(4,5) by (simp_all add: close_fd_def)
  have "f \<in> set (sp_open t) \<longleftrightarrow> (\<exists>x. owns_fd t x f)" for f
  proof (cases "f = fd")
    case True
    then have "\<not> (\<exists>x. owns_fd t x f)" using u [OF _ assms(2)] by (auto simp: assms(3))
    then show ?thesis using True by (simp add: o(1))
  next
    case False
    then have "(\<exists>x. owns_fd t x f) \<longleftrightarrow> (\<exists>x. owns_fd s x f)" using z by (metis assms(3))
    then show ?thesis using False m [of f] by (simp add: o(1))
  qed
  moreover have "owns_fd t x f \<Longrightarrow> owns_fd t y f \<Longrightarrow> x = y" for x y f using u unfolding assms(3) by blast
  moreover have "\<forall>f \<in> set (sp_open t). 0 \<le> f" "\<not> sp_bad t" using assms(1) by (simp_all add: o fds_ok_def)
  ultimately show ?thesis unfolding fds_ok_def by blast
qed

text \<open>
  Steps that leave calls and registrations as they are, keep the set of cache entries and at most
  create an object: all but the registration of a call, the insertion, the notification and the
  removal.
\<close>

definition steady :: "nat \<Rightarrow> static_pc \<Rightarrow> static_pool \<Rightarrow> static_pool \<Rightarrow> bool" where
  "steady i pc s t \<longleftrightarrow>
     i < length (sp_pcs s) \<and> sp_pcs t = (sp_pcs s)[i := pc] \<and> sp_calls t = sp_calls s \<and> sp_flight t = sp_flight s \<and>
     lru_ok (sp_lru t) \<and> set (lru_entries (sp_lru t)) = set (lru_entries (sp_lru s)) \<and>
     length (sp_objs s) \<le> length (sp_objs t) \<and> (\<forall>x < length (sp_objs s). sp_objs t ! x = sp_objs s ! x) \<and>
     opens pc = opens (sp_pcs s ! i) \<and>
     (joins pc = None \<or> joins pc = joins (sp_pcs s ! i) \<or> (\<exists>e \<in> set (sp_flight s). joins pc = Some e)) \<and>
     sp_dup t = sp_dup s"

lemma file_ok_mono:
  "file_ok s p x \<Longrightarrow> length (sp_objs s) \<le> length (sp_objs t) \<Longrightarrow> \<forall>x < length (sp_objs s). sp_objs t ! x = sp_objs s ! x \<Longrightarrow>
   file_ok t p x"
  by (simp add: file_ok_def)

lemma fresh_path_set: "fresh_path s p \<longleftrightarrow> p \<notin> fst ` set (lru_entries (sp_lru s))"
  by (simp add: fresh_path_def map_of_eq_None_iff)

lemma steady_pc_ok: "steady i pc s t \<Longrightarrow> pc_ok s q \<Longrightarrow> pc_ok t q"
  by (cases q) (auto simp: steady_def call_ok_def is_opening_def fresh_path_set file_ok_def)

lemma steady_in_use:
  assumes "steady i pc s t" "call_in_use t c"
  shows "call_in_use s c"
proof -
  have "q \<in> set (sp_pcs t) \<Longrightarrow> q = pc \<or> q \<in> set (sp_pcs s)" for q
    using assms(1) set_update_subset_insert [of "sp_pcs s" i pc] by (auto simp: steady_def)
  moreover have "sp_pcs s ! i \<in> set (sp_pcs s)" using assms(1) by (simp add: steady_def)
  ultimately show ?thesis using assms unfolding call_in_use_def steady_def by (metis imageI option.map_disc_iff option.distinct(1) option.simps(9) snd_conv option.inject)
qed

lemma flight_opener:
  "flight_ok s \<Longrightarrow> (p, c) \<in> set (sp_flight s) \<Longrightarrow> \<exists>i < length (sp_pcs s). opens (sp_pcs s ! i) = Some (p, c)"
  unfolding flight_ok_def by blast

lemma flight_same:
  assumes "flight_ok s" "sp_flight t = sp_flight s" "length (sp_pcs t) = length (sp_pcs s)"
    and op: "\<And>j. j < length (sp_pcs s) \<Longrightarrow> opens (sp_pcs t ! j) = opens (sp_pcs s ! j)"
    and "\<And>p c. call_ok s p c \<Longrightarrow> call_ok t p c"
  shows "flight_ok t"
  unfolding flight_ok_def
proof (intro conjI allI impI)
  show "distinct (map fst (sp_flight t))" using assms by (simp add: flight_ok_def)
  show "call_ok t q d" if "(q, d) \<in> set (sp_flight t)" for q d using that assms by (simp add: flight_ok_def)
  show "\<exists>i < length (sp_pcs t). opens (sp_pcs t ! i) = Some (q, d)" if e: "(q, d) \<in> set (sp_flight t)" for q d
  proof -
    obtain i where "i < length (sp_pcs s)" "opens (sp_pcs s ! i) = Some (q, d)" using flight_opener [OF assms(1), of q d] e assms(2) by auto
    then show ?thesis using op assms(3) by (intro exI [of _ i]) simp
  qed
  fix i j q d e
  assume *: "i < length (sp_pcs t)" "j < length (sp_pcs t)" "opens (sp_pcs t ! i) = Some (q, d)" "opens (sp_pcs t ! j) = Some (q, e)"
  then have "opens (sp_pcs s ! i) = Some (q, d)" "opens (sp_pcs s ! j) = Some (q, e)" using op assms(3) by simp_all
  then show "i = j" using assms(1) * assms(3) unfolding flight_ok_def by (metis (no_types))
qed

lemma calls_okI:
  assumes "calls_ok s" "\<And>d. call_in_use t d \<Longrightarrow> d < length (sp_calls s) \<Longrightarrow> call_in_use s d" "\<And>p x. file_ok s p x \<Longrightarrow> file_ok t p x"
    "\<And>d. d < length (sp_calls t) \<Longrightarrow> d < length (sp_calls s) \<and> sp_calls t ! d = sp_calls s ! d \<or>
      \<not> cl_done (sp_calls t ! d) \<and> cl_result (sp_calls t ! d) = None \<or>
      (\<exists>x. cl_done (sp_calls t ! d) \<and> cl_result (sp_calls t ! d) = Some x \<and> file_ok t (cl_path (sp_calls t ! d)) x)"
  shows "calls_ok t"
  unfolding calls_ok_def
proof (intro allI impI)
  fix d assume d: "d < length (sp_calls t)"
  from assms(4) [OF d] consider "d < length (sp_calls s)" "sp_calls t ! d = sp_calls s ! d"
    | "\<not> cl_done (sp_calls t ! d)" "cl_result (sp_calls t ! d) = None"
    | x where "cl_done (sp_calls t ! d)" "cl_result (sp_calls t ! d) = Some x" "file_ok t (cl_path (sp_calls t ! d)) x" by metis
  then show "if cl_done (sp_calls t ! d)
      then \<exists>obj. cl_result (sp_calls t ! d) = Some obj \<and> (call_in_use t d \<longrightarrow> file_ok t (cl_path (sp_calls t ! d)) obj)
      else cl_result (sp_calls t ! d) = None"
  proof cases
    case 1
    then show ?thesis using assms(1) assms(2,3) unfolding calls_ok_def by (metis (no_types, lifting))
  qed simp_all
qed

lemma steady_inv:
  assumes "static_inv s" "steady i pc s t" "pc_ok t pc" "fds_ok t"
  shows "static_inv t"
proof -
  note st = assms(2) [unfolded steady_def]
  have len: "length (sp_pcs t) = length (sp_pcs s)" using st by simp
  have op: "opens (sp_pcs t ! j) = opens (sp_pcs s ! j)" if "j < length (sp_pcs s)" for j
    using st that by (auto simp: nth_list_update)
  have "flight_ok t" using assms(1) st op len by (intro flight_same [of s t]) (simp_all add: static_inv_def call_ok_def)
  moreover have "cache_ok t"
    unfolding cache_ok_def
  proof (intro conjI allI impI)
    show "lru_ok (sp_lru t)" using st by simp
    fix p x assume "(p, x) \<in> set (lru_entries (sp_lru t))"
    then have "file_ok s p x" "0 \<le> fc_first (sp_objs s ! x)" using assms(1) st by (simp_all add: static_inv_def cache_ok_def)
    then show "file_ok t p x" "0 \<le> fc_first (sp_objs t ! x)" using file_ok_mono [of s p x t] st by (simp_all add: file_ok_def)
  qed
  moreover have "calls_ok t" using assms(1) st steady_in_use [OF assms(2)] file_ok_mono [of s _ _ t]
    unfolding static_inv_def calls_ok_def by (metis (no_types, lifting))
  moreover have "pcs_ok t" unfolding pcs_ok_def
  proof (intro allI impI)
    fix j assume j: "j < length (sp_pcs t)"
    show "pc_ok t (sp_pcs t ! j)"
    proof (cases "j = i")
      case True
      then show ?thesis using st assms(3) by simp
    next
      case False
      then have "sp_pcs t ! j = sp_pcs s ! j" using st by simp
      then show ?thesis using assms(1) j len steady_pc_ok [OF assms(2)] by (simp add: static_inv_def pcs_ok_def)
    qed
  qed
  ultimately show ?thesis using assms(1,4) st by (simp add: static_inv_def)
qed

lemma steadyI:
  assumes "i < length (sp_pcs s)" "opens pc = opens (sp_pcs s ! i)"
    "joins pc = None \<or> joins pc = joins (sp_pcs s ! i) \<or> (\<exists>e \<in> set (sp_flight s). joins pc = Some e)"
    "lru_ok (sp_lru s)"
  shows "steady i pc s (sp_goto i pc s)"
    "steady i pc s (sp_goto i pc (new_file p fd n s))"
    "lru_ok l \<Longrightarrow> set (lru_entries l) = set (lru_entries (sp_lru s)) \<Longrightarrow> steady i pc s (sp_goto i pc (s\<lparr>sp_lru := l\<rparr>))"
    "steady i pc s (sp_goto i pc (s\<lparr>sp_open := fds\<rparr>))"
    "steady i pc s (sp_goto i pc (new_file p fd n (close_fd f s)))"
  using assms by (auto simp: steady_def sp_goto_def new_file_def close_fd_def nth_append)

text \<open>The other four.\<close>

lemma opens_unique:
  assumes "flight_ok s" "i < length (sp_pcs s)" "j < length (sp_pcs s)" "opens (sp_pcs s ! i) = Some (p, c)"
    "opens (sp_pcs s ! j) = Some (p, d)"
  shows "i = j"
  using assms unfolding flight_ok_def by blast

lemma pc_ok_opens: "pc_ok s pc \<Longrightarrow> opens pc = Some (p, c) \<Longrightarrow> call_ok s p c \<and> (p, c) \<in> set (sp_flight s)"
  by (cases pc) (auto simp: is_opening_def)

lemma begin_call_inv:
  assumes inv: "static_inv s" and i: "i < length (sp_pcs s)" "sp_pcs s ! i = S_Look p"
    and m: "map_of (sp_flight s) p = None" "fresh_path s p"
  defines "c \<equiv> length (sp_calls s)"
  defines "t \<equiv> sp_goto i (S_Open p c)
      (s\<lparr>sp_calls := sp_calls s @ [\<lparr>cl_done = False, cl_result = None, cl_path = p\<rparr>], sp_flight := (p, c) # sp_flight s\<rparr>)"
  shows "static_inv t"
proof -
  have co: "call_ok s q d \<Longrightarrow> call_ok t q d \<and> cl_done (sp_calls t ! d) = cl_done (sp_calls s ! d)" for q d
    by (auto simp: call_ok_def t_def nth_append)
  have pk: "pc_ok s q \<Longrightarrow> pc_ok t q" for q
    using co by (cases q) (auto simp: is_opening_def fresh_path_def t_def file_ok_def call_ok_def)
  have new: "call_ok t p c" "\<not> cl_done (sp_calls t ! c)" by (simp_all add: call_ok_def t_def c_def)
  have fl: "flight_ok s" and ca: "calls_ok s" and ps: "pcs_ok s" using inv by (simp_all add: static_inv_def)
  have op: "opens (sp_pcs s ! j) = Some (q, d) \<Longrightarrow> j < length (sp_pcs s) \<Longrightarrow> (q, d) \<in> set (sp_flight s) \<and> call_ok s q d" for j q d
    using ps pc_ok_opens [of s "sp_pcs s ! j" q d] by (auto simp: pcs_ok_def)
  have np: "(p, d) \<notin> set (sp_flight s)" for d using m(1) by (force simp: map_of_eq_None_iff)
  have "fds_ok t" using inv i by (intro fds_same [of s t]) (auto simp: static_inv_def t_def)
  moreover have "flight_ok t"
    unfolding flight_ok_def
  proof (intro conjI allI impI)
    show "distinct (map fst (sp_flight t))" using fl m(1) by (simp add: t_def flight_ok_def map_of_eq_None_iff)
    show "call_ok t q d" if "(q, d) \<in> set (sp_flight t)" for q d
      using that co fl new(1) by (auto simp: t_def flight_ok_def)
    show "\<exists>j < length (sp_pcs t). opens (sp_pcs t ! j) = Some (q, d)" if e: "(q, d) \<in> set (sp_flight t)" for q d
    proof (cases "(q, d) = (p, c)")
      case True
      then show ?thesis using i by (intro exI [of _ i]) (simp add: t_def)
    next
      case False
      then obtain j where j: "j < length (sp_pcs s)" "opens (sp_pcs s ! j) = Some (q, d)"
        using e flight_opener [OF fl, of q d] by (auto simp: t_def)
      then have "j \<noteq> i" using i by auto
      then show ?thesis using j by (intro exI [of _ j]) (simp add: t_def)
    qed
    fix j k q d e
    assume *: "j < length (sp_pcs t)" "k < length (sp_pcs t)" "opens (sp_pcs t ! j) = Some (q, d)" "opens (sp_pcs t ! k) = Some (q, e)"
    show "j = k"
    proof (cases "j = i \<or> k = i")
      case True
      then show ?thesis using * op np by (auto simp: t_def split: if_splits)
    next
      case False
      then show ?thesis using * opens_unique [OF fl] by (auto simp: t_def)
    qed
  qed
  moreover have "cache_ok t" using inv by (auto simp: static_inv_def cache_ok_def t_def file_ok_def)
  moreover have "calls_ok t"
  proof -
    have "call_in_use s d" if "call_in_use t d" "d \<noteq> c" for d
    proof -
      have "q \<in> set (sp_pcs t) \<Longrightarrow> q = S_Open p c \<or> q \<in> set (sp_pcs s)" for q
        using set_update_subset_insert [of "sp_pcs s" i "S_Open p c"] by (auto simp: t_def sp_goto_def)
      then show ?thesis using that unfolding call_in_use_def by (auto simp: t_def) (force)+
    qed
    then show ?thesis using ca by (intro calls_okI [of s t]) (auto simp: t_def c_def nth_append less_Suc_eq file_ok_def)
  qed
  moreover have "pcs_ok t"
    unfolding pcs_ok_def
  proof (intro allI impI)
    fix j assume j: "j < length (sp_pcs t)"
    have "pc_ok t (S_Open p c)" using new m(2) by (simp add: is_opening_def t_def fresh_path_def)
    then show "pc_ok t (sp_pcs t ! j)" using j pk ps by (auto simp: pcs_ok_def t_def)
  qed
  ultimately show ?thesis using inv by (simp add: static_inv_def t_def)
qed

lemma pcs_in_use:
  assumes "call_in_use t c" "set (sp_flight t) \<subseteq> set (sp_flight s)"
    "\<forall>q \<in> set (sp_pcs t). \<exists>r \<in> set (sp_pcs s). (opens q = None \<or> opens q = opens r) \<and> (joins q = None \<or> joins q = joins r)"
  shows "call_in_use s c"
proof -
  from assms(1) consider "c \<in> snd ` set (sp_flight t)"
    | q where "q \<in> set (sp_pcs t)" "map_option snd (opens q) = Some c \<or> map_option snd (joins q) = Some c"
    by (auto simp: call_in_use_def)
  then show ?thesis
  proof cases
    case 1
    then show ?thesis using assms(2) by (auto simp: call_in_use_def)
  next
    case 2
    then obtain r where "r \<in> set (sp_pcs s)" "opens q = None \<or> opens q = opens r" "joins q = None \<or> joins q = joins r"
      using assms(3) by blast
    then have "map_option snd (opens r) = Some c \<or> map_option snd (joins r) = Some c" using 2(2)
      by (metis option.map_disc_iff option.distinct(1))
    then show ?thesis using \<open>r \<in> set (sp_pcs s)\<close> by (auto simp: call_in_use_def)
  qed
qed

lemma update_in_use:
  assumes "i < length (sp_pcs s)" "opens pc = None \<or> opens pc = opens (sp_pcs s ! i)" "joins pc = None"
  shows "\<forall>q \<in> set ((sp_pcs s)[i := pc]). \<exists>r \<in> set (sp_pcs s). (opens q = None \<or> opens q = opens r) \<and> (joins q = None \<or> joins q = joins r)"
proof
  fix q assume "q \<in> set ((sp_pcs s)[i := pc])"
  then have "q = pc \<or> q \<in> set (sp_pcs s)" using set_update_subset_insert [of "sp_pcs s" i pc] by blast
  then show "\<exists>r \<in> set (sp_pcs s). (opens q = None \<or> opens q = opens r) \<and> (joins q = None \<or> joins q = joins r)"
    using assms by (metis nth_mem)
qed

lemma put_inv:
  assumes inv: "static_inv s" and i: "i < length (sp_pcs s)" "sp_pcs s ! i = S_Put p c x"
  defines "t \<equiv> sp_goto i (S_Done p c x) (s\<lparr>sp_lru := snd (lru_put p x (sp_lru s))\<rparr>)"
  shows "fst (lru_put p x (sp_lru s)) = None \<and> static_inv t"
proof -
  have pc: "is_opening s p c" "fresh_path s p" "file_ok s p x" "0 \<le> fc_first (sp_objs s ! x)"
    using inv i by (auto simp: static_inv_def pcs_ok_def dest!: spec [of _ i])
  have l: "lru_ok (sp_lru s)" using inv by (simp add: static_inv_def cache_ok_def)
  note pr = lru_put_refines [OF l, of p x]
  have sp: "spec_put (lru_cap (sp_lru s)) p x (lru_entries (sp_lru s)) =
     (None, (p, x) # (if length (lru_entries (sp_lru s)) = lru_cap (sp_lru s) then butlast (lru_entries (sp_lru s)) else lru_entries (sp_lru s)))"
    using pc(2) by (simp add: spec_put_def fresh_path_def)
  have e: "set (lru_entries (sp_lru t)) \<subseteq> insert (p, x) (set (lru_entries (sp_lru s)))"
    using pr(3) sp by (auto simp: t_def dest: in_set_butlastD)
  have fr: "fresh_path t q" if "fresh_path s q" "q \<noteq> p" for q using that e by (auto simp: fresh_path_set)
  have fl: "flight_ok s" and ps: "pcs_ok s" using inv by (simp_all add: static_inv_def)
  have "fds_ok t" using inv i by (intro fds_same [of s t]) (auto simp: static_inv_def t_def)
  moreover have "flight_ok t" using fl i by (intro flight_same [of s t]) (auto simp: t_def call_ok_def)
  moreover have "cache_ok t" using inv e pc pr(1) by (auto simp: static_inv_def cache_ok_def t_def file_ok_def)
  moreover have "calls_ok t"
  proof -
    have "call_in_use t d \<Longrightarrow> call_in_use s d" for d
      using update_in_use [OF i(1), of "S_Done p c x"] i(2) by (intro pcs_in_use [of t d s]) (auto simp: t_def sp_goto_def)
    then show ?thesis using inv by (intro calls_okI [of s t]) (auto simp: static_inv_def t_def file_ok_def)
  qed
  moreover have "pcs_ok t"
    unfolding pcs_ok_def
  proof (intro allI impI)
    fix j assume j: "j < length (sp_pcs t)"
    show "pc_ok t (sp_pcs t ! j)"
    proof (cases "j = i")
      case True
      then show ?thesis using i pc by (simp add: t_def is_opening_def call_ok_def file_ok_def)
    next
      case False
      then have k: "pc_ok s (sp_pcs s ! j)" "sp_pcs t ! j = sp_pcs s ! j" using j ps by (simp_all add: t_def pcs_ok_def)
      have n: "q \<noteq> p" if "opens (sp_pcs s ! j) = Some (q, d)" for q d
        using that opens_unique [OF fl i(1), of j p c d] i j False by (auto simp: t_def)
      show ?thesis unfolding k(2) using k(1) fr n
        by (cases "sp_pcs s ! j") (auto simp: is_opening_def call_ok_def file_ok_def t_def)
    qed
  qed
  ultimately show ?thesis using inv pr(2) sp by (simp add: static_inv_def t_def)
qed

lemma done_inv:
  assumes inv: "static_inv s" and i: "i < length (sp_pcs s)" "sp_pcs s ! i = S_Done p c x"
  defines "u \<equiv> s\<lparr>sp_calls := (sp_calls s)[c := (sp_calls s ! c)\<lparr>cl_result := Some x, cl_done := True\<rparr>],
      sp_pcs := map (\<lambda>pc. case pc of S_Parked p' c' \<Rightarrow> if c' = c then S_Join p' c' else pc | _ \<Rightarrow> pc) (sp_pcs s)\<rparr>"
  shows "static_inv (sp_goto i (S_Erase p c x) u)"
proof -
  let ?t = "sp_goto i (S_Erase p c x) u"
  have pc: "is_opening s p c" "file_ok s p x"
    using inv i by (auto simp: static_inv_def pcs_ok_def dest!: spec [of _ i])
  then have c: "c < length (sp_calls s)" "cl_path (sp_calls s ! c) = p" "(p, c) \<in> set (sp_flight s)" by (auto simp: is_opening_def call_ok_def)
  define w where "w = (\<lambda>pc. case pc of S_Parked p' c' \<Rightarrow> if c' = c then S_Join p' c' else pc | _ \<Rightarrow> pc)"
  have ui: "sp_pcs u = map w (sp_pcs s)" "sp_objs u = sp_objs s" "sp_flight u = sp_flight s" "sp_lru u = sp_lru s"
    "length (sp_calls u) = length (sp_calls s)" by (simp_all add: u_def w_def)
  have uc: "sp_calls u ! d = (if d = c then (sp_calls s ! c)\<lparr>cl_result := Some x, cl_done := True\<rparr> else sp_calls s ! d)" if "d < length (sp_calls s)" for d
    using that by (simp add: u_def nth_list_update)
  have w: "opens (w q) = opens q" "joins (w q) = joins q" "pc_fd (w q) = pc_fd q" for q by (auto simp: w_def split: static_pc.splits)
  have tj: "sp_pcs ?t ! j = (if j = i then S_Erase p c x else w (sp_pcs s ! j))" if "j < length (sp_pcs s)" for j
    using that by (simp add: ui)
  have fl: "flight_ok s" and ps: "pcs_ok s" using inv by (simp_all add: static_inv_def)
  have co: "call_ok s q d \<Longrightarrow> call_ok ?t q d" for q d using uc [of d] by (auto simp: call_ok_def ui)
  have len: "length (sp_pcs ?t) = length (sp_pcs s)" by (simp add: ui)
  have "fds_ok ?t"
    using inv i by (intro fds_same [of s ?t]) (auto simp: static_inv_def tj ui w, simp_all add: u_def)
  moreover have "flight_ok ?t" using fl i co by (intro flight_same [of s ?t]) (auto simp: tj ui w)
  moreover have "cache_ok ?t" using inv by (auto simp: static_inv_def cache_ok_def ui file_ok_def)
  moreover have "calls_ok ?t"
  proof -
    have "call_in_use ?t d \<Longrightarrow> call_in_use s d" for d
    proof (rule pcs_in_use [of ?t d s])
      show "set (sp_flight ?t) \<subseteq> set (sp_flight s)" by (simp add: ui)
      show "\<forall>q \<in> set (sp_pcs ?t). \<exists>r \<in> set (sp_pcs s). (opens q = None \<or> opens q = opens r) \<and> (joins q = None \<or> joins q = joins r)"
      proof
        fix q assume "q \<in> set (sp_pcs ?t)"
        then obtain j where j: "j < length (sp_pcs s)" "q = sp_pcs ?t ! j" using len by (metis in_set_conv_nth)
        then show "\<exists>r \<in> set (sp_pcs s). (opens q = None \<or> opens q = opens r) \<and> (joins q = None \<or> joins q = joins r)"
          using tj [OF j(1)] i by (intro bexI [of _ "sp_pcs s ! j"]) (auto simp: w)
      qed
    qed
    then show ?thesis using inv pc c uc
      by (intro calls_okI [of s ?t]) (auto simp: ui file_ok_def static_inv_def)
  qed
  moreover have "pcs_ok ?t"
    unfolding pcs_ok_def
  proof (intro allI impI)
    fix j assume "j < length (sp_pcs ?t)"
    then have j: "j < length (sp_pcs s)" unfolding len .
    show "pc_ok ?t (sp_pcs ?t ! j)"
    proof (cases "j = i")
      case True
      then show ?thesis using pc c uc [of c] j tj [OF j] by (simp add: call_ok_def file_ok_def ui)
    next
      case False
      have k: "pc_ok s (sp_pcs s ! j)" using j ps by (simp add: pcs_ok_def)
      have n: "d \<noteq> c" if "opens (sp_pcs s ! j) = Some (q, d)" for q d
      proof
        assume "d = c"
        moreover have "call_ok s q d" using pc_ok_opens [OF k that] by simp
        ultimately have "q = p" using c by (simp add: call_ok_def)
        then show False using that opens_unique [OF fl i(1) j, of p c d] i(2) False by simp
      qed
      show ?thesis unfolding tj [OF j] using False k n co uc
        by (cases "sp_pcs s ! j") (auto simp: w_def is_opening_def file_ok_def fresh_path_def ui call_ok_def)
    qed
  qed
  ultimately show ?thesis using inv by (simp add: static_inv_def u_def)
qed

lemma erase_inv:
  assumes inv: "static_inv s" and i: "i < length (sp_pcs s)" "sp_pcs s ! i = S_Erase p c x"
  defines "t \<equiv> sp_goto i (S_Use p x) (s\<lparr>sp_flight := filter (\<lambda>e. fst e \<noteq> p) (sp_flight s)\<rparr>)"
  shows "static_inv t"
proof -
  have pc: "call_ok s p c" "cl_done (sp_calls s ! c)" "(p, c) \<in> set (sp_flight s)" "file_ok s p x"
    using inv i by (auto simp: static_inv_def pcs_ok_def dest!: spec [of _ i])
  have fl: "flight_ok s" and ps: "pcs_ok s" using inv by (simp_all add: static_inv_def)
  have only: "d = c" if "(p, d) \<in> set (sp_flight s)" for d
    using that pc(3) fl by (auto simp: flight_ok_def dest: eq_key_imp_eq_value)
  have "fds_ok t" using inv i by (intro fds_same [of s t]) (auto simp: static_inv_def t_def)
  moreover have "flight_ok t"
    unfolding flight_ok_def
  proof (intro conjI allI impI)
    show "distinct (map fst (sp_flight t))" using fl by (simp add: t_def flight_ok_def distinct_map_filter)
    show "call_ok t q d" if "(q, d) \<in> set (sp_flight t)" for q d using that fl by (auto simp: t_def flight_ok_def call_ok_def)
    show "\<exists>j < length (sp_pcs t). opens (sp_pcs t ! j) = Some (q, d)" if e: "(q, d) \<in> set (sp_flight t)" for q d
    proof -
      obtain j where j: "j < length (sp_pcs s)" "opens (sp_pcs s ! j) = Some (q, d)" "q \<noteq> p"
        using e flight_opener [OF fl, of q d] by (auto simp: t_def)
      then have "j \<noteq> i" using i by auto
      then show ?thesis using j by (intro exI [of _ j]) (simp add: t_def)
    qed
    fix j k q d e
    assume "j < length (sp_pcs t)" "k < length (sp_pcs t)" "opens (sp_pcs t ! j) = Some (q, d)" "opens (sp_pcs t ! k) = Some (q, e)"
    then show "j = k" using opens_unique [OF fl] by (auto simp: t_def split: if_splits)
  qed
  moreover have "cache_ok t" using inv by (auto simp: static_inv_def cache_ok_def t_def file_ok_def)
  moreover have "calls_ok t"
  proof -
    have "call_in_use t d \<Longrightarrow> call_in_use s d" for d
      using update_in_use [OF i(1), of "S_Use p x"] i(2) by (intro pcs_in_use [of t d s]) (auto simp: t_def sp_goto_def)
    then show ?thesis using inv by (intro calls_okI [of s t]) (auto simp: static_inv_def t_def file_ok_def)
  qed
  moreover have "pcs_ok t"
    unfolding pcs_ok_def
  proof (intro allI impI)
    fix j assume "j < length (sp_pcs t)"
    then have j: "j < length (sp_pcs s)" by (simp add: t_def)
    show "pc_ok t (sp_pcs t ! j)"
    proof (cases "j = i")
      case True
      then show ?thesis using i pc by (simp add: t_def file_ok_def)
    next
      case False
      have k: "pc_ok s (sp_pcs s ! j)" using j ps by (simp add: pcs_ok_def)
      have n: "q \<noteq> p" if "opens (sp_pcs s ! j) = Some (q, d)" for q d
        using that opens_unique [OF fl i(1) j, of p c d] i False by auto
      have w: "cl_done (sp_calls s ! d)" if "(p, d) \<in> set (sp_flight s)" for d using only [OF that] pc(2) by simp
      show ?thesis using False j k n w
        by (cases "sp_pcs s ! j") (auto simp: is_opening_def call_ok_def file_ok_def fresh_path_def t_def)
    qed
  qed
  ultimately show ?thesis using inv by (simp add: static_inv_def t_def)
qed

lemma get_entries:
  assumes "lru_ok l" "lru_get p l = (hit, l')"
  shows "lru_ok l'" "set (lru_entries l') = set (lru_entries l)" "hit = map_of (lru_entries l) p"
proof -
  note g = lru_get_refines [OF assms(1), of p]
  show "lru_ok l'" using g(1) assms(2) by simp
  have d: "distinct (map fst (lru_entries l))" by (rule lru_distinct [OF assms(1)])
  show "hit = map_of (lru_entries l) p" using g(2) assms(2) by (auto simp: spec_get_def split: option.splits)
  show "set (lru_entries l') = set (lru_entries l)"
  proof (cases "map_of (lru_entries l) p")
    case None
    then show ?thesis using g(3) assms(2) by (simp add: spec_get_def)
  next
    case (Some v)
    then have "(p, v) \<in> set (lru_entries l)" by (rule map_of_SomeD)
    moreover have "e \<in> set (lru_entries l) \<Longrightarrow> fst e = p \<Longrightarrow> e = (p, v)" for e
      using map_of_is_SomeI [OF d, of p "snd e"] Some by (cases e) auto
    moreover have "e \<in> set (lru_entries l') \<longleftrightarrow> e = (p, v) \<or> e \<in> set (lru_entries l) \<and> fst e \<noteq> p" for e
      using g(3) assms(2) Some by (simp add: spec_get_def use_entry_def)
    ultimately have "e \<in> set (lru_entries l') \<longleftrightarrow> e \<in> set (lru_entries l)" for e by (cases "fst e = p") metis+
    then show ?thesis by (rule set_eqI)
  qed
qed

lemma lookup_inv:
  assumes inv: "static_inv s" and i: "i < length (sp_pcs s)" "sp_pcs s ! i = S_Look p" and st: "static_step ans i s = Some t"
  shows "static_inv t"
proof -
  obtain hit l where g: "lru_get p (sp_lru s) = (hit, l)" by fastforce
  have c: "cache_ok s" and ok: "lru_ok (sp_lru s)" using inv by (simp_all add: static_inv_def cache_ok_def)
  note e = get_entries [OF ok g]
  let ?s = "s\<lparr>sp_lru := l\<rparr>"
  have fd: "fds_ok (sp_goto i pc ?s)" if "pc_fd pc = None" for pc
    by (rule fds_same [of s]) (use inv i that in \<open>auto simp: static_inv_def\<close>)
  have vh: "valid_hit ?s hit = hit"
  proof (cases hit)
    case (Some x)
    then have "(p, x) \<in> set (lru_entries (sp_lru s))" using e(3) by (metis map_of_SomeD)
    then have "0 \<le> fc_first (sp_objs s ! x)" using c by (auto simp: cache_ok_def)
    then show ?thesis using Some by (simp add: valid_hit_def)
  qed (simp add: valid_hit_def)
  moreover have "valid_hit ?s hit = valid_hit s hit" by (cases hit) (simp_all add: valid_hit_def)
  ultimately have vs: "valid_hit s hit = hit" by simp
  show ?thesis
  proof (cases hit)
    case (Some x)
    then have t: "t = sp_goto i (S_Use p x) ?s" using st i g vh vs by (simp add: static_step_def Let_def)
    have "(p, x) \<in> set (lru_entries (sp_lru s))" using e(3) Some by (metis map_of_SomeD)
    then have "file_ok s p x" using c by (auto simp: cache_ok_def)
    then show ?thesis unfolding t using i ok e fd [of "S_Use p x"]
      by (intro steady_inv [OF inv steadyI(3)]) (auto simp: file_ok_def)
  next
    case None
    show ?thesis
    proof (cases "map_of (sp_flight s) p")
      case (Some c)
      then have t: "t = sp_goto i (S_Join p c) ?s" using st i g vh vs None by (simp add: static_step_def Let_def)
      have "(p, c) \<in> set (sp_flight s)" using Some by (rule map_of_SomeD)
      moreover from this have "call_ok s p c" using inv by (auto simp: static_inv_def flight_ok_def)
      ultimately show ?thesis unfolding t using i ok e fd [of "S_Join p c"]
        by (intro steady_inv [OF inv steadyI(3)]) (auto simp: call_ok_def)
    next
      case fl: None
      have "static_inv (sp_goto i (S_Look p) ?s)" using i ok e fd [of "S_Look p"]
        by (intro steady_inv [OF inv steadyI(3)]) auto
      moreover have "sp_goto i (S_Look p) ?s = ?s" using i(2) by (simp add: sp_goto_def list_update_same_conv i(1))
      ultimately have v: "static_inv ?s" by simp
      have "fresh_path s p" using e(3) None by (simp add: fresh_path_def)
      then have "fresh_path ?s p" using e(2) by (simp add: fresh_path_set)
      then show ?thesis using begin_call_inv [OF v, of i p] i fl st g vh vs None by (simp add: static_step_def Let_def)
    qed
  qed
qed

lemma static_step_inv:
  assumes inv: "static_inv s" and i: "i < length (sp_pcs s)" and st: "static_step ans i s = Some t"
  shows "static_inv t"
proof -
  have ok: "lru_ok (sp_lru s)" and pc: "pc_ok s (sp_pcs s ! i)" and fds: "fds_ok s"
    using inv i by (simp_all add: static_inv_def cache_ok_def pcs_ok_def)
  have fd: "fds_ok (sp_goto i q s)" if "pc_fd q = pc_fd (sp_pcs s ! i)" for q
    by (rule fds_same [of s]) (use fds i that in auto)
  show ?thesis
  proof (cases "sp_pcs s ! i")
    case S_Idle
    then show ?thesis using st by (simp add: static_step_def)
  next
    case (S_Look p)
    then show ?thesis using lookup_inv [OF inv i _ st] by simp
  next
    case (S_Join p c)
    have ca: "call_ok s p c" "c < length (sp_calls s)" using pc S_Join by (simp_all add: call_ok_def)
    have use: "call_in_use s c" unfolding call_in_use_def using i S_Join by (metis joins.simps(1) nth_mem option.simps(9) snd_conv)
    show ?thesis
    proof (cases "cl_done (sp_calls s ! c)")
      case True
      then obtain x where x: "cl_result (sp_calls s ! c) = Some x" "file_ok s p x"
        using inv ca use unfolding static_inv_def calls_ok_def call_ok_def by (metis (no_types, lifting))
      then have t: "t = sp_goto i (S_Use p x) s" using st S_Join True by (simp add: static_step_def)
      show ?thesis unfolding t using i ok x S_Join fd [of "S_Use p x"]
        by (intro steady_inv [OF inv steadyI(1)]) (auto simp: file_ok_def)
    next
      case False
      then have t: "t = sp_goto i (S_Parked p c) s" using st S_Join by (simp add: static_step_def)
      show ?thesis unfolding t using i ok ca S_Join False pc fd [of "S_Parked p c"]
        by (intro steady_inv [OF inv steadyI(1)]) (auto simp: call_ok_def is_opening_def)
    qed
  next
    case (S_Parked p c)
    then show ?thesis using st by (simp add: static_step_def)
  next
    case (S_Open p c)
    show ?thesis
    proof (cases ans)
      case (Opened f)
      show ?thesis
      proof (cases "f < 0")
        case True
        then have t: "t = sp_goto i (S_Done p c (length (sp_objs s))) (new_file p (- 1) 404 s)"
          using st S_Open Opened by (simp add: static_step_def)
        show ?thesis unfolding t using i ok S_Open pc fds_new_file [OF fds, of i "S_Done p c (length (sp_objs s))" p 404]
          by (intro steady_inv [OF inv steadyI(2)]) (auto simp: call_ok_def is_opening_def file_ok_def new_file_def)
      next
        case False
        then have n: "f \<notin> set (sp_open s)" and t: "t = sp_goto i (S_Stat p c f) (s\<lparr>sp_open := f # sp_open s\<rparr>)"
          using st S_Open Opened by (auto simp: static_step_def split: if_splits)
        show ?thesis unfolding t using i ok S_Open pc False fds_opened [OF fds i _ n, of p c]
          by (intro steady_inv [OF inv steadyI(4)]) (auto simp: call_ok_def is_opening_def fresh_path_def)
      qed
    qed (use st S_Open in \<open>simp_all add: static_step_def\<close>)
  next
    case (S_Stat p c f)
    show ?thesis
    proof (cases ans)
      case (Stat ret dir roth sz)
      show ?thesis
      proof (cases "ret < 0 \<or> dir \<or> \<not> roth")
        case True
        then obtain e where t: "t = sp_goto i (S_Bad p c f e) s"
          using st S_Stat Stat by (auto simp: static_step_def split: if_splits)
        show ?thesis unfolding t using i ok S_Stat pc fd [of "S_Bad p c f e"]
          by (intro steady_inv [OF inv steadyI(1)]) (auto simp: call_ok_def is_opening_def fresh_path_def)
      next
        case False
        then have t: "t = sp_goto i (S_Put p c (length (sp_objs s))) (new_file p f (file_size sz) s)"
          using st S_Stat Stat by (simp add: static_step_def)
        have "owns_fd s (Inr i) f" using i S_Stat by (simp add: owns_fd_def)
        then have "f \<in> set (sp_open s)" using fds unfolding fds_ok_def by blast
        then have "0 \<le> f" using fds by (simp add: fds_ok_def)
        then show ?thesis unfolding t
          using i ok S_Stat pc fds_handed [OF fds i, of f "S_Put p c (length (sp_objs s))" p "file_size sz"]
          by (intro steady_inv [OF inv steadyI(2)]) (auto simp: call_ok_def is_opening_def fresh_path_def file_ok_def new_file_def)
      qed
    qed (use st S_Stat in \<open>simp_all add: static_step_def\<close>)
  next
    case (S_Bad p c f e)
    let ?pc = "S_Done p c (length (sp_objs s))"
    have t: "t = sp_goto i ?pc (new_file p (- 1) e (close_fd f s))"
      using st S_Bad by (simp add: static_step_def close_fd_def)
    have o: "owns_fd s (Inr i) f" using i S_Bad by (simp add: owns_fd_def)
    have "owns_fd t x g \<longleftrightarrow> owns_fd s x g \<and> x \<noteq> Inr i" for x g
      unfolding t using i S_Bad
      by (auto simp: owns_fd_def new_file_def close_fd_def nth_append less_Suc_eq split: sum.splits if_splits)
    then have "fds_ok t" by (rule fds_close [OF fds o]) (auto simp: t new_file_def)
    then show ?thesis unfolding t using i ok S_Bad pc
      by (intro steady_inv [OF inv steadyI(5)]) (auto simp: call_ok_def is_opening_def file_ok_def new_file_def close_fd_def)
  next
    case (S_Put p c x)
    obtain ex l where g: "lru_put p x (sp_lru s) = (ex, l)" by fastforce
    then have "ex = None" "static_inv (sp_goto i (S_Done p c x) (s\<lparr>sp_lru := l\<rparr>))" using put_inv [OF inv i S_Put] by auto
    moreover have "t = sp_goto i (S_Done p c x) (s\<lparr>sp_lru := l\<rparr>)" using st S_Put g \<open>ex = None\<close>
      by (simp add: static_step_def Let_def valid_hit_def)
    ultimately show ?thesis by simp
  next
    case (S_Done p c x)
    then show ?thesis using done_inv [OF inv i S_Done] st by (simp add: static_step_def Let_def)
  next
    case (S_Erase p c x)
    then show ?thesis using erase_inv [OF inv i S_Erase] st by (simp add: static_step_def)
  next
    case (S_Use p x)
    then have t: "t = sp_goto i S_Idle s" using st by (simp add: static_step_def)
    show ?thesis unfolding t using i ok S_Use fd [of S_Idle] by (intro steady_inv [OF inv steadyI(1)]) auto
  qed
qed

section \<open>Destruction\<close>

lemma reap_one_fields [simp]:
  "sp_lru (reap_one x s) = sp_lru s" "sp_flight (reap_one x s) = sp_flight s" "sp_calls (reap_one x s) = sp_calls s"
  "sp_pcs (reap_one x s) = sp_pcs s" "sp_dup (reap_one x s) = sp_dup s"
  "sp_objs (reap_one x s) = (sp_objs s)[x := (sp_objs s ! x)\<lparr>fc_gone := True\<rparr>]"
  by (simp_all add: reap_one_def close_fd_def Let_def)

lemma reap_one_in_use [simp]: "call_in_use (reap_one x s) c = call_in_use s c" "obj_in_use (reap_one x s) y = obj_in_use s y"
  by (simp_all add: call_in_use_def obj_in_use_def)

lemma reap_one_file_ok: "file_ok s p y \<Longrightarrow> y \<noteq> x \<Longrightarrow> file_ok (reap_one x s) p y"
  by (simp add: file_ok_def)

lemma uses_in_use: "i < length (sp_pcs s) \<Longrightarrow> uses_obj (sp_pcs s ! i) x \<Longrightarrow> obj_in_use s x"
  using nth_mem by (fastforce simp: obj_in_use_def)

lemma reap_one_inv:
  assumes inv: "static_inv s" and x: "x < length (sp_objs s)" "\<not> fc_gone (sp_objs s ! x)" "\<not> obj_in_use s x"
  shows "static_inv (reap_one x s)"
proof -
  let ?t = "reap_one x s"
  have fds: "fds_ok s" using inv by (simp add: static_inv_def)
  have "fds_ok ?t"
  proof (cases "0 \<le> fc_first (sp_objs s ! x)")
    case True
    have "owns_fd s (Inl x) (fc_first (sp_objs s ! x))" using x True by (simp add: owns_fd_def)
    moreover have "owns_fd ?t y f \<longleftrightarrow> owns_fd s y f \<and> y \<noteq> Inl x" for y f
      using x by (auto simp: owns_fd_def nth_list_update split: sum.splits if_splits)
    ultimately show ?thesis using True by (intro fds_close [OF fds, of "Inl x" "fc_first (sp_objs s ! x)"]) (auto simp: reap_one_def close_fd_def)
  next
    case False
    then have "owns_fd ?t y f = owns_fd s y f" for y f
      using x by (auto simp: owns_fd_def nth_list_update split: sum.splits if_splits)
    moreover have "sp_open ?t = sp_open s" "sp_bad ?t = sp_bad s" using False by (simp_all add: reap_one_def)
    ultimately show ?thesis using fds by (simp add: fds_ok_def)
  qed
  moreover have "flight_ok ?t" using inv by (intro flight_same [of s ?t]) (auto simp: static_inv_def call_ok_def)
  moreover have "cache_ok ?t" unfolding cache_ok_def
  proof (intro conjI allI impI)
    show "lru_ok (sp_lru ?t)" using inv by (simp add: static_inv_def cache_ok_def)
    fix p y assume "(p, y) \<in> set (lru_entries (sp_lru ?t))"
    then have e: "(p, y) \<in> set (lru_entries (sp_lru s))" by simp
    then have "y \<noteq> x" using x(3) by (force simp: obj_in_use_def)
    moreover have "file_ok s p y" "0 \<le> fc_first (sp_objs s ! y)" using e inv by (auto simp: static_inv_def cache_ok_def)
    ultimately show "file_ok ?t p y" "0 \<le> fc_first (sp_objs ?t ! y)" using reap_one_file_ok by simp_all
  qed
  moreover have "calls_ok ?t" unfolding calls_ok_def
  proof (intro allI impI)
    fix d assume "d < length (sp_calls ?t)"
    then have d: "d < length (sp_calls s)" by simp
    show "if cl_done (sp_calls ?t ! d)
        then \<exists>obj. cl_result (sp_calls ?t ! d) = Some obj \<and> (call_in_use ?t d \<longrightarrow> file_ok ?t (cl_path (sp_calls ?t ! d)) obj)
        else cl_result (sp_calls ?t ! d) = None"
    proof (cases "cl_done (sp_calls s ! d)")
      case True
      then obtain y where y: "cl_result (sp_calls s ! d) = Some y" "call_in_use s d \<longrightarrow> file_ok s (cl_path (sp_calls s ! d)) y"
        using inv d unfolding static_inv_def calls_ok_def by (metis (no_types, lifting))
      have "call_in_use s d \<Longrightarrow> y \<noteq> x" using x(3) y(1) d by (auto simp: obj_in_use_def)
      then show ?thesis using y True reap_one_file_ok by auto
    next
      case False
      then show ?thesis using inv d unfolding static_inv_def calls_ok_def by simp
    qed
  qed
  moreover have "pcs_ok ?t" unfolding pcs_ok_def
  proof (intro allI impI)
    fix j assume "j < length (sp_pcs ?t)"
    then have j: "j < length (sp_pcs s)" by simp
    have "pc_ok s (sp_pcs s ! j)" using inv j by (simp add: static_inv_def pcs_ok_def)
    moreover have "\<not> uses_obj (sp_pcs s ! j) x" using uses_in_use [OF j] x(3) by blast
    ultimately show "pc_ok ?t (sp_pcs ?t ! j)"
      by (cases "sp_pcs s ! j") (auto simp: is_opening_def call_ok_def fresh_path_def intro: reap_one_file_ok)
  qed
  ultimately show ?thesis using inv by (simp add: static_inv_def)
qed

lemma fold_reap_inv:
  "static_inv s \<Longrightarrow> distinct xs \<Longrightarrow> \<forall>x \<in> set xs. x < length (sp_objs s) \<and> \<not> fc_gone (sp_objs s ! x) \<and> \<not> obj_in_use s x \<Longrightarrow>
   static_inv (fold reap_one xs s)"
proof (induction xs arbitrary: s)
  case (Cons x xs)
  then have "static_inv (reap_one x s)" by (intro reap_one_inv) auto
  moreover have "y < length (sp_objs (reap_one x s)) \<and> \<not> fc_gone (sp_objs (reap_one x s) ! y) \<and> \<not> obj_in_use (reap_one x s) y"
    if "y \<in> set xs" for y using that Cons.prems by (auto simp: nth_list_update)
  ultimately show ?case using Cons by simp
qed simp

lemma fold_reap_fields [simp]:
  "sp_pcs (fold reap_one xs s) = sp_pcs s" "sp_lru (fold reap_one xs s) = sp_lru s" "sp_calls (fold reap_one xs s) = sp_calls s"
  "sp_flight (fold reap_one xs s) = sp_flight s" "obj_in_use (fold reap_one xs s) = obj_in_use s"
  "length (sp_objs (fold reap_one xs s)) = length (sp_objs s)"
  by (induction xs arbitrary: s) (auto simp: fun_eq_iff)

lemma fold_reap_gone:
  "x \<in> set xs \<or> fc_gone (sp_objs s ! x) \<Longrightarrow> x < length (sp_objs s) \<Longrightarrow> fc_gone (sp_objs (fold reap_one xs s) ! x)"
proof (induction xs arbitrary: s)
  case (Cons a xs)
  then have "x \<in> set xs \<or> fc_gone (sp_objs (reap_one a s) ! x)"
    by (cases "a = x"; cases "a < length (sp_objs s)") auto
  then show ?case using Cons.IH [of "reap_one a s"] Cons.prems(2) by simp
qed simp

lemma reap_inv: "static_inv s \<Longrightarrow> static_inv (reap s)"
  unfolding reap_def by (rule fold_reap_inv) (auto simp: garbage_def)

lemma garbage_reap: "garbage (reap s) = []"
  using fold_reap_gone [of _ "garbage s" s] by (auto simp: reap_def garbage_def filter_empty_conv)

lemma mk_static_inv: "static_inv (mk_static n)"
  using mk_lru_ok [of 512]
  by (auto simp: static_inv_def mk_static_def fds_ok_def owns_fd_def flight_ok_def cache_ok_def calls_ok_def pcs_ok_def
      lru_entries_def mk_lru_def split: sum.splits)

lemma static_reachable_inv: "static_reachable s \<Longrightarrow> static_inv s \<and> garbage s = []"
proof (induction rule: static_reachable.induct)
  case (start n)
  then show ?case using mk_static_inv by (simp add: garbage_def mk_static_def)
next
  case (call s i p)
  have fds: "fds_ok (sp_goto i (S_Look p) s)"
    by (rule fds_same [of s]) (use call in \<open>auto simp: static_inv_def\<close>)
  have "lru_ok (sp_lru s)" using call by (simp add: static_inv_def cache_ok_def)
  then have inv: "static_inv (sp_goto i (S_Look p) s)" using call fds by (intro steady_inv [OF _ steadyI(1), of s i]) auto
  let ?t = "sp_goto i (S_Look p) s"
  have old: "\<exists>j. j < length (sp_pcs s) \<and> q = sp_pcs s ! j \<and> sp_pcs ?t ! j \<in> set (sp_pcs ?t)" if q: "q \<in> set (sp_pcs s)" for q
  proof -
    obtain j where "j < length (sp_pcs s)" "q = sp_pcs s ! j" using q by (auto simp: in_set_conv_nth)
    moreover from this have "sp_pcs ?t ! j \<in> set (sp_pcs ?t)" by (intro nth_mem) simp
    ultimately show ?thesis by metis
  qed
  have "call_in_use s c \<Longrightarrow> call_in_use ?t c" for c
  proof (rule pcs_in_use [of s c ?t])
    show "\<forall>q \<in> set (sp_pcs s). \<exists>r \<in> set (sp_pcs ?t). (opens q = None \<or> opens q = opens r) \<and> (joins q = None \<or> joins q = joins r)"
    proof
      fix q assume "q \<in> set (sp_pcs s)"
      then obtain j where j: "j < length (sp_pcs s)" "q = sp_pcs s ! j" "sp_pcs ?t ! j \<in> set (sp_pcs ?t)" using old [of q] by auto
      show "\<exists>r \<in> set (sp_pcs ?t). (opens q = None \<or> opens q = opens r) \<and> (joins q = None \<or> joins q = joins r)"
        by (rule bexI [OF _ j(3)]) (use j(1,2) call(3) in auto)
    qed
  qed simp_all
  moreover have "(\<exists>pc \<in> set (sp_pcs s). uses_obj pc x) \<Longrightarrow> (\<exists>pc \<in> set (sp_pcs ?t). uses_obj pc x)" for x
  proof -
    assume "\<exists>pc \<in> set (sp_pcs s). uses_obj pc x"
    then obtain q where q: "q \<in> set (sp_pcs s)" "uses_obj q x" by blast
    then obtain j where j: "j < length (sp_pcs s)" "uses_obj (sp_pcs s ! j) x" "sp_pcs ?t ! j \<in> set (sp_pcs ?t)" using old [OF q(1)] by metis
    show ?thesis by (rule bexI [OF _ j(3)]) (use j(1,2) call(3) in auto)
  qed
  ultimately have "obj_in_use s x \<Longrightarrow> obj_in_use (sp_goto i (S_Look p) s) x" for x by (auto simp: obj_in_use_def)
  then show ?case using call inv by (auto simp: garbage_def filter_empty_conv)
next
  case (step s i ans t)
  then show ?case using static_step_inv reap_inv garbage_reap by blast
qed

section \<open>Properties\<close>

lemma static_step_cap: "static_step ans i s = Some t \<Longrightarrow> lru_cap (sp_lru t) = lru_cap (sp_lru s)"
  by (cases "sp_pcs s ! i"; cases ans)
     (auto simp: static_step_def lru_get_def lru_put_def new_file_def close_fd_def Let_def split: if_splits option.splits)

lemma static_reachable_cap: "static_reachable s \<Longrightarrow> lru_cap (sp_lru s) = 512"
  by (induction rule: static_reachable.induct)
     (auto simp: mk_static_def mk_lru_def reap_def dest: static_step_cap)

text \<open>
  C18: Every request gets the file of its own path, and a valid descriptor stays open for as long as
  the request uses it, also when the cache evicts the file meanwhile. Every open descriptor has one
  owner, an object somebody refers to or a request about to open the file, so none leaks and none is
  closed twice. Of the requests for a path at most one opens it, the branch for a duplicate open is
  never taken, and the cache keeps to its 512 places.
\<close>

theorem static_pool_safe:
  assumes "static_reachable s"
  shows "(\<forall>i < length (sp_pcs s). \<forall>p x. sp_pcs s ! i = S_Use p x \<longrightarrow>
        x < length (sp_objs s) \<and> fc_path (sp_objs s ! x) = p \<and>
        (0 \<le> fc_first (sp_objs s ! x) \<longrightarrow> fc_first (sp_objs s ! x) \<in> set (sp_open s))) \<and>
    (\<forall>f \<in> set (sp_open s). (\<exists>!x. owns_fd s x f) \<and> (\<forall>x. owns_fd s (Inl x) f \<longrightarrow> obj_in_use s x)) \<and>
    (\<forall>i < length (sp_pcs s). \<forall>j < length (sp_pcs s). \<forall>p c d.
        opens (sp_pcs s ! i) = Some (p, c) \<and> opens (sp_pcs s ! j) = Some (p, d) \<longrightarrow> i = j) \<and>
    \<not> sp_bad s \<and> \<not> sp_dup s \<and> length (lru_list (sp_lru s)) \<le> 512"
proof -
  have inv: "fds_ok s" "flight_ok s" "cache_ok s" "pcs_ok s" "\<not> sp_dup s" and g: "garbage s = []"
    using static_reachable_inv [OF assms] by (simp_all add: static_inv_def)
  have m: "f \<in> set (sp_open s) \<longleftrightarrow> (\<exists>x. owns_fd s x f)" for f using inv(1) by (simp add: fds_ok_def)
  have u: "owns_fd s x f \<Longrightarrow> owns_fd s y f \<Longrightarrow> x = y" for x y f using inv(1) unfolding fds_ok_def by blast
  have use: "file_ok s p x" if "i < length (sp_pcs s)" "sp_pcs s ! i = S_Use p x" for i p x
    using inv(4) that by (auto simp: pcs_ok_def dest: spec [of _ i])
  have live: "fc_first (sp_objs s ! x) \<in> set (sp_open s)" if "file_ok s p x" "0 \<le> fc_first (sp_objs s ! x)" for p x
  proof -
    have "owns_fd s (Inl x) (fc_first (sp_objs s ! x))" using that by (simp add: owns_fd_def file_ok_def)
    then show ?thesis using m by blast
  qed
  have "owns_fd s (Inl x) f \<Longrightarrow> obj_in_use s x" for x f using g by (auto simp: owns_fd_def garbage_def filter_empty_conv)
  moreover have "\<exists>!x. owns_fd s x f" if "f \<in> set (sp_open s)" for f using that m [of f] u by blast
  moreover have "x < length (sp_objs s) \<and> fc_path (sp_objs s ! x) = p" if "file_ok s p x" for p x using that by (simp add: file_ok_def)
  moreover have "length (lru_list (sp_lru s)) \<le> 512" using inv(3) static_reachable_cap [OF assms] by (simp add: cache_ok_def lru_ok_def)
  moreover have "\<not> sp_bad s" using inv(1) by (simp add: fds_ok_def)
  ultimately show ?thesis using use live inv(5) opens_unique [OF inv(2)] by (intro conjI) (blast | simp)+
qed

fun open_rank :: "static_pc \<Rightarrow> nat" where
  "open_rank (S_Open p c) = 5"
| "open_rank (S_Stat p c fd) = 4"
| "open_rank (S_Bad p c fd e) = 3"
| "open_rank (S_Put p c obj) = 3"
| "open_rank (S_Done p c obj) = 2"
| "open_rank (S_Erase p c obj) = 1"
| "open_rank _ = 0"

lemma opener_moves:
  assumes "opens (sp_pcs s ! j) = Some (p, c)" "j < length (sp_pcs s)"
  shows "\<exists>ans. static_step ans j s \<noteq> None" "static_step ans j s = Some t \<Longrightarrow> open_rank (sp_pcs t ! j) < open_rank (sp_pcs s ! j)"
proof -
  have "static_step (Opened (- 1)) j s \<noteq> None \<or> static_step (Stat 0 False True 0) j s \<noteq> None"
    using assms by (cases "sp_pcs s ! j") (auto simp: static_step_def Let_def split: prod.splits option.splits)
  then show "\<exists>ans. static_step ans j s \<noteq> None" by blast
  show "static_step ans j s = Some t \<Longrightarrow> open_rank (sp_pcs t ! j) < open_rank (sp_pcs s ! j)"
    using assms by (cases "sp_pcs s ! j"; cases ans)
      (auto simp: static_step_def Let_def new_file_def close_fd_def split: prod.splits option.splits if_splits)
qed

text \<open>No request for a file hangs: one that waits in a call waits for a request that opens the file, that can go on, and that gets closer to its end with each of its steps; any other can go on itself.\<close>

theorem static_pool_progress:
  assumes "static_reachable s" "i < length (sp_pcs s)" "sp_pcs s ! i \<noteq> S_Idle"
  shows "case sp_pcs s ! i of
      S_Parked p c \<Rightarrow> \<exists>j < length (sp_pcs s). opens (sp_pcs s ! j) = Some (p, c) \<and> (\<exists>ans. static_step ans j s \<noteq> None) \<and>
        (\<forall>ans t. static_step ans j s = Some t \<longrightarrow> open_rank (sp_pcs t ! j) < open_rank (sp_pcs s ! j))
    | _ \<Rightarrow> \<exists>ans. static_step ans i s \<noteq> None"
proof -
  have inv: "flight_ok s" "pc_ok s (sp_pcs s ! i)"
    using static_reachable_inv [OF assms(1)] assms(2) by (simp_all add: static_inv_def pcs_ok_def)
  show ?thesis
  proof (cases "sp_pcs s ! i")
    case (S_Parked p c)
    then have "(p, c) \<in> set (sp_flight s)" using inv(2) by (simp add: is_opening_def)
    then obtain j where "j < length (sp_pcs s)" "opens (sp_pcs s ! j) = Some (p, c)" using flight_opener [OF inv(1)] by blast
    then show ?thesis using opener_moves [of s j p c] S_Parked by (auto intro!: exI [of _ j])
  next
    case (S_Look p)
    then show ?thesis by (auto simp: static_step_def Let_def split: prod.splits option.splits)
  next
    case (S_Join p c)
    then show ?thesis by (auto simp: static_step_def)
  next
    case (S_Use p x)
    then show ?thesis by (auto simp: static_step_def)
  qed (use opener_moves(1) [OF _ assms(2)] assms(3) in auto)
qed

text \<open>The size field is an \<open>int\<close>: it is right below 2 GiB and negative just above.\<close>

lemma file_size_small: "0 \<le> n \<Longrightarrow> n < 2 ^ 31 \<Longrightarrow> file_size n = n"
  by (simp add: file_size_def signed_take_bit_int_eq_self)

lemma file_size_large: "2 ^ 31 \<le> n \<Longrightarrow> n < 2 ^ 32 \<Longrightarrow> file_size n = n - 2 ^ 32"
proof -
  assume n: "2 ^ 31 \<le> n" "n < 2 ^ 32"
  have "take_bit (Suc 31) n = take_bit (Suc 31) (n - 2 ^ 32)" by (simp add: take_bit_eq_mod)
  then have "signed_take_bit 31 n = signed_take_bit 31 (n - 2 ^ 32)" by (simp only: signed_take_bit_eq_iff_take_bit_eq)
  also have "\<dots> = n - 2 ^ 32" using n by (intro signed_take_bit_int_eq_self) simp_all
  finally show ?thesis by (simp add: file_size_def)
qed

text \<open>A run with two requests for one file: one opens it while the other waits.\<close>

datatype static_act = Want string | Move static_answer

fun static_run :: "(nat \<times> static_act) list \<Rightarrow> static_pool \<Rightarrow> static_pool option" where
  "static_run [] s = Some s"
| "static_run ((i, Want p) # xs) s =
     (if i < length (sp_pcs s) \<and> sp_pcs s ! i = S_Idle then static_run xs (sp_goto i (S_Look p) s) else None)"
| "static_run ((i, Move ans) # xs) s =
     (if i < length (sp_pcs s) then case static_step ans i s of None \<Rightarrow> None | Some t \<Rightarrow> static_run xs (reap t) else None)"

lemma static_run_reachable: "static_run xs s = Some t \<Longrightarrow> static_reachable s \<Longrightarrow> static_reachable t"
proof (induction xs s rule: static_run.induct)
  case (2 i p xs s)
  then show ?case by (auto split: if_splits intro: static_reachable.call)
next
  case (3 i ans xs s)
  then show ?case by (auto split: if_splits option.splits intro: static_reachable.step)
qed simp

definition two_requests :: "(nat \<times> static_act) list" where
  "two_requests = [(0, Want ''a''), (1, Want ''a''), (0, Move NoAnswer), (1, Move NoAnswer), (1, Move NoAnswer)]"

definition both_served :: "(nat \<times> static_act) list" where
  "both_served = two_requests @ [(0, Move (Opened 5)), (0, Move (Stat 0 False True 10)), (0, Move NoAnswer), (0, Move NoAnswer),
     (0, Move NoAnswer), (1, Move NoAnswer)]"

lemma static_run_append: "static_run (xs @ ys) s = (case static_run xs s of None \<Rightarrow> None | Some t \<Rightarrow> static_run ys t)"
  by (induction xs s rule: static_run.induct) (auto split: option.splits)

lemma two_requests_run:
  "\<exists>s. static_run two_requests (mk_static 2) = Some s \<and> sp_pcs s = [S_Open ''a'' 0, S_Parked ''a'' 0]"
  by (simp add: two_requests_def mk_static_def static_step_def lru_get_def mk_lru_def valid_hit_def sp_goto_def Let_def
      reap_def garbage_def eval_nat_numeral)

lemma static_pool_progress_witness:
  "\<exists>s. static_reachable s \<and> sp_pcs s = [S_Open ''a'' 0, S_Parked ''a'' 0] \<and>
     (\<exists>j < 2. opens (sp_pcs s ! j) = Some (''a'', 0) \<and> (\<exists>ans. static_step ans j s \<noteq> None))"
proof -
  obtain s where s: "static_run two_requests (mk_static 2) = Some s" "sp_pcs s = [S_Open ''a'' 0, S_Parked ''a'' 0]"
    using two_requests_run by blast
  have r: "static_reachable s" using static_run_reachable [OF s(1)] static_reachable.start by blast
  have "\<exists>j < 2. opens (sp_pcs s ! j) = Some (''a'', 0) \<and> (\<exists>ans. static_step ans j s \<noteq> None)"
    using static_pool_progress [OF r, of 1] s(2) by (auto simp: numeral_2_eq_2)
  then show ?thesis using r s(2) by blast
qed

lemma static_pool_safe_witness:
  "\<exists>s. static_reachable s \<and> sp_pcs s = [S_Use ''a'' 0, S_Use ''a'' 0] \<and> fc_first (sp_objs s ! 0) = 5 \<and> 5 \<in> set (sp_open s)"
proof -
  obtain s where s: "static_run both_served (mk_static 2) = Some s" "sp_pcs s = [S_Use ''a'' 0, S_Use ''a'' 0]"
    "fc_first (sp_objs s ! 0) = 5"
    by (simp add: both_served_def two_requests_def mk_static_def static_step_def lru_get_def lru_put_def mk_lru_def valid_hit_def
        sp_goto_def Let_def reap_def garbage_def new_file_def obj_in_use_def call_in_use_def lru_entries_def file_size_def eval_nat_numeral)
  have "static_reachable s" using static_run_reachable [OF s(1)] static_reachable.start by blast
  then show ?thesis using static_pool_safe [of s] s(2,3) by (intro exI [of _ s]) auto
qed

end
