(* ===== verification/Usql_Client.thy ===== *)
theory Usql_Client
  imports Uco_Libc
begin

text \<open>
  The MySQL client (\<open>core/usql.cpp\<close>, \<open>core/usql.h\<close>): the loop that drives a nonblocking call of the
  client library under a deadline, the statements, the binding of rows to protobuf messages and
  transactions. The library, the server, io_uring and the clock are a parameter: a record of
  functions on a state \<open>'w\<close> of everything outside the program. Pointers to a connection are an
  \<open>option\<close> or \<open>bool\<close> that says whether they are null; logging is left out.
\<close>

section \<open>Errors and results\<close>

datatype UsqlError =
    KBadArgument | KTimeout | KAccessDenied | KUnknownDatabase | KTableExists | KBadField | KDuplicateEntry
  | KParseError | KNoSuchTable | KLockWaitTimeout | KLockDeadlock | KTruncatedWrongValue | KDataTooLong
  | KRowIsReferenced | KForeignKeyNoParent | KConnHostError | KUnknownHost | KServerGone | KOutOfMemory
  | KServerLost

fun usql_code :: "UsqlError \<Rightarrow> int" where
  "usql_code KBadArgument = - 200" | "usql_code KTimeout = - 201" | "usql_code KAccessDenied = - 1045"
| "usql_code KUnknownDatabase = - 1049" | "usql_code KTableExists = - 1050" | "usql_code KBadField = - 1054"
| "usql_code KDuplicateEntry = - 1062" | "usql_code KParseError = - 1064" | "usql_code KNoSuchTable = - 1146"
| "usql_code KLockWaitTimeout = - 1205" | "usql_code KLockDeadlock = - 1213"
| "usql_code KTruncatedWrongValue = - 1292" | "usql_code KDataTooLong = - 1406"
| "usql_code KRowIsReferenced = - 1451" | "usql_code KForeignKeyNoParent = - 1452"
| "usql_code KConnHostError = - 2003" | "usql_code KUnknownHost = - 2005" | "usql_code KServerGone = - 2006"
| "usql_code KOutOfMemory = - 2008" | "usql_code KServerLost = - 2013"

record SqlError =
  sql_ret_code :: int
  sql_err_msg :: string
  sql_sqlstate :: string

definition no_error :: SqlError where
  "no_error = \<lparr>sql_ret_code = 0, sql_err_msg = [], sql_sqlstate = []\<rparr>"

definition bad_argument :: "string \<Rightarrow> SqlError" where
  "bad_argument msg = no_error\<lparr>sql_ret_code := usql_code KBadArgument, sql_err_msg := msg\<rparr>"




text \<open>The column types of the client library.\<close>

datatype field_type =
    T_DECIMAL | T_TINY | T_SHORT | T_LONG | T_FLOAT | T_DOUBLE | T_NULL | T_TIMESTAMP | T_LONGLONG | T_INT24
  | T_DATE | T_TIME | T_DATETIME | T_YEAR | T_VARCHAR | T_BIT | T_JSON | T_NEWDECIMAL | T_ENUM | T_SET
  | T_TINY_BLOB | T_MEDIUM_BLOB | T_LONG_BLOB | T_BLOB | T_VAR_STRING | T_STRING | T_GEOMETRY

record SelectResult =
  sr_error :: SqlError
  sr_num_fields :: nat
  sr_num_rows :: nat
  sr_column_names :: "string list"
  sr_column_types :: "field_type list"
  sr_column_unsigned :: "bool list"
  sr_rows :: "string list list"

definition empty_select :: SelectResult where
  "empty_select =
     \<lparr>sr_error = no_error, sr_num_fields = 0, sr_num_rows = 0, sr_column_names = [], sr_column_types = [],
      sr_column_unsigned = [], sr_rows = []\<rparr>"



section \<open>The world\<close>

text \<open>
  \<open>net_async_status\<close>, and a result set in memory: names, types, \<open>UNSIGNED_FLAG\<close>, and the cells with
  \<open>None\<close> for a null pointer.
\<close>

datatype async_status = NET_COMPLETE | NET_NOT_READY | NET_ERROR | NET_NO_MORE_RESULTS

record mysql_res =
  mr_fields :: "(string \<times> field_type \<times> bool) list"
  mr_rows :: "string option list list"

datatype poll_events = POLLIN | POLLOUT | POLLINOUT

record connect_args =
  ca_host :: string
  ca_user :: string
  ca_pass :: string
  ca_db :: string
  ca_port :: nat
  ca_ssl :: bool

text \<open>
  The library: \<open>my_init\<close> to \<open>my_close\<close>, with \<open>my_set_error\<close> for the direct write to \<open>net.last_errno\<close> and
  \<open>net.last_error\<close>. The kernel: the clock, \<open>poll\<close> with its return value and whether \<open>POLLOUT\<close> is set,
  \<open>get_sqe\<close>, the parking of a coroutine that got no entry, a polled event with an optional timeout,
  \<open>uco_nanosleep(0, 1000000)\<close> and \<open>shutdown\<close>.
\<close>

record 'w mysql_env =
  my_init :: "'w \<Rightarrow> bool \<times> 'w"
  my_connect :: "connect_args \<Rightarrow> 'w \<Rightarrow> async_status \<times> 'w"
  my_query :: "string \<Rightarrow> 'w \<Rightarrow> async_status \<times> 'w"
  my_store :: "'w \<Rightarrow> async_status \<times> mysql_res option \<times> 'w"
  my_errno :: "'w \<Rightarrow> nat"
  my_error :: "'w \<Rightarrow> string"
  my_sqlstate :: "'w \<Rightarrow> string"
  my_insert_id :: "'w \<Rightarrow> nat"
  my_affected_rows :: "'w \<Rightarrow> nat"
  my_warning_count :: "'w \<Rightarrow> nat"
  my_field_count :: "'w \<Rightarrow> nat"
  my_fd :: "'w \<Rightarrow> int"
  my_escape :: "string \<Rightarrow> 'w \<Rightarrow> string"
  my_set_error :: "nat \<Rightarrow> string \<Rightarrow> 'w \<Rightarrow> 'w"
  my_close :: "'w \<Rightarrow> 'w"
  now_ns :: "'w \<Rightarrow> int"
  poll_out :: "int \<Rightarrow> 'w \<Rightarrow> int \<times> bool"
  sqe_get :: "'w \<Rightarrow> bool \<times> 'w"
  sqe_park :: "'w \<Rightarrow> 'w"
  poll_add :: "int \<Rightarrow> poll_events \<Rightarrow> uco_time option \<Rightarrow> 'w \<Rightarrow> int \<times> 'w"
  nap :: "'w \<Rightarrow> 'w"
  fd_shutdown :: "int \<Rightarrow> 'w \<Rightarrow> 'w"

abbreviation (input) EINTR :: int where "EINTR \<equiv> 4"
abbreviation (input) EIO :: int where "EIO \<equiv> 5"
abbreviation (input) EAGAIN :: int where "EAGAIN \<equiv> 11"
abbreviation (input) ETIME :: int where "ETIME \<equiv> 62"
abbreviation (input) ECANCELED :: int where "ECANCELED \<equiv> 125"

definition sql_fill_error :: "'w mysql_env \<Rightarrow> int \<Rightarrow> 'w \<Rightarrow> SqlError \<times> 'w" where
  "sql_fill_error env r w =
     (if r = - ETIME
      then (\<lparr>sql_ret_code = usql_code KTimeout, sql_err_msg = ''usql: operation timeout'', sql_sqlstate = []\<rparr>,
            my_set_error env 2013 ''usql: operation timeout, stream desynced'' w)
      else (\<lparr>sql_ret_code = - int (my_errno env w), sql_err_msg = my_error env w, sql_sqlstate = my_sqlstate env w\<rparr>, w))"

section \<open>Waiting and calling\<close>

text \<open>One \<open>co_await awaitable{fd, events, ts}\<close>: without a free entry the value is \<open>-EAGAIN\<close> and the scheduler tries again later.\<close>

definition wait_once :: "'w mysql_env \<Rightarrow> int \<Rightarrow> poll_events \<Rightarrow> uco_time \<Rightarrow> 'w \<Rightarrow> int \<times> 'w" where
  "wait_once env fd events ts w =
     (let (sqe, w1) = sqe_get env w
      in if \<not> sqe then (- EAGAIN, sqe_park env w1)
         else if fst ts \<noteq> 0 \<or> snd ts \<noteq> 0
         then (let (sqe1, w2) = sqe_get env w1
               in if \<not> sqe1 then (- EAGAIN, sqe_park env w2) else poll_add env fd events (Some ts) w2)
         else poll_add env fd events None w1)"

partial_function (option) wait_fd :: "'w mysql_env \<Rightarrow> int \<Rightarrow> poll_events \<Rightarrow> uco_time \<Rightarrow> 'w \<Rightarrow> (int \<times> 'w) option" where
  "wait_fd env fd events ts w =
     (let (res, w1) = wait_once env fd events ts w
      in if res = - EAGAIN \<or> res = - EINTR then wait_fd env fd events ts w1
         else Some (if res = - ECANCELED then - ETIME else res, w1))"

definition infer_wait_events :: "'w mysql_env \<Rightarrow> int \<Rightarrow> 'w \<Rightarrow> poll_events" where
  "infer_wait_events env fd w =
     (let (n, out) = poll_out env fd w in if n \<noteq> 1 then POLLINOUT else if out then POLLIN else POLLOUT)"

text \<open>
  \<open>await_call\<close>. The closure \<open>call\<close> may keep a variable of type \<open>'c\<close>. \<open>remaining\<close> is \<open>ts_wait\<close>, and
  \<open>None\<close> when the deadline has passed. The nanoseconds of the timeout are assumed to fit the code's 64 bits.
\<close>

definition remaining :: "'w mysql_env \<Rightarrow> uco_time \<Rightarrow> int \<Rightarrow> 'w \<Rightarrow> uco_time option" where
  "remaining env ts begin w =
     (if fst ts \<noteq> 0 \<or> snd ts \<noteq> 0
      then (let remain = total_ns ts - (now_ns env w - begin)
            in if remain \<le> 0 then None else Some (remain div 1000000000, remain mod 1000000000))
      else Some ts)"

partial_function (option) await_loop ::
  "'w mysql_env \<Rightarrow> ('c \<Rightarrow> 'w \<Rightarrow> async_status \<times> 'c \<times> 'w) \<Rightarrow> uco_time \<Rightarrow> int \<Rightarrow> 'c \<Rightarrow> 'w \<Rightarrow> (int \<times> 'c \<times> 'w) option" where
  "await_loop env call ts begin c w =
     (let (status, c1, w1) = call c w
      in case status of
           NET_COMPLETE \<Rightarrow> Some (0, c1, w1)
         | NET_NO_MORE_RESULTS \<Rightarrow> Some (0, c1, w1)
         | NET_ERROR \<Rightarrow> Some (- EIO, c1, w1)
         | NET_NOT_READY \<Rightarrow>
             (case remaining env ts begin w1 of
                None \<Rightarrow> Some (- ETIME, c1, w1)
              | Some ts_wait \<Rightarrow>
                  (let fd = my_fd env w1
                   in if fd \<le> 0 then await_loop env call ts begin c1 (nap env w1)
                      else Option.bind (wait_fd env fd (infer_wait_events env fd w1) ts_wait w1) (\<lambda>(r, w2).
                        if r < 0 then Some (r, c1, w2) else await_loop env call ts begin c1 w2))))"

definition await_call ::
  "'w mysql_env \<Rightarrow> ('c \<Rightarrow> 'w \<Rightarrow> async_status \<times> 'c \<times> 'w) \<Rightarrow> uco_time \<Rightarrow> 'c \<Rightarrow> 'w \<Rightarrow> (int \<times> 'c \<times> 'w) option" where
  "await_call env call ts c w = await_loop env call ts (now_ns env w) c w"

text \<open>The closures.\<close>

definition query_call :: "'w mysql_env \<Rightarrow> string \<Rightarrow> unit \<Rightarrow> 'w \<Rightarrow> async_status \<times> unit \<times> 'w" where
  "query_call env sql c w = (let (st, w1) = my_query env sql w in (st, (), w1))"

definition connect_call :: "'w mysql_env \<Rightarrow> connect_args \<Rightarrow> unit \<Rightarrow> 'w \<Rightarrow> async_status \<times> unit \<times> 'w" where
  "connect_call env args c w = (let (st, w1) = my_connect env args w in (st, (), w1))"

definition store_call :: "'w mysql_env \<Rightarrow> mysql_res option \<Rightarrow> 'w \<Rightarrow> async_status \<times> mysql_res option \<times> 'w" where
  "store_call env c w = my_store env w"

definition run_query :: "'w mysql_env \<Rightarrow> string \<Rightarrow> uco_time \<Rightarrow> 'w \<Rightarrow> (int \<times> 'w) option" where
  "run_query env sql ts w = map_option (\<lambda>(r, c, w1). (r, w1)) (await_call env (query_call env sql) ts () w)"


section \<open>Connections and statements\<close>

definition sql_uconnect :: "'w mysql_env \<Rightarrow> connect_args \<Rightarrow> uco_time \<Rightarrow> 'w \<Rightarrow> (bool \<times> 'w) option" where
  "sql_uconnect env args ts w =
     (let (ok, w1) = my_init env w
      in if \<not> ok then Some (False, w1)
         else map_option (\<lambda>(r, c, w2). if r \<noteq> 0 then (False, my_close env w2) else (True, w2))
                (await_call env (connect_call env args) ts () w1))"

text \<open>\<open>uclose\<close>. Setting the send timeout is left out.\<close>

definition sql_uclose :: "'w mysql_env \<Rightarrow> bool \<Rightarrow> 'w \<Rightarrow> 'w" where
  "sql_uclose env conn w =
     (if \<not> conn then w
      else let fd = my_fd env w;
               w1 = (if fd > 0
                     then (let (n, out) = poll_out env fd w in if n \<noteq> 1 \<or> \<not> out then fd_shutdown env fd w else w)
                     else w)
           in my_close env w1)"

definition sql_uescape :: "'w mysql_env \<Rightarrow> bool \<Rightarrow> string \<Rightarrow> 'w \<Rightarrow> string" where
  "sql_uescape env conn s w = (if conn then my_escape env s w else [])"




text \<open>The loop over the rows of a result set; a null cell is the empty string.\<close>

definition copy_rows :: "nat \<Rightarrow> string option list list \<Rightarrow> string list list" where
  "copy_rows num_fields rows = map (\<lambda>row. map (\<lambda>i. case row ! i of None \<Rightarrow> [] | Some v \<Rightarrow> v) [0..<num_fields]) rows"

definition read_result :: "mysql_res \<Rightarrow> SelectResult" where
  "read_result res =
     \<lparr>sr_error = no_error, sr_num_fields = length (mr_fields res), sr_num_rows = length (mr_rows res),
      sr_column_names = map fst (mr_fields res), sr_column_types = map (fst \<circ> snd) (mr_fields res),
      sr_column_unsigned = map (snd \<circ> snd) (mr_fields res),
      sr_rows = copy_rows (length (mr_fields res)) (mr_rows res)\<rparr>"

definition select_failed :: "'w mysql_env \<Rightarrow> int \<Rightarrow> 'w \<Rightarrow> SelectResult \<times> 'w" where
  "select_failed env r w = (let (e, w1) = sql_fill_error env r w in (empty_select\<lparr>sr_error := e\<rparr>, w1))"

definition uselect :: "'w mysql_env \<Rightarrow> bool \<Rightarrow> string \<Rightarrow> uco_time \<Rightarrow> 'w \<Rightarrow> (SelectResult \<times> 'w) option" where
  "uselect env conn sql ts w =
     (if \<not> conn then Some (empty_select\<lparr>sr_error := bad_argument ''usql: select: mysql is nullptr''\<rparr>, w)
      else Option.bind (run_query env sql ts w) (\<lambda>(r, w1).
        if r \<noteq> 0 then Some (select_failed env r w1)
        else if my_field_count env w1 = 0
        then Some (empty_select\<lparr>sr_error := bad_argument ''usql: no result set (not a SELECT?)''\<rparr>, w1)
        else map_option (\<lambda>(r, result, w2).
               case result of
                 Some res \<Rightarrow> if r \<noteq> 0 then select_failed env r w2 else (read_result res, w2)
               | None \<Rightarrow> select_failed env (if r \<noteq> 0 then r else - EIO) w2)
               (await_call env (store_call env) ts None w1)))"

section \<open>Binding rows to messages\<close>

text \<open>The types of the fields of a protobuf message, their descriptors, and the values of a message.\<close>

datatype cpp_type =
    CPP_INT32 | CPP_INT64 | CPP_UINT32 | CPP_UINT64 | CPP_DOUBLE | CPP_FLOAT | CPP_BOOL | CPP_ENUM | CPP_STRING
  | CPP_MESSAGE

record field_desc =
  fd_name :: string
  fd_cpp_type :: cpp_type
  fd_repeated :: bool
  fd_enum :: "(string \<times> int) list"

type_synonym descriptor = "field_desc list"

definition FindFieldByName :: "descriptor \<Rightarrow> string \<Rightarrow> field_desc option" where
  "FindFieldByName desc name = find (\<lambda>f. fd_name f = name) desc"

datatype 'f pb_value = PInt int | PFloat 'f | PBool bool | PEnum int | PString string

type_synonym 'f pb_message = "string \<Rightarrow> 'f pb_value option"

text \<open>\<open>stof\<close> and \<open>stod\<close> are arguments.\<close>

definition enum_value :: "(string \<times> int) list \<Rightarrow> string \<Rightarrow> int option" where
  "enum_value ed value =
     (case map_of ed value of
        Some n \<Rightarrow> Some n
      | None \<Rightarrow>
          (case stoll value of
             None \<Rightarrow> None
           | Some v \<Rightarrow> if to_int v \<in> set (map snd ed) then Some (to_int v) else None))"

definition set_pb_field ::
  "(string \<Rightarrow> 'f option) \<times> (string \<Rightarrow> 'f option) \<Rightarrow> field_desc \<Rightarrow> string \<Rightarrow> 'f pb_message \<Rightarrow> 'f pb_message option" where
  "set_pb_field fl field value msg =
     map_option (\<lambda>v. msg(fd_name field \<mapsto> v))
       (case fd_cpp_type field of
          CPP_INT32 \<Rightarrow> map_option (\<lambda>n. PInt (signed_take_bit 31 n)) (stoll value)
        | CPP_INT64 \<Rightarrow> map_option PInt (stoll value)
        | CPP_UINT32 \<Rightarrow> map_option (\<lambda>n. PInt (take_bit 32 n)) (stoull value)
        | CPP_UINT64 \<Rightarrow> map_option PInt (stoull value)
        | CPP_FLOAT \<Rightarrow> map_option PFloat (fst fl value)
        | CPP_DOUBLE \<Rightarrow> map_option PFloat (snd fl value)
        | CPP_BOOL \<Rightarrow> Some (PBool (value = ''1'' \<or> value = ''true'' \<or> value = ''t''))
        | CPP_ENUM \<Rightarrow> map_option PEnum (enum_value (fd_enum field) value)
        | CPP_STRING \<Rightarrow> Some (PString value)
        | CPP_MESSAGE \<Rightarrow> None)"

definition field_accepts :: "field_type \<Rightarrow> bool \<Rightarrow> field_desc \<Rightarrow> bool" where
  "field_accepts t uns f =
     (let cpp = fd_cpp_type f
      in if t \<in> {T_TINY, T_SHORT, T_INT24, T_YEAR, T_LONG}
         then (if t = T_TINY \<and> cpp = CPP_BOOL then True
               else if uns then cpp = CPP_UINT32 \<or> cpp = CPP_UINT64 else cpp = CPP_INT32 \<or> cpp = CPP_INT64)
         else if t = T_LONGLONG then (if uns then cpp = CPP_UINT64 else cpp = CPP_INT64)
         else if t = T_FLOAT then cpp = CPP_FLOAT \<or> cpp = CPP_DOUBLE
         else if t \<in> {T_DECIMAL, T_NEWDECIMAL, T_DOUBLE} then cpp = CPP_DOUBLE
         else if t = T_ENUM then cpp = CPP_STRING \<or> cpp = CPP_ENUM
         else if t \<in> {T_VARCHAR, T_VAR_STRING, T_STRING, T_SET, T_TINY_BLOB, T_MEDIUM_BLOB, T_LONG_BLOB, T_BLOB,
                      T_JSON, T_DATE, T_DATETIME, T_TIMESTAMP, T_TIME, T_BIT, T_GEOMETRY}
         then cpp = CPP_STRING
         else False)"

definition check_alignment :: "SelectResult \<Rightarrow> descriptor \<Rightarrow> bool" where
  "check_alignment res desc =
     list_all (\<lambda>i. case FindFieldByName desc (sr_column_names res ! i) of
         None \<Rightarrow> False
       | Some field \<Rightarrow>
           \<not> (fd_repeated field \<or> fd_cpp_type field = CPP_MESSAGE) \<and>
           field_accepts (sr_column_types res ! i) (sr_column_unsigned res ! i) field)
       [0..<length (sr_column_names res)]"

text \<open>
  \<open>bind_row\<close> from column \<open>i\<close> on. The message keeps what was set before a failure. The result \<open>None\<close> is
  the use of a null descriptor, which \<open>check_alignment\<close> excludes.
\<close>

fun bind_cells ::
  "(string \<Rightarrow> 'f option) \<times> (string \<Rightarrow> 'f option) \<Rightarrow> descriptor \<Rightarrow> string list \<Rightarrow> string list \<Rightarrow> 'f pb_message \<Rightarrow>
   ('f pb_message \<times> bool) option" where
  "bind_cells fl desc (name # names) (value # row) out =
     (case FindFieldByName desc name of
        None \<Rightarrow> None
      | Some field \<Rightarrow>
          (case set_pb_field fl field value out of
             None \<Rightarrow> Some (out, False)
           | Some out' \<Rightarrow> bind_cells fl desc names row out'))"
| "bind_cells fl desc names row out = Some (out, True)"

definition bind_row ::
  "(string \<Rightarrow> 'f option) \<times> (string \<Rightarrow> 'f option) \<Rightarrow> SelectResult \<Rightarrow> descriptor \<Rightarrow> nat \<Rightarrow> 'f pb_message \<Rightarrow>
   ('f pb_message \<times> bool) option" where
  "bind_row fl res desc row_idx out = bind_cells fl desc (sr_column_names res) (sr_rows res ! row_idx) out"

definition select_error :: "string \<Rightarrow> SelectResult \<Rightarrow> SelectResult" where
  "select_error msg res = res\<lparr>sr_error := (sr_error res)\<lparr>sql_ret_code := usql_code KBadArgument, sql_err_msg := msg\<rparr>\<rparr>"

text \<open>\<open>uselect\<close> into a message; \<open>out = None\<close> is a null pointer. The inner \<open>None\<close> is undefined behaviour.\<close>

definition uselect_message ::
  "'w mysql_env \<Rightarrow> (string \<Rightarrow> 'f option) \<times> (string \<Rightarrow> 'f option) \<Rightarrow> descriptor \<Rightarrow> bool \<Rightarrow> string \<Rightarrow> uco_time \<Rightarrow>
   'f pb_message option \<Rightarrow> 'w \<Rightarrow> (SelectResult \<times> 'f pb_message option \<times> 'w) option" where
  "uselect_message env fl desc conn sql ts out w =
     (case out of
        None \<Rightarrow> Some (empty_select\<lparr>sr_error := bad_argument ''usql: uselect: out is nullptr''\<rparr>, None, w)
      | Some msg \<Rightarrow>
          Option.bind (uselect env conn sql ts w) (\<lambda>(ret, w1).
            if sql_ret_code (sr_error ret) \<noteq> 0 then Some (ret, Some msg, w1)
            else if \<not> check_alignment ret desc
            then Some (select_error ''usql: uselect: columns not aligned with proto fields'' ret, Some msg, w1)
            else if sr_rows ret = [] then Some (ret, Some msg, w1)
            else map_option (\<lambda>(msg', ok).
              if \<not> ok then (select_error ''usql: uselect: bind row failed'' ret, Some msg', w1)
              else (ret\<lparr>sr_rows := []\<rparr>, Some msg', w1)) (bind_row fl ret desc 0 (\<lambda>_. None))))"

text \<open>The loop of \<open>uselect\<close> into a repeated field, from row \<open>r\<close> on.\<close>

fun bind_rows ::
  "(string \<Rightarrow> 'f option) \<times> (string \<Rightarrow> 'f option) \<Rightarrow> SelectResult \<Rightarrow> descriptor \<Rightarrow> nat list \<Rightarrow> 'f pb_message list \<Rightarrow>
   ('f pb_message list \<times> bool) option" where
  "bind_rows fl res desc [] out = Some (out, True)"
| "bind_rows fl res desc (r # rs) out =
     Option.bind (bind_row fl res desc r (\<lambda>_. None)) (\<lambda>(msg, ok).
       if ok then bind_rows fl res desc rs (out @ [msg]) else Some ([], False))"

definition uselect_repeated ::
  "'w mysql_env \<Rightarrow> (string \<Rightarrow> 'f option) \<times> (string \<Rightarrow> 'f option) \<Rightarrow> descriptor \<Rightarrow> bool \<Rightarrow> string \<Rightarrow> uco_time \<Rightarrow>
   'f pb_message list option \<Rightarrow> 'w \<Rightarrow> (SelectResult \<times> 'f pb_message list option \<times> 'w) option" where
  "uselect_repeated env fl desc conn sql ts out w =
     (case out of
        None \<Rightarrow> Some (empty_select\<lparr>sr_error := bad_argument ''usql: uselect: out is nullptr''\<rparr>, None, w)
      | Some _ \<Rightarrow>
          Option.bind (uselect env conn sql ts w) (\<lambda>(res, w1).
            if sql_ret_code (sr_error res) \<noteq> 0 then Some (res, Some [], w1)
            else if \<not> check_alignment res desc
            then Some (select_error ''usql: uselect: columns not aligned with proto fields'' res, Some [], w1)
            else map_option (\<lambda>(out', ok).
              if \<not> ok then (select_error ''usql: uselect: bind row failed'' res, Some [], w1)
              else (res\<lparr>sr_rows := []\<rparr>, Some out', w1))
              (bind_rows fl res desc [0..<length (sr_rows res)] [])))"

section \<open>Transactions\<close>




section \<open>What a call goes through\<close>

text \<open>The world may change while the coroutine waits; a call that is not ready is made again after a pause.\<close>

inductive paused :: "'w mysql_env \<Rightarrow> 'w \<Rightarrow> 'w \<Rightarrow> bool" for env where
  stay: "paused env w w"
| nap: "paused env w v \<Longrightarrow> paused env w (nap env v)"
| sqe: "paused env w v \<Longrightarrow> paused env w (snd (sqe_get env v))"
| park: "paused env w v \<Longrightarrow> paused env w (sqe_park env v)"
| poll: "paused env w v \<Longrightarrow> paused env w (snd (poll_add env fd events t v))"

inductive progress :: "'w mysql_env \<Rightarrow> ('c \<Rightarrow> 'w \<Rightarrow> async_status \<times> 'c \<times> 'w) \<Rightarrow> 'c \<times> 'w \<Rightarrow> 'c \<times> 'w \<Rightarrow> bool"
  for env call where
  start: "progress env call x x"
| again: "progress env call x (c1, w1) \<Longrightarrow> call c1 w1 = (NET_NOT_READY, c2, w2) \<Longrightarrow> paused env w2 w3 \<Longrightarrow>
    progress env call x (c2, w3)"



definition reached :: "'w mysql_env \<Rightarrow> ('c \<Rightarrow> 'w \<Rightarrow> async_status \<times> 'c \<times> 'w) \<Rightarrow> 'c \<times> 'w \<Rightarrow> 'w \<Rightarrow> bool" where
  "reached env call x w \<longleftrightarrow>
     (\<exists>c1 w1. progress env call x (c1, w1) \<and> (w = w1 \<or> (\<exists>st c2. call c1 w1 = (st, c2, w) \<and> st \<noteq> NET_NOT_READY)))"




lemma progress_trans: "progress env call y z \<Longrightarrow> progress env call x y \<Longrightarrow> progress env call x z"
proof (induction rule: progress.induct)
  case (again x' c1 w1 c2 w2 w3)
  then show ?case by (blast intro: progress.again)
qed


lemma reached_trans: "progress env call x y \<Longrightarrow> reached env call y w \<Longrightarrow> reached env call x w"
  unfolding reached_def using progress_trans by blast


















section \<open>Transactions are all or nothing\<close>
































section \<open>Results and errors\<close>






section \<open>Deadlines\<close>

text \<open>
  A clock that agrees with the timeouts: a call takes at least a nanosecond and at most \<open>d\<close>, a nap
  at most \<open>n\<close>, a wait with a timeout ends by then, and waits are not interrupted. (An interrupted wait
  starts again with its whole timeout, see \<open>wait_fd\<close>.)
\<close>

definition clock_law :: "'w mysql_env \<Rightarrow> ('c \<Rightarrow> 'w \<Rightarrow> async_status \<times> 'c \<times> 'w) \<Rightarrow> int \<Rightarrow> int \<Rightarrow> bool" where
  "clock_law env call d n \<longleftrightarrow>
     (\<forall>c w. now_ns env w < now_ns env (snd (snd (call c w))) \<and> now_ns env (snd (snd (call c w))) \<le> now_ns env w + d) \<and>
     (\<forall>w. now_ns env w \<le> now_ns env (nap env w) \<and> now_ns env (nap env w) \<le> now_ns env w + n) \<and>
     (\<forall>w. fst (sqe_get env w) \<and> now_ns env (snd (sqe_get env w)) = now_ns env w) \<and>
     (\<forall>fd ev t w. 0 < total_ns t \<longrightarrow> fst (poll_add env fd ev (Some t) w) \<notin> {- EAGAIN, - EINTR} \<and>
        now_ns env w \<le> now_ns env (snd (poll_add env fd ev (Some t) w)) \<and>
        now_ns env (snd (poll_add env fd ev (Some t) w)) \<le> now_ns env w + total_ns t)"

lemma remaining_total: "0 < r \<Longrightarrow> total_ns (r div 1000000000, r mod 1000000000) = r"
  by (simp add: total_ns_def)

lemma wait_fd_in_time:
  assumes "clock_law env call d n" "0 < total_ns t"
  obtains r w' where "wait_fd env fd ev t w = Some (r, w')" "now_ns env w \<le> now_ns env w'"
    "now_ns env w' \<le> now_ns env w + total_ns t"
proof -
  have sqe: "\<exists>v. sqe_get env u = (True, v) \<and> now_ns env v = now_ns env u" for u
    using assms(1) [unfolded clock_law_def, THEN conjunct2, THEN conjunct2, THEN conjunct1, rule_format, of u]
    by (cases "sqe_get env u") auto
  obtain w1 where w1: "sqe_get env w = (True, w1)" "now_ns env w1 = now_ns env w" using sqe by blast
  obtain w2 where w2: "sqe_get env w1 = (True, w2)" "now_ns env w2 = now_ns env w" using sqe [of w1] w1(2) by auto
  obtain r w3 where p: "poll_add env fd ev (Some t) w2 = (r, w3)" by (cases "poll_add env fd ev (Some t) w2")
  have law: "fst (poll_add env fd ev (Some t) w2) \<notin> {- EAGAIN, - EINTR} \<and>
      now_ns env w2 \<le> now_ns env (snd (poll_add env fd ev (Some t) w2)) \<and>
      now_ns env (snd (poll_add env fd ev (Some t) w2)) \<le> now_ns env w2 + total_ns t"
    using assms(1) [unfolded clock_law_def, THEN conjunct2, THEN conjunct2, THEN conjunct2, rule_format, OF assms(2)] .
  have nz: "fst t \<noteq> 0 \<or> snd t \<noteq> 0" using assms(2) by (auto simp: total_ns_def)
  have "wait_once env fd ev t w = (r, w3)" using nz w1 w2 p by (auto simp: wait_once_def)
  then have "wait_fd env fd ev t w = Some (if r = - ECANCELED then - ETIME else r, w3)"
    using law p by (subst wait_fd.simps) simp
  then show ?thesis using that law p w2 by simp
qed

lemma await_loop_in_time:
  assumes "clock_law env call d n" "0 \<le> n" "0 < total_ns ts" "now_ns env w \<le> begin + total_ns ts + n"
  shows "\<exists>r c' w'. await_loop env call ts begin c w = Some (r, c', w') \<and> now_ns env w' \<le> begin + total_ns ts + n + d"
  using assms(4)
proof (induction "nat (begin + total_ns ts + n - now_ns env w)" arbitrary: c w rule: less_induct)
  case less
  obtain st c1 w1 where call: "call c w = (st, c1, w1)" by (metis surj_pair)
  have t1: "now_ns env w < now_ns env w1" "now_ns env w1 \<le> now_ns env w + d"
    using assms(1) [unfolded clock_law_def, THEN conjunct1, rule_format, of w c] call by simp_all
  have bound: "now_ns env w1 \<le> begin + total_ns ts + n + d" using t1 less.prems by simp
  have nz: "fst ts \<noteq> 0 \<or> snd ts \<noteq> 0" using assms(3) by (auto simp: total_ns_def)
  show ?case
  proof (cases "st = NET_NOT_READY")
    case False
    then show ?thesis using call bound by (subst await_loop.simps, cases st) auto
  next
    case nr: True
    define rest where "rest = total_ns ts - (now_ns env w1 - begin)"
    show ?thesis
    proof (cases "rest \<le> 0")
      case True
      then have "remaining env ts begin w1 = None" using nz by (simp add: remaining_def rest_def Let_def)
      then show ?thesis using call nr bound by (subst await_loop.simps) auto
    next
      case False
      have rem: "remaining env ts begin w1 = Some (rest div 1000000000, rest mod 1000000000)"
        using nz False by (auto simp: remaining_def rest_def Let_def)
      have again: "\<exists>r c' w'. await_loop env call ts begin c1 w2 = Some (r, c', w') \<and> now_ns env w' \<le> begin + total_ns ts + n + d"
        if "now_ns env w1 \<le> now_ns env w2" "now_ns env w2 \<le> begin + total_ns ts + n" for w2
        using less.hyps [of w2 c1] that t1 less.prems by simp
      show ?thesis
      proof (cases "my_fd env w1 \<le> 0")
        case True
        have "now_ns env w1 \<le> now_ns env (nap env w1)" "now_ns env (nap env w1) \<le> now_ns env w1 + n"
          using assms(1) [unfolded clock_law_def, THEN conjunct2, THEN conjunct1, rule_format, of w1] by simp_all
        then have "\<exists>r c' w'. await_loop env call ts begin c1 (nap env w1) = Some (r, c', w') \<and>
            now_ns env w' \<le> begin + total_ns ts + n + d"
          by (intro again) (use False in \<open>simp_all add: rest_def\<close>)
        then show ?thesis using call nr rem True by (subst await_loop.simps) simp
      next
        case fd: False
        have "0 < total_ns (rest div 1000000000, rest mod 1000000000)" using remaining_total [of rest] False by simp
        from wait_fd_in_time [OF assms(1) this, of "my_fd env w1" "infer_wait_events env (my_fd env w1) w1" w1]
        obtain r w2 where w2: "wait_fd env (my_fd env w1) (infer_wait_events env (my_fd env w1) w1)
            (rest div 1000000000, rest mod 1000000000) w1 = Some (r, w2)"
          "now_ns env w1 \<le> now_ns env w2" "now_ns env w2 \<le> now_ns env w1 + rest"
          using remaining_total [of rest] False by auto
        have le: "now_ns env w2 \<le> begin + total_ns ts + n" using w2(3) assms(2) by (simp add: rest_def)
        have d: "0 \<le> d" using t1 by simp
        show ?thesis
        proof (cases "r < 0")
          case True
          then show ?thesis using call nr rem fd w2(1) le d by (subst await_loop.simps) (auto simp: Let_def)
        next
          case False
          then show ?thesis using call nr rem fd w2(1) again [OF w2(2) le] by (subst await_loop.simps) (auto simp: Let_def)
        qed
      qed
    qed
  qed
qed

text \<open>
  C38: With a deadline every call of the library returns, and not later than the deadline plus the
  time of one nap and one call, as long as the waits are not interrupted.
\<close>

theorem await_call_deadline:
  assumes "clock_law env call d n" "0 \<le> n" "0 < total_ns ts"
  shows "\<exists>r c' w'. await_call env call ts c w = Some (r, c', w') \<and> now_ns env w' \<le> now_ns env w + total_ns ts + n + d"
  unfolding await_call_def by (rule await_loop_in_time [OF assms]) (use assms(2,3) in simp)

text \<open>A server that never answers, and the time as the state.\<close>

definition silent_server :: "int mysql_env" where
  "silent_server =
     \<lparr>my_init = \<lambda>w. (True, w), my_connect = \<lambda>a w. (NET_NOT_READY, w + 1), my_query = \<lambda>sql w. (NET_NOT_READY, w + 1),
      my_store = \<lambda>w. (NET_NOT_READY, None, w + 1), my_errno = \<lambda>w. 0, my_error = \<lambda>w. [], my_sqlstate = \<lambda>w. [],
      my_insert_id = \<lambda>w. 0, my_affected_rows = \<lambda>w. 0, my_warning_count = \<lambda>w. 0, my_field_count = \<lambda>w. 0,
      my_fd = \<lambda>w. 3, my_escape = \<lambda>s w. s, my_set_error = \<lambda>n m w. w, my_close = \<lambda>w. w, now_ns = \<lambda>w. w,
      poll_out = \<lambda>fd w. (1, True), sqe_get = \<lambda>w. (True, w), sqe_park = \<lambda>w. w,
      poll_add = \<lambda>fd ev t w. (- ECANCELED, case t of None \<Rightarrow> w | Some t \<Rightarrow> w + max 0 (total_ns t)), nap = \<lambda>w. w + 1000000,
      fd_shutdown = \<lambda>fd w. w\<rparr>"

lemma await_call_deadline_witness:
  "\<exists>r c' w'. await_call silent_server (query_call silent_server ''SELECT 1'') (10, 0) () 7 = Some (r, c', w') \<and>
     w' \<le> 7 + 10000000000 + 1000000 + 1"
proof -
  have tot: "total_ns (10, 0) = 10000000000" by (simp add: total_ns_def)
  have "clock_law silent_server (query_call silent_server ''SELECT 1'') 1 1000000"
    by (auto simp: clock_law_def silent_server_def query_call_def)
  from await_call_deadline [OF this, of "(10, 0)" "()" 7] show ?thesis by (simp add: tot) (simp add: silent_server_def)
qed

section \<open>Rows keep their values\<close>

text \<open>
  The numbers a column of an integer type can hold, and what the text of a cell means for a field. A
  \<open>bool\<close> is true for the text 1 only, so every other number of a \<open>TINYINT\<close> column is false. A
  floating-point field has what \<open>stof\<close> or \<open>stod\<close> read from the text, with their rounding.
\<close>

fun column_range :: "field_type \<Rightarrow> bool \<Rightarrow> int \<times> int" where
  "column_range T_TINY uns = (if uns then (0, 2 ^ 8 - 1) else (- (2 ^ 7), 2 ^ 7 - 1))"
| "column_range T_SHORT uns = (if uns then (0, 2 ^ 16 - 1) else (- (2 ^ 15), 2 ^ 15 - 1))"
| "column_range T_INT24 uns = (if uns then (0, 2 ^ 24 - 1) else (- (2 ^ 23), 2 ^ 23 - 1))"
| "column_range T_YEAR uns = (0, 2155)"
| "column_range T_LONG uns = (if uns then (0, 2 ^ 32 - 1) else (- (2 ^ 31), 2 ^ 31 - 1))"
| "column_range T_LONGLONG uns = (if uns then (0, 2 ^ 64 - 1) else (- (2 ^ 63), 2 ^ 63 - 1))"
| "column_range _ uns = (0, 0)"

fun cell_means ::
  "(string \<Rightarrow> 'f option) \<times> (string \<Rightarrow> 'f option) \<Rightarrow> field_type \<Rightarrow> bool \<Rightarrow> field_desc \<Rightarrow> string \<Rightarrow> 'f pb_value \<Rightarrow> bool" where
  "cell_means fl t uns f v (PInt n) \<longleftrightarrow>
     int_text v n \<and> fst (column_range t uns) \<le> n \<and> n \<le> snd (column_range t uns) \<and>
     fd_cpp_type f \<in> {CPP_INT32, CPP_INT64, CPP_UINT32, CPP_UINT64}"
| "cell_means fl t uns f v (PBool b) \<longleftrightarrow>
     (v = [] \<or> (\<exists>n. int_text v n)) \<and> b = (v = ''1'') \<and> fd_cpp_type f = CPP_BOOL"
| "cell_means fl t uns f v (PFloat x) \<longleftrightarrow>
     fd_cpp_type f = CPP_FLOAT \<and> fst fl v = Some x \<or> fd_cpp_type f = CPP_DOUBLE \<and> snd fl v = Some x"
| "cell_means fl t uns f v (PEnum n) \<longleftrightarrow> map_of (fd_enum f) v = Some n \<and> fd_cpp_type f = CPP_ENUM"
| "cell_means fl t uns f v (PString s) \<longleftrightarrow> v = s \<and> fd_cpp_type f = CPP_STRING"

lemma accepts_int32: "field_accepts t uns f \<Longrightarrow> fd_cpp_type f = CPP_INT32 \<Longrightarrow>
    \<not> uns \<and> t \<in> {T_TINY, T_SHORT, T_INT24, T_YEAR, T_LONG}"
  by (auto simp: field_accepts_def Let_def split: if_splits)

lemma accepts_int64: "field_accepts t uns f \<Longrightarrow> fd_cpp_type f = CPP_INT64 \<Longrightarrow>
    \<not> uns \<and> t \<in> {T_TINY, T_SHORT, T_INT24, T_YEAR, T_LONG, T_LONGLONG}"
  by (auto simp: field_accepts_def Let_def split: if_splits)

lemma accepts_uint32: "field_accepts t uns f \<Longrightarrow> fd_cpp_type f = CPP_UINT32 \<Longrightarrow>
    uns \<and> t \<in> {T_TINY, T_SHORT, T_INT24, T_YEAR, T_LONG}"
  by (auto simp: field_accepts_def Let_def split: if_splits)

lemma accepts_uint64: "field_accepts t uns f \<Longrightarrow> fd_cpp_type f = CPP_UINT64 \<Longrightarrow>
    uns \<and> t \<in> {T_TINY, T_SHORT, T_INT24, T_YEAR, T_LONG, T_LONGLONG}"
  by (auto simp: field_accepts_def Let_def split: if_splits)

lemma set_int_field:
  assumes "field_accepts t uns f" "cell_means fl t uns f v (PInt n)"
  shows "set_pb_field fl f v msg = Some (msg(fd_name f \<mapsto> PInt n))"
proof -
  have n: "int_text v n" "fst (column_range t uns) \<le> n" "n \<le> snd (column_range t uns)" using assms(2) by simp_all
  from assms(2) consider "fd_cpp_type f = CPP_INT32" | "fd_cpp_type f = CPP_INT64" | "fd_cpp_type f = CPP_UINT32"
    | "fd_cpp_type f = CPP_UINT64" by auto
  then show ?thesis
  proof cases
    case 1
    then have r: "- (2 ^ 31) \<le> n \<and> n < 2 ^ 31" using accepts_int32 [OF assms(1)] n by auto
    then have "signed_take_bit 31 n = n" by (simp add: signed_take_bit_int_eq_self)
    then show ?thesis using stoll_text [OF n(1)] r 1 by (simp add: set_pb_field_def)
  next
    case 2
    then have "- (2 ^ 63) \<le> n \<and> n < 2 ^ 63" using accepts_int64 [OF assms(1)] n by auto
    then show ?thesis using stoll_text [OF n(1)] 2 by (simp add: set_pb_field_def)
  next
    case 3
    then have r: "0 \<le> n \<and> n < 2 ^ 32" using accepts_uint32 [OF assms(1)] n by auto
    then have "take_bit 32 n = n" by (simp add: take_bit_int_eq_self)
    then show ?thesis using stoull_text [OF n(1)] r 3 by (simp add: set_pb_field_def)
  next
    case 4
    then have "0 \<le> n \<and> n < 2 ^ 64" using accepts_uint64 [OF assms(1)] n by auto
    then show ?thesis using stoull_text [OF n(1)] 4 by (simp add: set_pb_field_def)
  qed
qed

lemma set_cell:
  assumes "field_accepts t uns f" "cell_means fl t uns f v x"
  shows "set_pb_field fl f v msg = Some (msg(fd_name f \<mapsto> x))"
proof (cases x)
  case (PInt n)
  then show ?thesis using set_int_field assms by blast
next
  case (PBool b)
  have "v \<noteq> ''true''" "v \<noteq> ''t''" using assms(2) PBool by (auto simp: int_text_def is_digit_def)
  then show ?thesis using assms(2) PBool by (auto simp: set_pb_field_def)
qed (use assms(2) in \<open>auto simp: set_pb_field_def enum_value_def\<close>)

lemma FindFieldByName_name: "FindFieldByName desc name = Some f \<Longrightarrow> fd_name f = name"
  by (auto simp: FindFieldByName_def find_Some_iff)

text \<open>A column: its name, its type, and its field in the message.\<close>

definition column_ok :: "descriptor \<Rightarrow> string \<times> field_type \<times> bool \<Rightarrow> bool" where
  "column_ok desc c \<longleftrightarrow>
     (\<exists>f. FindFieldByName desc (fst c) = Some f \<and> field_accepts (fst (snd c)) (snd (snd c)) f)"

definition cell_of ::
  "(string \<Rightarrow> 'f option) \<times> (string \<Rightarrow> 'f option) \<Rightarrow> descriptor \<Rightarrow> string \<times> field_type \<times> bool \<Rightarrow> string \<Rightarrow> 'f pb_value \<Rightarrow> bool" where
  "cell_of fl desc c v x \<longleftrightarrow>
     (\<forall>f. FindFieldByName desc (fst c) = Some f \<longrightarrow> cell_means fl (fst (snd c)) (snd (snd c)) f v x)"

text \<open>The null value, as \<open>uselect\<close> copies it, in a column whose field is a number or an enum.\<close>

definition null_cell :: "descriptor \<Rightarrow> string \<times> field_type \<times> bool \<Rightarrow> string \<Rightarrow> bool" where
  "null_cell desc c v \<longleftrightarrow>
     v = [] \<and>
     (\<forall>f. FindFieldByName desc (fst c) = Some f \<longrightarrow>
        fd_cpp_type f \<notin> {CPP_STRING, CPP_BOOL} \<and> (\<forall>e \<in> set (fd_enum f). fst e \<noteq> []))"

lemma set_null_cell:
  assumes "fd_cpp_type f \<notin> {CPP_STRING, CPP_BOOL}" "\<forall>e \<in> set (fd_enum f). fst e \<noteq> []"
    and "fst fl [] = None" "snd fl [] = None"
  shows "set_pb_field fl f [] msg = None"
proof -
  have n: "stoll [] = None" "stoull [] = None" by (simp_all add: stoll_def stoull_def)
  have "map_of (fd_enum f) [] = None" using assms(2) by (force simp: map_of_eq_None_iff)
  then have "enum_value (fd_enum f) [] = None" by (simp add: enum_value_def n)
  then show ?thesis using assms n by (cases "fd_cpp_type f") (auto simp: set_pb_field_def)
qed

text \<open>The cells of a row, with the value of each or \<open>None\<close> for such a null.\<close>

definition cell_ok ::
  "(string \<Rightarrow> 'f option) \<times> (string \<Rightarrow> 'f option) \<Rightarrow> descriptor \<Rightarrow> string \<times> field_type \<times> bool \<Rightarrow> string \<Rightarrow>
   'f pb_value option \<Rightarrow> bool" where
  "cell_ok fl desc c v x \<longleftrightarrow> (case x of Some y \<Rightarrow> cell_of fl desc c v y | None \<Rightarrow> null_cell desc c v)"

definition cells_ok ::
  "(string \<Rightarrow> 'f option) \<times> (string \<Rightarrow> 'f option) \<Rightarrow> descriptor \<Rightarrow> (string \<times> field_type \<times> bool) list \<Rightarrow> string list \<Rightarrow>
   'f pb_value option list \<Rightarrow> bool" where
  "cells_ok fl desc cols row xs \<longleftrightarrow>
     length row = length cols \<and> length xs = length cols \<and>
     (\<forall>i < length cols. cell_ok fl desc (cols ! i) (row ! i) (xs ! i))"

lemma cells_ok_Cons:
  "cells_ok fl desc (c # cols) (v # row) (x # xs) \<longleftrightarrow>
    cell_ok fl desc c v x \<and> cells_ok fl desc cols row xs"
  unfolding cells_ok_def by (auto simp: All_less_Suc2)

lemma bind_cells_exact:
  assumes "list_all (column_ok desc) cols" "cells_ok fl desc cols row xs" "fst fl [] = None" "snd fl [] = None"
  shows "\<exists>out'. bind_cells fl desc (map fst cols) row out = Some (out', None \<notin> set xs) \<and>
    (None \<notin> set xs \<longrightarrow> out' = fold (\<lambda>(n, x) m. m(n \<mapsto> x)) (zip (map fst cols) (map the xs)) out) \<and>
    (\<forall>k. k \<notin> set (map fst cols) \<longrightarrow> out' k = out k)"
  using assms
proof (induction cols arbitrary: row xs out)
  case Nil
  then show ?case by (simp add: cells_ok_def)
next
  case (Cons c cols)
  obtain v row' x xs' where eq: "row = v # row'" "xs = x # xs'"
    using Cons.prems(2) by (cases row; cases xs) (auto simp: cells_ok_def)
  have cols: "list_all (column_ok desc) cols" using Cons.prems(1) by simp
  have ok: "cell_ok fl desc c v x" "cells_ok fl desc cols row' xs'"
    using Cons.prems(2) by (auto simp: eq cells_ok_Cons)
  obtain f where f: "FindFieldByName desc (fst c) = Some f" "field_accepts (fst (snd c)) (snd (snd c)) f"
    using Cons.prems(1) by (auto simp: column_ok_def)
  show ?case
  proof (cases x)
    case None
    then have "set_pb_field fl f v out = None"
      using ok(1) f(1) set_null_cell [OF _ _ Cons.prems(3,4)] by (auto simp: null_cell_def cell_ok_def)
    then show ?thesis using f(1) None eq by simp
  next
    case (Some y)
    then have "cell_of fl desc c v y" using ok(1) by (simp add: cell_ok_def)
    then have set: "set_pb_field fl f v out = Some (out(fst c \<mapsto> y))"
      using set_cell [OF f(2), of fl v y out] f(1) FindFieldByName_name [OF f(1)] by (auto simp: cell_of_def)
    obtain out' where out': "bind_cells fl desc (map fst cols) row' (out(fst c \<mapsto> y)) = Some (out', None \<notin> set xs')"
      "None \<notin> set xs' \<longrightarrow> out' = fold (\<lambda>(n, x) m. m(n \<mapsto> x)) (zip (map fst cols) (map the xs')) (out(fst c \<mapsto> y))"
      "\<forall>k. k \<notin> set (map fst cols) \<longrightarrow> out' k = (out(fst c \<mapsto> y)) k"
      using Cons.IH [OF cols ok(2) Cons.prems(3,4), of "out(fst c \<mapsto> y)"] by blast
    then show ?thesis using eq f(1) set Some by (intro exI [of _ out']) (simp del: fun_upd_apply, simp)
  qed
qed

lemma fold_updates:
  assumes "distinct ns" "length xs = length ns"
  shows "fold (\<lambda>(n, x) m. m(n \<mapsto> x)) (zip ns xs) out k =
    (case map_of (zip ns xs) k of Some x \<Rightarrow> Some x | None \<Rightarrow> out k)"
  using assms(2,1)
proof (induction xs ns arbitrary: out rule: list_induct2)
  case (Cons x xs n ns)
  have none: "map_of (zip ns xs) n = None" using Cons.prems Cons.hyps by (simp add: map_of_zip_is_None)
  show ?case using Cons by (auto simp: none split: option.splits)
qed simp

text \<open>
  C9: What \<open>bind_row\<close> makes of a row whose columns have passed \<open>check_alignment\<close>. If no number or enum
  is null it succeeds, and every field holds the value of its column: integers, strings and enum
  names exactly, with no integer cut; a \<open>bool\<close> is true exactly for the text 1, so any other number of
  a \<open>TINYINT\<close> and a null become false; a floating-point field, also that of a \<open>DECIMAL\<close>, holds what
  \<open>stof\<close> or \<open>stod\<close> read from the text, with their rounding; a null string is empty. A null in a
  number or enum field makes the row fail. The other fields of the message stay in any case.
\<close>

theorem bind_row_exact:
  fixes cols :: "(string \<times> field_type \<times> bool) list"
  assumes "sr_column_names res = map fst cols" "sr_column_types res = map (fst \<circ> snd) cols"
    and "sr_column_unsigned res = map (snd \<circ> snd) cols" "check_alignment res desc" "distinct (map fst cols)"
    and "cells_ok fl desc cols (sr_rows res ! r) xs" "fst fl [] = None" "snd fl [] = None"
  shows "\<exists>out'. bind_row fl res desc r out = Some (out', None \<notin> set xs) \<and>
    (None \<notin> set xs \<longrightarrow> (\<forall>i < length cols. out' (fst (cols ! i)) = xs ! i)) \<and>
    (\<forall>k. k \<notin> set (map fst cols) \<longrightarrow> out' k = out k)"
proof -
  have ok: "list_all (column_ok desc) cols"
    using assms(4) by (force simp: check_alignment_def assms(1-3) list_all_iff column_ok_def in_set_conv_nth split: option.splits)
  obtain out' where out': "bind_row fl res desc r out = Some (out', None \<notin> set xs)"
    "None \<notin> set xs \<longrightarrow> out' = fold (\<lambda>(n, x) m. m(n \<mapsto> x)) (zip (map fst cols) (map the xs)) out"
    "\<forall>k. k \<notin> set (map fst cols) \<longrightarrow> out' k = out k"
    using bind_cells_exact [OF ok assms(6-8)] unfolding bind_row_def assms(1) by blast
  have "out' (fst (cols ! i)) = xs ! i" if "None \<notin> set xs" "i < length cols" for i
  proof -
    have len: "length xs = length cols" using assms(6) by (simp add: cells_ok_def)
    have "(fst (cols ! i), the (xs ! i)) \<in> set (zip (map fst cols) (map the xs))"
      using that(2) len by (auto simp: in_set_zip intro!: exI [of _ i])
    then have "map_of (zip (map fst cols) (map the xs)) (fst (cols ! i)) = Some (the (xs ! i))"
      using assms(5) len by (simp add: map_of_is_SomeI)
    moreover have "xs ! i \<noteq> None" using that len by (metis nth_mem)
    ultimately show ?thesis using out'(2) that(1) assms(5) len by (auto simp: fold_updates)
  qed
  with out' show ?thesis by blast
qed

definition user_columns :: "(string \<times> field_type \<times> bool) list" where
  "user_columns = [(''id'', T_LONGLONG, True), (''age'', T_TINY, False), (''name'', T_VARCHAR, False)]"

definition user_desc :: descriptor where
  "user_desc =
     [\<lparr>fd_name = ''id'', fd_cpp_type = CPP_UINT64, fd_repeated = False, fd_enum = []\<rparr>,
      \<lparr>fd_name = ''age'', fd_cpp_type = CPP_INT32, fd_repeated = False, fd_enum = []\<rparr>,
      \<lparr>fd_name = ''name'', fd_cpp_type = CPP_STRING, fd_repeated = False, fd_enum = []\<rparr>]"

lemma bind_row_exact_witness:
  "\<exists>out. bind_row ((\<lambda>_. None), (\<lambda>_. None)) (read_result \<lparr>mr_fields = user_columns,
       mr_rows = [[Some ''18446744073709551615'', Some ''-5'', Some ''ann'']]\<rparr>) user_desc 0 (\<lambda>_. None) = Some (out, True) \<and>
     out ''id'' = Some (PInt 18446744073709551615 :: nat pb_value) \<and> out ''age'' = Some (PInt (- 5)) \<and> out ''name'' = Some (PString ''ann'')"
proof -
  let ?res = "read_result \<lparr>mr_fields = user_columns, mr_rows = [[Some ''18446744073709551615'', Some ''-5'', Some ''ann'']]\<rparr>"
  let ?xs = "[Some (PInt 18446744073709551615), Some (PInt (- 5)), Some (PString ''ann'')] :: nat pb_value option list"
  have t: "int_text ''18446744073709551615'' 18446744073709551615" "int_text ''-5'' (- 5)"
    unfolding int_text_def
    by (rule exI [of _ "''18446744073709551615''"], simp add: is_digit_def dec_val_def digit_val_def)
      (rule exI [of _ "''5''"], simp add: is_digit_def dec_val_def digit_val_def)
  have row: "sr_rows ?res ! 0 = [''18446744073709551615'', ''-5'', ''ann'']"
    by (simp add: read_result_def copy_rows_def user_columns_def eval_nat_numeral)
  have n: "length user_columns = 3" by (simp add: user_columns_def)
  have al: "check_alignment ?res user_desc"
    by (simp add: check_alignment_def read_result_def user_columns_def user_desc_def FindFieldByName_def
        field_accepts_def eval_nat_numeral)
  have c: "cell_of ((\<lambda>_. None), (\<lambda>_. None)) user_desc (user_columns ! i) (sr_rows ?res ! 0 ! i) (the (?xs ! i)) \<and> ?xs ! i \<noteq> None"
    if "i < length user_columns" for i
  proof -
    have "i = 0 \<or> i = 1 \<or> i = 2" using that n by linarith
    then consider "i = 0" | "i = 1" | "i = 2" by blast
    then show ?thesis
      unfolding row by cases (simp_all add: cell_of_def user_columns_def user_desc_def FindFieldByName_def t)
  qed
  then have cells: "cells_ok ((\<lambda>_. None), (\<lambda>_. None)) user_desc user_columns (sr_rows ?res ! 0) ?xs"
    by (fastforce simp: cells_ok_def cell_ok_def row n split: option.splits)
  have "\<exists>out'. bind_row ((\<lambda>_. None), (\<lambda>_. None)) ?res user_desc 0 (\<lambda>_. None) = Some (out', None \<notin> set ?xs) \<and>
      (None \<notin> set ?xs \<longrightarrow> (\<forall>i < length user_columns. out' (fst (user_columns ! i)) = ?xs ! i)) \<and>
      (\<forall>k. k \<notin> set (map fst user_columns) \<longrightarrow> out' k = None)"
    by (rule bind_row_exact [OF _ _ _ al _ cells]) (auto simp: read_result_def user_columns_def)
  then obtain out where o: "bind_row ((\<lambda>_. None), (\<lambda>_. None)) ?res user_desc 0 (\<lambda>_. None) = Some (out, True)"
    "\<forall>i < length user_columns. out (fst (user_columns ! i)) = ?xs ! i" by auto
  have "out ''id'' = ?xs ! 0" "out ''age'' = ?xs ! 1" "out ''name'' = ?xs ! 2"
    using o(2) [rule_format, of 0] o(2) [rule_format, of 1] o(2) [rule_format, of 2] by (simp_all add: user_columns_def)
  with o(1) show ?thesis by auto
qed

text \<open>A \<open>TINYINT\<close> of 2 is read as false.\<close>

lemma bool_cell_two:
  "fd_cpp_type f = CPP_BOOL \<Longrightarrow> set_pb_field fl f ''2'' msg = Some (msg(fd_name f \<mapsto> PBool False))"
  by (simp add: set_pb_field_def)

end
