(* ===== verification/Uco_Config.thy ===== *)
theory Uco_Config
  imports Uco_Libc
begin

text \<open>
  The configuration reader (\<open>core/uconfig.cpp\<close>, \<open>core/uconfig.h\<close>): nested mappings by indentation,
  scalars, quoted scalars and inline lists, found under dotted paths. The file is an argument: its
  bytes, or none when it cannot be opened, and whether reading it fails half-way. Logging is left out.
  \<open>isspace\<close> and \<open>tolower\<close> are those of the "C" locale.
\<close>

section \<open>Quotes, comments, spaces\<close>

abbreviation SQ :: char where "SQ \<equiv> CHR 0x27"
abbreviation DQ :: char where "DQ \<equiv> CHR 0x22"
abbreviation BS :: char where "BS \<equiv> CHR 0x5C"

definition cfg_Trim :: "string \<Rightarrow> string" where
  "cfg_Trim s = rev (dropWhile c_isspace (rev (dropWhile c_isspace s)))"

text \<open>The loop of \<open>FindUnquoted\<close>, with its variables \<open>quote\<close> (\<open>None\<close> for 0) and \<open>escaped\<close>.\<close>

fun find_unquoted :: "char \<Rightarrow> char option \<Rightarrow> bool \<Rightarrow> string \<Rightarrow> nat option" where
  "find_unquoted target quote escaped [] = None"
| "find_unquoted target quote escaped (ch # cs) =
     (if escaped then map_option Suc (find_unquoted target quote False cs)
      else if quote = Some DQ \<and> ch = BS then map_option Suc (find_unquoted target quote True cs)
      else if ch = SQ \<or> ch = DQ then
        map_option Suc
          (find_unquoted target
             (if quote = None then Some ch else if quote = Some ch then None else quote) False cs)
      else if quote = None \<and> ch = target then Some 0
      else map_option Suc (find_unquoted target quote False cs))"

definition FindUnquoted :: "string \<Rightarrow> char \<Rightarrow> nat option" where
  "FindUnquoted value target = find_unquoted target None False value"

definition StripComment :: "string \<Rightarrow> string" where
  "StripComment line = cfg_Trim (case FindUnquoted line CHR ''#'' of None \<Rightarrow> line | Some pos \<Rightarrow> take pos line)"

fun unescape :: "bool \<Rightarrow> string \<Rightarrow> string option" where
  "unescape escaped [] = (if escaped then None else Some [])"
| "unescape escaped (ch # cs) =
     (if \<not> escaped \<and> ch = BS then unescape True cs
      else if escaped then
        map_option ((#) (if ch = CHR ''n'' then LF else if ch = CHR ''r'' then CR else if ch = CHR ''t'' then TAB else ch))
          (unescape False cs)
      else map_option ((#) ch) (unescape False cs))"

definition Unquote :: "string \<Rightarrow> string option" where
  "Unquote text =
     (let value = cfg_Trim text
      in if length value < 2 \<or> ((hd value \<noteq> DQ \<or> last value \<noteq> DQ) \<and> (hd value \<noteq> SQ \<or> last value \<noteq> SQ)) then Some value
         else let inner = butlast (tl value)
              in if hd value = SQ then Some inner else unescape False inner)"

section \<open>Loading\<close>

type_synonym sections = "(nat \<times> string) list"
type_synonym config = "string \<Rightarrow> string option"

text \<open>\<open>while (!sections.empty() && sections.back().first >= indent) sections.pop_back()\<close>\<close>

definition pop_sections :: "nat \<Rightarrow> sections \<Rightarrow> sections" where
  "pop_sections indent sections = rev (dropWhile (\<lambda>sec. fst sec \<ge> indent) (rev sections))"

fun section_prefix :: "string \<Rightarrow> sections \<Rightarrow> string" where
  "section_prefix full [] = full"
| "section_prefix full (sec # secs) = section_prefix ((if full = [] then full else full @ ''.'') @ snd sec) secs"

definition full_key :: "sections \<Rightarrow> string \<Rightarrow> string" where
  "full_key secs key =
     (let full = section_prefix [] secs in (if full = [] then full else full @ ''.'') @ key)"

text \<open>A round of the loop of \<open>Load\<close>; \<open>None\<close> is its return with false.\<close>

definition load_line :: "string \<Rightarrow> sections \<times> config \<Rightarrow> (sections \<times> config) option" where
  "load_line line st =
     (let (secs, values) = st
      in if TAB \<in> set line then None
         else
           let indent = length (takeWhile (\<lambda>c. c = CHR '' '') line);
               content = StripComment (drop indent line)
           in if content = [] then Some (secs, values)
              else case FindUnquoted content CHR '':'' of
                None \<Rightarrow> None
              | Some colon \<Rightarrow>
                  let key = cfg_Trim (take colon content)
                  in if key = [] then None
                     else
                       let secs1 = pop_sections indent secs;
                           full = full_key secs1 key;
                           raw_value = StripComment (drop (Suc colon) content)
                       in if raw_value = [] then Some (secs1 @ [(indent, key)], values)
                          else case Unquote raw_value of
                            None \<Rightarrow> None
                          | Some value \<Rightarrow> if full \<in> dom values then None else Some (secs1, values(full \<mapsto> value)))"

fun load_lines :: "string list \<Rightarrow> sections \<times> config \<Rightarrow> (sections \<times> config) option" where
  "load_lines [] st = Some st"
| "load_lines (line # lines) st =
     (case load_line line st of None \<Rightarrow> None | Some st1 \<Rightarrow> load_lines lines st1)"

definition Config_Load :: "string option \<Rightarrow> bool \<Rightarrow> config \<Rightarrow> config \<times> bool" where
  "Config_Load file bad values =
     (case file of
        None \<Rightarrow> (\<lambda>_. None, False)
      | Some bytes \<Rightarrow>
          (case load_lines (getlines LF bytes) ([], \<lambda>_. None) of
             None \<Rightarrow> (\<lambda>_. None, False)
           | Some (secs, loaded) \<Rightarrow> if bad then (\<lambda>_. None, False) else (loaded, True)))"

section \<open>Reading\<close>

definition cfg_Contains :: "config \<Rightarrow> string \<Rightarrow> bool" where
  "cfg_Contains values key \<longleftrightarrow> values key \<noteq> None"

definition TryGetString :: "config \<Rightarrow> string \<Rightarrow> string option" where
  "TryGetString values key = values key"

definition ParseInteger :: "bool \<Rightarrow> int \<Rightarrow> int \<Rightarrow> string \<Rightarrow> int option" where
  "ParseInteger sg lo hi text =
     (case from_chars sg lo hi text of Some (v, rest) \<Rightarrow> if rest = [] then Some v else None | None \<Rightarrow> None)"

definition TryParseInt :: "string \<Rightarrow> int option" where
  "TryParseInt text = ParseInteger True int64_min int64_max text"

definition TryParseUInt :: "string \<Rightarrow> int option" where
  "TryParseUInt text = ParseInteger False 0 uint64_max text"

definition TryParseBool :: "string \<Rightarrow> bool option" where
  "TryParseBool text =
     (let t = map c_tolower text
      in if t = ''true'' \<or> t = ''yes'' \<or> t = ''on'' \<or> t = ''1'' then Some True
         else if t = ''false'' \<or> t = ''no'' \<or> t = ''off'' \<or> t = ''0'' then Some False
         else None)"

definition TryGetInt :: "config \<Rightarrow> string \<Rightarrow> int option" where
  "TryGetInt values key = Option.bind (TryGetString values key) TryParseInt"

definition TryGetUInt :: "config \<Rightarrow> string \<Rightarrow> int option" where
  "TryGetUInt values key = Option.bind (TryGetString values key) TryParseUInt"

definition TryGetBool :: "config \<Rightarrow> string \<Rightarrow> bool option" where
  "TryGetBool values key = Option.bind (TryGetString values key) TryParseBool"

text \<open>
  \<open>Get\<close> for strings, \<open>bool\<close> and integer types; an integer type is its signedness and range. Enums go
  through their integer type.
\<close>

definition Get_string :: "config \<Rightarrow> string \<Rightarrow> string \<Rightarrow> string" where
  "Get_string values key default_value = (case TryGetString values key of Some v \<Rightarrow> v | None \<Rightarrow> default_value)"

definition Get_bool :: "config \<Rightarrow> string \<Rightarrow> bool \<Rightarrow> bool" where
  "Get_bool values key default_value = (case TryGetBool values key of Some v \<Rightarrow> v | None \<Rightarrow> default_value)"

record int_type =
  it_signed :: bool
  it_min :: int
  it_max :: int

definition Get_int :: "int_type \<Rightarrow> config \<Rightarrow> string \<Rightarrow> int \<Rightarrow> int" where
  "Get_int T values key default_value =
     (case (if it_signed T then TryGetInt values key else TryGetUInt values key) of
        None \<Rightarrow> default_value
      | Some v \<Rightarrow> if it_min T \<le> v \<and> v \<le> it_max T then v else default_value)"

text \<open>The loop over the inside of the brackets. Each round but the last consumes a comma.\<close>

lemma find_unquoted_length: "find_unquoted t q e s = Some i \<Longrightarrow> i < length s"
  by (induction t q e s arbitrary: i rule: find_unquoted.induct) (auto split: if_splits)

function raw_items :: "string \<Rightarrow> string list option" where
  "raw_items value =
     (if cfg_Trim value = [] then Some []
      else
        let comma = FindUnquoted value CHR '','';
            item = (case comma of None \<Rightarrow> value | Some c \<Rightarrow> take c value)
        in if cfg_Trim item = [] then None
           else case Unquote item of
             None \<Rightarrow> None
           | Some parsed \<Rightarrow>
               (case comma of
                  None \<Rightarrow> Some [parsed]
                | Some c \<Rightarrow> map_option ((#) parsed) (raw_items (drop (Suc c) value))))"
  by pat_completeness auto
termination
proof (relation "measure length")
  fix v comma item parsed c
  assume "comma = FindUnquoted v CHR '',''" "comma = Some c"
  then have "c < length v" by (auto simp: FindUnquoted_def dest: find_unquoted_length [OF sym])
  then show "(drop (Suc c) v, v) \<in> measure length" by simp
qed simp

declare raw_items.simps [simp del]

definition TryGetRawList :: "config \<Rightarrow> string \<Rightarrow> string list option" where
  "TryGetRawList values key =
     (case TryGetString values key of
        None \<Rightarrow> None
      | Some text \<Rightarrow>
          let value = cfg_Trim text
          in if length value < 2 \<or> hd value \<noteq> CHR ''['' \<or> last value \<noteq> CHR '']'' then None
             else raw_items (butlast (tl value)))"

text \<open>\<open>TryConvertListValue\<close> for the element types, and \<open>GetList\<close>, which is empty on any failure.\<close>

definition convert_int :: "int_type \<Rightarrow> string \<Rightarrow> int option" where
  "convert_int T text =
     (case (if it_signed T then TryParseInt text else TryParseUInt text) of
        None \<Rightarrow> None
      | Some v \<Rightarrow> if it_min T \<le> v \<and> v \<le> it_max T then Some v else None)"

fun convert_all :: "(string \<Rightarrow> 'a option) \<Rightarrow> string list \<Rightarrow> 'a list option" where
  "convert_all conv [] = Some []"
| "convert_all conv (x # xs) =
     (case conv x of None \<Rightarrow> None | Some item \<Rightarrow> map_option ((#) item) (convert_all conv xs))"

definition GetList :: "(string \<Rightarrow> 'a option) \<Rightarrow> config \<Rightarrow> string \<Rightarrow> 'a list" where
  "GetList conv values key =
     (case TryGetRawList values key of
        None \<Rightarrow> []
      | Some raw \<Rightarrow> (case convert_all conv raw of None \<Rightarrow> [] | Some items \<Rightarrow> items))"

section \<open>Scanning of quoted and plain text\<close>

definition plain_char :: "char \<Rightarrow> bool" where
  "plain_char c \<longleftrightarrow> c \<notin> {SQ, DQ, CHR ''#'', CHR '':'', TAB, LF} \<and> \<not> c_isspace c"

fun escape_char :: "char \<Rightarrow> string" where
  "escape_char c =
     (if c = DQ \<or> c = BS then [BS, c] else if c = LF then [BS, CHR ''n''] else if c = TAB then [BS, CHR ''t'']
      else if c = CR then [BS, CHR ''r''] else [c])"

definition quote_text :: "string \<Rightarrow> string" where
  "quote_text v = DQ # concat (map escape_char v) @ [DQ]"

lemma find_plain:
  assumes "\<forall>c \<in> set s. c \<noteq> SQ \<and> c \<noteq> DQ \<and> c \<noteq> t"
  shows "find_unquoted t None False (s @ r) = map_option ((+) (length s)) (find_unquoted t None False r)"
  using assms by (induction s; cases "find_unquoted t None False r") auto

declare escape_char.simps [simp del]

lemma find_escaped_char:
  "find_unquoted t (Some DQ) False (escape_char c @ r) = map_option ((+) (length (escape_char c))) (find_unquoted t (Some DQ) False r)"
  by (cases "find_unquoted t (Some DQ) False r") (auto simp: escape_char.simps)

lemma find_escaped:
  "find_unquoted t (Some DQ) False (concat (map escape_char v) @ r) =
   map_option ((+) (length (concat (map escape_char v)))) (find_unquoted t (Some DQ) False r)"
proof (induction v)
  case Nil
  then show ?case by (cases "find_unquoted t (Some DQ) False r") simp_all
next
  case (Cons c v)
  then show ?case by (cases "find_unquoted t (Some DQ) False r") (simp_all add: find_escaped_char)
qed

lemma find_quoted:
  "find_unquoted t None False (quote_text v @ r) =
   map_option ((+) (length (quote_text v))) (find_unquoted t None False r)"
  by (cases "find_unquoted t None False r") (simp_all add: quote_text_def find_escaped)

lemma unescape_escape: "unescape False (concat (map escape_char v)) = Some v"
proof (induction v)
  case (Cons c v)
  then show ?case by (cases "c \<in> {DQ, BS, LF, TAB, CR}") (auto simp: escape_char.simps)
qed simp

lemma cfg_Trim_id: "s \<noteq> [] \<Longrightarrow> \<not> c_isspace (hd s) \<Longrightarrow> \<not> c_isspace (last s) \<Longrightarrow> cfg_Trim s = s"
  by (simp add: cfg_Trim_def hd_rev dropWhile_eq_self_iff [THEN iffD2])

lemma cfg_Trim_space: "cfg_Trim (CHR '' '' # s) = cfg_Trim s"
  by (simp add: cfg_Trim_def c_isspace_def)

lemma cfg_Trim_Nil [simp]: "cfg_Trim [] = []"
  by (simp add: cfg_Trim_def)

lemma quote_text_ends: "hd (quote_text v) = DQ" "last (quote_text v) = DQ" "2 \<le> length (quote_text v)" "quote_text v \<noteq> []"
  by (simp_all add: quote_text_def)

lemma cfg_Trim_quote: "cfg_Trim (quote_text v) = quote_text v"
  by (rule cfg_Trim_id) (simp_all add: quote_text_ends c_isspace_def)

lemma Unquote_quote: "Unquote (quote_text v) = Some v"
proof -
  have "butlast (tl (quote_text v)) = concat (map escape_char v)" by (simp add: quote_text_def)
  then show ?thesis using quote_text_ends [of v] by (simp add: Unquote_def cfg_Trim_quote unescape_escape Let_def)
qed

section \<open>Round trip\<close>

text \<open>Configurations as trees, their text and the entries they stand for.\<close>

datatype yaml = Leaf string string | Sect string "yaml list"

definition key_ok :: "string \<Rightarrow> bool" where
  "key_ok k \<longleftrightarrow> k \<noteq> [] \<and> (\<forall>c \<in> set k. plain_char c)"

fun yaml_ok :: "yaml \<Rightarrow> bool" where
  "yaml_ok (Leaf k v) = key_ok k"
| "yaml_ok (Sect k ys) = (key_ok k \<and> (\<forall>y \<in> set ys. yaml_ok y))"

definition leaf_line :: "nat \<Rightarrow> string \<Rightarrow> string \<Rightarrow> string" where
  "leaf_line d k v = replicate d CHR '' '' @ k @ '': '' @ quote_text v"

definition sect_line :: "nat \<Rightarrow> string \<Rightarrow> string" where
  "sect_line d k = replicate d CHR '' '' @ k @ '':''"

fun render_lines :: "nat \<Rightarrow> yaml \<Rightarrow> string list" where
  "render_lines d (Leaf k v) = [leaf_line d k v]"
| "render_lines d (Sect k ys) = sect_line d k # concat (map (render_lines (d + 2)) ys)"

definition render_yaml :: "yaml list \<Rightarrow> string" where
  "render_yaml ys = concat (map (\<lambda>l. l @ [LF]) (concat (map (render_lines 0) ys)))"

fun entries :: "sections \<Rightarrow> nat \<Rightarrow> yaml \<Rightarrow> (string \<times> string) list" where
  "entries secs d (Leaf k v) = [(full_key secs k, v)]"
| "entries secs d (Sect k ys) = concat (map (entries (secs @ [(d, k)]) (d + 2)) ys)"

definition all_entries :: "yaml list \<Rightarrow> (string \<times> string) list" where
  "all_entries ys = concat (map (entries [] 0) ys)"

lemma escape_char_plain: "c \<in> set (escape_char x) \<Longrightarrow> c \<noteq> TAB \<and> c \<noteq> LF"
  by (auto simp: escape_char.simps split: if_splits)

lemma quote_text_plain: "c \<in> set (quote_text v) \<Longrightarrow> c \<noteq> TAB \<and> c \<noteq> LF"
  using escape_char_plain by (auto simp: quote_text_def)

lemma key_ends:
  assumes "key_ok k"
  shows "k \<noteq> []" "\<not> c_isspace (hd k)" "\<not> c_isspace (last k)" "hd k \<noteq> CHR '' ''" "TAB \<notin> set k" "LF \<notin> set k"
proof -
  show k: "k \<noteq> []" using assms by (simp add: key_ok_def)
  then show h: "\<not> c_isspace (hd k)" "\<not> c_isspace (last k)" using assms by (simp_all add: key_ok_def plain_char_def)
  then show "hd k \<noteq> CHR '' ''" by (auto simp: c_isspace_def)
  show "TAB \<notin> set k" "LF \<notin> set k" using assms by (auto simp: key_ok_def plain_char_def)
qed

lemma find_key:
  assumes "key_ok k" "t = CHR ''#'' \<or> t = CHR '':''"
  shows "find_unquoted t None False (k @ r) = map_option ((+) (length k)) (find_unquoted t None False r)"
  using assms by (intro find_plain) (auto simp: key_ok_def plain_char_def)

lemma indent_key:
  assumes "key_ok k"
  shows "takeWhile (\<lambda>c. c = CHR '' '') (replicate d CHR '' '' @ k @ r) = replicate d CHR '' ''"
  using key_ends [OF assms] by (induction d; cases k) auto

lemma key_Trim: "key_ok k \<Longrightarrow> cfg_Trim k = k"
  by (intro cfg_Trim_id) (simp_all add: key_ends)

lemma no_comment_quote: "find_unquoted CHR ''#'' None False (quote_text v) = None"
  using find_quoted [of "CHR ''#''" v "[]"] by simp

lemma load_key_line:
  assumes "key_ok k" "TAB \<notin> set r" "FindUnquoted r CHR ''#'' = None" "r \<noteq> [] \<Longrightarrow> \<not> c_isspace (last r)"
  shows "load_line (replicate d CHR '' '' @ k @ CHR '':'' # r) (secs, vals) =
    (let secs1 = pop_sections d secs; full = full_key secs1 k; raw_value = cfg_Trim r
     in if raw_value = [] then Some (secs1 @ [(d, k)], vals)
        else case Unquote raw_value of None \<Rightarrow> None
           | Some v \<Rightarrow> if full \<in> dom vals then None else Some (secs1, vals(full \<mapsto> v)))"
proof -
  let ?content = "k @ CHR '':'' # r"
  have tab: "TAB \<notin> set (replicate d CHR '' '' @ ?content)" using key_ends [OF assms(1)] assms(2) by auto
  have "find_unquoted CHR ''#'' None False ?content = None"
    using find_key [OF assms(1), of "CHR ''#''" "CHR '':'' # r"] assms(3) by (simp add: FindUnquoted_def)
  moreover have "cfg_Trim ?content = ?content"
    using key_ends [OF assms(1)] assms(4) by (intro cfg_Trim_id) (auto simp: c_isspace_def)
  ultimately have content: "StripComment ?content = ?content" by (simp add: StripComment_def FindUnquoted_def)
  have colon: "FindUnquoted ?content CHR '':'' = Some (length k)"
    using find_key [OF assms(1), of "CHR '':''" "CHR '':'' # r"] by (simp add: FindUnquoted_def)
  have raw: "StripComment r = cfg_Trim r" using assms(3) by (simp add: StripComment_def)
  have dr: "drop d (replicate d CHR '' '' @ ?content) = ?content" by simp
  have tk: "take (length k) ?content = k" "drop (Suc (length k)) ?content = r" by simp_all
  have ind: "length (takeWhile (\<lambda>c. c = CHR '' '') (replicate d CHR '' '' @ ?content)) = d"
    unfolding indent_key [OF assms(1)] by simp
  show ?thesis
    unfolding load_line_def Let_def prod.case if_not_P [OF tab] ind dr content colon option.case tk key_Trim [OF assms(1)] raw
    using key_ends(1) [OF assms(1)] by simp
qed

lemma load_leaf_line:
  assumes "key_ok k"
  shows "load_line (leaf_line d k v) (secs, vals) =
    (let full = full_key (pop_sections d secs) k
     in if full \<in> dom vals then None else Some (pop_sections d secs, vals(full \<mapsto> v)))"
proof -
  have t: "cfg_Trim (CHR '' '' # quote_text v) = quote_text v" by (simp add: cfg_Trim_space cfg_Trim_quote)
  have "FindUnquoted (CHR '' '' # quote_text v) CHR ''#'' = None" using no_comment_quote [of v] by (simp add: FindUnquoted_def)
  then have "load_line (replicate d CHR '' '' @ k @ CHR '':'' # CHR '' '' # quote_text v) (secs, vals) =
    (let full = full_key (pop_sections d secs) k
     in if full \<in> dom vals then None else Some (pop_sections d secs, vals(full \<mapsto> v)))"
    using quote_text_plain [of TAB v] quote_text_ends [of v]
    by (subst load_key_line [OF assms]) (auto simp: t Unquote_quote c_isspace_def Let_def)
  then show ?thesis by (simp add: leaf_line_def)
qed

lemma load_sect_line:
  assumes "key_ok k"
  shows "load_line (sect_line d k) (secs, vals) = Some (pop_sections d secs @ [(d, k)], vals)"
  using load_key_line [OF assms, of "[]" d secs vals] by (simp add: sect_line_def FindUnquoted_def Let_def)

lemma pop_pop: "d \<le> e \<Longrightarrow> pop_sections d (pop_sections e secs) = pop_sections d secs"
proof -
  assume de: "d \<le> e"
  have "dropWhile (\<lambda>sec. d \<le> fst sec) (dropWhile (\<lambda>sec. e \<le> fst sec) xs) = dropWhile (\<lambda>sec. d \<le> fst sec) xs" for xs :: sections
    using de by (induction xs) auto
  then show ?thesis by (simp add: pop_sections_def)
qed

lemma pop_push: "d \<le> e \<Longrightarrow> pop_sections d (secs @ [(e, k)]) = pop_sections d secs"
  by (simp add: pop_sections_def)

lemma pop_keep: "e < d \<Longrightarrow> pop_sections d (secs @ [(e, k)]) = secs @ [(e, k)]"
  by (simp add: pop_sections_def)

lemma load_lines_append:
  "load_lines (xs @ ys) st = (case load_lines xs st of None \<Rightarrow> None | Some st1 \<Rightarrow> load_lines ys st1)"
  by (induction xs st rule: load_lines.induct) (auto split: option.splits)

text \<open>A list of nodes at one depth, given that each node loads.\<close>

lemma load_nodes:
  assumes "\<And>y secs vals. y \<in> set ys \<Longrightarrow> pop_sections d secs = base \<Longrightarrow>
      distinct (map fst (entries base d y)) \<Longrightarrow> fst ` set (entries base d y) \<inter> dom vals = {} \<Longrightarrow>
      \<exists>secs1. load_lines (render_lines d y) (secs, vals) = Some (secs1, vals ++ map_of (entries base d y)) \<and> pop_sections d secs1 = base"
    and "pop_sections d secs = base" "distinct (map fst (concat (map (entries base d) ys)))"
    "fst ` set (concat (map (entries base d) ys)) \<inter> dom vals = {}"
  shows "\<exists>secs1. load_lines (concat (map (render_lines d) ys)) (secs, vals) =
      Some (secs1, vals ++ map_of (concat (map (entries base d) ys))) \<and> pop_sections d secs1 = base"
  using assms
proof (induction ys arbitrary: secs vals)
  case (Cons y ys)
  let ?ey = "entries base d y" let ?es = "concat (map (entries base d) ys)"
  have d: "distinct (map fst ?ey)" "distinct (map fst ?es)" "fst ` set ?ey \<inter> fst ` set ?es = {}"
    using Cons.prems(3) by simp_all
  have v: "fst ` set ?ey \<inter> dom vals = {}" "fst ` set ?es \<inter> dom vals = {}"
    using Cons.prems(4) by (simp_all add: image_Un Int_Un_distrib2)
  obtain secs1 where 1: "load_lines (render_lines d y) (secs, vals) = Some (secs1, vals ++ map_of ?ey)" "pop_sections d secs1 = base"
    using Cons.prems(1) [of y secs vals] Cons.prems(2) d v by auto
  have "fst ` set ?es \<inter> dom (vals ++ map_of ?ey) = {}"
    using d(3) v(2) by (simp only: dom_map_add dom_map_of_conv_image_fst) blast
  then obtain secs2 where 2: "load_lines (concat (map (render_lines d) ys)) (secs1, vals ++ map_of ?ey) =
      Some (secs2, (vals ++ map_of ?ey) ++ map_of ?es)" "pop_sections d secs2 = base"
    using Cons.IH [of secs1 "vals ++ map_of ?ey"] Cons.prems(1) 1(2) d(2) by auto
  have "(vals ++ map_of ?ey) ++ map_of ?es = vals ++ map_of (?ey @ ?es)"
  proof -
    have "map_of ?ey ++ map_of ?es = map_of ?es ++ map_of ?ey"
      by (rule map_add_comm) (simp only: dom_map_of_conv_image_fst d(3))
    then show ?thesis by (simp only: map_of_append map_add_assoc [symmetric])
  qed
  then show ?case using 1 2 by (simp add: load_lines_append)
qed simp

lemma load_node:
  "yaml_ok y \<Longrightarrow> pop_sections d secs = base \<Longrightarrow> distinct (map fst (entries base d y)) \<Longrightarrow>
   fst ` set (entries base d y) \<inter> dom vals = {} \<Longrightarrow>
   \<exists>secs1. load_lines (render_lines d y) (secs, vals) = Some (secs1, vals ++ map_of (entries base d y)) \<and> pop_sections d secs1 = base"
proof (induction y arbitrary: d secs base vals)
  case (Leaf k v)
  have "pop_sections d base = base" using Leaf.prems(2) pop_pop [of d d secs] by simp
  moreover have "vals(full_key base k \<mapsto> v) = vals ++ map_of [(full_key base k, v)]" by (simp add: map_add_def fun_eq_iff)
  ultimately show ?case using Leaf.prems by (simp add: load_leaf_line Let_def del: map_of.simps)
next
  case (Sect k ys)
  let ?base = "base @ [(d, k)]"
  have k: "key_ok k" using Sect.prems(1) by simp
  have "\<exists>secs1. load_lines (concat (map (render_lines (d + 2)) ys)) (?base, vals) =
      Some (secs1, vals ++ map_of (concat (map (entries ?base (d + 2)) ys))) \<and> pop_sections (d + 2) secs1 = ?base"
  proof (rule load_nodes)
    show "pop_sections (d + 2) ?base = ?base" by (rule pop_keep) simp
    show "distinct (map fst (concat (map (entries ?base (d + 2)) ys)))" "fst ` set (concat (map (entries ?base (d + 2)) ys)) \<inter> dom vals = {}"
      using Sect.prems(3,4) by simp_all
    fix y secs and vals :: config
    assume "y \<in> set ys" "pop_sections (d + 2) secs = ?base" "distinct (map fst (entries ?base (d + 2) y))"
      "fst ` set (entries ?base (d + 2) y) \<inter> dom vals = {}"
    then show "\<exists>secs1. load_lines (render_lines (d + 2) y) (secs, vals) = Some (secs1, vals ++ map_of (entries ?base (d + 2) y)) \<and>
        pop_sections (d + 2) secs1 = ?base"
      using Sect.IH [of y "d + 2" secs ?base vals] Sect.prems(1) by simp
  qed
  then obtain secs1 where 1: "load_lines (concat (map (render_lines (d + 2)) ys)) (?base, vals) =
      Some (secs1, vals ++ map_of (entries base d (Sect k ys)))" "pop_sections (d + 2) secs1 = ?base" by auto
  have "pop_sections d secs1 = pop_sections d ?base" using 1(2) pop_pop [of d "d + 2" secs1] by simp
  also have "\<dots> = pop_sections d base" by (rule pop_push) simp
  also have "\<dots> = base" using Sect.prems(2) pop_pop [of d d secs] by simp
  finally show ?case using 1(1) load_sect_line [OF k] Sect.prems(2) by simp
qed

lemma render_lines_free: "yaml_ok y \<Longrightarrow> l \<in> set (render_lines d y) \<Longrightarrow> LF \<notin> set l"
proof (induction y arbitrary: d)
  case (Leaf k v)
  then show ?case using key_ends(6) [of k] quote_text_plain [of LF v] by (auto simp: leaf_line_def)
next
  case (Sect k ys)
  then show ?case using key_ends(6) [of k] by (auto simp: sect_line_def)
qed

lemma getlines_lines: "\<forall>l \<in> set ls. LF \<notin> set l \<Longrightarrow> getlines LF (concat (map (\<lambda>l. l @ [LF]) ls)) = ls"
  by (induction ls) (simp_all add: getlines_cons)

text \<open>C22: A configuration written with indentation and quoted values loads as exactly its entries under their dotted paths, whatever bytes the values hold, provided that no two have the same path.\<close>

theorem config_roundtrip:
  assumes "\<forall>y \<in> set ys. yaml_ok y" "distinct (map fst (all_entries ys))"
  shows "Config_Load (Some (render_yaml ys)) False vals = (map_of (all_entries ys), True)"
proof -
  have lines: "getlines LF (render_yaml ys) = concat (map (render_lines 0) ys)"
    unfolding render_yaml_def using assms(1) render_lines_free by (intro getlines_lines) auto
  have "\<exists>secs1. load_lines (concat (map (render_lines 0) ys)) ([], \<lambda>_. None) =
      Some (secs1, (\<lambda>_. None) ++ map_of (concat (map (entries [] 0) ys))) \<and> pop_sections 0 secs1 = []"
  proof (rule load_nodes)
    show "pop_sections 0 [] = []" by (simp add: pop_sections_def)
    show "distinct (map fst (concat (map (entries [] 0) ys)))" using assms(2) by (simp add: all_entries_def)
    show "\<exists>secs1. load_lines (render_lines 0 y) (secs, vals) = Some (secs1, vals ++ map_of (entries [] 0 y)) \<and> pop_sections 0 secs1 = []"
      if "y \<in> set ys" "pop_sections 0 secs = []" "distinct (map fst (entries [] 0 y))" "fst ` set (entries [] 0 y) \<inter> dom vals = {}"
      for y secs and vals :: config
      using load_node [of y 0 secs "[]" vals] that assms(1) by blast
  qed simp
  then show ?thesis by (auto simp: Config_Load_def lines all_entries_def)
qed

lemma config_roundtrip_witness:
  "let ys = [Sect ''http'' [Leaf ''port'' ''8080'', Sect ''tls'' [Leaf ''key'' ''a#b: c'']], Leaf ''name'' '''']
   in Config_Load (Some (render_yaml ys)) False (\<lambda>_. None) = (map_of (all_entries ys), True)"
  using config_roundtrip [of "[Sect ''http'' [Leaf ''port'' ''8080'', Sect ''tls'' [Leaf ''key'' ''a#b: c'']], Leaf ''name'' '''']" "\<lambda>_. None"]
  by (simp add: all_entries_def full_key_def key_ok_def plain_char_def c_isspace_def Let_def)

text \<open>\<open>Load\<close> either succeeds or leaves no entry behind: after a file that cannot be opened or read, a tab, a line without a colon, an empty key, a broken quoted value or a key given twice the configuration is empty.\<close>

theorem Config_Load_failure_clears:
  "snd (Config_Load file bad vals) = False \<Longrightarrow> fst (Config_Load file bad vals) = (\<lambda>_. None)"
  by (auto simp: Config_Load_def split: option.splits if_splits)

lemma Config_Load_failure_clears_witness:
  "fst (Config_Load (Some (''a: 1'' @ LF # ''a: 2'')) False [''b'' \<mapsto> ''1'']) = (\<lambda>_. None)"
proof -
  have lines: "getlines LF (''a: 1'' @ LF # ''a: 2'') = [''a: 1'', ''a: 2'']"
    using getlines_cons [of LF "''a: 1''" "''a: 2''"] getlines_single [of LF "''a: 2''"] by simp
  have trim: "cfg_Trim ''a: 1'' = ''a: 1''" "cfg_Trim ''a: 2'' = ''a: 2''" "cfg_Trim '' 1'' = ''1''" "cfg_Trim '' 2'' = ''2''"
    "cfg_Trim ''a'' = ''a''" "cfg_Trim ''1'' = ''1''" "cfg_Trim ''2'' = ''2''"
    by (simp_all add: cfg_Trim_def c_isspace_def)
  have "snd (Config_Load (Some (''a: 1'' @ LF # ''a: 2'')) False [''b'' \<mapsto> ''1'']) = False"
    unfolding Config_Load_def option.case lines
    by (simp add: load_line_def StripComment_def FindUnquoted_def Unquote_def trim pop_sections_def full_key_def Let_def)
  then show ?thesis by (rule Config_Load_failure_clears)
qed

text \<open>
  \<open>Get\<close> of an integer type gives the default or a value of the type, the one whose decimal text is
  stored; every value of the type that is stored is read back, so a number out of range is never
  narrowed.
\<close>

theorem Get_int_typed:
  assumes "it_min T \<le> default_value" "default_value \<le> it_max T"
    "int64_min \<le> it_min T" "it_max T \<le> (if it_signed T then int64_max else uint64_max)" "\<not> it_signed T \<longrightarrow> 0 \<le> it_min T"
  shows "it_min T \<le> Get_int T vals key default_value \<and> Get_int T vals key default_value \<le> it_max T \<and>
    (\<forall>v. vals key = Some (int_to_string v) \<and> it_min T \<le> v \<and> v \<le> it_max T \<longrightarrow> Get_int T vals key default_value = v) \<and>
    (\<forall>v. vals key = Some (int_to_string v) \<and> \<not> (it_min T \<le> v \<and> v \<le> it_max T) \<and> int64_min \<le> v \<and> v \<le> int64_max \<longrightarrow>
       Get_int T vals key default_value = default_value)"
proof (intro conjI allI impI)
  show "it_min T \<le> Get_int T vals key default_value" "Get_int T vals key default_value \<le> it_max T"
    using assms(1,2) by (auto simp: Get_int_def split: option.splits)
  have s: "TryParseInt (int_to_string v) = Some v" if "int64_min \<le> v" "v \<le> int64_max" for v
    using from_chars_int_to_string [OF that] by (simp add: TryParseInt_def ParseInteger_def)
  have u: "TryParseUInt (int_to_string v) = Some v" if "0 \<le> v" "v \<le> uint64_max" for v
    using from_chars_nat_to_string [of 0 "nat v" uint64_max False] that by (simp add: TryParseUInt_def ParseInteger_def int_to_string_def)
  fix v
  show "Get_int T vals key default_value = v" if "vals key = Some (int_to_string v) \<and> it_min T \<le> v \<and> v \<le> it_max T"
    using that assms(3-5) s [of v] u [of v] by (auto simp: Get_int_def TryGetInt_def TryGetUInt_def TryGetString_def split: if_splits)
  assume a: "vals key = Some (int_to_string v) \<and> \<not> (it_min T \<le> v \<and> v \<le> it_max T) \<and> int64_min \<le> v \<and> v \<le> int64_max"
  show "Get_int T vals key default_value = default_value"
  proof (cases "it_signed T \<or> 0 \<le> v")
    case True
    then show ?thesis using a s [of v] u [of v]
      by (auto simp: Get_int_def TryGetInt_def TryGetUInt_def TryGetString_def split: option.splits)
  next
    case False
    then have "TryParseUInt (int_to_string v) = None"
      by (simp add: TryParseUInt_def ParseInteger_def from_chars_def int_to_string_def is_digit_def Let_def)
    then show ?thesis using a False by (simp add: Get_int_def TryGetUInt_def TryGetString_def)
  qed
qed

definition cfg_uint16 :: int_type where
  "cfg_uint16 = \<lparr>it_signed = False, it_min = 0, it_max = 65535\<rparr>"

lemma Get_int_typed_witness:
  "Get_int cfg_uint16 [''port'' \<mapsto> int_to_string 70000] ''port'' 80 = 80 \<and>
   Get_int cfg_uint16 [''port'' \<mapsto> int_to_string 443] ''port'' 80 = 443"
  using Get_int_typed [of cfg_uint16 80 "[''port'' \<mapsto> int_to_string 70000]" "''port''"]
    Get_int_typed [of cfg_uint16 80 "[''port'' \<mapsto> int_to_string 443]" "''port''"]
  by (auto simp: cfg_uint16_def)

text \<open>Inline lists.\<close>

definition render_list :: "string list \<Rightarrow> string" where
  "render_list vs = ''['' @ (case vs of [] \<Rightarrow> [] | v # ws \<Rightarrow> quote_text v @ concat (map (\<lambda>w. '', '' @ quote_text w) ws)) @ '']''"

lemma raw_items_quoted:
  "s = quote_text v \<or> s = CHR '' '' # quote_text v \<Longrightarrow>
   raw_items (s @ concat (map (\<lambda>w. '', '' @ quote_text w) ws)) = Some (v # ws)"
proof (induction ws arbitrary: s v)
  case Nil
  have c: "FindUnquoted s CHR '','' = None" using Nil find_quoted [of "CHR '',''" v "[]"] by (auto simp: FindUnquoted_def)
  have t: "cfg_Trim s = quote_text v" using Nil by (auto simp: cfg_Trim_space cfg_Trim_quote)
  have "Unquote s = Unquote (quote_text v)" using Nil by (auto simp: Unquote_def cfg_Trim_space)
  then show ?case by (subst raw_items.simps) (simp add: c t quote_text_ends Unquote_quote Let_def)
next
  case (Cons w ws)
  let ?r = "concat (map (\<lambda>w. '', '' @ quote_text w) ws)"
  let ?t = "CHR '' '' # quote_text w @ ?r"
  have f: "FindUnquoted (s @ CHR '','' # ?t) CHR '','' = Some (length s)"
    using Cons.prems find_quoted [of "CHR '',''" v "CHR '','' # ?t"] by (auto simp: FindUnquoted_def)
  have ts: "cfg_Trim s = quote_text v" "Unquote s = Some v"
    using Cons.prems Unquote_quote [of v] by (auto simp: cfg_Trim_space cfg_Trim_quote Unquote_def)
  have "dropWhile c_isspace (s @ CHR '','' # ?t) = quote_text v @ CHR '','' # ?t"
    using Cons.prems by (auto simp: quote_text_def c_isspace_def)
  then have ne: "cfg_Trim (s @ CHR '','' # ?t) \<noteq> []"
    by (auto simp: cfg_Trim_def c_isspace_def)
  have "raw_items ?t = Some (w # ws)" using Cons.IH [of "CHR '' '' # quote_text w" w] by simp
  then show ?case using ne f ts quote_text_ends(4) [of v]
    by (subst raw_items.simps) (simp add: Let_def)
qed

text \<open>An inline list of quoted strings is read back as the list of the strings.\<close>

theorem config_list_roundtrip:
  "vals key = Some (render_list vs) \<Longrightarrow> GetList Some vals key = vs"
proof -
  assume v: "vals key = Some (render_list vs)"
  have "cfg_Trim (render_list vs) = render_list vs" by (intro cfg_Trim_id) (simp_all add: render_list_def c_isspace_def)
  moreover have "raw_items (butlast (tl (render_list vs))) = Some vs"
  proof (cases vs)
    case Nil
    then show ?thesis by (subst raw_items.simps) (simp add: render_list_def)
  next
    case (Cons w ws)
    then show ?thesis using raw_items_quoted [of "quote_text w" w ws] by (simp add: render_list_def butlast_append)
  qed
  moreover have "convert_all Some xs = Some xs" for xs :: "string list" by (induction xs) auto
  ultimately show ?thesis using v by (simp add: GetList_def TryGetRawList_def TryGetString_def render_list_def Let_def)
qed

lemma config_list_roundtrip_witness:
  "GetList Some [''hosts'' \<mapsto> render_list [''a, b'', [DQ, BS], []]] ''hosts'' = [''a, b'', [DQ, BS], []]"
  by (rule config_list_roundtrip) simp

end
