(* ===== verification/Usql_Pool.thy ===== *)
theory Usql_Pool
  imports Usql_Client Redis_Pool Uco_Config
begin

text \<open>
  The connection pool \<open>upool\<close> of \<open>core/usql.cpp\<close>. It has the shape of the one of \<open>core/uredis.cpp\<close>
  (\<open>Redis_Pool\<close>, whose state and program counters it shares); what differs is the test in \<open>Release\<close>, which
  reads the error code that the library keeps for the connection. The state of the machine is the
  pool together with these codes; the field \<open>p_broken\<close> is not used. Each of the steps below is the
  one of the other pool (\<open>sql_pool_same\<close>), so that its invariant carries over.
\<close>

section \<open>Construction\<close>

definition size_t :: int_type where
  "size_t = \<lparr>it_signed = False, it_min = 0, it_max = 2 ^ 64 - 1\<rparr>"

definition uint_type :: int_type where
  "uint_type = \<lparr>it_signed = False, it_min = 0, it_max = 2 ^ 32 - 1\<rparr>"

definition time_type :: int_type where
  "time_type = \<lparr>it_signed = True, it_min = - (2 ^ 63), it_max = 2 ^ 63 - 1\<rparr>"

text \<open>What \<open>uconnect\<close> is called with, and the times.\<close>

definition pool_connect_args :: "config \<Rightarrow> connect_args" where
  "pool_connect_args values =
     \<lparr>ca_host = Get_string values ''mysql.host'' ''127.0.0.1'', ca_user = Get_string values ''mysql.user'' ''root'',
      ca_pass = Get_string values ''mysql.password'' ''123456'', ca_db = Get_string values ''mysql.database'' ''webserver'',
      ca_port = nat (Get_int uint_type values ''mysql.port'' 3306), ca_ssl = Get_bool values ''mysql.use_ssl'' False\<rparr>"

definition pool_times :: "config \<Rightarrow> int \<times> uco_time" where
  "pool_times values =
     (Get_int size_t values ''mysql.reap_interval_sec'' 60, (Get_int time_type values ''mysql.connect_timeout_sec'' 10, 0))"

definition mk_sql_pool :: "config \<Rightarrow> nat \<Rightarrow> pool" where
  "mk_sql_pool values agents =
     (let max_size = nat (Get_int size_t values ''mysql.max_size'' 16);
          size = (if max_size = 0 then 1 else max_size)
      in \<lparr>p_max_size = size, p_min_idle = nat (Get_int size_t values ''mysql.min_idle'' 1), p_closed = False, p_pending = 0,
          p_permits = size, p_idle = [], p_all = [], p_broken = [], p_next = 0, p_uclosed = [],
          p_pcs = replicate agents P_Idle\<rparr>)"

section \<open>Steps\<close>

definition sql_acquire_step :: "nat \<Rightarrow> bool \<Rightarrow> pool \<Rightarrow> pool option" where
  "sql_acquire_step i ok s =
     (case p_pcs s ! i of
        A_Start \<Rightarrow>
          Some (if p_closed s then pool_goto i P_Idle s
                else pool_goto i A_Wait (s\<lparr>p_pending := p_pending s + 1\<rparr>))
      | A_Wait \<Rightarrow>
          (if p_permits s = 0 then None
           else Some (pool_goto i A_Check (s\<lparr>p_permits := p_permits s - 1\<rparr>)))
      | A_Check \<Rightarrow>
          (let s1 = s\<lparr>p_pending := p_pending s - 1\<rparr>
           in if p_closed s1 then Some (pool_goto i P_Idle s1)
              else if p_idle s1 \<noteq> []
              then Some (pool_goto i (P_Hold (hd (p_idle s1))) (s1\<lparr>p_idle := tl (p_idle s1)\<rparr>))
              else Some (pool_goto i A_Connect s1))
      | A_Connect \<Rightarrow>
          Some (if \<not> ok then pool_goto i A_Fail s
                else pool_goto i (A_Insert (p_next s)) (s\<lparr>p_next := p_next s + 1\<rparr>))
      | A_Fail \<Rightarrow> Some (pool_goto i P_Idle (s\<lparr>p_permits := p_permits s + 1\<rparr>))
      | A_Insert m \<Rightarrow>
          Some (if \<not> p_closed s then pool_goto i (P_Hold m) (s\<lparr>p_all := List.insert m (p_all s)\<rparr>)
                else pool_goto i A_Fail (pool_uclose m s))
      | _ \<Rightarrow> None)"

definition sql_release_step :: "(nat \<Rightarrow> nat) \<Rightarrow> nat \<Rightarrow> pool \<Rightarrow> pool option" where
  "sql_release_step errno i s =
     (case p_pcs s ! i of
        R_Start m \<Rightarrow>
          (let broken = errno m \<ge> 2000
           in Some (if \<not> broken \<and> \<not> p_closed s
                    then pool_goto i (R_Signal None) (s\<lparr>p_idle := p_idle s @ [m]\<rparr>)
                    else pool_goto i (R_Signal (Some m)) (s\<lparr>p_all := removeAll m (p_all s)\<rparr>)))
      | R_Signal victim \<Rightarrow>
          Some (pool_goto i (case victim of None \<Rightarrow> P_Idle | Some m \<Rightarrow> R_Close m) (s\<lparr>p_permits := p_permits s + 1\<rparr>))
      | R_Close m \<Rightarrow> Some (pool_goto i P_Idle (pool_uclose m s))
      | _ \<Rightarrow> None)"

definition sql_close_step :: "nat \<Rightarrow> pool \<Rightarrow> pool option" where
  "sql_close_step i s =
     (case p_pcs s ! i of
        C_Start \<Rightarrow>
          Some (if p_closed s then pool_goto i P_Idle s
                else pool_goto i (C_Signal (p_pending s) (p_all s)) (s\<lparr>p_closed := True, p_all := [], p_idle := []\<rparr>))
      | C_Signal wake_count victims \<Rightarrow>
          Some (if wake_count = 0 then pool_goto i (C_Wake victims) s
                else pool_goto i (C_Signal (wake_count - 1) victims) (s\<lparr>p_permits := p_permits s + 1\<rparr>))
      | C_Wake victims \<Rightarrow> Some (pool_goto i (C_Close victims) s)
      | C_Close victims \<Rightarrow>
          Some (if victims = [] then pool_goto i P_Idle s
                else pool_goto i (C_Close (tl victims)) (pool_uclose (hd victims) s))
      | _ \<Rightarrow> None)"

definition sql_reaper_step :: "nat \<Rightarrow> pool \<Rightarrow> pool option" where
  "sql_reaper_step i s =
     (case p_pcs s ! i of
        V_Check \<Rightarrow> Some (if p_closed s then pool_goto i P_Idle s else pool_goto i V_Section s)
      | V_Section \<Rightarrow>
          Some (if \<not> p_closed s \<and> length (p_idle s) > p_min_idle s
                then (let victim = hd (p_idle s)
                      in pool_goto i (R_Close victim) (s\<lparr>p_idle := tl (p_idle s), p_all := removeAll victim (p_all s)\<rparr>))
                else pool_goto i P_Idle s)
      | _ \<Rightarrow> None)"

definition sql_pool_step :: "(nat \<Rightarrow> nat) \<Rightarrow> nat \<Rightarrow> bool \<Rightarrow> pool \<Rightarrow> pool option" where
  "sql_pool_step errno i ok s =
     (case p_pcs s ! i of
        R_Start _ \<Rightarrow> sql_release_step errno i s | R_Signal _ \<Rightarrow> sql_release_step errno i s
      | R_Close _ \<Rightarrow> sql_release_step errno i s
      | C_Start \<Rightarrow> sql_close_step i s | C_Signal _ _ \<Rightarrow> sql_close_step i s
      | C_Wake _ \<Rightarrow> sql_close_step i s | C_Close _ \<Rightarrow> sql_close_step i s
      | V_Check \<Rightarrow> sql_reaper_step i s | V_Section \<Rightarrow> sql_reaper_step i s
      | _ \<Rightarrow> sql_acquire_step i ok s)"

text \<open>Statements on a borrowed connection set its error code, also back to zero; a new connection has none.\<close>

inductive sql_pool_reachable :: "pool \<Rightarrow> (nat \<Rightarrow> nat) \<Rightarrow> bool" where
  start: "sql_pool_reachable (mk_sql_pool values agents) (\<lambda>_. 0)"
| call: "sql_pool_reachable s errno \<Longrightarrow> i < length (p_pcs s) \<Longrightarrow> pool_start f (p_pcs s ! i) = Some p \<Longrightarrow>
    sql_pool_reachable (pool_goto i p s) errno"
| statement: "sql_pool_reachable s errno \<Longrightarrow> i < length (p_pcs s) \<Longrightarrow> p_pcs s ! i = P_Hold m \<Longrightarrow>
    sql_pool_reachable s (errno(m := e))"
| step: "sql_pool_reachable s errno \<Longrightarrow> i < length (p_pcs s) \<Longrightarrow> sql_pool_step errno i ok s = Some t \<Longrightarrow>
    sql_pool_reachable t errno"

section \<open>The same pool\<close>

text \<open>The pool of \<open>core/uredis.cpp\<close> with the connection of a \<open>Release\<close> marked broken as its error code says.\<close>

definition with_broken :: "(nat \<Rightarrow> nat) \<Rightarrow> nat \<Rightarrow> pool \<Rightarrow> pool" where
  "with_broken errno i s =
     s\<lparr>p_broken := (case p_pcs s ! i of R_Start m \<Rightarrow> if errno m \<ge> 2000 then [m] else [] | _ \<Rightarrow> [])\<rparr>"

definition forget_broken :: "pool \<Rightarrow> pool" where
  "forget_broken s = s\<lparr>p_broken := []\<rparr>"

lemmas sql_steps = sql_pool_step_def sql_acquire_step_def sql_release_step_def sql_close_step_def sql_reaper_step_def
lemmas redis_steps = pool_step_def acquire_step_def release_step_def close_step_def reaper_step_def

text \<open>
  The two pools are the same machine. A step of the MySQL pool, its broken connection aside, is
  the step of the Redis pool in the state whose broken connections are those with an error code of
  2000 or more.
\<close>

lemma sql_pool_same:
  "map_option forget_broken (sql_pool_step errno i ok s) = map_option forget_broken (pool_step i ok (with_broken errno i s))"
  by (cases "p_pcs s ! i"; cases "p_idle s")
    (auto simp: sql_steps redis_steps with_broken_def forget_broken_def pool_goto_def pool_uclose_def Let_def
      split: list.splits nat.splits)

lemma pool_inv_broken: "pool_inv (s\<lparr>p_broken := bs\<rparr>) = pool_inv s"
proof -
  have "open_conn (s\<lparr>p_broken := bs\<rparr>) d = open_conn s d" "closed_conn (s\<lparr>p_broken := bs\<rparr>) d = closed_conn s d" for d
    by (simp_all add: pool_inv_defs known_def)
  moreover have "open_counts (s\<lparr>p_broken := bs\<rparr>) = open_counts s" "closed_counts (s\<lparr>p_broken := bs\<rparr>) = closed_counts s"
    by (simp_all add: pool_inv_defs)
  ultimately show ?thesis by (simp add: pool_inv_def)
qed

lemma sql_step_inv:
  assumes "pool_inv s" "i < length (p_pcs s)" "sql_pool_step errno i ok s = Some t"
  shows "pool_inv t"
proof -
  obtain t' where t': "pool_step i ok (with_broken errno i s) = Some t'" "forget_broken t' = forget_broken t"
    using sql_pool_same [of errno i ok s] assms(3) by (cases "pool_step i ok (with_broken errno i s)") auto
  have "pool_inv (with_broken errno i s)" using assms(1) by (simp add: with_broken_def pool_inv_broken)
  from pool_step_inv [OF this _ t'(1)] assms(2) have "pool_inv t'" by (simp add: with_broken_def)
  then show ?thesis using t'(2) pool_inv_broken [of "[]" t] pool_inv_broken [of "[]" t'] by (simp add: forget_broken_def)
qed

lemma mk_sql_pool_idle [simp]: "p_idle (mk_sql_pool values agents) = []"
  by (simp add: mk_sql_pool_def Let_def)

lemma mk_sql_pool_inv: "pool_inv (mk_sql_pool values agents)"
  using pool_inv_start [of "nat (Get_int size_t values ''mysql.max_size'' 16)" "nat (Get_int size_t values ''mysql.min_idle'' 1)" agents]
  by (simp add: mk_sql_pool_def mk_pool_def Let_def)

lemma sql_pool_inv: "sql_pool_reachable s errno \<Longrightarrow> pool_inv s"
  by (induction rule: sql_pool_reachable.induct) (auto intro: mk_sql_pool_inv pool_inv_call sql_step_inv)

lemma held_not_idle:
  assumes "pool_inv s" "i < length (p_pcs s)" "held (p_pcs s ! i) = Some m"
  shows "m \<notin> set (p_idle s)"
proof (cases "p_closed s")
  case True
  then show ?thesis using assms(1) by (simp add: pool_inv_def closed_counts_def)
next
  case False
  then show ?thesis using pool_inv_lends [OF assms(1) False] assms(2,3) by blast
qed

lemma sql_step_idle:
  assumes "sql_pool_step errno i ok s = Some t" "m \<in> set (p_idle t)"
  shows "m \<in> set (p_idle s) \<or> errno m < 2000"
  using assms
  by (cases "p_pcs s ! i"; cases "p_idle s")
    (auto simp: sql_steps Let_def split: if_splits option.splits)

lemma sql_idle_healthy: "sql_pool_reachable s errno \<Longrightarrow> m \<in> set (p_idle s) \<Longrightarrow> errno m < 2000"
proof (induction arbitrary: m rule: sql_pool_reachable.induct)
  case (start vs agents)
  then show ?case by simp
next
  case (call s errno i f p)
  then show ?case by simp
next
  case (statement s errno i m' e)
  have "m \<noteq> m'" using held_not_idle [OF sql_pool_inv [OF statement(1)] statement(2), of m'] statement(3,5) by auto
  then show ?case using statement by simp
next
  case (step s errno i ok t)
  then show ?case using sql_step_idle by blast
qed

text \<open>
  C21: While the MySQL pool is open it never has more connections than its configured size, lends no
  connection twice, never lends one that is closed or about to be closed, and has no idle connection
  whose current error code, that of the last call of the library on it, is one of the transport, in every
  interleaving of \<open>Acquire\<close>, \<open>Release\<close>, statements, the reaper and \<open>Close\<close>. (A later statement on the
  same connection may have replaced an earlier code of the transport.)
\<close>

theorem sql_pool_lends_safely:
  assumes "sql_pool_reachable s errno" "\<not> p_closed s"
  shows "int (length (p_idle s)) + total busy (p_pcs s) \<le> int (p_max_size s) \<and>
    (\<forall>m \<in> set (p_idle s). errno m < 2000) \<and>
    (\<forall>i < length (p_pcs s). \<forall>j < length (p_pcs s). \<forall>m.
       held (p_pcs s ! i) = Some m \<longrightarrow>
         (held (p_pcs s ! j) = Some m \<longrightarrow> i = j) \<and> m \<notin> set (p_idle s) \<and> m \<notin> set (p_uclosed s) \<and>
         closing m (p_pcs s ! j) = 0)"
  using pool_inv_lends [OF sql_pool_inv [OF assms(1)] assms(2)] sql_idle_healthy [OF assms(1)] by blast

text \<open>
  Nobody hangs in the MySQL pool, open or closed: as long as some agent is inside an operation and
  no agent merely keeps a borrowed connection, some agent can make a step.
\<close>

theorem sql_pool_never_hangs:
  assumes "sql_pool_reachable s errno" "i < length (p_pcs s)" "p_pcs s ! i \<noteq> P_Idle"
    and "\<And>j m. j < length (p_pcs s) \<Longrightarrow> p_pcs s ! j \<noteq> P_Hold m"
  shows "\<exists>j < length (p_pcs s). \<exists>t. sql_pool_step errno j ok s = Some t"
proof -
  obtain j t where j: "j < length (p_pcs s)" "pool_step j ok s = Some t"
    using pool_inv_moves [OF sql_pool_inv [OF assms(1)] assms(2,3,4)] by blast
  have "pool_step j ok (with_broken errno j s) \<noteq> None"
    using j(2) by (cases "p_pcs s ! j") (auto simp: redis_steps with_broken_def Let_def split: if_splits list.splits nat.splits)
  then have "sql_pool_step errno j ok s \<noteq> None"
    using sql_pool_same [of errno j ok s] by (cases "sql_pool_step errno j ok s") auto
  then show ?thesis using j(1) by blast
qed

section \<open>Sample runs\<close>

fun sql_run :: "(nat \<Rightarrow> nat) \<Rightarrow> (nat \<times> pool_op option) list \<Rightarrow> pool \<Rightarrow> pool option" where
  "sql_run errno [] s = Some s"
| "sql_run errno ((i, Some f) # acts) s =
     (if i < length (p_pcs s)
      then (case pool_start f (p_pcs s ! i) of None \<Rightarrow> None | Some p \<Rightarrow> sql_run errno acts (pool_goto i p s))
      else None)"
| "sql_run errno ((i, None) # acts) s =
     (if i < length (p_pcs s)
      then (case sql_pool_step errno i True s of None \<Rightarrow> None | Some t \<Rightarrow> sql_run errno acts t) else None)"

lemma sql_run_reachable: "sql_run errno acts s = Some t \<Longrightarrow> sql_pool_reachable s errno \<Longrightarrow> sql_pool_reachable t errno"
  by (induction errno acts s rule: sql_run.induct)
    (auto split: if_splits option.splits intro: sql_pool_reachable.call sql_pool_reachable.step)

lemma sql_run_the:
  "sql_run errno acts s \<noteq> None \<Longrightarrow> sql_pool_reachable s errno \<Longrightarrow> sql_pool_reachable (the (sql_run errno acts s)) errno"
  by (metis option.collapse sql_run_reachable)

definition small_pool :: pool where
  "small_pool = mk_sql_pool [''mysql.max_size'' \<mapsto> ''1''] 2"

definition lent_pool :: pool where
  "lent_pool = the (sql_run (\<lambda>_. 0) ((0, Some OpAcquire) # replicate 5 (0, None)) small_pool)"

definition lost_pool :: pool where
  "lost_pool = the (sql_run ((\<lambda>_. 0)(0 := 2013)) [(0, Some OpRelease), (0, None), (1, Some OpAcquire), (1, None)] lent_pool)"

lemma lent_pool_state:
  "sql_run (\<lambda>_. 0) ((0, Some OpAcquire) # replicate 5 (0, None)) small_pool \<noteq> None" "\<not> p_closed lent_pool"
  "p_pcs lent_pool = [P_Hold 0, P_Idle]"
  by code_simp+

lemma lost_pool_state:
  "sql_run ((\<lambda>_. 0)(0 := 2013)) [(0, Some OpRelease), (0, None), (1, Some OpAcquire), (1, None)] lent_pool \<noteq> None"
  "\<not> p_closed lost_pool" "p_pcs lost_pool = [R_Signal (Some 0), A_Wait]" "p_idle lost_pool = []"
  by code_simp+

lemma lent_pool_reachable: "sql_pool_reachable lent_pool (\<lambda>_. 0)"
proof -
  have "sql_pool_reachable small_pool (\<lambda>_. 0)" unfolding small_pool_def by (rule sql_pool_reachable.start)
  then show ?thesis unfolding lent_pool_def by (rule sql_run_the [OF lent_pool_state(1)])
qed

lemma lost_pool_reachable: "sql_pool_reachable lost_pool ((\<lambda>_. 0)(0 := 2013))"
proof -
  have "sql_pool_reachable lent_pool ((\<lambda>_. 0)(0 := 2013))"
    by (rule sql_pool_reachable.statement [OF lent_pool_reachable, of 0]) (simp_all add: lent_pool_state)
  then show ?thesis unfolding lost_pool_def by (rule sql_run_the [OF lost_pool_state(1)])
qed

lemma sql_pool_lends_safely_witness:
  "held (p_pcs lent_pool ! 0) = Some 0 \<and> 0 \<notin> set (p_uclosed lent_pool) \<and> 0 \<notin> set (p_idle lent_pool)"
proof -
  have "held (p_pcs lent_pool ! 0) = Some 0" "0 < length (p_pcs lent_pool)" by (simp_all add: lent_pool_state)
  then show ?thesis using sql_pool_lends_safely [OF lent_pool_reachable lent_pool_state(2)] by blast
qed

text \<open>A broken connection is being given back and another agent waits: somebody can go on.\<close>

lemma sql_pool_never_hangs_witness:
  "\<exists>j < 2. \<exists>t. sql_pool_step ((\<lambda>_. 0)(0 := 2013)) j True lost_pool = Some t"
proof -
  have h: "p_pcs lost_pool ! j \<noteq> P_Hold m" if "j < length (p_pcs lost_pool)" for j m
    using that by (auto simp: lost_pool_state less_Suc_eq)
  have "\<exists>j < length (p_pcs lost_pool). \<exists>t. sql_pool_step ((\<lambda>_. 0)(0 := 2013)) j True lost_pool = Some t"
    by (rule sql_pool_never_hangs [OF lost_pool_reachable, of 1]) (use h in \<open>auto simp: lost_pool_state\<close>)
  then show ?thesis by (simp add: lost_pool_state numeral_2_eq_2)
qed

end
