(* ===== verification/Usync_Chan.thy ===== *)
theory Usync_Chan
  imports Uco_Prelude
begin

text \<open>
  The channels \<open>uchan\<close> (\<open>core/usync.h\<close>), with a buffer and without one. Any number of agents write,
  read and close. A step of an agent is one operation of a semaphore (its counter, by
  \<open>sema_refines_counter\<close>; after \<open>kill_broadcast\<close> a wait returns also without a permit), one section
  under \<open>_M_lock\<close> (\<open>mutex_safe\<close>), or one store. \<open>ch_sent\<close>, \<open>ch_got\<close> and \<open>ch_failed\<close> (and their
  namesakes below) only record history.
\<close>

section \<open>Channels with a buffer\<close>

datatype 'a chan_pc =
    CH_Idle
  | CW_Space 'a | CW_Section 'a | CW_Full
  | CR_Full | CR_Section | CR_Space 'a
  | CC_Store | CC_Full | CC_Space

record 'a chan =
  ch_size :: nat
  ch_items :: "'a list"
  ch_full :: nat
  ch_space :: nat
  ch_closed :: bool
  ch_full_killed :: bool
  ch_space_killed :: bool
  ch_abort :: bool
  ch_pcs :: "'a chan_pc list"
  ch_sent :: "'a list"
  ch_got :: "'a list"
  ch_failed :: nat

definition mk_chan :: "nat \<Rightarrow> nat \<Rightarrow> 'a chan" where
  "mk_chan cap agents =
     \<lparr>ch_size = cap, ch_items = [], ch_full = 0, ch_space = cap, ch_closed = False, ch_full_killed = False,
      ch_space_killed = False, ch_abort = False, ch_pcs = replicate agents CH_Idle, ch_sent = [], ch_got = [],
      ch_failed = 0\<rparr>"

definition ch_goto :: "nat \<Rightarrow> 'a chan_pc \<Rightarrow> 'a chan \<Rightarrow> 'a chan" where
  "ch_goto i p s = s\<lparr>ch_pcs := (ch_pcs s)[i := p]\<rparr>"

text \<open>\<open>x >> c\<close>.\<close>

definition chan_write_step :: "nat \<Rightarrow> 'a chan \<Rightarrow> 'a chan option" where
  "chan_write_step i s =
     (case ch_pcs s ! i of
        CW_Space x \<Rightarrow>
          (if ch_space s > 0 then Some (ch_goto i (CW_Section x) (s\<lparr>ch_space := ch_space s - 1\<rparr>))
           else if ch_space_killed s then Some (ch_goto i (CW_Section x) s) else None)
      | CW_Section x \<Rightarrow>
          Some (if ch_closed s then s\<lparr>ch_abort := True\<rparr>
                else ch_goto i CW_Full (s\<lparr>ch_items := ch_items s @ [x], ch_sent := ch_sent s @ [x]\<rparr>))
      | CW_Full \<Rightarrow> Some (ch_goto i CH_Idle (s\<lparr>ch_full := Suc (ch_full s)\<rparr>))
      | _ \<Rightarrow> None)"

text \<open>\<open>c >> x\<close>. Reading an empty channel is the result false.\<close>

definition chan_read_step :: "nat \<Rightarrow> 'a chan \<Rightarrow> 'a chan option" where
  "chan_read_step i s =
     (case ch_pcs s ! i of
        CR_Full \<Rightarrow>
          (if ch_full s > 0 then Some (ch_goto i CR_Section (s\<lparr>ch_full := ch_full s - 1\<rparr>))
           else if ch_full_killed s then Some (ch_goto i CR_Section s) else None)
      | CR_Section \<Rightarrow>
          Some (case ch_items s of
                  [] \<Rightarrow> ch_goto i CH_Idle (s\<lparr>ch_failed := Suc (ch_failed s)\<rparr>)
                | x # xs \<Rightarrow> ch_goto i (CR_Space x) (s\<lparr>ch_items := xs, ch_got := ch_got s @ [x]\<rparr>))
      | CR_Space x \<Rightarrow> Some (ch_goto i CH_Idle (s\<lparr>ch_space := Suc (ch_space s)\<rparr>))
      | _ \<Rightarrow> None)"

text \<open>\<open>close()\<close>. A second \<open>kill_broadcast\<close> ends the process.\<close>

definition chan_close_step :: "nat \<Rightarrow> 'a chan \<Rightarrow> 'a chan option" where
  "chan_close_step i s =
     (case ch_pcs s ! i of
        CC_Store \<Rightarrow> Some (ch_goto i CC_Full (s\<lparr>ch_closed := True\<rparr>))
      | CC_Full \<Rightarrow>
          Some (if ch_full_killed s then s\<lparr>ch_abort := True\<rparr> else ch_goto i CC_Space (s\<lparr>ch_full_killed := True\<rparr>))
      | CC_Space \<Rightarrow>
          Some (if ch_space_killed s then s\<lparr>ch_abort := True\<rparr> else ch_goto i CH_Idle (s\<lparr>ch_space_killed := True\<rparr>))
      | _ \<Rightarrow> None)"

definition chan_step :: "nat \<Rightarrow> 'a chan \<Rightarrow> 'a chan option" where
  "chan_step i s =
     (if ch_abort s then None
      else case ch_pcs s ! i of
        CW_Space _ \<Rightarrow> chan_write_step i s | CW_Section _ \<Rightarrow> chan_write_step i s | CW_Full \<Rightarrow> chan_write_step i s
      | CC_Store \<Rightarrow> chan_close_step i s | CC_Full \<Rightarrow> chan_close_step i s | CC_Space \<Rightarrow> chan_close_step i s
      | _ \<Rightarrow> chan_read_step i s)"

datatype 'a chan_op = ChanWrite 'a | ChanRead | ChanClose

fun chan_start :: "'a chan_op \<Rightarrow> 'a chan_pc" where
  "chan_start (ChanWrite x) = CW_Space x"
| "chan_start ChanRead = CR_Full"
| "chan_start ChanClose = CC_Store"

inductive chan_reachable :: "nat \<Rightarrow> 'a chan \<Rightarrow> bool" for cap where
  start: "chan_reachable cap (mk_chan cap agents)"
| call: "chan_reachable cap s \<Longrightarrow> i < length (ch_pcs s) \<Longrightarrow> ch_pcs s ! i = CH_Idle \<Longrightarrow>
    chan_reachable cap (ch_goto i (chan_start f) s)"
| step: "chan_reachable cap s \<Longrightarrow> i < length (ch_pcs s) \<Longrightarrow> chan_step i s = Some t \<Longrightarrow> chan_reachable cap t"

section \<open>The invariant\<close>

text \<open>Writers that are about to push or to announce a value, and readers that have a permit or made room.\<close>

fun pushing_item :: "'a chan_pc \<Rightarrow> nat" where
  "pushing_item (CW_Section _) = 1" | "pushing_item _ = 0"

fun announcing :: "'a chan_pc \<Rightarrow> nat" where
  "announcing CW_Full = 1" | "announcing _ = 0"

fun taking :: "'a chan_pc \<Rightarrow> nat" where
  "taking CR_Section = 1" | "taking _ = 0"

fun freeing :: "'a chan_pc \<Rightarrow> nat" where
  "freeing (CR_Space _) = 1" | "freeing _ = 0"

fun between_kills :: "'a chan_pc \<Rightarrow> nat" where
  "between_kills CC_Full = 1" | "between_kills _ = 0"

fun last_kill :: "'a chan_pc \<Rightarrow> nat" where
  "last_kill CC_Space = 1" | "last_kill _ = 0"

text \<open>
  Values and free places are accounted for as long as the semaphores are alive; the other clauses say
  how far a \<open>close\<close> has got.
\<close>

definition close_inv :: "'a chan \<Rightarrow> bool" where
  "close_inv s \<longleftrightarrow>
     (ch_closed s \<longrightarrow> ch_abort s \<or> ch_full_killed s \<or> 0 < total between_kills (ch_pcs s)) \<and>
     (ch_full_killed s \<longrightarrow> ch_abort s \<or> ch_space_killed s \<or> 0 < total last_kill (ch_pcs s)) \<and>
     (ch_full_killed s \<or> 0 < total between_kills (ch_pcs s) \<longrightarrow> ch_closed s) \<and>
     (ch_space_killed s \<or> 0 < total last_kill (ch_pcs s) \<longrightarrow> ch_full_killed s)"

definition items_inv :: "nat \<Rightarrow> 'a chan \<Rightarrow> bool" where
  "items_inv cap s \<longleftrightarrow>
     ch_size s = cap \<and> ch_sent s = ch_got s @ ch_items s \<and> (0 < ch_failed s \<longrightarrow> ch_full_killed s) \<and>
     (\<not> ch_full_killed s \<longrightarrow>
        int (length (ch_items s)) = int (ch_full s) + total announcing (ch_pcs s) + total taking (ch_pcs s)) \<and>
     (\<not> ch_closed s \<longrightarrow>
        int (length (ch_items s)) + int (ch_space s) + total pushing_item (ch_pcs s) + total freeing (ch_pcs s) = int cap)"

lemma ch_goto_fields [simp]:
  "ch_size (ch_goto i p s) = ch_size s" "ch_items (ch_goto i p s) = ch_items s" "ch_full (ch_goto i p s) = ch_full s"
  "ch_space (ch_goto i p s) = ch_space s" "ch_closed (ch_goto i p s) = ch_closed s"
  "ch_full_killed (ch_goto i p s) = ch_full_killed s" "ch_space_killed (ch_goto i p s) = ch_space_killed s"
  "ch_abort (ch_goto i p s) = ch_abort s" "ch_sent (ch_goto i p s) = ch_sent s" "ch_got (ch_goto i p s) = ch_got s"
  "ch_failed (ch_goto i p s) = ch_failed s" "ch_pcs (ch_goto i p s) = (ch_pcs s)[i := p]"
  by (simp_all add: ch_goto_def)

lemmas chan_steps = chan_step_def chan_write_step_def chan_read_step_def chan_close_step_def

lemma chan_start_inv: "close_inv (mk_chan cap n)" "items_inv cap (mk_chan cap n)"
  by (simp_all add: close_inv_def items_inv_def mk_chan_def total_replicate)

lemma chan_call_inv:
  assumes "i < length (ch_pcs s)" "ch_pcs s ! i = CH_Idle"
  shows "close_inv s \<Longrightarrow> close_inv (ch_goto i (chan_start f) s)"
    and "items_inv cap s \<Longrightarrow> items_inv cap (ch_goto i (chan_start f) s)"
  using assms by (cases f; simp add: close_inv_def items_inv_def total_update)+

text \<open>The steps, one by one.\<close>

inductive chan_move :: "nat \<Rightarrow> 'a chan \<Rightarrow> 'a chan \<Rightarrow> bool" for i s where
  space: "ch_pcs s ! i = CW_Space x \<Longrightarrow> 0 < ch_space s \<Longrightarrow> chan_move i s (ch_goto i (CW_Section x) (s\<lparr>ch_space := ch_space s - 1\<rparr>))"
| space_dead: "ch_pcs s ! i = CW_Space x \<Longrightarrow> ch_space_killed s \<Longrightarrow> chan_move i s (ch_goto i (CW_Section x) s)"
| abort: "ch_pcs s ! i = CW_Section x \<Longrightarrow> ch_closed s \<Longrightarrow> chan_move i s (s\<lparr>ch_abort := True\<rparr>)"
| push: "ch_pcs s ! i = CW_Section x \<Longrightarrow> \<not> ch_closed s \<Longrightarrow>
    chan_move i s (ch_goto i CW_Full (s\<lparr>ch_items := ch_items s @ [x], ch_sent := ch_sent s @ [x]\<rparr>))"
| announce: "ch_pcs s ! i = CW_Full \<Longrightarrow> chan_move i s (ch_goto i CH_Idle (s\<lparr>ch_full := Suc (ch_full s)\<rparr>))"
| full: "ch_pcs s ! i = CR_Full \<Longrightarrow> 0 < ch_full s \<Longrightarrow> chan_move i s (ch_goto i CR_Section (s\<lparr>ch_full := ch_full s - 1\<rparr>))"
| full_dead: "ch_pcs s ! i = CR_Full \<Longrightarrow> ch_full_killed s \<Longrightarrow> chan_move i s (ch_goto i CR_Section s)"
| fail: "ch_pcs s ! i = CR_Section \<Longrightarrow> ch_items s = [] \<Longrightarrow> chan_move i s (ch_goto i CH_Idle (s\<lparr>ch_failed := Suc (ch_failed s)\<rparr>))"
| pop: "ch_pcs s ! i = CR_Section \<Longrightarrow> ch_items s = x # xs \<Longrightarrow>
    chan_move i s (ch_goto i (CR_Space x) (s\<lparr>ch_items := xs, ch_got := ch_got s @ [x]\<rparr>))"
| free: "ch_pcs s ! i = CR_Space x \<Longrightarrow> chan_move i s (ch_goto i CH_Idle (s\<lparr>ch_space := Suc (ch_space s)\<rparr>))"
| close: "ch_pcs s ! i = CC_Store \<Longrightarrow> chan_move i s (ch_goto i CC_Full (s\<lparr>ch_closed := True\<rparr>))"
| kill_full: "ch_pcs s ! i = CC_Full \<Longrightarrow> \<not> ch_full_killed s \<Longrightarrow> chan_move i s (ch_goto i CC_Space (s\<lparr>ch_full_killed := True\<rparr>))"
| kill_space: "ch_pcs s ! i = CC_Space \<Longrightarrow> \<not> ch_space_killed s \<Longrightarrow> chan_move i s (ch_goto i CH_Idle (s\<lparr>ch_space_killed := True\<rparr>))"
| killed_twice: "ch_pcs s ! i = CC_Full \<and> ch_full_killed s \<or> ch_pcs s ! i = CC_Space \<and> ch_space_killed s \<Longrightarrow>
    chan_move i s (s\<lparr>ch_abort := True\<rparr>)"

lemma chan_step_move: "chan_step i s = Some t \<Longrightarrow> chan_move i s t"
  by (cases "ch_pcs s ! i")
    (auto simp: chan_steps simp del: One_nat_def intro: chan_move.intros split: if_split_asm list.split_asm)

lemma chan_step_close:
  assumes "close_inv s" "i < length (ch_pcs s)" "chan_step i s = Some t"
  shows "close_inv t"
proof -
  note aux = close_inv_def total_update [OF assms(2)]
  have ge: "int (f (ch_pcs s ! i)) \<le> total f (ch_pcs s)" for f using assms(2) by (rule total_ge)
  show ?thesis
    using chan_step_move [OF assms(3)]
  proof cases
    case close
    then show ?thesis using assms(1) total_nonneg [of between_kills "ch_pcs s"] by (simp add: aux)
  next
    case kill_full
    then show ?thesis using assms(1) ge [of between_kills] total_nonneg [of last_kill "ch_pcs s"] by (simp add: aux)
  next
    case kill_space
    then show ?thesis using assms(1) ge [of last_kill] by (simp add: aux)
  qed (use assms(1) in \<open>auto simp: aux\<close>)
qed

lemma chan_step_items:
  assumes "items_inv cap s" "close_inv s" "i < length (ch_pcs s)" "chan_step i s = Some t"
  shows "items_inv cap t"
proof -
  note aux = items_inv_def total_update [OF assms(3)]
  have ge: "int (f (ch_pcs s ! i)) \<le> total f (ch_pcs s)" for f using assms(3) by (rule total_ge)
  show ?thesis
    using chan_step_move [OF assms(4)]
  proof cases
    case space_dead
    then have "ch_closed s" using assms(2) by (auto simp: close_inv_def)
    then show ?thesis using space_dead assms(1) by (simp add: aux)
  next
    case fail
    have "ch_full_killed s"
    proof (rule ccontr)
      assume "\<not> ch_full_killed s"
      then have "0 = int (ch_full s) + total announcing (ch_pcs s) + total taking (ch_pcs s)"
        using assms(1) fail unfolding items_inv_def by simp
      then show False using ge [of taking] total_nonneg [of announcing "ch_pcs s"] fail by simp
    qed
    then show ?thesis using fail assms(1) by (simp add: aux)
  qed (use assms(1) in \<open>auto simp: aux\<close>)
qed

lemma chan_reachable_inv: "chan_reachable cap s \<Longrightarrow> close_inv s \<and> items_inv cap s"
proof (induction rule: chan_reachable.induct)
  case (step s i t)
  then show ?case using chan_step_close chan_step_items by blast
qed (simp_all add: chan_start_inv chan_call_inv)

text \<open>
  C13: A channel with a buffer is a bounded queue. In every interleaving the values read so far, followed
  by those in the buffer, are the values written, each once and in the order of writing; an open
  channel never holds more than its size; and a read reports the end only after \<open>close\<close>.
\<close>

theorem chan_fifo:
  assumes "chan_reachable cap s"
  shows "ch_sent s = ch_got s @ ch_items s \<and> (\<not> ch_closed s \<longrightarrow> length (ch_items s) \<le> cap) \<and>
    (0 < ch_failed s \<longrightarrow> ch_closed s)"
proof -
  have inv: "close_inv s" "items_inv cap s" using chan_reachable_inv [OF assms] by auto
  have "0 \<le> total pushing_item (ch_pcs s)" "0 \<le> total freeing (ch_pcs s)" by (rule total_nonneg)+
  then show ?thesis using inv unfolding close_inv_def items_inv_def by auto
qed

lemma chan_blocked:
  assumes "chan_step i s = None" "\<not> ch_abort s" "ch_pcs s ! i \<noteq> CH_Idle"
  shows "(\<exists>x. ch_pcs s ! i = CW_Space x) \<and> ch_space s = 0 \<and> \<not> ch_space_killed s \<or>
    ch_pcs s ! i = CR_Full \<and> ch_full s = 0 \<and> \<not> ch_full_killed s"
  using assms by (cases "ch_pcs s ! i") (auto simp: chan_steps split: if_split_asm list.split_asm)

text \<open>
  C28: A channel with a buffer cannot deadlock. If no agent inside an operation can make a step, then the
  channel is open and either all of them are writers and the buffer is full, or all are readers and
  it is empty. In particular \<open>close\<close> releases everybody.
\<close>

theorem chan_progress:
  assumes "chan_reachable cap s" "\<not> ch_abort s" "0 < cap" "i < length (ch_pcs s)" "ch_pcs s ! i \<noteq> CH_Idle"
    and "\<forall>j < length (ch_pcs s). chan_step j s = None"
  shows "\<not> ch_closed s \<and>
    ((\<forall>j < length (ch_pcs s). ch_pcs s ! j = CH_Idle \<or> (\<exists>x. ch_pcs s ! j = CW_Space x)) \<and> length (ch_items s) = cap \<or>
     (\<forall>j < length (ch_pcs s). ch_pcs s ! j = CH_Idle \<or> ch_pcs s ! j = CR_Full) \<and> ch_items s = [])"
proof -
  have inv: "close_inv s" "items_inv cap s" using chan_reachable_inv [OF assms(1)] by auto
  have blocked: "ch_pcs s ! j = CH_Idle \<or> (\<exists>x. ch_pcs s ! j = CW_Space x) \<and> ch_space s = 0 \<and> \<not> ch_space_killed s \<or>
      ch_pcs s ! j = CR_Full \<and> ch_full s = 0 \<and> \<not> ch_full_killed s" if "j < length (ch_pcs s)" for j
    using chan_blocked [of j s] assms(2,6) that by auto
  have q: "pushing_item (ch_pcs s ! j) = 0 \<and> announcing (ch_pcs s ! j) = 0 \<and> taking (ch_pcs s ! j) = 0 \<and>
      freeing (ch_pcs s ! j) = 0 \<and> between_kills (ch_pcs s ! j) = 0 \<and> last_kill (ch_pcs s ! j) = 0"
    if "j < length (ch_pcs s)" for j
    using blocked [OF that] by auto
  have z: "total pushing_item (ch_pcs s) = 0" "total announcing (ch_pcs s) = 0" "total taking (ch_pcs s) = 0"
    "total freeing (ch_pcs s) = 0" "total between_kills (ch_pcs s) = 0" "total last_kill (ch_pcs s) = 0"
    by (simp_all add: total_0 q)
  have open_ch: "\<not> ch_closed s"
  proof
    assume c: "ch_closed s"
    have fk: "ch_full_killed s" using inv(1) c assms(2) z(5) unfolding close_inv_def by simp
    then have "ch_space_killed s" using inv(1) assms(2) z(6) unfolding close_inv_def by simp
    with fk blocked [OF assms(4)] assms(5) show False by simp
  qed
  then have k: "\<not> ch_full_killed s" using inv(1) unfolding close_inv_def by blast
  have count: "length (ch_items s) = ch_full s" "length (ch_items s) + ch_space s = cap"
    using inv(2) open_ch k z unfolding items_inv_def by simp_all
  show ?thesis
  proof (cases "ch_full s = 0")
    case True
    then have e: "ch_items s = []" "ch_space s \<noteq> 0" using count assms(3) by auto
    have "\<forall>j < length (ch_pcs s). ch_pcs s ! j = CH_Idle \<or> ch_pcs s ! j = CR_Full" using blocked e(2) by auto
    with e(1) open_ch show ?thesis by simp
  next
    case False
    have "length (ch_items s) = cap"
    proof -
      have "ch_space s = 0" using blocked [OF assms(4)] assms(5) False by auto
      then show ?thesis using count by simp
    qed
    moreover have "\<forall>j < length (ch_pcs s). ch_pcs s ! j = CH_Idle \<or> (\<exists>x. ch_pcs s ! j = CW_Space x)"
      using blocked False by auto
    ultimately show ?thesis using open_ch by simp
  qed
qed

section \<open>Sample runs\<close>

fun chan_run :: "(nat \<times> 'a chan_op option) list \<Rightarrow> 'a chan \<Rightarrow> 'a chan option" where
  "chan_run [] s = Some s"
| "chan_run ((i, Some f) # acts) s =
     (if i < length (ch_pcs s)
      then (case ch_pcs s ! i of CH_Idle \<Rightarrow> chan_run acts (ch_goto i (chan_start f) s) | _ \<Rightarrow> None) else None)"
| "chan_run ((i, None) # acts) s =
     (if i < length (ch_pcs s)
      then (case chan_step i s of None \<Rightarrow> None | Some t \<Rightarrow> chan_run acts t) else None)"

lemma chan_run_reachable: "chan_run acts s = Some t \<Longrightarrow> chan_reachable cap s \<Longrightarrow> chan_reachable cap t"
  by (induction acts s rule: chan_run.induct)
    (auto split: if_splits option.splits chan_pc.splits intro: chan_reachable.call chan_reachable.step)

text \<open>The number 1 is written and read, 2 is written, and the writer of 3 waits.\<close>

definition full_chan :: "nat chan" where
  "full_chan = the (chan_run ([(0, Some (ChanWrite 1))] @ replicate 3 (0, None) @ [(1, Some ChanRead)] @ replicate 3 (1, None) @
     [(0, Some (ChanWrite 2))] @ replicate 3 (0, None) @ [(0, Some (ChanWrite 3))]) (mk_chan 1 2))"

lemma full_chan_reachable: "chan_reachable 1 full_chan"
proof -
  have "chan_run ([(0, Some (ChanWrite 1))] @ replicate 3 (0, None) @ [(1, Some ChanRead)] @ replicate 3 (1, None) @
     [(0, Some (ChanWrite 2))] @ replicate 3 (0, None) @ [(0, Some (ChanWrite 3))]) (mk_chan 1 2 :: nat chan) = Some full_chan"
    by code_simp
  then show ?thesis by (rule chan_run_reachable) (rule chan_reachable.start)
qed

lemma full_chan_state:
  "ch_pcs full_chan = [CW_Space 3, CH_Idle]" "ch_items full_chan = [2]" "ch_got full_chan = [1]" "\<not> ch_abort full_chan"
  "chan_step 0 full_chan = None" "chan_step 1 full_chan = None"
  by code_simp+

lemma chan_fifo_witness: "ch_sent full_chan = [1] @ [2]"
  using chan_fifo [OF full_chan_reachable] by (simp add: full_chan_state)

lemma chan_progress_witness: "\<not> ch_closed full_chan \<and> length (ch_items full_chan) = 1"
proof -
  have "\<forall>j < length (ch_pcs full_chan). chan_step j full_chan = None"
    by (auto simp: full_chan_state full_chan_state(6) [unfolded One_nat_def] less_Suc_eq)
  then have "\<not> ch_closed full_chan \<and> ((\<forall>j < length (ch_pcs full_chan). ch_pcs full_chan ! j = CH_Idle \<or> (\<exists>x. ch_pcs full_chan ! j = CW_Space x)) \<and>
      length (ch_items full_chan) = 1 \<or>
     (\<forall>j < length (ch_pcs full_chan). ch_pcs full_chan ! j = CH_Idle \<or> ch_pcs full_chan ! j = CR_Full) \<and> ch_items full_chan = [])"
    using chan_progress [OF full_chan_reachable, of 0] by (simp add: full_chan_state)
  then show ?thesis by (simp add: full_chan_state)
qed

section \<open>Channels without a buffer\<close>

datatype 'a rend_pc =
    RD_Idle
  | DW_Can 'a | DW_Section 'a | DW_Offer 'a | DW_Wait 'a | DW_Check 'a
  | DR_Can | DR_Section | DR_Done 'a | DR_Next 'a
  | DC_Store | DC_Write | DC_Read | DC_Done

record 'a rend =
  rd_slot :: "'a option"
  rd_can_write :: nat
  rd_can_read :: nat
  rd_read_done :: nat
  rd_closed :: bool
  rd_write_killed :: bool
  rd_read_killed :: bool
  rd_done_killed :: bool
  rd_abort :: bool
  rd_pcs :: "'a rend_pc list"
  rd_sent :: "'a list"
  rd_got :: "'a list"
  rd_returned :: "'a list"
  rd_failed :: nat

definition mk_rend :: "nat \<Rightarrow> 'a rend" where
  "mk_rend agents =
     \<lparr>rd_slot = None, rd_can_write = 1, rd_can_read = 0, rd_read_done = 0, rd_closed = False, rd_write_killed = False,
      rd_read_killed = False, rd_done_killed = False, rd_abort = False, rd_pcs = replicate agents RD_Idle,
      rd_sent = [], rd_got = [], rd_returned = [], rd_failed = 0\<rparr>"

definition rd_goto :: "nat \<Rightarrow> 'a rend_pc \<Rightarrow> 'a rend \<Rightarrow> 'a rend" where
  "rd_goto i p s = s\<lparr>rd_pcs := (rd_pcs s)[i := p]\<rparr>"

definition rend_write_step :: "nat \<Rightarrow> 'a rend \<Rightarrow> 'a rend option" where
  "rend_write_step i s =
     (case rd_pcs s ! i of
        DW_Can x \<Rightarrow>
          (if rd_can_write s > 0 then Some (rd_goto i (DW_Section x) (s\<lparr>rd_can_write := rd_can_write s - 1\<rparr>))
           else if rd_write_killed s then Some (rd_goto i (DW_Section x) s) else None)
      | DW_Section x \<Rightarrow>
          Some (if rd_closed s then s\<lparr>rd_abort := True\<rparr>
                else rd_goto i (DW_Offer x) (s\<lparr>rd_slot := Some x, rd_sent := rd_sent s @ [x]\<rparr>))
      | DW_Offer x \<Rightarrow> Some (rd_goto i (DW_Wait x) (s\<lparr>rd_can_read := Suc (rd_can_read s)\<rparr>))
      | DW_Wait x \<Rightarrow>
          (if rd_read_done s > 0 then Some (rd_goto i (DW_Check x) (s\<lparr>rd_read_done := rd_read_done s - 1\<rparr>))
           else if rd_done_killed s then Some (rd_goto i (DW_Check x) s) else None)
      | DW_Check x \<Rightarrow>
          Some (if rd_closed s then s\<lparr>rd_abort := True\<rparr>
                else rd_goto i RD_Idle (s\<lparr>rd_returned := rd_returned s @ [x]\<rparr>))
      | _ \<Rightarrow> None)"

definition rend_read_step :: "nat \<Rightarrow> 'a rend \<Rightarrow> 'a rend option" where
  "rend_read_step i s =
     (case rd_pcs s ! i of
        DR_Can \<Rightarrow>
          (if rd_can_read s > 0 then Some (rd_goto i DR_Section (s\<lparr>rd_can_read := rd_can_read s - 1\<rparr>))
           else if rd_read_killed s then Some (rd_goto i DR_Section s) else None)
      | DR_Section \<Rightarrow>
          Some (case rd_slot s of
                  None \<Rightarrow> rd_goto i RD_Idle (s\<lparr>rd_failed := Suc (rd_failed s)\<rparr>)
                | Some x \<Rightarrow> rd_goto i (DR_Done x) (s\<lparr>rd_slot := None, rd_got := rd_got s @ [x]\<rparr>))
      | DR_Done x \<Rightarrow> Some (rd_goto i (DR_Next x) (s\<lparr>rd_read_done := Suc (rd_read_done s)\<rparr>))
      | DR_Next x \<Rightarrow> Some (rd_goto i RD_Idle (s\<lparr>rd_can_write := Suc (rd_can_write s)\<rparr>))
      | _ \<Rightarrow> None)"

definition rend_close_step :: "nat \<Rightarrow> 'a rend \<Rightarrow> 'a rend option" where
  "rend_close_step i s =
     (case rd_pcs s ! i of
        DC_Store \<Rightarrow> Some (rd_goto i DC_Write (s\<lparr>rd_closed := True\<rparr>))
      | DC_Write \<Rightarrow>
          Some (if rd_write_killed s then s\<lparr>rd_abort := True\<rparr> else rd_goto i DC_Read (s\<lparr>rd_write_killed := True\<rparr>))
      | DC_Read \<Rightarrow>
          Some (if rd_read_killed s then s\<lparr>rd_abort := True\<rparr> else rd_goto i DC_Done (s\<lparr>rd_read_killed := True\<rparr>))
      | DC_Done \<Rightarrow>
          Some (if rd_done_killed s then s\<lparr>rd_abort := True\<rparr> else rd_goto i RD_Idle (s\<lparr>rd_done_killed := True\<rparr>))
      | _ \<Rightarrow> None)"

definition rend_step :: "nat \<Rightarrow> 'a rend \<Rightarrow> 'a rend option" where
  "rend_step i s =
     (if rd_abort s then None
      else case rd_pcs s ! i of
        DR_Can \<Rightarrow> rend_read_step i s | DR_Section \<Rightarrow> rend_read_step i s
      | DR_Done _ \<Rightarrow> rend_read_step i s | DR_Next _ \<Rightarrow> rend_read_step i s
      | DC_Store \<Rightarrow> rend_close_step i s | DC_Write \<Rightarrow> rend_close_step i s
      | DC_Read \<Rightarrow> rend_close_step i s | DC_Done \<Rightarrow> rend_close_step i s
      | _ \<Rightarrow> rend_write_step i s)"

fun rend_start :: "'a chan_op \<Rightarrow> 'a rend_pc" where
  "rend_start (ChanWrite x) = DW_Can x"
| "rend_start ChanRead = DR_Can"
| "rend_start ChanClose = DC_Store"

inductive rend_reachable :: "'a rend \<Rightarrow> bool" where
  start: "rend_reachable (mk_rend agents)"
| call: "rend_reachable s \<Longrightarrow> i < length (rd_pcs s) \<Longrightarrow> rd_pcs s ! i = RD_Idle \<Longrightarrow> rend_reachable (rd_goto i (rend_start f) s)"
| step: "rend_reachable s \<Longrightarrow> i < length (rd_pcs s) \<Longrightarrow> rend_step i s = Some t \<Longrightarrow> rend_reachable t"

text \<open>Agents with the right to write, before the offer, with the right to read, before a signal.\<close>

fun in_slot_section :: "'a rend_pc \<Rightarrow> nat" where
  "in_slot_section (DW_Section _) = 1" | "in_slot_section _ = 0"

fun offering :: "'a rend_pc \<Rightarrow> nat" where
  "offering (DW_Offer _) = 1" | "offering _ = 0"

fun fetching :: "'a rend_pc \<Rightarrow> nat" where
  "fetching DR_Section = 1" | "fetching _ = 0"

fun reporting :: "'a rend_pc \<Rightarrow> nat" where
  "reporting (DR_Done _) = 1" | "reporting _ = 0"

fun passing_on :: "'a rend_pc \<Rightarrow> nat" where
  "passing_on (DR_Done _) = 1" | "passing_on (DR_Next _) = 1" | "passing_on _ = 0"

fun at_check :: "'a rend_pc \<Rightarrow> nat" where
  "at_check (DW_Check _) = 1" | "at_check _ = 0"

fun killing :: "'a rend_pc \<Rightarrow> nat" where
  "killing DC_Write = 1" | "killing DC_Read = 1" | "killing DC_Done = 1" | "killing _ = 0"

definition in_slot :: "'a rend \<Rightarrow> 'a list" where
  "in_slot s = (case rd_slot s of None \<Rightarrow> [] | Some x \<Rightarrow> [x])"

definition rend_inv :: "'a rend \<Rightarrow> bool" where
  "rend_inv s \<longleftrightarrow>
     (rd_write_killed s \<or> rd_read_killed s \<or> rd_done_killed s \<or> 0 < total killing (rd_pcs s) \<longrightarrow> rd_closed s) \<and>
     rd_sent s = rd_got s @ in_slot s \<and> length (rd_returned s) \<le> length (rd_got s) \<and> (0 < rd_failed s \<longrightarrow> rd_read_killed s) \<and>
     (\<not> rd_closed s \<longrightarrow>
        int (rd_can_write s) + total in_slot_section (rd_pcs s) + int (length (in_slot s)) + total passing_on (rd_pcs s) = 1) \<and>
     (\<not> rd_read_killed s \<longrightarrow>
        int (length (in_slot s)) = int (rd_can_read s) + total offering (rd_pcs s) + total fetching (rd_pcs s)) \<and>
     (\<not> rd_closed s \<longrightarrow>
        int (length (rd_got s)) =
          int (rd_read_done s) + total at_check (rd_pcs s) + int (length (rd_returned s)) + total reporting (rd_pcs s))"

lemma rd_goto_fields [simp]:
  "rd_slot (rd_goto i p s) = rd_slot s" "rd_can_write (rd_goto i p s) = rd_can_write s"
  "rd_can_read (rd_goto i p s) = rd_can_read s" "rd_read_done (rd_goto i p s) = rd_read_done s"
  "rd_closed (rd_goto i p s) = rd_closed s" "rd_write_killed (rd_goto i p s) = rd_write_killed s"
  "rd_read_killed (rd_goto i p s) = rd_read_killed s" "rd_done_killed (rd_goto i p s) = rd_done_killed s"
  "rd_abort (rd_goto i p s) = rd_abort s" "rd_sent (rd_goto i p s) = rd_sent s" "rd_got (rd_goto i p s) = rd_got s"
  "rd_returned (rd_goto i p s) = rd_returned s" "rd_failed (rd_goto i p s) = rd_failed s"
  "rd_pcs (rd_goto i p s) = (rd_pcs s)[i := p]"
  by (simp_all add: rd_goto_def)

lemmas rend_steps = rend_step_def rend_write_step_def rend_read_step_def rend_close_step_def

lemma rend_call_inv:
  "rend_inv s \<Longrightarrow> i < length (rd_pcs s) \<Longrightarrow> rd_pcs s ! i = RD_Idle \<Longrightarrow> rend_inv (rd_goto i (rend_start f) s)"
  by (cases f) (simp_all add: rend_inv_def in_slot_def total_update)

text \<open>What an agent may do in a state that satisfies the invariant.\<close>

lemma rend_step_inv:
  assumes inv: "rend_inv s" and i: "i < length (rd_pcs s)" and step: "rend_step i s = Some t"
  shows "rend_inv t"
proof -
  note aux = rend_inv_def in_slot_def total_update [OF i]
  have ge: "int (f (rd_pcs s ! i)) \<le> total f (rd_pcs s)" for f using i by (rule total_ge)
  have nn: "0 \<le> total f (rd_pcs s)" for f by (rule total_nonneg)
  have na: "\<not> rd_abort s" using step by (auto simp: rend_steps)
  show ?thesis
  proof (cases "rd_pcs s ! i")
    case RD_Idle
    then show ?thesis using step by (simp add: rend_steps split: if_split_asm)
  next
    case (DW_Can x)
    show ?thesis
    proof (cases "rd_can_write s > 0")
      case True
      then have t: "t = rd_goto i (DW_Section x) (s\<lparr>rd_can_write := rd_can_write s - 1\<rparr>)"
        using step DW_Can na by (simp add: rend_steps)
      show ?thesis unfolding t using inv DW_Can True by (auto simp: aux of_nat_diff)
    next
      case False
      then have t: "t = rd_goto i (DW_Section x) s" and "rd_write_killed s"
        using step DW_Can na by (simp_all add: rend_steps split: if_split_asm)
      then have "rd_closed s" using inv by (simp add: rend_inv_def)
      then show ?thesis unfolding t using inv DW_Can by (auto simp: aux)
    qed
  next
    case (DW_Section x)
    show ?thesis
    proof (cases "rd_closed s")
      case True
      then have t: "t = s\<lparr>rd_abort := True\<rparr>" using step DW_Section na by (simp add: rend_steps)
      show ?thesis unfolding t using inv by (simp add: rend_inv_def in_slot_def)
    next
      case False
      have t: "t = rd_goto i (DW_Offer x) (s\<lparr>rd_slot := Some x, rd_sent := rd_sent s @ [x]\<rparr>)"
        using step DW_Section na False by (simp add: rend_steps)
      have one: "int (rd_can_write s) + total in_slot_section (rd_pcs s) + int (length (in_slot s)) + total passing_on (rd_pcs s) = 1"
        using inv False unfolding rend_inv_def by blast
      have "rd_slot s = None"
        using one ge [of in_slot_section] nn [of passing_on] DW_Section by (cases "rd_slot s") (simp_all add: in_slot_def)
      then show ?thesis unfolding t using inv DW_Section False by (auto simp: aux)
    qed
  next
    case (DW_Offer x)
    then have t: "t = rd_goto i (DW_Wait x) (s\<lparr>rd_can_read := Suc (rd_can_read s)\<rparr>)" using step na by (simp add: rend_steps)
    show ?thesis unfolding t using inv DW_Offer by (auto simp: aux)
  next
    case (DW_Wait x)
    show ?thesis
    proof (cases "rd_read_done s > 0")
      case True
      then have t: "t = rd_goto i (DW_Check x) (s\<lparr>rd_read_done := rd_read_done s - 1\<rparr>)"
        using step DW_Wait na by (simp add: rend_steps)
      show ?thesis unfolding t using inv DW_Wait True by (auto simp: aux of_nat_diff)
    next
      case False
      then have t: "t = rd_goto i (DW_Check x) s" and "rd_done_killed s"
        using step DW_Wait na by (simp_all add: rend_steps split: if_split_asm)
      then have "rd_closed s" using inv by (simp add: rend_inv_def)
      then show ?thesis unfolding t using inv DW_Wait by (auto simp: aux)
    qed
  next
    case (DW_Check x)
    show ?thesis
    proof (cases "rd_closed s")
      case True
      then have t: "t = s\<lparr>rd_abort := True\<rparr>" using step DW_Check na by (simp add: rend_steps)
      show ?thesis unfolding t using inv by (simp add: rend_inv_def in_slot_def)
    next
      case False
      then have t: "t = rd_goto i RD_Idle (s\<lparr>rd_returned := rd_returned s @ [x]\<rparr>)"
        using step DW_Check na by (simp add: rend_steps)
      have "int (length (rd_got s)) =
          int (rd_read_done s) + total at_check (rd_pcs s) + int (length (rd_returned s)) + total reporting (rd_pcs s)"
        using inv False by (simp add: rend_inv_def)
      then have "length (rd_returned s) < length (rd_got s)"
        using ge [of at_check] nn [of reporting] DW_Check by simp
      then show ?thesis unfolding t using inv DW_Check False by (auto simp: aux)
    qed
  next
    case DR_Can
    show ?thesis
    proof (cases "rd_can_read s > 0")
      case True
      then have t: "t = rd_goto i DR_Section (s\<lparr>rd_can_read := rd_can_read s - 1\<rparr>)"
        using step DR_Can na by (simp add: rend_steps)
      show ?thesis unfolding t using inv DR_Can True by (auto simp: aux of_nat_diff)
    next
      case False
      then have t: "t = rd_goto i DR_Section s" and k: "rd_read_killed s"
        using step DR_Can na by (simp_all add: rend_steps split: if_split_asm)
      show ?thesis unfolding t using inv DR_Can k by (auto simp: aux)
    qed
  next
    case DR_Section
    show ?thesis
    proof (cases "rd_slot s")
      case None
      then have t: "t = rd_goto i RD_Idle (s\<lparr>rd_failed := Suc (rd_failed s)\<rparr>)" using step DR_Section na by (simp add: rend_steps)
      have k: "rd_read_killed s"
      proof (rule ccontr)
        assume "\<not> rd_read_killed s"
        then have "0 = int (rd_can_read s) + total offering (rd_pcs s) + total fetching (rd_pcs s)"
          using inv None by (simp add: rend_inv_def in_slot_def)
        then show False using ge [of fetching] nn [of offering] DR_Section by simp
      qed
      show ?thesis unfolding t using inv DR_Section None k by (auto simp: aux)
    next
      case (Some x)
      then have t: "t = rd_goto i (DR_Done x) (s\<lparr>rd_slot := None, rd_got := rd_got s @ [x]\<rparr>)"
        using step DR_Section na by (simp add: rend_steps)
      show ?thesis unfolding t using inv DR_Section Some by (auto simp: aux)
    qed
  next
    case (DR_Done x)
    then have t: "t = rd_goto i (DR_Next x) (s\<lparr>rd_read_done := Suc (rd_read_done s)\<rparr>)" using step na by (simp add: rend_steps)
    show ?thesis unfolding t using inv DR_Done by (auto simp: aux)
  next
    case (DR_Next x)
    then have t: "t = rd_goto i RD_Idle (s\<lparr>rd_can_write := Suc (rd_can_write s)\<rparr>)" using step na by (simp add: rend_steps)
    show ?thesis unfolding t using inv DR_Next by (auto simp: aux)
  next
    case DC_Store
    then have t: "t = rd_goto i DC_Write (s\<lparr>rd_closed := True\<rparr>)" using step na by (simp add: rend_steps)
    show ?thesis unfolding t using inv DC_Store by (auto simp: aux)
  next
    case DC_Write
    then have "rd_closed s" using inv ge [of killing] by (simp add: rend_inv_def)
    then show ?thesis using step na inv DC_Write ge [of killing] by (auto simp: rend_steps aux split: if_split_asm)
  next
    case DC_Read
    then have "rd_closed s" using inv ge [of killing] by (simp add: rend_inv_def)
    then show ?thesis using step na inv DC_Read ge [of killing] by (auto simp: rend_steps aux split: if_split_asm)
  next
    case DC_Done
    then have "rd_closed s" using inv ge [of killing] by (simp add: rend_inv_def)
    then show ?thesis using step na inv DC_Done ge [of killing] by (auto simp: rend_steps aux split: if_split_asm)
  qed
qed

lemma rend_reachable_inv: "rend_reachable s \<Longrightarrow> rend_inv s"
proof (induction rule: rend_reachable.induct)
  case (start agents)
  show ?case by (simp add: rend_inv_def mk_rend_def in_slot_def total_replicate)
qed (auto intro: rend_call_inv rend_step_inv)

text \<open>
  C29: A channel without a buffer loses and invents nothing. In every interleaving the values read so far,
  followed by the one that is offered, are the values written, each once and in order: no offer is
  overwritten. Never have more writes returned than values been read, and a read reports the end
  only after \<open>close\<close>.
\<close>

theorem rend_safe:
  assumes "rend_reachable s"
  shows "rd_sent s = rd_got s @ in_slot s \<and> length (rd_returned s) \<le> length (rd_got s) \<and> (0 < rd_failed s \<longrightarrow> rd_closed s)"
  using rend_reachable_inv [OF assms] unfolding rend_inv_def by blast

fun rend_run :: "(nat \<times> 'a chan_op option) list \<Rightarrow> 'a rend \<Rightarrow> 'a rend option" where
  "rend_run [] s = Some s"
| "rend_run ((i, Some f) # acts) s =
     (if i < length (rd_pcs s)
      then (case rd_pcs s ! i of RD_Idle \<Rightarrow> rend_run acts (rd_goto i (rend_start f) s) | _ \<Rightarrow> None) else None)"
| "rend_run ((i, None) # acts) s =
     (if i < length (rd_pcs s)
      then (case rend_step i s of None \<Rightarrow> None | Some t \<Rightarrow> rend_run acts t) else None)"

lemma rend_run_reachable: "rend_run acts s = Some t \<Longrightarrow> rend_reachable s \<Longrightarrow> rend_reachable t"
  by (induction acts s rule: rend_run.induct)
    (auto split: if_splits option.splits rend_pc.splits intro: rend_reachable.call rend_reachable.step)

text \<open>Agent 0 writes 1, agent 1 reads it, agent 2 writes 2 and takes the acknowledgement that was meant for agent 0.\<close>

definition swapped :: "nat rend" where
  "swapped = the (rend_run ([(0, Some (ChanWrite 1))] @ replicate 3 (0, None) @ [(1, Some ChanRead)] @ replicate 4 (1, None) @
     [(2, Some (ChanWrite 2))] @ replicate 5 (2, None)) (mk_rend 3))"

lemma swapped_reachable: "rend_reachable swapped"
proof -
  have "rend_run ([(0, Some (ChanWrite 1))] @ replicate 3 (0, None) @ [(1, Some ChanRead)] @ replicate 4 (1, None) @
     [(2, Some (ChanWrite 2))] @ replicate 5 (2, None)) (mk_rend 3 :: nat rend) = Some swapped"
    by code_simp
  then show ?thesis by (rule rend_run_reachable) (rule rend_reachable.start)
qed

lemma rend_safe_witness: "rd_sent swapped = [1] @ [2]"
proof -
  have "rd_got swapped = [1]" "in_slot swapped = [2]" by code_simp+
  then show ?thesis using rend_safe [OF swapped_reachable] by simp
qed

text \<open>
  With two writers a write to a channel without a buffer may return before its value is read: the
  acknowledgement of one value can be taken by the writer of another. Then the second write has
  returned while its value is still offered, and the writer of the value that was read waits on.
\<close>

theorem rend_write_returns_early:
  "\<exists>s. rend_reachable s \<and> \<not> rd_closed s \<and> rd_returned s = [2 :: nat] \<and> rd_slot s = Some 2 \<and> rd_got s = [1] \<and>
     rd_pcs s ! 0 = DW_Wait 1 \<and> rend_step 0 s = None"
proof -
  have "\<not> rd_closed swapped \<and> rd_returned swapped = [2] \<and> rd_slot swapped = Some 2 \<and> rd_got swapped = [1] \<and>
     rd_pcs swapped ! 0 = DW_Wait 1 \<and> rend_step 0 swapped = None" by code_simp
  with swapped_reachable show ?thesis by blast
qed

end
