(* ===== verification/Usync_Cond.thy ===== *)
theory Usync_Cond
  imports Uco_Prelude
begin

text \<open>
  The condition variable \<open>ucond\<close> (\<open>core/usync.cpp\<close>, \<open>core/usync.h\<close>). Agents wait for a condition under a
  mutex (its owner, by \<open>mutex_safe\<close>) with \<open>wait(lock, pred)\<close>, or make it true under the mutex and call
  \<open>notify_one\<close> or \<open>notify_all\<close>, while they hold the mutex or after they released it. A step is one
  operation of the mutex, one section under the spin lock of the waiter list, or the suspension. A
  coroutine that is taken from the list before it has suspended is resumed as soon as it has, since
  only its own thread resumes it: \<open>cv_posted\<close> holds those that have been posted.
\<close>

datatype cond_pc =
    N_Idle
  | NW_Lock | NW_Test | NW_Push | NW_Unlock | NW_Parked | NW_Relock | NW_Leave
  | NS_Lock bool bool | NS_Set bool bool | NS_Notify bool bool | NS_Unlock bool bool

text \<open>The two flags of a notifier: whether it calls \<open>notify_all\<close>, and whether it does so under the mutex.\<close>

record cond =
  cv_owner :: "nat option"
  cv_waiter :: "nat list"
  cv_posted :: "nat set"
  cv_pred :: bool
  cv_pcs :: "cond_pc list"

definition mk_cond :: "nat \<Rightarrow> cond" where
  "mk_cond agents =
     \<lparr>cv_owner = None, cv_waiter = [], cv_posted = {}, cv_pred = False, cv_pcs = replicate agents N_Idle\<rparr>"

definition cv_goto :: "nat \<Rightarrow> cond_pc \<Rightarrow> cond \<Rightarrow> cond" where
  "cv_goto i p s = s\<lparr>cv_pcs := (cv_pcs s)[i := p]\<rparr>"

definition notify_one :: "cond \<Rightarrow> cond" where
  "notify_one s =
     (case cv_waiter s of [] \<Rightarrow> s | co # rest \<Rightarrow> s\<lparr>cv_waiter := rest, cv_posted := insert co (cv_posted s)\<rparr>)"

definition notify_all :: "cond \<Rightarrow> cond" where
  "notify_all s =
     (if cv_waiter s = [] then s else s\<lparr>cv_waiter := [], cv_posted := cv_posted s \<union> set (cv_waiter s)\<rparr>)"

definition cond_wait_step :: "nat \<Rightarrow> cond \<Rightarrow> cond option" where
  "cond_wait_step i s =
     (case cv_pcs s ! i of
        NW_Test \<Rightarrow> Some (cv_goto i (if cv_pred s then NW_Leave else NW_Push) s)
      | NW_Push \<Rightarrow> Some (cv_goto i NW_Unlock (s\<lparr>cv_waiter := cv_waiter s @ [i]\<rparr>))
      | NW_Unlock \<Rightarrow> Some (cv_goto i NW_Parked (s\<lparr>cv_owner := None\<rparr>))
      | NW_Parked \<Rightarrow>
          (if i \<in> cv_posted s then Some (cv_goto i NW_Relock (s\<lparr>cv_posted := cv_posted s - {i}\<rparr>)) else None)
      | NW_Relock \<Rightarrow> (if cv_owner s = None then Some (cv_goto i NW_Test (s\<lparr>cv_owner := Some i\<rparr>)) else None)
      | _ \<Rightarrow> None)"

text \<open>The code around the calls: taking the mutex, setting the condition, releasing the mutex.\<close>

definition cond_user_step :: "nat \<Rightarrow> cond \<Rightarrow> cond option" where
  "cond_user_step i s =
     (case cv_pcs s ! i of
        NW_Lock \<Rightarrow> (if cv_owner s = None then Some (cv_goto i NW_Test (s\<lparr>cv_owner := Some i\<rparr>)) else None)
      | NW_Leave \<Rightarrow> Some (cv_goto i N_Idle (s\<lparr>cv_owner := None\<rparr>))
      | NS_Lock a u \<Rightarrow> (if cv_owner s = None then Some (cv_goto i (NS_Set a u) (s\<lparr>cv_owner := Some i\<rparr>)) else None)
      | NS_Set a u \<Rightarrow> Some (cv_goto i (if u then NS_Notify a u else NS_Unlock a u) (s\<lparr>cv_pred := True\<rparr>))
      | NS_Notify a u \<Rightarrow>
          Some (cv_goto i (if u then NS_Unlock a u else N_Idle) (if a then notify_all s else notify_one s))
      | NS_Unlock a u \<Rightarrow> Some (cv_goto i (if u then N_Idle else NS_Notify a u) (s\<lparr>cv_owner := None\<rparr>))
      | _ \<Rightarrow> None)"

definition cond_step :: "nat \<Rightarrow> cond \<Rightarrow> cond option" where
  "cond_step i s = (case cond_wait_step i s of Some t \<Rightarrow> Some t | None \<Rightarrow> cond_user_step i s)"

datatype cond_op = CondWait | CondNotify bool bool

fun cond_start :: "cond_op \<Rightarrow> cond_pc" where
  "cond_start CondWait = NW_Lock"
| "cond_start (CondNotify a u) = NS_Lock a u"

text \<open>\<open>only_all\<close> says that every notifier calls \<open>notify_all\<close>.\<close>

inductive cond_reachable :: "bool \<Rightarrow> cond \<Rightarrow> bool" for only_all where
  start: "cond_reachable only_all (mk_cond agents)"
| call: "cond_reachable only_all s \<Longrightarrow> i < length (cv_pcs s) \<Longrightarrow> cv_pcs s ! i = N_Idle \<Longrightarrow>
    only_all \<longrightarrow> f \<notin> {CondNotify False False, CondNotify False True} \<Longrightarrow> cond_reachable only_all (cv_goto i (cond_start f) s)"
| step: "cond_reachable only_all s \<Longrightarrow> i < length (cv_pcs s) \<Longrightarrow> cond_step i s = Some t \<Longrightarrow> cond_reachable only_all t"

section \<open>The invariant\<close>

fun holds_mutex :: "cond_pc \<Rightarrow> bool" where
  "holds_mutex NW_Test = True" | "holds_mutex NW_Push = True" | "holds_mutex NW_Unlock = True"
| "holds_mutex NW_Leave = True" | "holds_mutex (NS_Set a u) = True" | "holds_mutex (NS_Notify a u) = u"
| "holds_mutex (NS_Unlock a u) = True" | "holds_mutex _ = False"

fun in_wait :: "cond_pc \<Rightarrow> bool" where
  "in_wait NW_Unlock = True" | "in_wait NW_Parked = True" | "in_wait _ = False"

text \<open>A \<open>notify_all\<close> that is still to come, and a notifier that calls \<open>notify_all\<close>.\<close>

fun notifies_all :: "cond_pc \<Rightarrow> bool" where
  "notifies_all (NS_Lock a u) = a" | "notifies_all (NS_Set a u) = a" | "notifies_all (NS_Notify a u) = a"
| "notifies_all (NS_Unlock a u) = a" | "notifies_all _ = True"

fun will_notify_all :: "cond_pc \<Rightarrow> bool" where
  "will_notify_all (NS_Notify a u) = a" | "will_notify_all (NS_Unlock a u) = (a \<and> \<not> u)" | "will_notify_all _ = False"

definition cond_inv :: "cond \<Rightarrow> bool" where
  "cond_inv s \<longleftrightarrow>
     (\<forall>i < length (cv_pcs s). holds_mutex (cv_pcs s ! i) \<longleftrightarrow> cv_owner s = Some i) \<and>
     (\<forall>i. cv_owner s = Some i \<longrightarrow> i < length (cv_pcs s)) \<and>
     (\<forall>i < length (cv_pcs s). in_wait (cv_pcs s ! i) \<longleftrightarrow> i \<in> set (cv_waiter s) \<union> cv_posted s) \<and>
     (\<forall>i \<in> set (cv_waiter s) \<union> cv_posted s. i < length (cv_pcs s)) \<and>
     distinct (cv_waiter s) \<and> set (cv_waiter s) \<inter> cv_posted s = {} \<and>
     (\<forall>i < length (cv_pcs s). cv_pcs s ! i = NW_Push \<longrightarrow> \<not> cv_pred s)"

lemma cv_goto_fields [simp]:
  "cv_owner (cv_goto i p s) = cv_owner s" "cv_waiter (cv_goto i p s) = cv_waiter s"
  "cv_posted (cv_goto i p s) = cv_posted s" "cv_pred (cv_goto i p s) = cv_pred s"
  "cv_pcs (cv_goto i p s) = (cv_pcs s)[i := p]"
  by (simp_all add: cv_goto_def)

lemma notify_fields [simp]:
  "cv_owner (notify_one s) = cv_owner s" "cv_pred (notify_one s) = cv_pred s" "cv_pcs (notify_one s) = cv_pcs s"
  "cv_owner (notify_all s) = cv_owner s" "cv_pred (notify_all s) = cv_pred s" "cv_pcs (notify_all s) = cv_pcs s"
  "set (cv_waiter (notify_one s)) \<union> cv_posted (notify_one s) = set (cv_waiter s) \<union> cv_posted s"
  "cv_waiter (notify_all s) = []" "cv_posted (notify_all s) = set (cv_waiter s) \<union> cv_posted s"
  by (auto simp: notify_one_def notify_all_def split: list.splits)

lemma notify_one_disjoint:
  "distinct (cv_waiter s) \<Longrightarrow> set (cv_waiter s) \<inter> cv_posted s = {} \<Longrightarrow>
   distinct (cv_waiter (notify_one s)) \<and> set (cv_waiter (notify_one s)) \<inter> cv_posted (notify_one s) = {}"
  by (auto simp: notify_one_def split: list.splits)

inductive cond_move :: "nat \<Rightarrow> cond \<Rightarrow> cond \<Rightarrow> bool" for i s where
  test: "cv_pcs s ! i = NW_Test \<Longrightarrow> cond_move i s (cv_goto i (if cv_pred s then NW_Leave else NW_Push) s)"
| push: "cv_pcs s ! i = NW_Push \<Longrightarrow> cond_move i s (cv_goto i NW_Unlock (s\<lparr>cv_waiter := cv_waiter s @ [i]\<rparr>))"
| release: "cv_pcs s ! i = NW_Unlock \<Longrightarrow> cond_move i s (cv_goto i NW_Parked (s\<lparr>cv_owner := None\<rparr>))"
| resume: "cv_pcs s ! i = NW_Parked \<Longrightarrow> i \<in> cv_posted s \<Longrightarrow>
    cond_move i s (cv_goto i NW_Relock (s\<lparr>cv_posted := cv_posted s - {i}\<rparr>))"
| lock: "cv_pcs s ! i = NW_Relock \<or> cv_pcs s ! i = NW_Lock \<Longrightarrow> cv_owner s = None \<Longrightarrow>
    cond_move i s (cv_goto i NW_Test (s\<lparr>cv_owner := Some i\<rparr>))"
| leave: "cv_pcs s ! i = NW_Leave \<Longrightarrow> cond_move i s (cv_goto i N_Idle (s\<lparr>cv_owner := None\<rparr>))"
| setter_lock: "cv_pcs s ! i = NS_Lock a u \<Longrightarrow> cv_owner s = None \<Longrightarrow> cond_move i s (cv_goto i (NS_Set a u) (s\<lparr>cv_owner := Some i\<rparr>))"
| setter_set: "cv_pcs s ! i = NS_Set a u \<Longrightarrow>
    cond_move i s (cv_goto i (if u then NS_Notify a u else NS_Unlock a u) (s\<lparr>cv_pred := True\<rparr>))"
| setter_notify: "cv_pcs s ! i = NS_Notify a u \<Longrightarrow>
    cond_move i s (cv_goto i (if u then NS_Unlock a u else N_Idle) (if a then notify_all s else notify_one s))"
| setter_unlock: "cv_pcs s ! i = NS_Unlock a u \<Longrightarrow>
    cond_move i s (cv_goto i (if u then N_Idle else NS_Notify a u) (s\<lparr>cv_owner := None\<rparr>))"

lemma if_Some_eq: "((if P then Some x else None) = Some y) = (P \<and> x = y)"
  by simp

lemma cond_step_move: "cond_step i s = Some t \<Longrightarrow> cond_move i s t"
  by (cases "cv_pcs s ! i")
    (auto simp: cond_step_def cond_wait_step_def cond_user_step_def if_Some_eq intro: cond_move.intros
      split: option.splits split del: if_split)

text \<open>A step that changes neither the mutex nor the lists, and a notification.\<close>

lemma cond_inv_goto:
  assumes "cond_inv s" "i < length (cv_pcs s)" "holds_mutex p = holds_mutex (cv_pcs s ! i)"
    and "in_wait p = in_wait (cv_pcs s ! i)" "p = NW_Push \<Longrightarrow> \<not> cv_pred s"
  shows "cond_inv (cv_goto i p s)"
  using assms unfolding cond_inv_def by (simp add: nth_list_update)

lemma cond_inv_notify:
  assumes "cond_inv s"
  shows "cond_inv (if a then notify_all s else notify_one s)"
  using assms notify_one_disjoint [of s] unfolding cond_inv_def by (cases a) simp_all

lemma cond_call_inv:
  "cond_inv s \<Longrightarrow> i < length (cv_pcs s) \<Longrightarrow> cv_pcs s ! i = N_Idle \<Longrightarrow> cond_inv (cv_goto i (cond_start f) s)"
  by (cases f) (auto simp: cond_inv_def nth_list_update)

lemma cond_step_inv:
  assumes "cond_inv s" "i < length (cv_pcs s)" "cond_step i s = Some t"
  shows "cond_inv t"
  using cond_step_move [OF assms(3)]
proof cases
  case (setter_notify a u)
  then show ?thesis using assms(2)
    by (simp only: setter_notify(1), intro cond_inv_goto cond_inv_notify assms(1)) (cases a; cases u; simp)+
next
  case (setter_set a u)
  have "cv_owner s = Some i" using assms(1,2) setter_set unfolding cond_inv_def by (metis holds_mutex.simps(5))
  then have "cv_pcs s ! j \<noteq> NW_Push" if "j < length (cv_pcs s)" for j
    using assms(1) that setter_set unfolding cond_inv_def by (metis holds_mutex.simps(2) option.inject cond_pc.distinct)
  then show ?thesis using assms(1,2) setter_set unfolding cond_inv_def by (auto simp: nth_list_update)
qed (use assms(1,2) in \<open>auto simp: cond_inv_def nth_list_update\<close>)

text \<open>While the condition holds and somebody is in the waiter list, a \<open>notify_all\<close> is under way.\<close>

definition wake_inv :: "cond \<Rightarrow> bool" where
  "wake_inv s \<longleftrightarrow>
     (\<forall>i < length (cv_pcs s). notifies_all (cv_pcs s ! i)) \<and>
     (cv_pred s \<longrightarrow> cv_waiter s = [] \<or> (\<exists>i < length (cv_pcs s). will_notify_all (cv_pcs s ! i)))"

lemma wake_inv_goto:
  assumes "wake_inv s" "i < length (cv_pcs s)" "notifies_all p" "will_notify_all (cv_pcs s ! i) \<Longrightarrow> will_notify_all p"
  shows "wake_inv (cv_goto i p s)"
proof -
  have "\<exists>j < length (cv_pcs s). will_notify_all ((cv_pcs s)[i := p] ! j)"
    if "\<exists>j < length (cv_pcs s). will_notify_all (cv_pcs s ! j)"
    using that assms(2,4) by (metis nth_list_update_eq nth_list_update_neq)
  moreover have "\<forall>j < length (cv_pcs s). notifies_all ((cv_pcs s)[i := p] ! j)"
    using assms(1-3) by (simp add: wake_inv_def nth_list_update)
  ultimately show ?thesis
    using assms(1) unfolding wake_inv_def cv_goto_fields length_list_update by blast
qed

lemma wake_step_inv:
  assumes "wake_inv s" "cond_inv s" "i < length (cv_pcs s)" "cond_step i s = Some t"
  shows "wake_inv t"
  using cond_step_move [OF assms(4)]
proof cases
  case push
  then have "\<not> cv_pred s" using assms(2,3) unfolding cond_inv_def by blast
  then show ?thesis using push assms(1,3) by (simp add: wake_inv_def nth_list_update)
next
  case (setter_set a u)
  have a: "a" using assms(1,3) setter_set unfolding wake_inv_def by force
  have "will_notify_all ((cv_pcs s)[i := if u then NS_Notify a u else NS_Unlock a u] ! i)"
    using assms(3) a by simp
  then have "\<exists>j < length (cv_pcs s). will_notify_all ((cv_pcs s)[i := if u then NS_Notify a u else NS_Unlock a u] ! j)"
    using assms(3) by blast
  then show ?thesis using setter_set assms(1,3) a by (simp add: wake_inv_def nth_list_update)
next
  case (setter_notify a u)
  have a: "a" using assms(1,3) setter_notify unfolding wake_inv_def by force
  then show ?thesis using setter_notify assms(1,3) by (simp add: wake_inv_def nth_list_update)
next
  case (setter_unlock a u)
  have a: "a" using assms(1,3) setter_unlock unfolding wake_inv_def by force
  have "wake_inv (s\<lparr>cv_owner := None\<rparr>)" using assms(1) by (simp add: wake_inv_def)
  then show ?thesis
    unfolding setter_unlock(1) by (rule wake_inv_goto) (use setter_unlock assms(3) a in auto)
next
  case resume
  have "wake_inv (s\<lparr>cv_posted := cv_posted s - {i}\<rparr>)" using assms(1) by (simp add: wake_inv_def)
  then show ?thesis
    unfolding resume(1) by (rule wake_inv_goto) (use resume assms(3) in auto)
next
  case (setter_lock a u)
  have a: "a" using assms(1,3) setter_lock unfolding wake_inv_def by force
  have "wake_inv (s\<lparr>cv_owner := Some i\<rparr>)" using assms(1) by (simp add: wake_inv_def)
  then show ?thesis
    unfolding setter_lock(1) by (rule wake_inv_goto) (use setter_lock assms(3) a in auto)
next
  case lock
  have "wake_inv (s\<lparr>cv_owner := Some i\<rparr>)" using assms(1) by (simp add: wake_inv_def)
  then show ?thesis
    unfolding lock(1) by (rule wake_inv_goto) (use lock assms(3) in auto)
next
  case release
  have "wake_inv (s\<lparr>cv_owner := None\<rparr>)" using assms(1) by (simp add: wake_inv_def)
  then show ?thesis
    unfolding release(1) by (rule wake_inv_goto) (use release assms(3) in auto)
next
  case leave
  have "wake_inv (s\<lparr>cv_owner := None\<rparr>)" using assms(1) by (simp add: wake_inv_def)
  then show ?thesis
    unfolding leave(1) by (rule wake_inv_goto) (use leave assms(3) in auto)
next
  case test
  show ?thesis
    unfolding test(1) by (rule wake_inv_goto [OF assms(1,3)]) (use test in auto)
qed

lemma cond_reachable_inv: "cond_reachable only_all s \<Longrightarrow> cond_inv s"
proof (induction rule: cond_reachable.induct)
  case (start agents)
  show ?case by (simp add: cond_inv_def mk_cond_def)
qed (auto intro: cond_call_inv cond_step_inv)

lemma cond_reachable_wake: "cond_reachable True s \<Longrightarrow> wake_inv s"
proof (induction rule: cond_reachable.induct)
  case (start agents)
  show ?case by (simp add: wake_inv_def mk_cond_def)
next
  case (call s i f)
  have "notifies_all (cond_start f)" using call(4) by (cases f) auto
  then show ?case by (rule wake_inv_goto [OF call.IH call(2)]) (use call(3) in simp)
next
  case (step s i t)
  then show ?case using wake_step_inv cond_reachable_inv by blast
qed

lemma cond_enabled:
  assumes "cond_step i s = None" "cv_pcs s ! i \<noteq> N_Idle"
  shows "\<not> holds_mutex (cv_pcs s ! i) \<and> \<not> will_notify_all (cv_pcs s ! i) \<and>
    (cv_owner s \<noteq> None \<or> cv_pcs s ! i = NW_Parked \<and> i \<notin> cv_posted s)"
  using assms by (cases "cv_pcs s ! i") (auto simp: cond_step_def cond_wait_step_def cond_user_step_def split: if_split_asm)

text \<open>
  C27: A condition variable loses no wake-up. Once the condition holds and every notifier calls
  \<open>notify_all\<close>, before or after it releases the mutex, some agent can make a step as long as one is
  inside an operation: nobody stays parked.
\<close>

theorem cond_no_lost_wakeup:
  assumes "cond_reachable True s" "cv_pred s" "i < length (cv_pcs s)" "cv_pcs s ! i \<noteq> N_Idle"
  shows "\<exists>j < length (cv_pcs s). \<exists>t. cond_step j s = Some t"
proof (rule ccontr)
  assume "\<not> ?thesis"
  then have none: "cond_step j s = None" if "j < length (cv_pcs s)" for j using that by auto
  have inv: "cond_inv s" "wake_inv s" using cond_reachable_inv cond_reachable_wake assms(1) by blast+
  have idle: "\<not> holds_mutex N_Idle" "\<not> will_notify_all N_Idle" by simp_all
  have free: "cv_owner s = None"
  proof (rule ccontr)
    assume "cv_owner s \<noteq> None"
    then obtain j where "cv_owner s = Some j" by auto
    then have "j < length (cv_pcs s)" "holds_mutex (cv_pcs s ! j)" using inv(1) unfolding cond_inv_def by blast+
    then show False using cond_enabled [OF none] idle(1) by metis
  qed
  then have "cv_pcs s ! i = NW_Parked" "i \<notin> cv_posted s" using cond_enabled [OF none assms(4)] assms(3) by auto
  then have "cv_waiter s \<noteq> []" using inv(1) assms(3) unfolding cond_inv_def by force
  then obtain j where "j < length (cv_pcs s)" "will_notify_all (cv_pcs s ! j)"
    using inv(2) assms(2) unfolding wake_inv_def by blast
  then show False using cond_enabled [OF none] idle(2) by metis
qed

fun cond_run :: "(nat \<times> cond_op option) list \<Rightarrow> cond \<Rightarrow> cond option" where
  "cond_run [] s = Some s"
| "cond_run ((i, Some f) # acts) s =
     (if i < length (cv_pcs s) \<and> cv_pcs s ! i = N_Idle \<and> f \<noteq> CondNotify False False \<and> f \<noteq> CondNotify False True
      then cond_run acts (cv_goto i (cond_start f) s) else None)"
| "cond_run ((i, None) # acts) s =
     (if i < length (cv_pcs s)
      then (case cond_step i s of None \<Rightarrow> None | Some t \<Rightarrow> cond_run acts t) else None)"

lemma cond_run_reachable: "cond_run acts s = Some t \<Longrightarrow> cond_reachable True s \<Longrightarrow> cond_reachable True t"
  by (induction acts s rule: cond_run.induct)
    (auto split: if_splits option.splits intro: cond_reachable.call cond_reachable.step)

text \<open>Two agents are parked; the third has set the condition and not yet notified.\<close>

definition two_parked :: cond where
  "two_parked = the (cond_run ([(0, Some CondWait)] @ replicate 4 (0, None) @ [(1, Some CondWait)] @ replicate 4 (1, None) @
     [(2, Some (CondNotify True False))] @ replicate 3 (2, None)) (mk_cond 3))"

lemma two_parked_reachable: "cond_reachable True two_parked"
proof -
  have "cond_run ([(0, Some CondWait)] @ replicate 4 (0, None) @ [(1, Some CondWait)] @ replicate 4 (1, None) @
     [(2, Some (CondNotify True False))] @ replicate 3 (2, None)) (mk_cond 3) = Some two_parked" by code_simp
  then show ?thesis by (rule cond_run_reachable) (rule cond_reachable.start)
qed

lemma cond_no_lost_wakeup_witness:
  "cv_pcs two_parked ! 0 = NW_Parked \<and> cv_pcs two_parked ! 1 = NW_Parked \<and> (\<exists>j < 3. \<exists>t. cond_step j two_parked = Some t)"
proof -
  have "cv_pcs two_parked = [NW_Parked, NW_Parked, NS_Notify True False]" "cv_pred two_parked" by code_simp+
  with cond_no_lost_wakeup [OF two_parked_reachable, of 0] show ?thesis by (simp add: numeral_3_eq_3)
qed

end
