(* ===== verification/Usync_Batch.thy ===== *)
theory Usync_Batch
  imports Uco_Prelude
begin

text \<open>
  A batch of coroutines (\<open>cobatch\<close> in \<open>core/usync.cpp\<close>, \<open>core/usync.h\<close>): \<open>run\<close>, or \<open>start\<close> and later \<open>wait\<close>, starts a
  dispatching coroutine and waits for it; the dispatcher runs the tasks, at most \<open>min(concurrent, 50)\<close> of them at
  once, or one by one when its thread is in a batch already. A task is the body that was added; that
  it ends or throws a \<open>std::exception\<close> is one step. Semaphores are their counters
  (\<open>sema_refines_counter\<close>).
\<close>

datatype task_state = T_Added | T_Run | T_Slot | T_Done | T_End

text \<open>The dispatcher, from the test of \<open>is_do_batching\<close> on, and the caller of \<open>start\<close> and \<open>wait\<close>.\<close>

datatype dispatch_pc =
    D_Start | D_Serial nat | D_Inline nat | D_Loop nat | D_Collect nat | D_Signal | D_End

datatype caller_pc = B_Start | B_Flight | B_Wait | B_Back

record batch =
  bt_concurrent :: int
  bt_batching :: bool
  bt_slot :: nat
  bt_task_done :: nat
  bt_done :: nat
  bt_tasks :: "task_state list"
  bt_in_flight :: bool
  bt_dispatch :: "dispatch_pc option"
  bt_caller :: caller_pc

definition mk_batch :: "int \<Rightarrow> nat \<Rightarrow> bool \<Rightarrow> batch" where
  "mk_batch concurrent n batching =
     \<lparr>bt_concurrent = concurrent, bt_batching = batching, bt_slot = 0, bt_task_done = 0, bt_done = 0,
      bt_tasks = replicate n T_Added, bt_in_flight = False, bt_dispatch = None, bt_caller = B_Start\<rparr>"

text \<open>\<open>usema slot(std::min(concurrent, 50))\<close>: a negative \<open>int\<close> becomes a huge \<open>size_t\<close>.\<close>

definition slots :: "int \<Rightarrow> nat" where
  "slots concurrent = nat (min concurrent 50 mod 2 ^ 64)"

text \<open>\<open>start\<close>, then \<open>wait\<close>; without tasks there is no batch to wait for.\<close>

definition caller_step :: "batch \<Rightarrow> batch option" where
  "caller_step s =
     (case bt_caller s of
        B_Start \<Rightarrow>
          Some (if bt_tasks s = [] then s\<lparr>bt_caller := B_Flight\<rparr>
                else s\<lparr>bt_in_flight := True, bt_dispatch := Some D_Start, bt_caller := B_Flight\<rparr>)
      | B_Flight \<Rightarrow>
          Some (if \<not> bt_in_flight s then s\<lparr>bt_caller := B_Back\<rparr>
                else s\<lparr>bt_in_flight := False, bt_caller := B_Wait\<rparr>)
      | B_Wait \<Rightarrow> (if bt_done s > 0 then Some (s\<lparr>bt_done := bt_done s - 1, bt_caller := B_Back\<rparr>) else None)
      | B_Back \<Rightarrow> None)"

definition set_task :: "nat \<Rightarrow> task_state \<Rightarrow> batch \<Rightarrow> batch" where
  "set_task k st s = s\<lparr>bt_tasks := (bt_tasks s)[k := st]\<rparr>"

definition dispatch_goto :: "dispatch_pc \<Rightarrow> batch \<Rightarrow> batch" where
  "dispatch_goto p s = s\<lparr>bt_dispatch := Some p\<rparr>"

definition dispatch_step :: "batch \<Rightarrow> batch option" where
  "dispatch_step s =
     (let n = length (bt_tasks s)
      in case bt_dispatch s of
           None \<Rightarrow> None
         | Some D_Start \<Rightarrow>
             Some (if bt_batching s then dispatch_goto (D_Serial 0) s
                   else dispatch_goto (D_Loop 0)
                          (s\<lparr>bt_slot := slots (bt_concurrent s), bt_task_done := 0, bt_batching := True\<rparr>))
         | Some (D_Serial k) \<Rightarrow>
             Some (if k < n then dispatch_goto (D_Inline k) (set_task k T_Run s)
                   else dispatch_goto D_End (s\<lparr>bt_done := Suc (bt_done s)\<rparr>))
         | Some (D_Inline k) \<Rightarrow> Some (dispatch_goto (D_Serial (Suc k)) (set_task k T_End s))
         | Some (D_Loop k) \<Rightarrow>
             (if k < n
              then (if bt_slot s > 0
                    then Some (dispatch_goto (D_Loop (Suc k)) (set_task k T_Run (s\<lparr>bt_slot := bt_slot s - 1\<rparr>)))
                    else None)
              else Some (dispatch_goto (D_Collect 0) s))
         | Some (D_Collect m) \<Rightarrow>
             (if m < n
              then (if bt_task_done s > 0
                    then Some (dispatch_goto (D_Collect (Suc m)) (s\<lparr>bt_task_done := bt_task_done s - 1\<rparr>))
                    else None)
              else Some (dispatch_goto D_Signal (s\<lparr>bt_batching := False\<rparr>)))
         | Some D_Signal \<Rightarrow> Some (dispatch_goto D_End (s\<lparr>bt_done := Suc (bt_done s)\<rparr>))
         | Some D_End \<Rightarrow> None)"

text \<open>\<open>run_one\<close> of task \<open>k\<close>; a task of a serial batch runs inside the dispatcher.\<close>

definition run_one_step :: "nat \<Rightarrow> batch \<Rightarrow> batch option" where
  "run_one_step k s =
     (if bt_dispatch s = Some (D_Inline k) then None
      else case bt_tasks s ! k of
        T_Run \<Rightarrow> Some (set_task k T_Slot s)
      | T_Slot \<Rightarrow> Some (set_task k T_Done (s\<lparr>bt_slot := Suc (bt_slot s)\<rparr>))
      | T_Done \<Rightarrow> Some (set_task k T_End (s\<lparr>bt_task_done := Suc (bt_task_done s)\<rparr>))
      | _ \<Rightarrow> None)"

datatype batch_agent = Caller | Dispatcher | Task nat

fun batch_step :: "batch_agent \<Rightarrow> batch \<Rightarrow> batch option" where
  "batch_step Caller s = caller_step s"
| "batch_step Dispatcher s = dispatch_step s"
| "batch_step (Task k) s = (if k < length (bt_tasks s) then run_one_step k s else None)"

inductive batch_reachable :: "int \<Rightarrow> nat \<Rightarrow> bool \<Rightarrow> batch \<Rightarrow> bool" for concurrent n batching where
  start: "batch_reachable concurrent n batching (mk_batch concurrent n batching)"
| step: "batch_reachable concurrent n batching s \<Longrightarrow> batch_step a s = Some t \<Longrightarrow> batch_reachable concurrent n batching t"

section \<open>The invariant\<close>

fun is_running :: "task_state \<Rightarrow> nat" where
  "is_running T_Run = 1" | "is_running _ = 0"

fun has_slot :: "task_state \<Rightarrow> nat" where
  "has_slot T_Run = 1" | "has_slot T_Slot = 1" | "has_slot _ = 0"

fun has_ended :: "task_state \<Rightarrow> nat" where
  "has_ended T_End = 1" | "has_ended _ = 0"

definition not_started :: "nat \<Rightarrow> batch \<Rightarrow> bool" where
  "not_started k s \<longleftrightarrow> (\<forall>j < length (bt_tasks s). bt_tasks s ! j = T_Added \<longleftrightarrow> k \<le> j)"

definition serial_state :: "nat \<Rightarrow> batch \<Rightarrow> bool" where
  "serial_state k s \<longleftrightarrow> k \<le> length (bt_tasks s) \<and> (\<forall>j < length (bt_tasks s). bt_tasks s ! j = (if j < k then T_End else T_Added))"

definition parallel_state :: "int \<Rightarrow> nat \<Rightarrow> nat \<Rightarrow> batch \<Rightarrow> bool" where
  "parallel_state concurrent k m s \<longleftrightarrow>
     k \<le> length (bt_tasks s) \<and> not_started k s \<and> int (bt_slot s) + total has_slot (bt_tasks s) = int (slots concurrent) \<and>
     int (bt_task_done s) + int m = total has_ended (bt_tasks s)"

definition awaited :: "batch \<Rightarrow> bool" where
  "awaited s \<longleftrightarrow> bt_caller s = (if bt_in_flight s then B_Flight else B_Wait)"

definition batch_inv :: "int \<Rightarrow> nat \<Rightarrow> bool \<Rightarrow> batch \<Rightarrow> bool" where
  "batch_inv concurrent n batching s \<longleftrightarrow>
     length (bt_tasks s) = n \<and> bt_concurrent s = concurrent \<and>
     (case bt_dispatch s of
        None \<Rightarrow> bt_done s = 0 \<and> bt_batching s = batching \<and> not_started 0 s \<and>
          (bt_caller s = B_Start \<or> n = 0 \<and> (bt_caller s = B_Flight \<or> bt_caller s = B_Back)) \<and> \<not> bt_in_flight s
      | Some D_Start \<Rightarrow> bt_done s = 0 \<and> awaited s \<and> bt_batching s = batching \<and> not_started 0 s
      | Some (D_Serial k) \<Rightarrow> bt_done s = 0 \<and> awaited s \<and> batching \<and> serial_state k s
      | Some (D_Inline k) \<Rightarrow> bt_done s = 0 \<and> awaited s \<and> batching \<and> k < n \<and>
          (\<forall>j < n. bt_tasks s ! j = (if j < k then T_End else if j = k then T_Run else T_Added))
      | Some (D_Loop k) \<Rightarrow> bt_done s = 0 \<and> awaited s \<and> \<not> batching \<and> parallel_state concurrent k 0 s
      | Some (D_Collect m) \<Rightarrow> bt_done s = 0 \<and> awaited s \<and> \<not> batching \<and> m \<le> n \<and> parallel_state concurrent n m s
      | Some D_Signal \<Rightarrow> bt_done s = 0 \<and> awaited s \<and> \<not> batching \<and> bt_tasks s = replicate n T_End
      | Some D_End \<Rightarrow> bt_tasks s = replicate n T_End \<and>
          (awaited s \<and> bt_done s = 1 \<or> bt_caller s = B_Back \<and> bt_done s = 0))"

lemma total_all: "(\<And>x. x \<in> set xs \<Longrightarrow> f x \<le> 1) \<Longrightarrow> total f xs = int (length xs) \<Longrightarrow> x \<in> set xs \<Longrightarrow> f x = 1"
proof (induction xs)
  case (Cons y ys)
  have le: "total f ys \<le> int (length ys)"
  proof -
    have "\<And>z. z \<in> set ys \<Longrightarrow> f z \<le> 1" using Cons.prems(1) by simp
    then show ?thesis by (induction ys) (fastforce simp: total_def)+
  qed
  have "int (f y) + total f ys = 1 + int (length ys)" using Cons.prems(2) by (simp add: total_def)
  moreover have "f y \<le> 1" using Cons.prems(1) by simp
  ultimately have "f y = 1" "total f ys = int (length ys)" using le by linarith+
  then show ?case using Cons by auto
qed simp

lemma all_ended: "total has_ended xs = int (length xs) \<Longrightarrow> xs = replicate (length xs) T_End"
proof -
  assume a: "total has_ended xs = int (length xs)"
  have le: "has_ended x \<le> 1" for x by (cases x) auto
  have "x = T_End" if "x \<in> set xs" for x
    using total_all [of xs has_ended x] le a that by (cases x) auto
  then show ?thesis by (metis replicate_eqI)
qed

lemma batch_fields [simp]:
  "bt_concurrent (set_task k st s) = bt_concurrent s" "bt_batching (set_task k st s) = bt_batching s"
  "bt_slot (set_task k st s) = bt_slot s" "bt_task_done (set_task k st s) = bt_task_done s"
  "bt_done (set_task k st s) = bt_done s" "bt_tasks (set_task k st s) = (bt_tasks s)[k := st]"
  "bt_dispatch (set_task k st s) = bt_dispatch s" "awaited (set_task k st s) = awaited s"
  "bt_caller (set_task k st s) = bt_caller s" "awaited (dispatch_goto p s) = awaited s"
  "bt_concurrent (dispatch_goto p s) = bt_concurrent s" "bt_batching (dispatch_goto p s) = bt_batching s"
  "bt_slot (dispatch_goto p s) = bt_slot s" "bt_task_done (dispatch_goto p s) = bt_task_done s"
  "bt_done (dispatch_goto p s) = bt_done s" "bt_tasks (dispatch_goto p s) = bt_tasks s"
  "bt_dispatch (dispatch_goto p s) = Some p" "bt_caller (dispatch_goto p s) = bt_caller s"
  by (simp_all add: set_task_def dispatch_goto_def awaited_def)

lemma awaited_fields [simp]:
  "awaited (s\<lparr>bt_slot := a\<rparr>) = awaited s" "awaited (s\<lparr>bt_task_done := a\<rparr>) = awaited s"
  "awaited (s\<lparr>bt_batching := b\<rparr>) = awaited s" "awaited (s\<lparr>bt_done := a\<rparr>) = awaited s"
  by (simp_all add: awaited_def)

lemma added_total:
  assumes "not_started 0 s" "f T_Added = 0"
  shows "total f (bt_tasks s) = 0"
  using assms by (simp add: total_0 not_started_def)

lemma caller_step_inv: "batch_inv concurrent n batching s \<Longrightarrow> caller_step s = Some t \<Longrightarrow> batch_inv concurrent n batching t"
  by (cases "bt_caller s")
    (auto simp: caller_step_def batch_inv_def not_started_def serial_state_def parallel_state_def awaited_def split: if_split_asm option.split_asm dispatch_pc.split_asm)

lemma dispatch_step_inv:
  assumes inv: "batch_inv concurrent n batching s" and step: "dispatch_step s = Some t"
  shows "batch_inv concurrent n batching t"
proof (cases "bt_dispatch s")
  case None
  then show ?thesis using step by (simp add: dispatch_step_def)
next
  case (Some p)
  have len: "length (bt_tasks s) = n" "bt_concurrent s = concurrent" using inv by (simp_all add: batch_inv_def)
  note aux = dispatch_step_def batch_inv_def Let_def
  show ?thesis
  proof (cases p)
    case D_Start
    have no: "not_started 0 s" using inv Some D_Start by (simp add: batch_inv_def)
    then have "total has_slot (bt_tasks s) = 0" "total has_ended (bt_tasks s) = 0" by (simp_all add: added_total)
    then show ?thesis using inv step Some D_Start len
      by (auto simp: aux serial_state_def parallel_state_def not_started_def)
  next
    case (D_Serial k)
    have ser: "serial_state k s" using inv Some D_Serial by (simp add: batch_inv_def)
    show ?thesis
    proof (cases "k < n")
      case True
      then show ?thesis using inv step Some D_Serial len ser
        by (auto simp: aux serial_state_def nth_list_update)
    next
      case False
      then have "bt_tasks s = replicate n T_End"
        using ser len by (intro nth_equalityI) (auto simp: serial_state_def)
      then show ?thesis using inv step Some D_Serial False by (auto simp: aux)
    qed
  next
    case (D_Inline k)
    then show ?thesis using inv step Some len by (auto simp: aux serial_state_def nth_list_update)
  next
    case (D_Loop k)
    have par: "parallel_state concurrent k 0 s" using inv Some D_Loop by (simp add: batch_inv_def)
    show ?thesis
    proof (cases "k < n")
      case True
      then have t: "t = dispatch_goto (D_Loop (Suc k)) (set_task k T_Run (s\<lparr>bt_slot := bt_slot s - 1\<rparr>))" "0 < bt_slot s"
        using step Some D_Loop len by (simp_all add: aux split: if_split_asm)
      have k: "bt_tasks s ! k = T_Added" using par True len by (simp add: parallel_state_def not_started_def)
      have "parallel_state concurrent (Suc k) 0 t"
        unfolding t using par True len t(2) k
        by (auto simp: parallel_state_def not_started_def nth_list_update total_update of_nat_diff)
      then show ?thesis using inv Some D_Loop t(1) by (simp add: batch_inv_def)
    next
      case False
      then have t: "t = dispatch_goto (D_Collect 0) s" using step Some D_Loop len by (simp add: aux)
      have "k = n" using par False len by (simp add: parallel_state_def)
      then show ?thesis unfolding t using inv Some D_Loop by (simp add: batch_inv_def parallel_state_def not_started_def)
    qed
  next
    case (D_Collect m)
    have par: "parallel_state concurrent n m s" "m \<le> n" using inv Some D_Collect by (simp_all add: batch_inv_def)
    show ?thesis
    proof (cases "m < n")
      case True
      then have t: "t = dispatch_goto (D_Collect (Suc m)) (s\<lparr>bt_task_done := bt_task_done s - 1\<rparr>)" "0 < bt_task_done s"
        using step Some D_Collect len by (simp_all add: aux split: if_split_asm)
      then have "parallel_state concurrent n (Suc m) t"
        using par(1) by (simp add: parallel_state_def not_started_def of_nat_diff)
      then show ?thesis using inv Some D_Collect t(1) True by (simp add: batch_inv_def)
    next
      case False
      then have t: "t = dispatch_goto D_Signal (s\<lparr>bt_batching := False\<rparr>)" using step Some D_Collect len by (simp add: aux)
      have "total has_ended (bt_tasks s) \<le> int (length (bt_tasks s))"
        by (rule total_le) (metis has_ended.elims le_refl zero_le)
      then have "total has_ended (bt_tasks s) = int (length (bt_tasks s))"
        using par False len by (simp add: parallel_state_def)
      then have "bt_tasks s = replicate n T_End" using all_ended [of "bt_tasks s"] len by simp
      then show ?thesis unfolding t using inv Some D_Collect by (simp add: batch_inv_def)
    qed
  next
    case D_Signal
    then show ?thesis using inv step Some by (auto simp: aux)
  next
    case D_End
    then show ?thesis using step Some by (simp add: aux)
  qed
qed

text \<open>A task moves only in a parallel batch, and keeps the accounts of slots and results.\<close>

lemma run_one_parallel:
  assumes "parallel_state concurrent k m s" "j < length (bt_tasks s)" "run_one_step j s = Some t"
  shows "parallel_state concurrent k m t \<and> bt_done t = bt_done s \<and> bt_caller t = bt_caller s \<and> awaited t = awaited s \<and>
    bt_dispatch t = bt_dispatch s \<and> length (bt_tasks t) = length (bt_tasks s) \<and> bt_concurrent t = bt_concurrent s"
proof -
  have "bt_tasks s ! j \<noteq> T_Added" using assms(3) by (auto simp: run_one_step_def split: if_split_asm)
  then have "\<not> k \<le> j" using assms(1,2) by (simp add: parallel_state_def not_started_def)
  then show ?thesis
    using assms(3) assms(1,2)
    by (cases "bt_tasks s ! j")
      (auto simp: run_one_step_def parallel_state_def not_started_def nth_list_update total_update split: if_split_asm)
qed

lemma run_one_idle:
  assumes "bt_tasks s ! j = T_Added \<or> bt_tasks s ! j = T_End \<or> bt_dispatch s = Some (D_Inline j)"
  shows "run_one_step j s = None"
  using assms by (auto simp: run_one_step_def)

lemma run_one_inv:
  assumes inv: "batch_inv concurrent n batching s" and j: "j < length (bt_tasks s)" and step: "run_one_step j s = Some t"
  shows "batch_inv concurrent n batching t"
proof -
  have active: "\<not> (bt_tasks s ! j = T_Added \<or> bt_tasks s ! j = T_End \<or> bt_dispatch s = Some (D_Inline j))"
    using run_one_idle [of s j] step by auto
  have len: "length (bt_tasks s) = n" using inv by (simp add: batch_inv_def)
  consider (loop) k where "bt_dispatch s = Some (D_Loop k)" | (collect) m where "bt_dispatch s = Some (D_Collect m)"
    using active inv j len
    by (auto simp: batch_inv_def not_started_def serial_state_def split: option.splits dispatch_pc.splits if_splits)
  then show ?thesis
  proof cases
    case loop
    then have "parallel_state concurrent k 0 s" using inv by (simp add: batch_inv_def)
    from run_one_parallel [OF this j step] show ?thesis using inv loop by (simp add: batch_inv_def)
  next
    case collect
    then have "parallel_state concurrent n m s" using inv by (simp add: batch_inv_def)
    from run_one_parallel [OF this j step] show ?thesis using inv collect by (simp add: batch_inv_def)
  qed
qed

lemma batch_reachable_inv: "batch_reachable concurrent n batching s \<Longrightarrow> batch_inv concurrent n batching s"
proof (induction rule: batch_reachable.induct)
  case start
  show ?case by (simp add: batch_inv_def mk_batch_def not_started_def)
next
  case (step s a t)
  then show ?case
    by (cases a) (auto intro: caller_step_inv dispatch_step_inv run_one_inv split: if_splits)
qed

lemma running_le_slot: "total is_running xs \<le> total has_slot xs"
proof (rule total_mono)
  show "is_running x \<le> has_slot x" for x by (cases x) auto
qed

lemma slots_le: "0 \<le> concurrent \<Longrightarrow> int (slots concurrent) = min concurrent 50"
  by (simp add: slots_def)

text \<open>
  C14: A batch keeps its limit and its promise. At no time do more than \<open>min(concurrent, 50)\<close> of its tasks
  run, one if the batch is nested in another; and when \<open>wait\<close> has returned every task has ended.
\<close>

theorem batch_bounded_complete:
  assumes "batch_reachable concurrent n batching s" "0 \<le> concurrent"
  shows "total is_running (bt_tasks s) \<le> (if batching then 1 else min concurrent 50) \<and>
    (bt_caller s = B_Back \<longrightarrow> bt_tasks s = replicate n T_End)"
proof -
  have inv: "batch_inv concurrent n batching s" by (rule batch_reachable_inv [OF assms(1)])
  have len: "length (bt_tasks s) = n" using inv by (simp add: batch_inv_def)
  have slots: "parallel_state concurrent k m s \<Longrightarrow> total is_running (bt_tasks s) \<le> min concurrent 50" for k m
    using running_le_slot [of "bt_tasks s"] slots_le [OF assms(2)] unfolding parallel_state_def by linarith
  have none: "(\<And>j. j < n \<Longrightarrow> bt_tasks s ! j \<noteq> T_Run) \<Longrightarrow> total is_running (bt_tasks s) = 0"
    unfolding total_0 len by (metis is_running.elims)
  have zero: "total is_running (bt_tasks s) = 0 \<Longrightarrow> total is_running (bt_tasks s) \<le> (if batching then 1 else min concurrent 50)"
    using assms(2) by simp
  have bound: "total is_running (bt_tasks s) \<le> (if batching then 1 else min concurrent 50)"
  proof (cases "bt_dispatch s")
    case None
    then show ?thesis using inv len by (intro zero none) (auto simp: batch_inv_def not_started_def)
  next
    case (Some p)
    show ?thesis
    proof (cases p)
      case (D_Inline k)
      then have j: "\<forall>j < n. bt_tasks s ! j = (if j < k then T_End else if j = k then T_Run else T_Added)" "batching" "k < n"
        using inv Some by (simp_all add: batch_inv_def)
      have "total is_running ((bt_tasks s)[k := T_End]) = 0" using j len by (simp add: total_0 nth_list_update)
      then have "total is_running (bt_tasks s) = 1" using j len by (simp add: total_update)
      then show ?thesis using j by simp
    next
      case (D_Loop k)
      then have "parallel_state concurrent k 0 s" "\<not> batching" using inv Some by (simp_all add: batch_inv_def)
      from slots [OF this(1)] this(2) show ?thesis by simp
    next
      case (D_Collect m)
      then have "parallel_state concurrent n m s" "\<not> batching" using inv Some by (simp_all add: batch_inv_def)
      from slots [OF this(1)] this(2) show ?thesis by simp
    next
      case (D_Serial k)
      then have "serial_state k s" using inv Some by (simp add: batch_inv_def)
      then have "bt_tasks s ! j \<noteq> T_Run" if "j < n" for j using that len by (simp add: serial_state_def)
      then show ?thesis by (intro zero none)
    next
      case D_Start
      then have "not_started 0 s" using inv Some by (simp add: batch_inv_def)
      then have "bt_tasks s ! j \<noteq> T_Run" if "j < n" for j using that len by (simp add: not_started_def)
      then show ?thesis by (intro zero none)
    next
      case D_Signal
      then have "bt_tasks s = replicate n T_End" using inv Some by (simp add: batch_inv_def)
      then show ?thesis by (intro zero none) simp
    next
      case D_End
      then have "bt_tasks s = replicate n T_End" using inv Some by (simp add: batch_inv_def)
      then show ?thesis by (intro zero none) simp
    qed
  qed
  have "bt_caller s = B_Back \<Longrightarrow> bt_tasks s = replicate n T_End"
    using inv len by (auto simp: batch_inv_def awaited_def split: if_split_asm option.split_asm dispatch_pc.split_asm)
  with bound show ?thesis by blast
qed

lemma task_moves:
  assumes "j < length (bt_tasks s)" "bt_tasks s ! j \<noteq> T_Added" "bt_tasks s ! j \<noteq> T_End" "bt_dispatch s \<noteq> Some (D_Inline j)"
  shows "\<exists>t. batch_step (Task j) s = Some t"
  using assms by (cases "bt_tasks s ! j") (auto simp: run_one_step_def)

lemma parallel_moves:
  assumes "parallel_state concurrent k m s" "bt_dispatch s = Some p" "\<And>j. p \<noteq> D_Inline j"
    and "bt_slot s = 0 \<and> 0 < slots concurrent \<or> bt_task_done s = 0 \<and> k = length (bt_tasks s) \<and> m < length (bt_tasks s)"
  shows "\<exists>a t. batch_step a s = Some t"
proof (rule ccontr)
  assume none: "\<not> ?thesis"
  have still: "bt_tasks s ! j = T_Added \<or> bt_tasks s ! j = T_End" if "j < length (bt_tasks s)" for j
  proof (rule ccontr)
    assume "\<not> ?thesis"
    then have "bt_tasks s ! j \<noteq> T_Added" "bt_tasks s ! j \<noteq> T_End" by simp_all
    moreover have "bt_dispatch s \<noteq> Some (D_Inline j)" using assms(2,3) by simp
    ultimately have "\<exists>t. batch_step (Task j) s = Some t" by (rule task_moves [OF that])
    with none show False by blast
  qed
  have z: "total has_slot (bt_tasks s) = 0" unfolding total_0 using still by fastforce
  show False using assms(4)
  proof
    assume "bt_slot s = 0 \<and> 0 < slots concurrent"
    then show False using assms(1) z by (simp add: parallel_state_def)
  next
    assume b: "bt_task_done s = 0 \<and> k = length (bt_tasks s) \<and> m < length (bt_tasks s)"
    have "bt_tasks s ! j = T_End" if "j < length (bt_tasks s)" for j
      using still [OF that] assms(1) b that by (auto simp: parallel_state_def not_started_def)
    then have "bt_tasks s = replicate (length (bt_tasks s)) T_End" by (intro nth_equalityI) auto
    then have "total has_ended (bt_tasks s) = int (length (bt_tasks s))"
      by (metis (no_types) has_ended.simps(1) mult.right_neutral of_nat_1 sum_list_replicate map_replicate total_def)
    then show False using assms(1) b by (simp add: parallel_state_def)
  qed
qed

text \<open>
  C30: A batch does not hang: until \<open>wait\<close> has returned, some step is possible, provided that it is nested
  or its limit is not zero.
\<close>

theorem batch_progress:
  assumes "batch_reachable concurrent n batching s" "bt_caller s \<noteq> B_Back" "batching \<or> 0 < slots concurrent"
  shows "\<exists>a t. batch_step a s = Some t"
proof -
  have inv: "batch_inv concurrent n batching s" by (rule batch_reachable_inv [OF assms(1)])
  have len: "length (bt_tasks s) = n" using inv by (simp add: batch_inv_def)
  show ?thesis
  proof (cases "bt_dispatch s")
    case None
    then have "bt_caller s = B_Start \<or> bt_caller s = B_Flight" using inv assms(2) by (auto simp: batch_inv_def)
    then have "\<exists>t. batch_step Caller s = Some t" by (auto simp: caller_step_def)
    then show ?thesis by blast
  next
    case (Some p)
    have disp: "\<exists>t. dispatch_step s = Some t \<Longrightarrow> ?thesis" by (metis batch_step.simps(2))
    show ?thesis
    proof (cases p)
      case (D_Loop k)
      then have par: "parallel_state concurrent k 0 s" "\<not> batching" using inv Some by (simp_all add: batch_inv_def)
      show ?thesis
      proof (cases "bt_slot s = 0 \<and> k < n")
        case True
        show ?thesis by (rule parallel_moves [OF par(1) Some]) (use D_Loop True assms(3) par(2) in auto)
      next
        case False
        then show ?thesis using Some D_Loop len by (intro disp) (auto simp: dispatch_step_def Let_def)
      qed
    next
      case (D_Collect m)
      then have par: "parallel_state concurrent n m s" using inv Some by (simp add: batch_inv_def)
      show ?thesis
      proof (cases "bt_task_done s = 0 \<and> m < n")
        case True
        show ?thesis by (rule parallel_moves [OF par Some]) (use D_Collect True len in auto)
      next
        case False
        then show ?thesis using Some D_Collect len by (intro disp) (auto simp: dispatch_step_def Let_def)
      qed
    next
      case D_End
      then have "bt_caller s = B_Flight \<or> bt_caller s = B_Wait" "bt_done s = 1"
        using inv Some assms(2) by (auto simp: batch_inv_def awaited_def split: if_split_asm)
      then have "\<exists>t. batch_step Caller s = Some t" by (auto simp: caller_step_def)
      then show ?thesis by blast
    qed (use Some in \<open>intro disp, simp add: dispatch_step_def Let_def\<close>)+
  qed
qed

text \<open>
  With a limit of zero \<open>wait\<close> never returns: the dispatcher waits for a slot that nobody can give
  back, and no step is possible.
\<close>

theorem batch_zero_hangs:
  assumes "0 < n"
  shows "\<exists>s. batch_reachable 0 n False s \<and> bt_caller s = B_Wait \<and> (\<forall>a. batch_step a s = None)"
proof -
  let ?s0 = "mk_batch 0 n False"
  let ?s1 = "?s0\<lparr>bt_in_flight := True, bt_dispatch := Some D_Start, bt_caller := B_Flight\<rparr>"
  let ?s2 = "?s1\<lparr>bt_in_flight := False, bt_caller := B_Wait\<rparr>"
  let ?s3 = "dispatch_goto (D_Loop 0) (?s2\<lparr>bt_slot := slots 0, bt_task_done := 0, bt_batching := True\<rparr>)"
  have "batch_step Caller ?s0 = Some ?s1" using assms by (simp add: caller_step_def mk_batch_def)
  then have r1: "batch_reachable 0 n False ?s1" using batch_reachable.step batch_reachable.start by blast
  have "batch_step Caller ?s1 = Some ?s2" by (simp add: caller_step_def mk_batch_def)
  then have r2: "batch_reachable 0 n False ?s2" using batch_reachable.step r1 by blast
  have "batch_step Dispatcher ?s2 = Some ?s3" by (simp add: dispatch_step_def mk_batch_def Let_def)
  then have r3: "batch_reachable 0 n False ?s3" using batch_reachable.step r2 by blast
  have "batch_step a ?s3 = None" for a
    using assms by (cases a) (simp_all add: caller_step_def dispatch_step_def run_one_step_def mk_batch_def slots_def Let_def)
  moreover have "bt_caller ?s3 = B_Wait" by simp
  ultimately show ?thesis using r3 by blast
qed

section \<open>Sample runs\<close>

fun batch_run :: "batch_agent list \<Rightarrow> batch \<Rightarrow> batch option" where
  "batch_run [] s = Some s"
| "batch_run (a # as) s = (case batch_step a s of None \<Rightarrow> None | Some t \<Rightarrow> batch_run as t)"

lemma batch_run_reachable:
  "batch_run as s = Some t \<Longrightarrow> batch_reachable concurrent n batching s \<Longrightarrow> batch_reachable concurrent n batching t"
  by (induction as s rule: batch_run.induct) (auto split: option.splits intro: batch_reachable.step)

text \<open>Two of three tasks run; all three have ended.\<close>

definition two_run :: batch where
  "two_run = the (batch_run [Caller, Caller, Dispatcher, Dispatcher, Dispatcher] (mk_batch 2 3 False))"

definition all_run :: batch where
  "all_run = the (batch_run ([Task 0, Task 0, Dispatcher, Task 2, Task 1, Task 1, Task 1, Task 0, Task 2, Task 2] @
     replicate 6 Dispatcher @ [Caller]) two_run)"

lemma two_run_reachable: "batch_reachable 2 3 False two_run"
proof -
  have "batch_run [Caller, Caller, Dispatcher, Dispatcher, Dispatcher] (mk_batch 2 3 False) = Some two_run" by code_simp
  then show ?thesis by (rule batch_run_reachable) (rule batch_reachable.start)
qed

lemma all_run_reachable: "batch_reachable 2 3 False all_run"
proof -
  have "batch_run ([Task 0, Task 0, Dispatcher, Task 2, Task 1, Task 1, Task 1, Task 0, Task 2, Task 2] @
     replicate 6 Dispatcher @ [Caller]) two_run = Some all_run" by code_simp
  then show ?thesis by (rule batch_run_reachable) (rule two_run_reachable)
qed

lemma batch_bounded_complete_witness:
  "bt_tasks two_run = [T_Run, T_Run, T_Added] \<and> total is_running (bt_tasks two_run) \<le> 2 \<and> bt_tasks all_run = replicate 3 T_End"
proof -
  have "bt_caller all_run = B_Back" "bt_tasks two_run = [T_Run, T_Run, T_Added]" by code_simp+
  then show ?thesis
    using batch_bounded_complete [OF two_run_reachable] batch_bounded_complete [OF all_run_reachable] by simp
qed

lemma batch_progress_witness: "bt_slot two_run = 0 \<and> (\<exists>a t. batch_step a two_run = Some t)"
proof -
  have "bt_caller two_run = B_Wait" "bt_slot two_run = 0" by code_simp+
  then show ?thesis using batch_progress [OF two_run_reachable] by (simp add: slots_def)
qed

lemma batch_zero_hangs_witness:
  "\<exists>s. batch_reachable 0 1 False s \<and> bt_caller s = B_Wait \<and> (\<forall>a. batch_step a s = None)"
  by (rule batch_zero_hangs) simp

end
